(* ===== verification/Prelude.thy ===== *)
theory Prelude
  imports Main "HOL-Library.Word" "HOL-Library.Monad_Syntax"
begin

unbundle bit_operations_syntax

text \<open>
  Shared vocabulary of the development: the C integer types as words, the kernel's error
  numbers and clock arithmetic, byte copies between buffers, tests of single bits of a status
  word, and the contract of a component whose operations keep an invariant.

  A C function that can be undefined (a null pointer followed, a division by zero, a shift by
  more than the width, a \<open>BUG()\<close>) or that can run for ever returns an \<open>option\<close>: \<open>None\<close> is
  that outcome, and the \<open>do\<close> notation of the library composes such functions in the order of
  the source.
\<close>

section \<open>Types and error numbers\<close>

type_synonym u8 = "8 word"
type_synonym u16 = "16 word"
type_synonym u32 = "32 word"
type_synonym ulong = "64 word"

abbreviation (input) EPERM :: int where "EPERM \<equiv> 1"
abbreviation (input) ENOENT :: int where "ENOENT \<equiv> 2"
abbreviation (input) EIO :: int where "EIO \<equiv> 5"
abbreviation (input) EAGAIN :: int where "EAGAIN \<equiv> 11"
abbreviation (input) ENOMEM :: int where "ENOMEM \<equiv> 12"
abbreviation (input) EBUSY :: int where "EBUSY \<equiv> 16"
abbreviation (input) ENODEV :: int where "ENODEV \<equiv> 19"
abbreviation (input) EINVAL :: int where "EINVAL \<equiv> 22"
abbreviation (input) EPIPE :: int where "EPIPE \<equiv> 32"
abbreviation (input) EDOM :: int where "EDOM \<equiv> 33"
abbreviation (input) ENOLINK :: int where "ENOLINK \<equiv> 67"
abbreviation (input) EPROTO :: int where "EPROTO \<equiv> 71"
abbreviation (input) EOVERFLOW :: int where "EOVERFLOW \<equiv> 75"
abbreviation (input) EOPNOTSUPP :: int where "EOPNOTSUPP \<equiv> 95"
abbreviation (input) ECONNRESET :: int where "ECONNRESET \<equiv> 104"
abbreviation (input) ESHUTDOWN :: int where "ESHUTDOWN \<equiv> 108"
abbreviation (input) ETIMEDOUT :: int where "ETIMEDOUT \<equiv> 110"
abbreviation (input) EINPROGRESS :: int where "EINPROGRESS \<equiv> 115"

section \<open>The clock\<close>

text \<open>
  The kernel configuration of the repository (kernel/config) sets \<open>CONFIG_HZ=100\<close>, and the
  kernel rounds a delay up to whole ticks. Timestamps wrap: the kernel compares them by the
  sign of their difference.
\<close>

definition HZ :: nat where "HZ = 100"

definition msecs_to_jiffies :: "nat \<Rightarrow> ulong" where
  "msecs_to_jiffies m = of_nat ((m * HZ + 999) div 1000)"

definition time_after_eq :: "ulong \<Rightarrow> ulong \<Rightarrow> bool" where
  "time_after_eq a b \<longleftrightarrow> 0 \<le> sint (a - b)"

lemma time_after_eq_refl [simp]: "time_after_eq t t"
  by (simp add: time_after_eq_def)

lemma msecs_to_jiffies_values [simp]:
  "msecs_to_jiffies 1 = 1" "msecs_to_jiffies (Suc 0) = 1"
  "msecs_to_jiffies 20 = 2" "msecs_to_jiffies 50 = 5"
  by (simp_all add: msecs_to_jiffies_def HZ_def)

section \<open>Signed readings\<close>

lemma sint_small:
  assumes "unat (x :: u32) < 2 ^ 31"
  shows "sint x = int (unat x)"
proof -
  have u: "uint x = int (unat x)" by (rule uint_nat)
  have "int (unat x) < int (2 ^ 31)" using assms by (rule of_nat_less_iff [THEN iffD2])
  then have lt: "uint x < 2 ^ 31" by (simp only: u of_nat_power of_nat_numeral)
  have ge: "- (2 ^ 31) \<le> uint x" by (rule order_trans [of _ 0]) simp_all
  have "sint x = signed_take_bit 31 (uint x)" by (simp add: sint_uint)
  also have "\<dots> = uint x" by (rule signed_take_bit_int_eq_self [OF ge lt])
  finally show ?thesis using u by (rule trans)
qed

section \<open>Counters that do not wrap\<close>

lemma word_dec: "(0 :: u32) < w \<Longrightarrow> unat (w - 1) = unat w - 1"
  by (simp add: unat_minus_one word_greater_zero_iff)

lemma word_inc: "(a :: u32) < b \<Longrightarrow> unat (a + 1) = unat a + 1"
proof -
  assume "a < b"
  then have "unat a < unat b" by (simp add: word_less_nat_alt)
  moreover have "unat b < 2 ^ 32" using unsigned_less [of b] by simp
  ultimately show ?thesis by (simp add: unat_word_ariths(1))
qed

lemma product_fits:
  assumes "a \<noteq> (0 :: u32)" and "unat b \<le> (2 ^ 32 - 1) div unat a"
  shows "unat (a * b) = unat a * unat b"
proof -
  have "unat a * unat b \<le> unat a * ((2 ^ 32 - 1) div unat a)" using assms(2) by simp
  also have "\<dots> \<le> 2 ^ 32 - 1" by (rule times_div_less_eq_dividend)
  finally have "unat a * unat b < 2 ^ 32" by simp
  then show ?thesis by (simp add: unat_word_ariths(2))
qed

section \<open>Bits of a status word\<close>

text \<open>
  The sources test a flag with \<open>(w & mask) != 0\<close> for a mask of one bit. Each such test is a
  test of that bit; the collection \<open>flags\<close> rewrites it so, and opens \<open>OR\<close>, \<open>AND\<close>, \<open>NOT\<close>.
\<close>

named_theorems flags "tests of single bits of status words"

lemma and_mask_eq_0 [flags]:
  fixes w :: u32
  shows "w AND 1 = 0 \<longleftrightarrow> \<not> bit w 0" "w AND 2 = 0 \<longleftrightarrow> \<not> bit w 1"
    "w AND 4 = 0 \<longleftrightarrow> \<not> bit w 2" "w AND 8 = 0 \<longleftrightarrow> \<not> bit w 3"
    "w AND 16 = 0 \<longleftrightarrow> \<not> bit w 4" "w AND 256 = 0 \<longleftrightarrow> \<not> bit w 8"
    "w AND 512 = 0 \<longleftrightarrow> \<not> bit w 9" "w AND 1024 = 0 \<longleftrightarrow> \<not> bit w 10"
    "w AND 0x10000 = 0 \<longleftrightarrow> \<not> bit w 16" "w AND 0x20000 = 0 \<longleftrightarrow> \<not> bit w 17"
    "w AND 0x40000 = 0 \<longleftrightarrow> \<not> bit w 18" "w AND 0x80000 = 0 \<longleftrightarrow> \<not> bit w 19"
    "w AND 0x100000 = 0 \<longleftrightarrow> \<not> bit w 20"
  using and_exp_eq_0_iff_not_bit [of w 0] and_exp_eq_0_iff_not_bit [of w 1]
    and_exp_eq_0_iff_not_bit [of w 2] and_exp_eq_0_iff_not_bit [of w 3]
    and_exp_eq_0_iff_not_bit [of w 4] and_exp_eq_0_iff_not_bit [of w 8]
    and_exp_eq_0_iff_not_bit [of w 9] and_exp_eq_0_iff_not_bit [of w 10]
    and_exp_eq_0_iff_not_bit [of w 16] and_exp_eq_0_iff_not_bit [of w 17]
    and_exp_eq_0_iff_not_bit [of w 18] and_exp_eq_0_iff_not_bit [of w 19]
    and_exp_eq_0_iff_not_bit [of w 20]
  by simp_all

lemma mask_and_eq_0 [flags]:
  fixes w :: u32
  shows "1 AND w = 0 \<longleftrightarrow> \<not> bit w 0" "2 AND w = 0 \<longleftrightarrow> \<not> bit w 1"
    "16 AND w = 0 \<longleftrightarrow> \<not> bit w 4" "256 AND w = 0 \<longleftrightarrow> \<not> bit w 8"
    "512 AND w = 0 \<longleftrightarrow> \<not> bit w 9"
  by (simp_all only: and.commute [of _ w] and_mask_eq_0)

lemma bit_ops [flags]:
  fixes a b :: u32
  shows "bit (a OR b) n \<longleftrightarrow> bit a n \<or> bit b n"
    "bit (a AND b) n \<longleftrightarrow> bit a n \<and> bit b n"
    "bit (NOT a) n \<longleftrightarrow> n < 32 \<and> \<not> bit a n"
  by (simp_all add: bit_simps)

section \<open>Copying bytes\<close>

text \<open>
  \<open>memcpy(dst + doff, src + soff, n)\<close>; outside either buffer the copy is undefined.
\<close>

definition memcpy :: "u8 list \<Rightarrow> nat \<Rightarrow> u8 list \<Rightarrow> nat \<Rightarrow> nat \<Rightarrow> u8 list option" where
  "memcpy dst doff src soff n =
     (if doff + n \<le> length dst \<and> soff + n \<le> length src
      then Some (take doff dst @ take n (drop soff src) @ drop (doff + n) dst)
      else None)"

lemma memcpy_Some_iff:
  "(\<exists>b. memcpy dst doff src soff n = Some b)
     \<longleftrightarrow> doff + n \<le> length dst \<and> soff + n \<le> length src"
  by (simp add: memcpy_def)

lemma memcpy_length: "memcpy dst doff src soff n = Some b \<Longrightarrow> length b = length dst"
  by (auto simp: memcpy_def split: if_splits)

lemma memcpy_nth:
  assumes "memcpy dst doff src soff n = Some b" and "i < length dst"
  shows "b ! i = (if doff \<le> i \<and> i < doff + n then src ! (soff + (i - doff)) else dst ! i)"
proof -
  from assms(1) have d: "doff + n \<le> length dst" and r: "soff + n \<le> length src"
    and b: "b = take doff dst @ take n (drop soff src) @ drop (doff + n) dst"
    by (simp_all add: memcpy_def split: if_splits)
  have len: "length (take n (drop soff src)) = n" "length (take doff dst) = doff"
    using d r by simp_all
  consider "i < doff" | "doff \<le> i" "i < doff + n" | "doff + n \<le> i" by linarith
  then show ?thesis
  proof cases
    case 1
    then show ?thesis using len by (simp add: b nth_append)
  next
    case 2
    then have "i - doff < n" by simp
    then show ?thesis using 2 len r by (simp add: b nth_append)
  next
    case 3
    then have "b ! i = drop (doff + n) dst ! (i - doff - n)"
      using len by (simp add: b nth_append)
    then show ?thesis using 3 assms(2) by (simp add: nth_drop)
  qed
qed

lemma memcpy_0 [simp]:
  "doff \<le> length dst \<Longrightarrow> soff \<le> length src \<Longrightarrow> memcpy dst doff src soff 0 = Some dst"
  by (simp add: memcpy_def)

section \<open>Lists of queues\<close>

lemma distinct_concat_update:
  assumes "distinct (concat xss)" and "i < length xss"
    and "distinct ys" and "set ys \<subseteq> set (xss ! i)"
  shows "distinct (concat (xss[i := ys]))"
proof -
  have split: "xss = take i xss @ xss ! i # drop (Suc i) xss"
    by (rule id_take_nth_drop [OF assms(2)])
  have upd: "xss[i := ys] = take i xss @ ys # drop (Suc i) xss"
    by (rule upd_conv_take_nth_drop [OF assms(2)])
  show ?thesis
    using assms(1,3,4) by (subst (asm) split, subst upd) (auto simp: distinct_append)
qed

lemma distinct_concat_insert:
  assumes "distinct (concat xss)" and "i < length xss"
    and "x \<notin> set (concat xss)"
  shows "distinct (concat (xss[i := xss ! i @ [x]]))"
proof -
  have split: "xss = take i xss @ xss ! i # drop (Suc i) xss"
    by (rule id_take_nth_drop [OF assms(2)])
  have upd: "xss[i := xss ! i @ [x]] = take i xss @ (xss ! i @ [x]) # drop (Suc i) xss"
    by (rule upd_conv_take_nth_drop [OF assms(2)])
  show ?thesis
    using assms(1,3) by (subst (asm) (1 2) split, subst upd) (auto simp: distinct_append)
qed

lemma distinct_concat_remove:
  assumes "distinct (concat xss)" and "i < length xss" and "xss ! i = xs @ r # ys"
  shows "r \<notin> set (concat (xss[i := xs @ ys]))"
proof -
  have split: "xss = take i xss @ xss ! i # drop (Suc i) xss"
    by (rule id_take_nth_drop [OF assms(2)])
  have upd: "xss[i := xs @ ys] = take i xss @ (xs @ ys) # drop (Suc i) xss"
    by (rule upd_conv_take_nth_drop [OF assms(2)])
  show ?thesis
    using assms(1,3) by (subst (asm) split, subst upd) auto
qed

section \<open>Numbers as text\<close>

text \<open>Decimal digits, least significant last, and the text of a signed integer (\<open>%d\<close>).\<close>

fun dec_digits :: "nat \<Rightarrow> string" where
  "dec_digits n =
     (if n < 10 then [char_of (48 + n)] else dec_digits (n div 10) @ [char_of (48 + n mod 10)])"

declare dec_digits.simps [simp del]

definition show_int :: "int \<Rightarrow> string" where
  "show_int n = (if n < 0 then ''-'' @ dec_digits (nat (- n)) else dec_digits (nat n))"

section \<open>Components with an invariant\<close>

text \<open>
  The contract shared by the components of the two drivers: a start state that is well formed,
  and operations, each of which may be undefined, that keep it well formed when they return.
  What it gives the client: every state a sequence of operations returns is well formed.
\<close>

primrec run_ops :: "('op \<Rightarrow> 'st \<Rightarrow> 'st option) \<Rightarrow> 'op list \<Rightarrow> 'st \<Rightarrow> 'st option" where
  "run_ops step [] s = Some s"
| "run_ops step (x # xs) s = Option.bind (step x s) (run_ops step xs)"

lemma run_ops_append:
  "run_ops step (xs @ ys) s = Option.bind (run_ops step xs s) (run_ops step ys)"
proof (induction xs arbitrary: s)
  case Nil
  then show ?case by simp
next
  case (Cons x xs)
  then show ?case by (cases "step x s") simp_all
qed

locale component =
  fixes step :: "'op \<Rightarrow> 'st \<Rightarrow> 'st option"
    and inv :: "'st \<Rightarrow> bool"
  assumes step_inv: "inv s \<Longrightarrow> step x s = Some t \<Longrightarrow> inv t"
begin

lemma run_inv: "inv s \<Longrightarrow> run_ops step xs s = Some t \<Longrightarrow> inv t"
proof (induction xs arbitrary: s)
  case Nil
  then show ?case by simp
next
  case (Cons x xs)
  then show ?case by (auto simp: bind_eq_Some_conv intro: step_inv)
qed

end

end
