(* ===== verification/Usb_Defs.thy ===== *)
theory Usb_Defs
  imports Prelude
begin

text \<open>
  What the sources take from the USB headers of the kernel (ch9.h, ch11.h, hcd.h, usb.h): the
  numbers of the USB specification, the bit layout of descriptors and of pipe values, and the
  speeds in the order of their enumeration. None of it is under src/; the development states
  it once here, under the headers' names, as documented in the USB 2.0 and 3.0 specifications.
\<close>

section \<open>Speeds\<close>

datatype usb_device_speed =
  USB_SPEED_UNKNOWN | USB_SPEED_LOW | USB_SPEED_FULL | USB_SPEED_HIGH
  | USB_SPEED_WIRELESS | USB_SPEED_SUPER | USB_SPEED_SUPER_PLUS

primrec speed_rank :: "usb_device_speed \<Rightarrow> nat" where
  "speed_rank USB_SPEED_UNKNOWN = 0"
| "speed_rank USB_SPEED_LOW = 1"
| "speed_rank USB_SPEED_FULL = 2"
| "speed_rank USB_SPEED_HIGH = 3"
| "speed_rank USB_SPEED_WIRELESS = 4"
| "speed_rank USB_SPEED_SUPER = 5"
| "speed_rank USB_SPEED_SUPER_PLUS = 6"

lemma speed_rank_inj: "speed_rank a = speed_rank b \<Longrightarrow> a = b"
  by (cases a; cases b) simp_all

text \<open>The enumeration's order, which the sources compare speeds by.\<close>

instantiation usb_device_speed :: linorder
begin

definition less_eq_usb_device_speed :: "usb_device_speed \<Rightarrow> usb_device_speed \<Rightarrow> bool" where
  "less_eq_usb_device_speed a b \<longleftrightarrow> speed_rank a \<le> speed_rank b"

definition less_usb_device_speed :: "usb_device_speed \<Rightarrow> usb_device_speed \<Rightarrow> bool" where
  "less_usb_device_speed a b \<longleftrightarrow> speed_rank a < speed_rank b"

instance
  by standard
    (auto simp: less_eq_usb_device_speed_def less_usb_device_speed_def intro: speed_rank_inj)

end

text \<open>The protocol of a root hub (\<open>hcd->speed\<close>), in the order of its numbers.\<close>

datatype hcd_speed = HCD_USB11 | HCD_USB2 | HCD_USB25 | HCD_USB3 | HCD_USB31 | HCD_USB32

primrec hcd_speed_value :: "hcd_speed \<Rightarrow> nat" where
  "hcd_speed_value HCD_USB11 = 0x10"
| "hcd_speed_value HCD_USB2 = 0x20"
| "hcd_speed_value HCD_USB25 = 0x30"
| "hcd_speed_value HCD_USB3 = 0x40"
| "hcd_speed_value HCD_USB31 = 0x50"
| "hcd_speed_value HCD_USB32 = 0x60"

instantiation hcd_speed :: linorder
begin

definition less_eq_hcd_speed :: "hcd_speed \<Rightarrow> hcd_speed \<Rightarrow> bool" where
  "less_eq_hcd_speed a b \<longleftrightarrow> hcd_speed_value a \<le> hcd_speed_value b"

definition less_hcd_speed :: "hcd_speed \<Rightarrow> hcd_speed \<Rightarrow> bool" where
  "less_hcd_speed a b \<longleftrightarrow> hcd_speed_value a < hcd_speed_value b"

instance
proof
  fix x y :: hcd_speed
  show "x \<le> y \<Longrightarrow> y \<le> x \<Longrightarrow> x = y"
    by (cases x; cases y) (simp_all add: less_eq_hcd_speed_def)
qed (auto simp: less_eq_hcd_speed_def less_hcd_speed_def)

end

section \<open>Port status and features\<close>

abbreviation (input) USB_PORT_STAT_CONNECTION :: u32 where "USB_PORT_STAT_CONNECTION \<equiv> 0x0001"
abbreviation (input) USB_PORT_STAT_ENABLE :: u32 where "USB_PORT_STAT_ENABLE \<equiv> 0x0002"
abbreviation (input) USB_PORT_STAT_SUSPEND :: u32 where "USB_PORT_STAT_SUSPEND \<equiv> 0x0004"
abbreviation (input) USB_PORT_STAT_RESET :: u32 where "USB_PORT_STAT_RESET \<equiv> 0x0010"
abbreviation (input) USB_PORT_STAT_LINK_STATE :: u32 where "USB_PORT_STAT_LINK_STATE \<equiv> 0x01e0"
abbreviation (input) USB_PORT_STAT_POWER :: u32 where "USB_PORT_STAT_POWER \<equiv> 0x0100"
abbreviation (input) USB_SS_PORT_STAT_POWER :: u32 where "USB_SS_PORT_STAT_POWER \<equiv> 0x0200"
abbreviation (input) USB_PORT_STAT_LOW_SPEED :: u32 where "USB_PORT_STAT_LOW_SPEED \<equiv> 0x0200"
abbreviation (input) USB_PORT_STAT_HIGH_SPEED :: u32 where "USB_PORT_STAT_HIGH_SPEED \<equiv> 0x0400"
abbreviation (input) USB_PORT_STAT_SPEED_5GBPS :: u32 where "USB_PORT_STAT_SPEED_5GBPS \<equiv> 0"
abbreviation (input) USB_SS_PORT_LS_U0 :: u32 where "USB_SS_PORT_LS_U0 \<equiv> 0"

text \<open>The change bits, already shifted into the upper half of the port status.\<close>

abbreviation (input) PORT_C_CONNECTION :: u32 where "PORT_C_CONNECTION \<equiv> 0x00010000"
abbreviation (input) PORT_C_SUSPEND :: u32 where "PORT_C_SUSPEND \<equiv> 0x00040000"
abbreviation (input) PORT_C_RESET :: u32 where "PORT_C_RESET \<equiv> 0x00100000"

abbreviation (input) USB_PORT_FEAT_SUSPEND :: u16 where "USB_PORT_FEAT_SUSPEND \<equiv> 2"
abbreviation (input) USB_PORT_FEAT_RESET :: u16 where "USB_PORT_FEAT_RESET \<equiv> 4"
abbreviation (input) USB_PORT_FEAT_LINK_STATE :: u16 where "USB_PORT_FEAT_LINK_STATE \<equiv> 5"
abbreviation (input) USB_PORT_FEAT_POWER :: u16 where "USB_PORT_FEAT_POWER \<equiv> 8"
abbreviation (input) USB_PORT_FEAT_U1_TIMEOUT :: u16 where "USB_PORT_FEAT_U1_TIMEOUT \<equiv> 23"
abbreviation (input) USB_PORT_FEAT_U2_TIMEOUT :: u16 where "USB_PORT_FEAT_U2_TIMEOUT \<equiv> 24"
abbreviation (input) USB_PORT_FEAT_BH_PORT_RESET :: u16 where "USB_PORT_FEAT_BH_PORT_RESET \<equiv> 28"

text \<open>Hub class requests: request type and request, as one 16-bit value.\<close>

abbreviation (input) ClearHubFeature :: u16 where "ClearHubFeature \<equiv> 0x2001"
abbreviation (input) ClearPortFeature :: u16 where "ClearPortFeature \<equiv> 0x2301"
abbreviation (input) GetHubDescriptor :: u16 where "GetHubDescriptor \<equiv> 0xa006"
abbreviation (input) GetHubStatus :: u16 where "GetHubStatus \<equiv> 0xa000"
abbreviation (input) GetPortStatus :: u16 where "GetPortStatus \<equiv> 0xa300"
abbreviation (input) SetHubFeature :: u16 where "SetHubFeature \<equiv> 0x2003"
abbreviation (input) SetPortFeature :: u16 where "SetPortFeature \<equiv> 0x2303"
abbreviation (input) GetPortErrorCount :: u16 where "GetPortErrorCount \<equiv> 0xa30d"
abbreviation (input) SetHubDepth :: u16 where "SetHubDepth \<equiv> 0x200c"
abbreviation (input) DeviceRequest_GetDescriptor :: u16 where "DeviceRequest_GetDescriptor \<equiv> 0x8006"

section \<open>Standard requests\<close>

abbreviation (input) USB_DIR_IN :: u8 where "USB_DIR_IN \<equiv> 0x80"
abbreviation (input) USB_TYPE_MASK :: u8 where "USB_TYPE_MASK \<equiv> 0x60"
abbreviation (input) USB_TYPE_STANDARD :: u8 where "USB_TYPE_STANDARD \<equiv> 0"
abbreviation (input) USB_RECIP_DEVICE :: u8 where "USB_RECIP_DEVICE \<equiv> 0"
abbreviation (input) USB_RECIP_INTERFACE :: u8 where "USB_RECIP_INTERFACE \<equiv> 1"
abbreviation (input) USB_RECIP_ENDPOINT :: u8 where "USB_RECIP_ENDPOINT \<equiv> 2"

abbreviation (input) USB_REQ_GET_STATUS :: u8 where "USB_REQ_GET_STATUS \<equiv> 0"
abbreviation (input) USB_REQ_CLEAR_FEATURE :: u8 where "USB_REQ_CLEAR_FEATURE \<equiv> 1"
abbreviation (input) USB_REQ_SET_FEATURE :: u8 where "USB_REQ_SET_FEATURE \<equiv> 3"
abbreviation (input) USB_REQ_SET_ADDRESS :: u8 where "USB_REQ_SET_ADDRESS \<equiv> 5"
abbreviation (input) USB_REQ_GET_DESCRIPTOR :: u8 where "USB_REQ_GET_DESCRIPTOR \<equiv> 6"
abbreviation (input) USB_REQ_SET_CONFIGURATION :: u8 where "USB_REQ_SET_CONFIGURATION \<equiv> 9"
abbreviation (input) USB_REQ_SET_INTERFACE :: u8 where "USB_REQ_SET_INTERFACE \<equiv> 11"

abbreviation (input) USB_DEVICE_SELF_POWERED :: nat where "USB_DEVICE_SELF_POWERED \<equiv> 0"
abbreviation (input) USB_DEVICE_REMOTE_WAKEUP :: nat where "USB_DEVICE_REMOTE_WAKEUP \<equiv> 1"
abbreviation (input) USB_DEVICE_B_HNP_ENABLE :: nat where "USB_DEVICE_B_HNP_ENABLE \<equiv> 3"
abbreviation (input) USB_DEVICE_A_HNP_SUPPORT :: nat where "USB_DEVICE_A_HNP_SUPPORT \<equiv> 4"
abbreviation (input) USB_DEVICE_A_ALT_HNP_SUPPORT :: nat where "USB_DEVICE_A_ALT_HNP_SUPPORT \<equiv> 5"
abbreviation (input) USB_DEVICE_U1_ENABLE :: nat where "USB_DEVICE_U1_ENABLE \<equiv> 48"
abbreviation (input) USB_DEVICE_U2_ENABLE :: nat where "USB_DEVICE_U2_ENABLE \<equiv> 49"
abbreviation (input) USB_DEVICE_LTM_ENABLE :: nat where "USB_DEVICE_LTM_ENABLE \<equiv> 50"
abbreviation (input) USB_DEV_STAT_U1_ENABLED :: nat where "USB_DEV_STAT_U1_ENABLED \<equiv> 2"
abbreviation (input) USB_DEV_STAT_U2_ENABLED :: nat where "USB_DEV_STAT_U2_ENABLED \<equiv> 3"
abbreviation (input) USB_DEV_STAT_LTM_ENABLED :: nat where "USB_DEV_STAT_LTM_ENABLED \<equiv> 4"

record usb_ctrlrequest =
  bRequestType :: u8
  bRequest :: u8
  wValue :: u16
  wIndex :: u16
  wLength :: u16

section \<open>Descriptors\<close>

abbreviation (input) USB_DT_DEVICE :: u8 where "USB_DT_DEVICE \<equiv> 1"
abbreviation (input) USB_DT_CONFIG :: u8 where "USB_DT_CONFIG \<equiv> 2"
abbreviation (input) USB_DT_STRING :: u8 where "USB_DT_STRING \<equiv> 3"
abbreviation (input) USB_DT_INTERFACE :: u8 where "USB_DT_INTERFACE \<equiv> 4"
abbreviation (input) USB_DT_ENDPOINT :: u8 where "USB_DT_ENDPOINT \<equiv> 5"
abbreviation (input) USB_DT_DEVICE_QUALIFIER :: u8 where "USB_DT_DEVICE_QUALIFIER \<equiv> 6"
abbreviation (input) USB_DT_BOS :: u8 where "USB_DT_BOS \<equiv> 15"
abbreviation (input) USB_DT_DEVICE_CAPABILITY :: u8 where "USB_DT_DEVICE_CAPABILITY \<equiv> 16"
abbreviation (input) USB_DT_HUB :: u8 where "USB_DT_HUB \<equiv> 0x29"
abbreviation (input) USB_DT_SS_HUB :: u8 where "USB_DT_SS_HUB \<equiv> 0x2a"

record usb_endpoint_descriptor =
  bDescriptorType :: u8
  bEndpointAddress :: u8
  bmAttributes :: u8
  wMaxPacketSize :: u16
  bInterval :: u8

record usb_ss_ep_comp_descriptor =
  bMaxBurst :: u8
  ss_bmAttributes :: u8

text \<open>A host endpoint: its descriptor and its SuperSpeed companion.\<close>

record usb_host_endpoint =
  he_desc :: usb_endpoint_descriptor
  he_ss_ep_comp :: usb_ss_ep_comp_descriptor

datatype usb_xfer_type =
  USB_ENDPOINT_XFER_CONTROL | USB_ENDPOINT_XFER_ISOC | USB_ENDPOINT_XFER_BULK
  | USB_ENDPOINT_XFER_INT

text \<open>
  Accessors of the endpoint descriptor (USB 2.0, table 9-13): number in bits 3..0 and direction
  in bit 7 of the address, transfer type in bits 1..0 of the attributes, packet size in bits
  10..0 and additional transactions in bits 12..11 of the packet size field.
\<close>

definition usb_endpoint_num :: "usb_endpoint_descriptor \<Rightarrow> nat" where
  "usb_endpoint_num e = unat (bEndpointAddress e AND 0x0f)"

definition usb_endpoint_dir_in :: "usb_endpoint_descriptor \<Rightarrow> bool" where
  "usb_endpoint_dir_in e \<longleftrightarrow> bEndpointAddress e AND USB_DIR_IN \<noteq> 0"

definition usb_endpoint_type :: "usb_endpoint_descriptor \<Rightarrow> usb_xfer_type" where
  "usb_endpoint_type e =
     (let t = bmAttributes e AND 3 in
      if t = 0 then USB_ENDPOINT_XFER_CONTROL
      else if t = 1 then USB_ENDPOINT_XFER_ISOC
      else if t = 2 then USB_ENDPOINT_XFER_BULK
      else USB_ENDPOINT_XFER_INT)"

definition usb_endpoint_xfer_bulk :: "usb_endpoint_descriptor \<Rightarrow> bool" where
  "usb_endpoint_xfer_bulk e \<longleftrightarrow> usb_endpoint_type e = USB_ENDPOINT_XFER_BULK"

definition usb_endpoint_maxp :: "usb_endpoint_descriptor \<Rightarrow> nat" where
  "usb_endpoint_maxp e = unat (wMaxPacketSize e AND 0x07ff)"

definition usb_endpoint_maxp_mult :: "usb_endpoint_descriptor \<Rightarrow> nat" where
  "usb_endpoint_maxp_mult e = unat (drop_bit 11 (wMaxPacketSize e AND 0x1800)) + 1"

text \<open>
  The streams an endpoint companion descriptor offers: \<open>1 << n\<close> for a non-zero \<open>n\<close>, as a signed
  integer of 32 bits.
\<close>

definition usb_ss_max_streams :: "usb_ss_ep_comp_descriptor option \<Rightarrow> int" where
  "usb_ss_max_streams c =
     (case c of None \<Rightarrow> 0
      | Some sc \<Rightarrow>
          (let n = unat (ss_bmAttributes sc AND 0x1f) in if n = 0 then 0 else sint (push_bit n 1 :: u32)))"

section \<open>Pipes\<close>

text \<open>
  A pipe value (usb.h): direction in bit 7 (set for IN), device address in bits 8 to 14,
  endpoint in bits 15 to 18, type in bits 30 and 31.
\<close>

datatype pipe_type = PIPE_ISOCHRONOUS | PIPE_INTERRUPT | PIPE_CONTROL | PIPE_BULK

definition usb_pipeendpoint :: "u32 \<Rightarrow> nat" where
  "usb_pipeendpoint p = unat (drop_bit 15 p AND 0xf)"

definition usb_pipein :: "u32 \<Rightarrow> bool" where
  "usb_pipein p \<longleftrightarrow> p AND 0x80 \<noteq> 0"

definition usb_pipeout :: "u32 \<Rightarrow> bool" where
  "usb_pipeout p \<longleftrightarrow> \<not> usb_pipein p"

definition usb_pipetype :: "u32 \<Rightarrow> pipe_type" where
  "usb_pipetype p =
     (let t = drop_bit 30 p AND 3 in
      if t = 0 then PIPE_ISOCHRONOUS else if t = 1 then PIPE_INTERRUPT
      else if t = 2 then PIPE_CONTROL else PIPE_BULK)"

lemma usb_pipeendpoint_bound: "usb_pipeendpoint p < 16"
proof -
  have "unat (drop_bit 15 p AND 0xf) \<le> unat (0xf :: u32)"
    by (rule word_and_le1 [THEN word_le_nat_alt [THEN iffD1]])
  then show ?thesis by (simp add: usb_pipeendpoint_def)
qed

lemma usb_endpoint_num_bound: "usb_endpoint_num e < 16"
proof -
  have "unat (bEndpointAddress e AND 0x0f) \<le> unat (0x0f :: u8)"
    by (rule word_and_le1 [THEN word_le_nat_alt [THEN iffD1]])
  then show ?thesis by (simp add: usb_endpoint_num_def)
qed

lemma usb_endpoint_maxp_bound: "usb_endpoint_maxp e < 2048"
proof -
  have "unat (wMaxPacketSize e AND 0x07ff) \<le> unat (0x07ff :: u16)"
    by (rule word_and_le1 [THEN word_le_nat_alt [THEN iffD1]])
  then show ?thesis by (simp add: usb_endpoint_maxp_def)
qed

text \<open>An endpoint number alone, read as a pipe, is endpoint 0 with direction OUT.\<close>

lemma endpoint_number_as_pipe:
  assumes "n < 16"
  shows "usb_pipeendpoint (of_nat n) = 0" "usb_pipeout (of_nat n)"
proof -
  have "(of_nat n :: u32) < 16"
    using assms by (simp add: word_less_nat_alt unat_of_nat)
  have nbit: "\<not> bit n k" if "4 \<le> k" for k
  proof -
    have "n div 2 ^ k = 0"
      using assms that power_increasing [OF that, of "2 :: nat"] by simp
    then show "\<not> bit n k" by (simp add: bit_iff_odd)
  qed
  have "drop_bit 15 (of_nat n :: u32) AND 0xf = 0"
    by (rule bit_word_eqI) (simp add: bit_simps nbit)
  then show "usb_pipeendpoint (of_nat n) = 0" by (simp add: usb_pipeendpoint_def)
  have "(of_nat n :: u32) AND 0x80 = 0"
    using and_exp_eq_0_iff_not_bit [of "of_nat n :: u32" 7] nbit [of 7] by (simp add: bit_simps)
  then show "usb_pipeout (of_nat n)" by (simp add: usb_pipeout_def usb_pipein_def)
qed

end
