(* ===== verification/Dummy_State.thy ===== *)
theory Dummy_State
  imports Usb_Defs
begin

text \<open>
  The state of the dummy host and device controller (dummy\_hcd.c): its structures as records,
  the endpoint table, and the interfaces the driver calls while its lock is released. Pointers
  to endpoints are indices into the endpoint array, requests are numbered and live in the
  store \<open>reqs\<close>; a request is linked into at most one endpoint queue.
\<close>

section \<open>Endpoints and requests\<close>

record usb_ep_caps =
  type_control :: bool
  type_iso :: bool
  type_bulk :: bool
  type_int :: bool
  dir_in :: bool
  dir_out :: bool

definition caps_control_all :: usb_ep_caps where
  "caps_control_all = \<lparr>type_control = True, type_iso = False, type_bulk = False,
     type_int = False, dir_in = True, dir_out = True\<rparr>"

definition caps_bulk :: "bool \<Rightarrow> usb_ep_caps" where
  "caps_bulk is_in = \<lparr>type_control = False, type_iso = False, type_bulk = True,
     type_int = False, dir_in = is_in, dir_out = \<not> is_in\<rparr>"

definition caps_iso :: "bool \<Rightarrow> usb_ep_caps" where
  "caps_iso is_in = \<lparr>type_control = False, type_iso = True, type_bulk = False,
     type_int = False, dir_in = is_in, dir_out = \<not> is_in\<rparr>"

definition caps_int :: "bool \<Rightarrow> usb_ep_caps" where
  "caps_int is_in = \<lparr>type_control = False, type_iso = False, type_bulk = False,
     type_int = True, dir_in = is_in, dir_out = \<not> is_in\<rparr>"

definition caps_bulk_or_int :: "bool \<Rightarrow> usb_ep_caps" where
  "caps_bulk_or_int is_in = \<lparr>type_control = False, type_iso = False, type_bulk = True,
     type_int = True, dir_in = is_in, dir_out = \<not> is_in\<rparr>"

definition ep0name :: string where "ep0name = ''ep0''"

definition ep_info :: "(string \<times> usb_ep_caps) list" where
  "ep_info =
    [(ep0name, caps_control_all),
     (''ep1in-bulk'', caps_bulk True),
     (''ep2out-bulk'', caps_bulk False),
     (''ep3in-iso'', caps_iso True),
     (''ep4out-iso'', caps_iso False),
     (''ep5in-int'', caps_int True),
     (''ep6in-bulk'', caps_bulk True),
     (''ep7out-bulk'', caps_bulk False),
     (''ep8in-iso'', caps_iso True),
     (''ep9out-iso'', caps_iso False),
     (''ep10in-int'', caps_int True),
     (''ep11in-bulk'', caps_bulk True),
     (''ep12out-bulk'', caps_bulk False),
     (''ep13in-iso'', caps_iso True),
     (''ep14out-iso'', caps_iso False),
     (''ep15in-int'', caps_int True),
     (''ep1out-bulk'', caps_bulk False),
     (''ep2in-bulk'', caps_bulk True),
     (''ep3out'', caps_bulk_or_int False),
     (''ep4in'', caps_bulk_or_int True),
     (''ep5out'', caps_bulk_or_int False),
     (''ep6out'', caps_bulk_or_int False),
     (''ep7in'', caps_bulk_or_int True),
     (''ep8out'', caps_bulk_or_int False),
     (''ep9in'', caps_bulk_or_int True),
     (''ep10out'', caps_bulk_or_int False),
     (''ep11out'', caps_bulk_or_int False),
     (''ep12in'', caps_bulk_or_int True),
     (''ep13out'', caps_bulk_or_int False),
     (''ep14in'', caps_bulk_or_int True),
     (''ep15out'', caps_bulk_or_int False)]"

definition DUMMY_ENDPOINTS :: nat where
  "DUMMY_ENDPOINTS = length ep_info"

lemma DUMMY_ENDPOINTS_eq: "DUMMY_ENDPOINTS = 31"
  by (simp add: DUMMY_ENDPOINTS_def ep_info_def)

record dummy_ep =
  queue :: "nat list"
  last_io :: ulong
  desc :: "usb_endpoint_descriptor option"
  ep_name :: string
  ep_caps :: usb_ep_caps
  maxpacket :: nat
  maxpacket_limit :: nat
  max_streams :: nat
  comp_desc :: "usb_ss_ep_comp_descriptor option"
  halted :: bool
  wedged :: bool
  already_seen :: bool
  setup_stage :: bool
  stream_en :: bool

text \<open>
  The completion handler of a request: none, the empty one of the emulated FIFO, or the gadget
  driver's. The context pointer is the driver's cookie, or the controller itself for the FIFO.
\<close>

datatype completion = No_Complete | Fifo_Complete | Driver_Complete
datatype req_context = Driver_Context nat | Dummy_Context

record usb_request =
  rq_buf :: "u8 list"
  rq_length :: u32
  rq_actual :: u32
  rq_status :: int
  rq_zero :: bool
  rq_stream_id :: nat
  rq_complete :: completion
  rq_context :: req_context

definition FIFO_SIZE :: nat where "FIFO_SIZE = 64"

text \<open>The number of the controller's own request, which emulates a one-entry FIFO.\<close>

definition fifo_req :: nat where "fifo_req = 0"

section \<open>Transfers queued by the host\<close>

text \<open>
  A scatter-gather list is the list of its mapped pieces; the kernel's iterator over it points
  into one piece and remembers how much of the current mapping was consumed.
\<close>

record sg_mapping_iter =
  mi_seg :: nat
  mi_off :: nat
  mi_len :: nat
  mi_consumed :: nat

record urb =
  urb_pipe :: u32
  urb_ep_desc :: usb_endpoint_descriptor
  urb_dev :: nat
  urb_dev_speed :: usb_device_speed
  urb_stream_id :: nat
  transfer_flags :: u32
  transfer_buffer :: "u8 list"
  transfer_buffer_length :: u32
  actual_length :: u32
  num_sgs :: nat
  urb_sg :: "u8 list list"
  setup_packet :: usb_ctrlrequest
  error_count :: int
  unlinked :: int

abbreviation (input) URB_ZERO_PACKET :: u32 where "URB_ZERO_PACKET \<equiv> 0x0040"

definition usb_urb_dir_in :: "urb \<Rightarrow> bool" where
  "usb_urb_dir_in u \<longleftrightarrow> transfer_flags u AND 0x0200 \<noteq> 0"

record urbp =
  urbp_id :: nat
  urbp_urb :: urb
  miter :: sg_mapping_iter
  miter_started :: bool

section \<open>The two root hubs\<close>

datatype dummy_rh_state = DUMMY_RH_RESET | DUMMY_RH_SUSPENDED | DUMMY_RH_RUNNING

datatype hc_state = HC_STATE_HALT | HC_STATE_RUNNING | HC_STATE_SUSPENDED

text \<open>
  \<open>struct dummy_hcd\<close>, with the fields of the \<open>struct usb_hcd\<close> around it that the driver uses.
  A pending timer is the time it expires at.
\<close>

record dummy_hcd =
  rh_state :: dummy_rh_state
  timer :: "ulong option"
  port_status :: u32
  old_status :: u32
  re_timeout :: ulong
  udev :: "nat option"
  urbp_list :: "urbp list"
  next_frame_urbp :: "nat option"
  stream_en_ep :: u32
  num_stream :: "u8 list"
  active :: bool
  old_active :: bool
  resuming :: bool
  speed_of_hcd :: hcd_speed
  hw_accessible :: bool
  hc_state :: hc_state
  rh_timer :: "ulong option"
  power_budget :: nat
  uses_new_polling :: bool
  root_hub_speed :: usb_device_speed
  sg_tablesize :: u32

datatype hcd_sel = HS | SS

section \<open>The controller\<close>

record usb_gadget =
  speed :: usb_device_speed
  max_speed :: usb_device_speed
  is_selfpowered :: bool
  b_hnp_enable :: bool
  a_hnp_support :: bool
  a_alt_hnp_support :: bool
  ep_list :: "nat list"
  gadget_name :: string

record usb_gadget_driver =
  driver_function :: "string option"
  has_suspend :: bool
  has_resume :: bool

text \<open>
  The calls the driver makes to the gadget driver and to the USB core, in their order: the
  observable behaviour of the controller.
\<close>

datatype event =
  Giveback nat nat int u32 \<comment> \<open>endpoint, request, status, bytes transferred\<close>
  | Udc_Reset
  | Disconnect
  | Suspend
  | Resume
  | Setup usb_ctrlrequest
  | Giveback_Urb hcd_sel nat int u32 \<comment> \<open>hub, entry, status, bytes transferred\<close>
  | Poll_Rh_Status hcd_sel
  | Resume_Root_Hub hcd_sel

record dummy_t =
  ep :: "dummy_ep list"
  address :: int
  callback_usage :: int
  gadget :: usb_gadget
  driver :: "usb_gadget_driver option"
  fifo_buf :: "u8 list"
  devstatus :: u16
  ints_enabled :: bool
  udc_suspended :: bool
  pullup :: bool
  hs_hcd :: "dummy_hcd option"
  ss_hcd :: "dummy_hcd option"
  reqs :: "nat \<Rightarrow> usb_request"
  allocated :: "nat list"
  jiffies :: ulong
  trace :: "event list"

text \<open>
  Code outside the driver, as a parameter of the definitions that call it. Each entry is what
  happens to the controller from the release of its lock to the return of the call, whatever
  the gadget driver, the USB core and other processors do in that time.
\<close>

record env =
  giveback_request :: "nat \<Rightarrow> nat \<Rightarrow> dummy_t \<Rightarrow> dummy_t"
  udc_reset :: "dummy_t \<Rightarrow> dummy_t"
  drv_disconnect :: "dummy_t \<Rightarrow> dummy_t"
  drv_suspend :: "dummy_t \<Rightarrow> dummy_t"
  drv_resume :: "dummy_t \<Rightarrow> dummy_t"
  drv_setup :: "usb_ctrlrequest \<Rightarrow> dummy_t \<Rightarrow> int \<times> dummy_t"
  giveback_urb :: "hcd_sel \<Rightarrow> urb \<Rightarrow> int \<Rightarrow> dummy_t \<Rightarrow> dummy_t"
  poll_rh_status :: "hcd_sel \<Rightarrow> dummy_t \<Rightarrow> dummy_t"
  resume_root_hub :: "hcd_sel \<Rightarrow> dummy_t \<Rightarrow> dummy_t"
  usleep_range :: "dummy_t \<Rightarrow> dummy_t"
  sg_miter_start :: "urb \<Rightarrow> sg_mapping_iter"
  sg_miter_next :: "urb \<Rightarrow> sg_mapping_iter \<Rightarrow> bool \<times> sg_mapping_iter"
  sg_miter_stop :: "sg_mapping_iter \<Rightarrow> sg_mapping_iter"

text \<open>
  The last three are the kernel's iterator over the pieces of a scatter-gather list. This is an
  iterator as its documentation describes it: it maps one piece after the other and takes up a
  piece again where the previous mapping stopped consuming it.
\<close>

definition sg_start :: "urb \<Rightarrow> sg_mapping_iter" where
  "sg_start u = \<lparr>mi_seg = 0, mi_off = 0, mi_len = 0, mi_consumed = 0\<rparr>"

definition sg_stop :: "sg_mapping_iter \<Rightarrow> sg_mapping_iter" where
  "sg_stop m = m\<lparr>mi_off := mi_off m + mi_consumed m, mi_len := 0, mi_consumed := 0\<rparr>"

definition sg_next :: "urb \<Rightarrow> sg_mapping_iter \<Rightarrow> bool \<times> sg_mapping_iter" where
  "sg_next u m =
     (let m = sg_stop m; s = mi_seg m; n = length (urb_sg u ! s) - mi_off m in
      if s < length (urb_sg u) \<and> 0 < n
      then (True, m\<lparr>mi_len := n, mi_consumed := n\<rparr>)
      else if Suc s < length (urb_sg u)
      then (let n = length (urb_sg u ! Suc s)
            in (True, \<lparr>mi_seg = Suc s, mi_off = 0, mi_len = n, mi_consumed = n\<rparr>))
      else (False, m))"

text \<open>An environment that does nothing: the callbacks return at once.\<close>

definition idle_env :: env where
  "idle_env = \<lparr>giveback_request = (\<lambda>i r d. d), udc_reset = (\<lambda>d. d), drv_disconnect = (\<lambda>d. d),
     drv_suspend = (\<lambda>d. d), drv_resume = (\<lambda>d. d), drv_setup = (\<lambda>c d. (0, d)),
     giveback_urb = (\<lambda>w u st d. d), poll_rh_status = (\<lambda>w d. d), resume_root_hub = (\<lambda>w d. d),
     usleep_range = (\<lambda>d. d), sg_miter_start = sg_start, sg_miter_next = sg_next,
     sg_miter_stop = sg_stop\<rparr>"

section \<open>Access\<close>

definition hcd_of :: "hcd_sel \<Rightarrow> dummy_t \<Rightarrow> dummy_hcd option" where
  "hcd_of w d = (case w of HS \<Rightarrow> hs_hcd d | SS \<Rightarrow> ss_hcd d)"

definition set_hcd :: "hcd_sel \<Rightarrow> dummy_hcd \<Rightarrow> dummy_t \<Rightarrow> dummy_t" where
  "set_hcd w h d = (case w of HS \<Rightarrow> d\<lparr>hs_hcd := Some h\<rparr> | SS \<Rightarrow> d\<lparr>ss_hcd := Some h\<rparr>)"

definition gadget_to_dummy_hcd :: "dummy_t \<Rightarrow> hcd_sel" where
  "gadget_to_dummy_hcd d = (if speed (gadget d) = USB_SPEED_SUPER then SS else HS)"

definition upd_ep :: "nat \<Rightarrow> (dummy_ep \<Rightarrow> dummy_ep) \<Rightarrow> dummy_t \<Rightarrow> dummy_t" where
  "upd_ep i f d = d\<lparr>ep := (ep d)[i := f (ep d ! i)]\<rparr>"

definition upd_req :: "nat \<Rightarrow> (usb_request \<Rightarrow> usb_request) \<Rightarrow> dummy_t \<Rightarrow> dummy_t" where
  "upd_req r f d = d\<lparr>reqs := (reqs d)(r := f (reqs d r))\<rparr>"

definition log_event :: "event \<Rightarrow> dummy_t \<Rightarrow> dummy_t" where
  "log_event e d = d\<lparr>trace := trace d @ [e]\<rparr>"

text \<open>
  \<open>list_empty(&req->queue)\<close> fails: the request is linked into the queue of some endpoint.
\<close>

definition queued :: "nat \<Rightarrow> dummy_t \<Rightarrow> bool" where
  "queued r d \<longleftrightarrow> list_ex (\<lambda>e. List.member (queue e) r) (ep d)"

lemma queued_iff: "queued r d \<longleftrightarrow> r \<in> set (concat (map queue (ep d)))"
  by (auto simp: queued_def list_ex_iff)

text \<open>Returning a request to the gadget driver, with the lock released around the call.\<close>

definition giveback :: "env \<Rightarrow> nat \<Rightarrow> nat \<Rightarrow> dummy_t \<Rightarrow> dummy_t" where
  "giveback env i r d =
     giveback_request env i r
       (log_event (Giveback i r (rq_status (reqs d r)) (rq_actual (reqs d r))) d)"

lemma set_hcd_simps [simp]:
  "hcd_of w (set_hcd w h d) = Some h"
  "ep (set_hcd w h d) = ep d"
  "gadget (set_hcd w h d) = gadget d"
  "driver (set_hcd w h d) = driver d"
  "devstatus (set_hcd w h d) = devstatus d"
  "ints_enabled (set_hcd w h d) = ints_enabled d"
  "udc_suspended (set_hcd w h d) = udc_suspended d"
  "pullup (set_hcd w h d) = pullup d"
  "reqs (set_hcd w h d) = reqs d"
  "jiffies (set_hcd w h d) = jiffies d"
  "trace (set_hcd w h d) = trace d"
  "address (set_hcd w h d) = address d"
  "callback_usage (set_hcd w h d) = callback_usage d"
  "set_hcd w h' (set_hcd w h d) = set_hcd w h' d"
  by (cases w; simp add: set_hcd_def hcd_of_def)+

lemma hcd_of_update [simp]:
  "hcd_of w (d\<lparr>ep := e\<rparr>) = hcd_of w d"
  "hcd_of w (d\<lparr>address := a\<rparr>) = hcd_of w d"
  "hcd_of w (d\<lparr>callback_usage := c\<rparr>) = hcd_of w d"
  "hcd_of w (d\<lparr>gadget := g\<rparr>) = hcd_of w d"
  "hcd_of w (d\<lparr>driver := dr\<rparr>) = hcd_of w d"
  "hcd_of w (d\<lparr>devstatus := ds\<rparr>) = hcd_of w d"
  "hcd_of w (d\<lparr>ints_enabled := b\<rparr>) = hcd_of w d"
  "hcd_of w (d\<lparr>udc_suspended := b\<rparr>) = hcd_of w d"
  "hcd_of w (d\<lparr>pullup := b\<rparr>) = hcd_of w d"
  "hcd_of w (d\<lparr>reqs := rs\<rparr>) = hcd_of w d"
  "hcd_of w (d\<lparr>trace := tr\<rparr>) = hcd_of w d"
  by (cases w; simp add: hcd_of_def)+

lemma upd_ep_simps [simp]:
  "ep (upd_ep i f d) = (ep d)[i := f (ep d ! i)]"
  "gadget (upd_ep i f d) = gadget d"
  "driver (upd_ep i f d) = driver d"
  "ints_enabled (upd_ep i f d) = ints_enabled d"
  "devstatus (upd_ep i f d) = devstatus d"
  "pullup (upd_ep i f d) = pullup d"
  "reqs (upd_ep i f d) = reqs d"
  "trace (upd_ep i f d) = trace d"
  "hcd_of w (upd_ep i f d) = hcd_of w d"
  by (simp_all add: upd_ep_def)

lemma upd_req_simps [simp]:
  "reqs (upd_req r f d) = (reqs d)(r := f (reqs d r))"
  "ep (upd_req r f d) = ep d"
  "gadget (upd_req r f d) = gadget d"
  "driver (upd_req r f d) = driver d"
  "ints_enabled (upd_req r f d) = ints_enabled d"
  "pullup (upd_req r f d) = pullup d"
  "trace (upd_req r f d) = trace d"
  "hcd_of w (upd_req r f d) = hcd_of w d"
  by (simp_all add: upd_req_def)

lemma log_event_simps [simp]:
  "trace (log_event e d) = trace d @ [e]"
  "ep (log_event e d) = ep d"
  "gadget (log_event e d) = gadget d"
  "driver (log_event e d) = driver d"
  "ints_enabled (log_event e d) = ints_enabled d"
  "udc_suspended (log_event e d) = udc_suspended d"
  "devstatus (log_event e d) = devstatus d"
  "pullup (log_event e d) = pullup d"
  "reqs (log_event e d) = reqs d"
  "jiffies (log_event e d) = jiffies d"
  "hcd_of w (log_event e d) = hcd_of w d"
  by (simp_all add: log_event_def)

lemma idle_env_simps [simp]:
  "giveback_request idle_env i r d = d" "udc_reset idle_env d = d"
  "drv_disconnect idle_env d = d" "drv_suspend idle_env d = d" "drv_resume idle_env d = d"
  "drv_setup idle_env c d = (0, d)" "giveback_urb idle_env w u st d = d"
  "poll_rh_status idle_env w d = d" "resume_root_hub idle_env w d = d"
  "usleep_range idle_env d = d" "sg_miter_start idle_env = sg_start"
  "sg_miter_next idle_env = sg_next" "sg_miter_stop idle_env = sg_stop"
  by (simp_all add: idle_env_def)

text \<open>
  An entry of a hub's list of transfers, by its number. Following a pointer to an entry that is
  not on the list any more is undefined.
\<close>

definition get_urbp :: "hcd_sel \<Rightarrow> nat \<Rightarrow> dummy_t \<Rightarrow> urbp option" where
  "get_urbp w k d =
     (case hcd_of w d of None \<Rightarrow> None | Some h \<Rightarrow> List.find (\<lambda>p. urbp_id p = k) (urbp_list h))"

definition upd_hcd :: "hcd_sel \<Rightarrow> (dummy_hcd \<Rightarrow> dummy_hcd) \<Rightarrow> dummy_t \<Rightarrow> dummy_t" where
  "upd_hcd w f d = (case hcd_of w d of None \<Rightarrow> d | Some h \<Rightarrow> set_hcd w (f h) d)"

definition put_urbp :: "hcd_sel \<Rightarrow> urbp \<Rightarrow> dummy_t \<Rightarrow> dummy_t" where
  "put_urbp w p d =
     upd_hcd w (\<lambda>h. h\<lparr>urbp_list := map (\<lambda>q. if urbp_id q = urbp_id p then p else q) (urbp_list h)\<rparr>) d"

section \<open>Zeroed structures\<close>

text \<open>The structures as the kernel allocates them, from which the examples are built.\<close>

definition zero_desc :: usb_endpoint_descriptor where
  "zero_desc = \<lparr>bDescriptorType = USB_DT_ENDPOINT, bEndpointAddress = 0, bmAttributes = 0,
     wMaxPacketSize = 0, bInterval = 0\<rparr>"

definition zero_setup :: usb_ctrlrequest where
  "zero_setup = \<lparr>bRequestType = 0, bRequest = 0, wValue = 0, wIndex = 0, wLength = 0\<rparr>"

definition zero_urb :: urb where
  "zero_urb = \<lparr>urb_pipe = 0, urb_ep_desc = zero_desc, urb_dev = 0,
     urb_dev_speed = USB_SPEED_UNKNOWN, urb_stream_id = 0, transfer_flags = 0,
     transfer_buffer = [], transfer_buffer_length = 0, actual_length = 0, num_sgs = 0,
     urb_sg = [], setup_packet = zero_setup, error_count = 0, unlinked = 0\<rparr>"

definition zero_urbp :: urbp where
  "zero_urbp = \<lparr>urbp_id = 0, urbp_urb = zero_urb, miter = sg_start zero_urb,
     miter_started = False\<rparr>"

definition zero_hcd :: dummy_hcd where
  "zero_hcd = \<lparr>rh_state = DUMMY_RH_RESET, timer = None, port_status = 0, old_status = 0,
     re_timeout = 0, udev = None, urbp_list = [], next_frame_urbp = None, stream_en_ep = 0,
     num_stream = replicate 15 0, active = False, old_active = False, resuming = False,
     speed_of_hcd = HCD_USB2, hw_accessible = True, hc_state = HC_STATE_HALT,
     rh_timer = None, power_budget = 0, uses_new_polling = False,
     root_hub_speed = USB_SPEED_HIGH, sg_tablesize = 0\<rparr>"

definition zero_ep :: dummy_ep where
  "zero_ep = \<lparr>queue = [], last_io = 0, desc = None, ep_name = ep0name,
     ep_caps = caps_control_all, maxpacket = 0, maxpacket_limit = 0, max_streams = 0,
     comp_desc = None, halted = False, wedged = False, already_seen = False,
     setup_stage = False, stream_en = False\<rparr>"

definition zero_request :: usb_request where
  "zero_request = \<lparr>rq_buf = [], rq_length = 0, rq_actual = 0, rq_status = 0, rq_zero = False,
     rq_stream_id = 0, rq_complete = No_Complete, rq_context = Driver_Context 0\<rparr>"

definition zero_gadget :: usb_gadget where
  "zero_gadget = \<lparr>speed = USB_SPEED_UNKNOWN, max_speed = USB_SPEED_UNKNOWN,
     is_selfpowered = False, b_hnp_enable = False, a_hnp_support = False,
     a_alt_hnp_support = False, ep_list = [], gadget_name = []\<rparr>"

definition zero_dummy :: dummy_t where
  "zero_dummy = \<lparr>ep = replicate DUMMY_ENDPOINTS zero_ep, address = 0, callback_usage = 0,
     gadget = zero_gadget, driver = None, fifo_buf = replicate FIFO_SIZE 0, devstatus = 0,
     ints_enabled = False, udc_suspended = False, pullup = False, hs_hcd = None, ss_hcd = None,
     reqs = (\<lambda>_. zero_request), allocated = [], jiffies = 0, trace = []\<rparr>"

lemma zero_simps [simp]:
  "queue zero_ep = []" "desc zero_ep = None" "ep_name zero_ep = ep0name" "comp_desc zero_ep = None"
  "maxpacket zero_ep = 0" "\<not> halted zero_ep" "\<not> wedged zero_ep" "\<not> already_seen zero_ep"
  "\<not> setup_stage zero_ep" "\<not> stream_en zero_ep"
  "rq_length zero_request = 0" "rq_actual zero_request = 0" "rq_status zero_request = 0"
  "rq_buf zero_request = []" "rq_complete zero_request = No_Complete"
  "rq_stream_id zero_request = 0" "\<not> rq_zero zero_request"
  "bEndpointAddress zero_desc = 0" "bmAttributes zero_desc = 0" "wMaxPacketSize zero_desc = 0"
  "bDescriptorType zero_desc = USB_DT_ENDPOINT"
  by (simp_all add: zero_ep_def zero_request_def zero_desc_def)

section \<open>Well-formedness\<close>

text \<open>
  The queues of the controller: all endpoints are there, and no request is linked twice, in one
  queue or in two.
\<close>

definition wf_queues :: "dummy_t \<Rightarrow> bool" where
  "wf_queues d \<longleftrightarrow> length (ep d) = DUMMY_ENDPOINTS \<and> distinct (concat (map queue (ep d)))"

text \<open>
  Every queued request is in progress, has room for what it still expects and a buffer of its
  length; where interrupts are enabled there is a gadget driver to report them to.
\<close>

definition wf_request :: "usb_request \<Rightarrow> bool" where
  "wf_request q \<longleftrightarrow> rq_status q = - EINPROGRESS \<and> rq_actual q \<le> rq_length q
     \<and> unat (rq_length q) \<le> length (rq_buf q)"

definition wf_dummy :: "dummy_t \<Rightarrow> bool" where
  "wf_dummy d \<longleftrightarrow> wf_queues d \<and> (\<forall>r. queued r d \<longrightarrow> wf_request (reqs d r))
     \<and> (ints_enabled d \<longrightarrow> driver d \<noteq> None)"

lemma wf_dummyD:
  assumes "wf_dummy d"
  shows "wf_queues d" "queued r d \<Longrightarrow> wf_request (reqs d r)" "ints_enabled d \<Longrightarrow> driver d \<noteq> None"
    "length (ep d) = DUMMY_ENDPOINTS"
  using assms by (auto simp: wf_dummy_def wf_queues_def)

lemma queued_queue: "i < length (ep d) \<Longrightarrow> r \<in> set (queue (ep d ! i)) \<Longrightarrow> queued r d"
  by (auto simp: queued_iff intro!: bexI [of _ "ep d ! i"])

text \<open>
  What the operations do to an endpoint or a request, and why the controller stays well formed:
  a queue only loses requests, or gains one that no queue holds.
\<close>

lemma map_queue_upd_ep:
  "map queue (ep (upd_ep i f d)) = (map queue (ep d))[i := queue (f (ep d ! i))]"
  by (simp add: map_update)

lemma wf_upd_ep_queue:
  assumes "wf_dummy d" and "distinct (queue (f (ep d ! i)))"
    and "set (queue (f (ep d ! i))) \<subseteq> set (queue (ep d ! i))"
  shows "wf_dummy (upd_ep i f d)"
proof (cases "i < length (ep d)")
  case True
  have "distinct (concat (map queue (ep (upd_ep i f d))))"
    unfolding map_queue_upd_ep
    using assms True by (intro distinct_concat_update) (auto simp: wf_dummy_def wf_queues_def)
  moreover have "queued r (upd_ep i f d) \<Longrightarrow> queued r d" for r
    using assms(3) True by (fastforce simp: queued_iff in_set_conv_nth nth_list_update split: if_splits)
  ultimately show ?thesis using assms(1) by (auto simp: wf_dummy_def wf_queues_def)
next
  case False
  then have "upd_ep i f d = d" by (simp add: upd_ep_def list_update_beyond)
  with assms(1) show ?thesis by simp
qed

lemma wf_upd_ep_fields:
  assumes "wf_dummy d" and "\<And>e. queue (f e) = queue e"
  shows "wf_dummy (upd_ep i f d)"
proof (cases "i < length (ep d)")
  case True
  with assms(1) have "distinct (queue (ep d ! i))"
    by (auto simp: wf_dummy_def wf_queues_def distinct_concat_iff)
  with assms show ?thesis by (intro wf_upd_ep_queue) simp_all
next
  case False
  then have "upd_ep i f d = d" by (simp add: upd_ep_def list_update_beyond)
  with assms(1) show ?thesis by simp
qed

lemma wf_upd_req:
  assumes "wf_dummy d" and "\<not> queued r d"
  shows "wf_dummy (upd_req r f d)"
  using assms by (auto simp: wf_dummy_def wf_queues_def queued_def)

lemma wf_append_request:
  assumes "wf_dummy d" and "\<not> queued r d" and "wf_request (reqs d r)"
  shows "wf_dummy (upd_ep i (\<lambda>e. e\<lparr>queue := queue e @ [r]\<rparr>) d)"
proof (cases "i < length (ep d)")
  case True
  let ?d = "upd_ep i (\<lambda>e. e\<lparr>queue := queue e @ [r]\<rparr>) d"
  have "distinct (concat ((map queue (ep d))[i := map queue (ep d) ! i @ [r]]))"
    using assms(1,2) True
    by (intro distinct_concat_insert) (auto simp: wf_dummy_def wf_queues_def queued_iff)
  then have "distinct (concat (map queue (ep ?d)))"
    unfolding map_queue_upd_ep using True by simp
  moreover have "queued r' ?d \<Longrightarrow> queued r' d \<or> r' = r" for r'
    using True by (fastforce simp: queued_iff in_set_conv_nth nth_list_update nth_append split: if_splits)
  ultimately show ?thesis using assms by (auto simp: wf_dummy_def wf_queues_def)
next
  case False
  then have "upd_ep i (\<lambda>e. e\<lparr>queue := queue e @ [r]\<rparr>) d = d" by (simp add: upd_ep_def list_update_beyond)
  with assms(1) show ?thesis by simp
qed

lemma wf_fields [simp]:
  "wf_dummy (d\<lparr>address := a\<rparr>) = wf_dummy d"
  "wf_dummy (d\<lparr>callback_usage := c\<rparr>) = wf_dummy d"
  "wf_dummy (d\<lparr>gadget := g\<rparr>) = wf_dummy d"
  "wf_dummy (d\<lparr>devstatus := ds\<rparr>) = wf_dummy d"
  "wf_dummy (d\<lparr>udc_suspended := b\<rparr>) = wf_dummy d"
  "wf_dummy (d\<lparr>pullup := b\<rparr>) = wf_dummy d"
  "wf_dummy (d\<lparr>fifo_buf := fb\<rparr>) = wf_dummy d"
  "wf_dummy (d\<lparr>allocated := al\<rparr>) = wf_dummy d"
  "wf_dummy (log_event ev d) = wf_dummy d"
  by (simp_all add: wf_dummy_def wf_queues_def queued_def log_event_def)



lemma dequeued_not_queued:
  assumes "wf_queues d" and "i < length (ep d)" and "queue (ep d ! i) = xs @ r # ys"
    and "queue (f (ep d ! i)) = xs @ ys"
  shows "\<not> queued r (upd_ep i f d)"
  unfolding queued_iff map_queue_upd_ep assms(4)
  using assms(1-3) by (intro distinct_concat_remove) (simp_all add: wf_queues_def)

lemma wf_zero_dummy [simp]: "wf_dummy zero_dummy"
proof -
  have "\<not> queued r zero_dummy" for r
    by (auto simp: queued_def list_ex_iff zero_dummy_def zero_ep_def)
  then show ?thesis
    by (auto simp: wf_dummy_def wf_queues_def zero_dummy_def zero_ep_def DUMMY_ENDPOINTS_eq
        distinct_concat_iff)
qed

section \<open>An example\<close>

text \<open>
  A connected high-speed device with a gadget driver: endpoint 1 is a bulk IN and endpoint 2 a
  bulk OUT endpoint, both enabled.
\<close>

definition demo_driver :: usb_gadget_driver where
  "demo_driver = \<lparr>driver_function = Some ''demo'', has_suspend = True, has_resume = True\<rparr>"

definition bulk_desc :: "u8 \<Rightarrow> usb_endpoint_descriptor" where
  "bulk_desc a = zero_desc\<lparr>bEndpointAddress := a, bmAttributes := 2, wMaxPacketSize := 512\<rparr>"

definition demo_hcd :: dummy_hcd where
  "demo_hcd = zero_hcd\<lparr>rh_state := DUMMY_RH_RUNNING, port_status := 0x503,
     old_status := 0x503, active := True, old_active := True\<rparr>"

definition demo :: dummy_t where
  "demo = zero_dummy\<lparr>driver := Some demo_driver, ints_enabled := True, pullup := True,
     gadget := zero_gadget\<lparr>speed := USB_SPEED_HIGH\<rparr>, hs_hcd := Some demo_hcd,
     ep := (replicate DUMMY_ENDPOINTS (zero_ep\<lparr>ep_name := ''ep''\<rparr>))
       [0 := zero_ep\<lparr>maxpacket := 64\<rparr>,
        1 := zero_ep\<lparr>ep_name := ''ep1in-bulk'', desc := Some (bulk_desc 0x81), maxpacket := 512\<rparr>,
        2 := zero_ep\<lparr>ep_name := ''ep2out-bulk'', desc := Some (bulk_desc 2), maxpacket := 512\<rparr>]\<rparr>"

lemma demo_simps [simp]:
  "length (ep demo) = DUMMY_ENDPOINTS"
  "ep demo ! 0 = zero_ep\<lparr>maxpacket := 64\<rparr>"
  "ep demo ! 1 = zero_ep\<lparr>ep_name := ''ep1in-bulk'', desc := Some (bulk_desc 0x81), maxpacket := 512\<rparr>"
  "ep demo ! Suc 0 = zero_ep\<lparr>ep_name := ''ep1in-bulk'', desc := Some (bulk_desc 0x81), maxpacket := 512\<rparr>"
  "ep demo ! 2 = zero_ep\<lparr>ep_name := ''ep2out-bulk'', desc := Some (bulk_desc 2), maxpacket := 512\<rparr>"
  "hs_hcd demo = Some demo_hcd" "ss_hcd demo = None" "hcd_of HS demo = Some demo_hcd"
  "driver demo = Some demo_driver" "ints_enabled demo" "pullup demo" "\<not> udc_suspended demo"
  "speed (gadget demo) = USB_SPEED_HIGH" "gadget_to_dummy_hcd demo = HS"
  "callback_usage demo = 0" "jiffies demo = 0" "trace demo = []" "reqs demo r = zero_request"
  "devstatus demo = 0" "fifo_buf demo = replicate FIFO_SIZE 0"
  by (simp_all add: demo_def zero_dummy_def zero_gadget_def hcd_of_def gadget_to_dummy_hcd_def
      DUMMY_ENDPOINTS_eq)

lemma demo_hcd_simps [simp]:
  "port_status demo_hcd = 0x503" "rh_state demo_hcd = DUMMY_RH_RUNNING" "active demo_hcd"
  "old_active demo_hcd" "old_status demo_hcd = 0x503" "speed_of_hcd demo_hcd = HCD_USB2"
  "urbp_list demo_hcd = []" "udev demo_hcd = None" "timer demo_hcd = None"
  "hw_accessible demo_hcd" "\<not> resuming demo_hcd" "re_timeout demo_hcd = 0"
  "stream_en_ep demo_hcd = 0" "next_frame_urbp demo_hcd = None"
  by (simp_all add: demo_hcd_def zero_hcd_def)

lemma demo_queues [simp]: "i < DUMMY_ENDPOINTS \<Longrightarrow> queue (ep demo ! i) = []" "\<not> queued r demo"
proof -
  have q: "\<forall>e \<in> set (ep demo). queue e = []"
    by (auto simp: demo_def zero_dummy_def zero_ep_def DUMMY_ENDPOINTS_eq
        dest!: set_update_subset_insert [THEN subsetD])
  then show "i < DUMMY_ENDPOINTS \<Longrightarrow> queue (ep demo ! i) = []" by simp
  show "\<not> queued r demo" using q by (auto simp: queued_def list_ex_iff)
qed

lemma wf_demo [simp]: "wf_dummy demo"
proof -
  have "map queue (ep demo) = replicate DUMMY_ENDPOINTS []"
    by (rule nth_equalityI) simp_all
  then show ?thesis by (simp add: wf_dummy_def wf_queues_def distinct_concat_iff)
qed

end
