(* ===== verification/Dummy_Streams.thy ===== *)
theory Dummy_Streams
  imports Dummy_State
begin

text \<open>
  Bulk streams on the host side (dummy\_hcd.c, lines 1143 to 1238 and 2516 to 2593): the bit map
  of the endpoints that use streams, the nibbles that hold their numbers of streams, and the
  check of a transfer's stream.
\<close>

section \<open>Operations\<close>

definition dummy_get_ep_idx :: "usb_endpoint_descriptor \<Rightarrow> nat" where
  "dummy_get_ep_idx ds =
     (let index = push_bit 1 (usb_endpoint_num ds)
      in if usb_endpoint_dir_in ds then index OR 1 else index)"

definition ep_idx_bit :: "usb_endpoint_descriptor \<Rightarrow> u32" where
  "ep_idx_bit ds = push_bit (dummy_get_ep_idx ds) 1"

definition dummy_ep_stream_en :: "dummy_hcd \<Rightarrow> urb \<Rightarrow> bool" where
  "dummy_ep_stream_en h u =
     (let ds = urb_ep_desc u
      in if \<not> usb_endpoint_xfer_bulk ds then False
         else ep_idx_bit ds AND stream_en_ep h \<noteq> 0)"

text \<open>
  The array has 15 bytes; \<open>None\<close> is an access beyond it. The pipe argument is an unsigned
  integer, and so is the number of streams.
\<close>

definition get_max_streams_for_pipe :: "dummy_hcd \<Rightarrow> u32 \<Rightarrow> u32 option" where
  "get_max_streams_for_pipe h p =
     (let i = usb_pipeendpoint p in
      if length (num_stream h) \<le> i then None
      else (let ms = ucast (num_stream h ! i) :: u32;
                ms = (if usb_pipeout p then drop_bit 4 ms else ms AND 0xf)
            in Some (ms + 1)))"

definition set_max_streams_for_pipe :: "dummy_hcd \<Rightarrow> u32 \<Rightarrow> u32 \<Rightarrow> dummy_hcd option" where
  "set_max_streams_for_pipe h p streams =
     (let i = usb_pipeendpoint p in
      if length (num_stream h) \<le> i then None
      else (let streams = streams - 1;
                ms = ucast (num_stream h ! i) :: u32;
                (streams, ms) = (if usb_pipeout p then (push_bit 4 streams, ms AND 0xf)
                                 else (streams, ms AND 0xf0));
                ms = ms OR streams
            in Some (h\<lparr>num_stream := (num_stream h)[i := ucast ms]\<rparr>)))"

text \<open>A stream beyond the endpoint's number stops the kernel.\<close>

definition dummy_validate_stream :: "dummy_hcd \<Rightarrow> urb \<Rightarrow> int option" where
  "dummy_validate_stream h u =
     (let enabled = dummy_ep_stream_en h u in
      if urb_stream_id u = 0 then Some (if enabled then - EINVAL else 0)
      else if \<not> enabled then Some (- EINVAL)
      else do {
        ms \<leftarrow> get_max_streams_for_pipe h (of_nat (usb_pipeendpoint (urb_pipe u)));
        if of_nat (urb_stream_id u) > ms then None else Some 0
      })"

text \<open>
  The two passes over the endpoints: the first finds the number of streams all of them offer,
  or the error; the second switches streams on.
\<close>

primrec offered_streams :: "dummy_hcd \<Rightarrow> usb_host_endpoint list \<Rightarrow> int \<Rightarrow> int + int" where
  "offered_streams h [] ret = Inr ret"
| "offered_streams h (e # es) ret =
     (if ep_idx_bit (he_desc e) AND stream_en_ep h \<noteq> 0 then Inl (- EINVAL)
      else let ms = usb_ss_max_streams (Some (he_ss_ep_comp e)) in
        if ms = 0 then Inl (- EINVAL)
        else offered_streams h es (if ms < ret then ms else ret))"

primrec enable_streams :: "usb_host_endpoint list \<Rightarrow> u32 \<Rightarrow> dummy_hcd \<Rightarrow> dummy_hcd option" where
  "enable_streams [] n h = Some h"
| "enable_streams (e # es) n h =
     do {
       let h = h\<lparr>stream_en_ep := stream_en_ep h OR ep_idx_bit (he_desc e)\<rparr>;
       h \<leftarrow> set_max_streams_for_pipe h (of_nat (usb_endpoint_num (he_desc e))) n;
       enable_streams es n h
     }"

definition dummy_alloc_streams ::
  "usb_host_endpoint list \<Rightarrow> u32 \<Rightarrow> dummy_hcd \<Rightarrow> (int \<times> dummy_hcd) option" where
  "dummy_alloc_streams eps num_streams h =
     (if eps = [] then Some (- EINVAL, h)
      else case offered_streams h eps (sint num_streams) of
             Inl e \<Rightarrow> Some (e, h)
           | Inr ret \<Rightarrow> do { h \<leftarrow> enable_streams eps (word_of_int ret) h; Some (ret, h) })"

primrec disable_streams :: "usb_host_endpoint list \<Rightarrow> dummy_hcd \<Rightarrow> dummy_hcd option" where
  "disable_streams [] h = Some h"
| "disable_streams (e # es) h =
     do {
       let h = h\<lparr>stream_en_ep := stream_en_ep h AND NOT (ep_idx_bit (he_desc e))\<rparr>;
       h \<leftarrow> set_max_streams_for_pipe h (of_nat (usb_endpoint_num (he_desc e))) 0;
       disable_streams es h
     }"

definition dummy_free_streams ::
  "usb_host_endpoint list \<Rightarrow> dummy_hcd \<Rightarrow> (int \<times> dummy_hcd) option" where
  "dummy_free_streams eps h =
     (if list_ex (\<lambda>e. ep_idx_bit (he_desc e) AND stream_en_ep h = 0) eps then Some (- EINVAL, h)
      else do { h \<leftarrow> disable_streams eps h; Some (0, h) })"

section \<open>The bit map and the nibbles\<close>

lemma dummy_get_ep_idx_bound: "dummy_get_ep_idx ds < 32"
proof -
  let ?n = "push_bit 1 (usb_endpoint_num ds)"
  have n: "?n \<le> 30" using usb_endpoint_num_bound [of ds] by (simp add: push_bit_eq_mult)
  have "?n OR 1 \<le> ?n + 1" unfolding or_one_eq by (simp del: One_nat_def)
  with n show ?thesis by (simp add: dummy_get_ep_idx_def Let_def del: One_nat_def)
qed

lemma ep_idx_bit_set: "ep_idx_bit ds AND x \<noteq> 0 \<longleftrightarrow> bit x (dummy_get_ep_idx ds)"
  using and_exp_eq_0_iff_not_bit [of x "dummy_get_ep_idx ds"]
  by (simp add: ep_idx_bit_def push_bit_of_1 and.commute)

lemma bit_ep_idx_bit: "bit (ep_idx_bit ds) n \<longleftrightarrow> n = dummy_get_ep_idx ds"
  using dummy_get_ep_idx_bound [of ds]
  by (auto simp: ep_idx_bit_def bit_simps)

text \<open>Nibbles, bit by bit.\<close>

lemma nibble_masks: "(0xf :: u32) = mask 4" "(0xf0 :: u32) = push_bit 4 (mask 4)"
  by (simp_all add: mask_eq_exp_minus_1 push_bit_eq_mult)

lemma below_16_bits: "(s :: u32) < 16 \<Longrightarrow> bit s k \<Longrightarrow> k < 4"
proof (rule ccontr)
  assume s: "s < 16" "bit s k" and "\<not> k < 4"
  then have "16 \<le> (2 :: nat) ^ k" using power_increasing [of 4 k "2 :: nat"] by simp
  moreover have "unat s < 16" using s(1) by (simp add: word_less_nat_alt)
  ultimately have "unat s div 2 ^ k = 0" by simp
  then have "\<not> bit (unat s) k" by (simp add: bit_iff_odd)
  then show False using s(2) bit_imp_le_length [of s k] by (simp add: bit_simps)
qed

lemma nibble_out:
  fixes b :: u8 and s :: u32
  assumes "s < 16"
  defines "b' \<equiv> ucast (ucast b AND 0xf OR push_bit 4 s) :: u8"
  shows "drop_bit 4 (ucast b' :: u32) = s" "ucast b' AND (0xf :: u32) = ucast b AND 0xf"
  unfolding b'_def nibble_masks
  by (rule bit_word_eqI; auto simp: bit_simps dest: below_16_bits [OF assms(1)])+

lemma nibble_in:
  fixes b :: u8 and s :: u32
  assumes "s < 16"
  defines "b' \<equiv> ucast (ucast b AND 0xf0 OR s) :: u8"
  shows "ucast b' AND (0xf :: u32) = s" "drop_bit 4 (ucast b' :: u32) = drop_bit 4 (ucast b)"
  unfolding b'_def nibble_masks
  by (rule bit_word_eqI;
      auto simp: bit_simps dest: below_16_bits [OF assms(1)] bit_imp_le_length [of b])+

lemma streams_minus_one: "1 \<le> (n :: u32) \<Longrightarrow> n \<le> 16 \<Longrightarrow> n - 1 < 16"
  by unat_arith

lemma set_get_same:
  assumes "set_max_streams_for_pipe h p n = Some h'" and "1 \<le> n" and "n \<le> 16"
  shows "get_max_streams_for_pipe h' p = Some n"
  using assms(1) nibble_out(1) nibble_in(1) streams_minus_one [OF assms(2,3)]
  by (auto simp: set_max_streams_for_pipe_def get_max_streams_for_pipe_def Let_def
      split: if_splits)

lemma set_get_other:
  assumes "set_max_streams_for_pipe h p n = Some h'" and "1 \<le> n" and "n \<le> 16"
    and "usb_pipeendpoint q \<noteq> usb_pipeendpoint p \<or> usb_pipeout q \<noteq> usb_pipeout p"
  shows "get_max_streams_for_pipe h' q = get_max_streams_for_pipe h q"
  using assms(1,4) nibble_out(2) nibble_in(2) streams_minus_one [OF assms(2,3)]
  by (auto simp: set_max_streams_for_pipe_def get_max_streams_for_pipe_def Let_def
      nth_list_update split: if_splits)

lemma endpoint_pipe_same:
  assumes "n < 16"
  shows "get_max_streams_for_pipe h (of_nat n) = get_max_streams_for_pipe h 0"
    "set_max_streams_for_pipe h (of_nat n) s = set_max_streams_for_pipe h 0 s"
proof -
  have z: "usb_pipeendpoint 0 = 0" "usb_pipeout 0"
    using endpoint_number_as_pipe [of 0] by simp_all
  show "get_max_streams_for_pipe h (of_nat n) = get_max_streams_for_pipe h 0"
    "set_max_streams_for_pipe h (of_nat n) s = set_max_streams_for_pipe h 0 s"
    using endpoint_number_as_pipe [OF assms] z
    by (simp_all add: get_max_streams_for_pipe_def set_max_streams_for_pipe_def)
qed

section \<open>Groups of endpoints\<close>

lemma set_max_streams_frame:
  assumes "set_max_streams_for_pipe h p n = Some h'"
  shows "stream_en_ep h' = stream_en_ep h" "length (num_stream h') = length (num_stream h)"
    "port_status h' = port_status h" "urbp_list h' = urbp_list h"
  using assms by (auto simp: set_max_streams_for_pipe_def Let_def split: if_splits)

lemma set_max_streams_defined:
  "num_stream h \<noteq> [] \<Longrightarrow> \<exists>h'. set_max_streams_for_pipe h (of_nat (usb_endpoint_num ds)) n = Some h'"
  using endpoint_pipe_same(2) [OF usb_endpoint_num_bound [of ds], of h n]
    endpoint_number_as_pipe [of 0]
  by (auto simp: set_max_streams_for_pipe_def Let_def)

lemma offered_streams_Inl: "offered_streams h es r = Inl e \<Longrightarrow> e = - EINVAL"
  by (induction es arbitrary: r) (auto simp: Let_def split: if_splits)

lemma offered_streams_Inr:
  assumes "offered_streams h es r = Inr ret"
  shows "\<forall>e \<in> set es. \<not> bit (stream_en_ep h) (dummy_get_ep_idx (he_desc e))
           \<and> usb_ss_max_streams (Some (he_ss_ep_comp e)) \<noteq> 0
           \<and> ret \<le> usb_ss_max_streams (Some (he_ss_ep_comp e))"
    and "ret \<le> r"
proof -
  have "(\<forall>e \<in> set es. \<not> bit (stream_en_ep h) (dummy_get_ep_idx (he_desc e))
           \<and> usb_ss_max_streams (Some (he_ss_ep_comp e)) \<noteq> 0
           \<and> ret \<le> usb_ss_max_streams (Some (he_ss_ep_comp e))) \<and> ret \<le> r"
    using assms
  proof (induction es arbitrary: r)
    case Nil
    then show ?case by simp
  next
    case (Cons e es)
    then have "ep_idx_bit (he_desc e) AND stream_en_ep h = 0"
      "usb_ss_max_streams (Some (he_ss_ep_comp e)) \<noteq> 0"
      "offered_streams h es (min (usb_ss_max_streams (Some (he_ss_ep_comp e))) r) = Inr ret"
      by (auto simp: Let_def min_def split: if_splits)
    with Cons.IH [OF this(3)] show ?case using ep_idx_bit_set [of "he_desc e" "stream_en_ep h"] by auto
  qed
  then show "\<forall>e \<in> set es. \<not> bit (stream_en_ep h) (dummy_get_ep_idx (he_desc e))
           \<and> usb_ss_max_streams (Some (he_ss_ep_comp e)) \<noteq> 0
           \<and> ret \<le> usb_ss_max_streams (Some (he_ss_ep_comp e))" and "ret \<le> r"
    by blast+
qed

definition ep_bits :: "usb_host_endpoint list \<Rightarrow> nat set" where
  "ep_bits es = (\<lambda>e. dummy_get_ep_idx (he_desc e)) ` set es"

lemma enable_streams_bits:
  assumes "enable_streams es n h = Some h'"
  shows "bit (stream_en_ep h') k \<longleftrightarrow> bit (stream_en_ep h) k \<or> k \<in> ep_bits es"
    "length (num_stream h') = length (num_stream h)"
proof -
  have "(bit (stream_en_ep h') k \<longleftrightarrow> bit (stream_en_ep h) k \<or> k \<in> ep_bits es)
     \<and> length (num_stream h') = length (num_stream h)"
    using assms
  proof (induction es arbitrary: h)
    case Nil
    then show ?case by (simp add: ep_bits_def)
  next
    case (Cons e es)
    let ?h = "h\<lparr>stream_en_ep := stream_en_ep h OR ep_idx_bit (he_desc e)\<rparr>"
    obtain h1 where h1: "set_max_streams_for_pipe ?h (of_nat (usb_endpoint_num (he_desc e))) n
        = Some h1" "enable_streams es n h1 = Some h'"
      using Cons.prems by (auto simp: bind_eq_Some_conv)
    from set_max_streams_frame [OF h1(1)] Cons.IH [OF h1(2)] show ?case
      by (auto simp: ep_bits_def bit_or_iff bit_ep_idx_bit)
  qed
  then show "bit (stream_en_ep h') k \<longleftrightarrow> bit (stream_en_ep h) k \<or> k \<in> ep_bits es"
    "length (num_stream h') = length (num_stream h)" by auto
qed

lemma disable_streams_bits:
  assumes "disable_streams es h = Some h'"
  shows "bit (stream_en_ep h') k \<longleftrightarrow> bit (stream_en_ep h) k \<and> k \<notin> ep_bits es"
  using assms
proof (induction es arbitrary: h)
  case Nil
  then show ?case by (simp add: ep_bits_def)
next
  case (Cons e es)
  let ?h = "h\<lparr>stream_en_ep := stream_en_ep h AND NOT (ep_idx_bit (he_desc e))\<rparr>"
  obtain h1 where h1: "set_max_streams_for_pipe ?h (of_nat (usb_endpoint_num (he_desc e))) 0
      = Some h1" "disable_streams es h1 = Some h'"
    using Cons.prems by (auto simp: bind_eq_Some_conv)
  from set_max_streams_frame(1) [OF h1(1)] Cons.IH [OF h1(2)] show ?case
    by (auto simp: ep_bits_def bit_and_iff bit_not_iff bit_ep_idx_bit dest: bit_imp_le_length)
qed

lemma disable_streams_defined: "num_stream h \<noteq> [] \<Longrightarrow> \<exists>h'. disable_streams es h = Some h'"
proof (induction es arbitrary: h)
  case Nil
  then show ?case by simp
next
  case (Cons e es)
  let ?h = "h\<lparr>stream_en_ep := stream_en_ep h AND NOT (ep_idx_bit (he_desc e))\<rparr>"
  obtain h1 where h1: "set_max_streams_for_pipe ?h (of_nat (usb_endpoint_num (he_desc e))) 0 = Some h1"
    using set_max_streams_defined [of ?h] Cons.prems by auto
  then have "num_stream h1 \<noteq> []" using set_max_streams_frame(2) [OF h1] Cons.prems by auto
  with Cons.IH h1 show ?case by simp
qed

lemma enable_streams_limit:
  assumes "enable_streams es n h = Some h'" and "es \<noteq> []" and "1 \<le> n" and "n \<le> 16"
  shows "get_max_streams_for_pipe h' 0 = Some n"
  using assms(1,2)
proof (induction es arbitrary: h)
  case Nil
  then show ?case by simp
next
  case (Cons e es)
  then obtain h1 where h1: "set_max_streams_for_pipe (h\<lparr>stream_en_ep := stream_en_ep h OR ep_idx_bit (he_desc e)\<rparr>)
      (of_nat (usb_endpoint_num (he_desc e))) n = Some h1" "enable_streams es n h1 = Some h'"
    by (auto simp: bind_eq_Some_conv)
  show ?case
  proof (cases "es = []")
    case True
    with h1 show ?thesis
      using set_get_same [OF h1(1) assms(3,4)] endpoint_pipe_same(1) [OF usb_endpoint_num_bound] by simp
  next
    case False
    with Cons.IH [OF h1(2)] show ?thesis by simp
  qed
qed

section \<open>Properties\<close>

text \<open>
  Enabling streams on a group of endpoints fails with \<open>-EINVAL\<close> and changes nothing, or
  switches streams on for exactly the bulk endpoints of the group beside those that had them,
  with no more streams than were asked for and than each endpoint offers; freeing the same
  group then succeeds and restores the map of the endpoints that use streams.
\<close>

theorem alloc_free_streams:
  assumes "dummy_alloc_streams eps n h = Some (ret, h1)" and "num_stream h \<noteq> []"
  shows "ret = - EINVAL \<and> h1 = h
     \<or> (\<forall>u. usb_endpoint_xfer_bulk (urb_ep_desc u) \<longrightarrow>
          dummy_ep_stream_en h1 u = (dummy_ep_stream_en h u
             \<or> dummy_get_ep_idx (urb_ep_desc u) \<in> ep_bits eps))
       \<and> ret \<le> sint n \<and> (\<forall>e \<in> set eps. ret \<le> usb_ss_max_streams (Some (he_ss_ep_comp e)))
       \<and> (\<exists>h2. dummy_free_streams eps h1 = Some (0, h2) \<and> stream_en_ep h2 = stream_en_ep h)"
proof (cases "eps = [] \<or> (\<exists>e. offered_streams h eps (sint n) = Inl e)")
  case True
  with assms(1) show ?thesis
    by (auto simp: dummy_alloc_streams_def dest: offered_streams_Inl split: if_splits)
next
  case False
  then have off: "offered_streams h eps (sint n) = Inr ret"
    and en: "enable_streams eps (word_of_int ret) h = Some h1"
    using assms(1)
    by (auto simp: dummy_alloc_streams_def bind_eq_Some_conv split: sum.splits if_splits)
  note bits = enable_streams_bits [OF en]
  have "num_stream h1 \<noteq> []" using bits(2) assms(2) by (metis length_0_conv)
  then obtain h2 where h2: "disable_streams eps h1 = Some h2"
    using disable_streams_defined [of h1 eps] by auto
  have "stream_en_ep h2 = stream_en_ep h"
    using offered_streams_Inr(1) [OF off]
    by (intro bit_word_eqI) (auto simp: disable_streams_bits [OF h2] bits(1) ep_bits_def)
  moreover have "dummy_free_streams eps h1 = Some (0, h2)"
    using h2 bits(1) ep_idx_bit_set [where x = "stream_en_ep h1"]
    by (auto simp: dummy_free_streams_def list_ex_iff ep_bits_def)
  ultimately show ?thesis
    using offered_streams_Inr [OF off] bits(1)
    by (auto simp: dummy_ep_stream_en_def ep_idx_bit_set)
qed

text \<open>
  The stream check of a transfer compares with the number of streams of the last group
  enabled, whatever endpoint the transfer is for, and stops the kernel beyond it: the limit is
  looked up by the endpoint number in place of the pipe, which is the entry of endpoint 0.
\<close>

theorem stream_limit_shared:
  assumes "dummy_alloc_streams eps n h = Some (ret, h1)" and "0 < ret" and "ret \<le> 16"
    and "dummy_ep_stream_en h1 u" and "urb_stream_id u \<noteq> 0" and "urb_stream_id u < 2 ^ 32"
  shows "dummy_validate_stream h1 u = (if int (urb_stream_id u) \<le> ret then Some 0 else None)"
proof -
  have "eps \<noteq> []" "enable_streams eps (word_of_int ret) h = Some h1"
    using assms(1,2) offered_streams_Inl
    by (fastforce simp: dummy_alloc_streams_def bind_eq_Some_conv split: sum.splits if_splits)+
  moreover obtain m :: nat where m: "ret = int m" "0 < m" "m \<le> 16" using assms(2,3)
    by (metis int_nat_eq nat_le_iff of_nat_numeral order_less_imp_le zero_less_nat_eq)
  ultimately have "get_max_streams_for_pipe h1 0 = Some (of_nat m)"
    using enable_streams_limit [of eps "of_nat m" h h1]
    by (simp add: word_le_nat_alt unat_of_nat)
  moreover have "(of_nat (urb_stream_id u) :: u32) > of_nat m \<longleftrightarrow> urb_stream_id u > m"
    using m assms(6) by (simp add: word_less_nat_alt unat_of_nat)
  ultimately show ?thesis
    using assms(4,5) m(1) endpoint_pipe_same(1) [OF usb_pipeendpoint_bound, of h1 "urb_pipe u"]
    by (simp add: dummy_validate_stream_def)
qed

section \<open>Examples\<close>

definition bulk_in_he :: usb_host_endpoint where
  "bulk_in_he = \<lparr>he_desc = zero_desc\<lparr>bEndpointAddress := 0x81, bmAttributes := 2\<rparr>,
     he_ss_ep_comp = \<lparr>bMaxBurst = 0, ss_bmAttributes = 3\<rparr>\<rparr>"

lemma alloc_bulk_in:
  "dummy_alloc_streams [bulk_in_he] 4 zero_hcd
     = Some (4, zero_hcd\<lparr>stream_en_ep := 8, num_stream := (replicate 15 0)[0 := 0x30]\<rparr>)"
  by code_simp

theorem alloc_free_streams_witness:
  "\<exists>h1 h2. dummy_alloc_streams [bulk_in_he] 4 zero_hcd = Some (4, h1)
     \<and> dummy_free_streams [bulk_in_he] h1 = Some (0, h2) \<and> stream_en_ep h2 = 0"
proof -
  have "num_stream zero_hcd \<noteq> []" "stream_en_ep zero_hcd = 0" by (simp_all add: zero_hcd_def)
  then show ?thesis using alloc_free_streams [OF alloc_bulk_in] alloc_bulk_in by auto
qed

theorem stream_limit_shared_witness:
  "\<exists>h1. dummy_alloc_streams [bulk_in_he] 4 zero_hcd = Some (4, h1)
     \<and> dummy_validate_stream h1
         (zero_urb\<lparr>urb_ep_desc := he_desc bulk_in_he, urb_stream_id := 5\<rparr>) = None"
proof -
  let ?h = "zero_hcd\<lparr>stream_en_ep := 8, num_stream := (replicate 15 0)[0 := 0x30]\<rparr>"
  let ?u = "zero_urb\<lparr>urb_ep_desc := he_desc bulk_in_he, urb_stream_id := 5\<rparr>"
  have "dummy_ep_stream_en ?h ?u" by code_simp
  then show ?thesis using stream_limit_shared [OF alloc_bulk_in, of ?u] alloc_bulk_in by auto
qed

end
