(* ===== verification/Dummy_Link.thy ===== *)
theory Dummy_Link
  imports Dummy_State
begin

text \<open>
  The utility routines of the gadget side (dummy\_hcd.c, lines 326 to 484): emptying an endpoint
  queue, stopping all activity, and the link state of a root hub port, which every operation of
  the hub and of the gadget side recomputes after it changed the port.
\<close>

section \<open>Emptying queues\<close>

text \<open>
  The loop runs while the queue is not empty, and the lock is released for every request given
  back, so a gadget driver that queues again from its completion handler keeps it going:
  \<open>None\<close> is a loop that does not end.
\<close>

partial_function (option) nuke :: "env \<Rightarrow> nat \<Rightarrow> dummy_t \<Rightarrow> dummy_t option" where
  "nuke env i d =
     (case queue (ep d ! i) of
        [] \<Rightarrow> Some d
      | r # rest \<Rightarrow>
          nuke env i
            (giveback env i r
              (upd_req r (\<lambda>q. q\<lparr>rq_status := - ESHUTDOWN\<rparr>)
                (upd_ep i (\<lambda>e. e\<lparr>queue := rest\<rparr>) d))))"

primrec nuke_all :: "env \<Rightarrow> nat list \<Rightarrow> dummy_t \<Rightarrow> dummy_t option" where
  "nuke_all env [] d = Some d"
| "nuke_all env (i # is) d = do { d' \<leftarrow> nuke env i d; nuke_all env is d' }"

definition stop_activity :: "env \<Rightarrow> dummy_t \<Rightarrow> dummy_t option" where
  "stop_activity env d = nuke_all env [0..<DUMMY_ENDPOINTS] (d\<lparr>address := 0\<rparr>)"

section \<open>The link state\<close>

definition set_link_state_by_speed :: "dummy_t \<Rightarrow> dummy_hcd \<Rightarrow> dummy_hcd" where
  "set_link_state_by_speed dum h =
     (if speed_of_hcd h = HCD_USB3 then
        if port_status h AND USB_SS_PORT_STAT_POWER = 0 then h\<lparr>port_status := 0\<rparr>
        else if \<not> pullup dum \<or> udc_suspended dum then
          (let h = h\<lparr>port_status := port_status h
                       AND NOT (USB_PORT_STAT_CONNECTION OR USB_PORT_STAT_ENABLE)\<rparr>
           in if old_status h AND USB_PORT_STAT_CONNECTION \<noteq> 0
              then h\<lparr>port_status := port_status h OR PORT_C_CONNECTION\<rparr> else h)
        else
          (let h = h\<lparr>port_status := port_status h
                       OR (USB_PORT_STAT_CONNECTION OR USB_PORT_STAT_SPEED_5GBPS)\<rparr>;
               h = (if old_status h AND USB_PORT_STAT_CONNECTION = 0
                    then h\<lparr>port_status := port_status h OR PORT_C_CONNECTION\<rparr> else h)
           in if port_status h AND USB_PORT_STAT_ENABLE \<noteq> 0
                 \<and> port_status h AND USB_PORT_STAT_LINK_STATE = USB_SS_PORT_LS_U0
                 \<and> rh_state h \<noteq> DUMMY_RH_SUSPENDED
              then h\<lparr>active := True\<rparr> else h)
      else
        if port_status h AND USB_PORT_STAT_POWER = 0 then h\<lparr>port_status := 0\<rparr>
        else if \<not> pullup dum \<or> udc_suspended dum then
          (let h = h\<lparr>port_status := port_status h
                       AND NOT (USB_PORT_STAT_CONNECTION OR USB_PORT_STAT_ENABLE
                         OR USB_PORT_STAT_LOW_SPEED OR USB_PORT_STAT_HIGH_SPEED
                         OR USB_PORT_STAT_SUSPEND)\<rparr>
           in if old_status h AND USB_PORT_STAT_CONNECTION \<noteq> 0
              then h\<lparr>port_status := port_status h OR PORT_C_CONNECTION\<rparr> else h)
        else
          (let h = h\<lparr>port_status := port_status h OR USB_PORT_STAT_CONNECTION\<rparr>;
               h = (if old_status h AND USB_PORT_STAT_CONNECTION = 0
                    then h\<lparr>port_status := port_status h OR PORT_C_CONNECTION\<rparr> else h)
           in if port_status h AND USB_PORT_STAT_ENABLE = 0
              then h\<lparr>port_status := port_status h AND NOT USB_PORT_STAT_SUSPEND\<rparr>
              else if port_status h AND USB_PORT_STAT_SUSPEND = 0
                      \<and> rh_state h \<noteq> DUMMY_RH_SUSPENDED
              then h\<lparr>active := True\<rparr> else h))"

text \<open>
  Calling the gadget driver with the lock released. \<open>dum->driver\<close> is followed for all of them
  but the reset, which the gadget core delivers.
\<close>

definition report_disconnect :: "env \<Rightarrow> bool \<Rightarrow> dummy_t \<Rightarrow> dummy_t option" where
  "report_disconnect env reset d =
     do {
       d \<leftarrow> stop_activity env d;
       let d = d\<lparr>callback_usage := callback_usage d + 1\<rparr>;
       d \<leftarrow> (if reset then Some (udc_reset env (log_event Udc_Reset d))
             else case driver d of
                    None \<Rightarrow> None
                  | Some _ \<Rightarrow> Some (drv_disconnect env (log_event Disconnect d)));
       Some (d\<lparr>callback_usage := callback_usage d - 1\<rparr>)
     }"

definition report_power :: "env \<Rightarrow> bool \<Rightarrow> dummy_t \<Rightarrow> dummy_t option" where
  "report_power env was_active d =
     (let d = d\<lparr>callback_usage := callback_usage d + 1\<rparr> in
      case driver d of
        None \<Rightarrow> None
      | Some drv \<Rightarrow>
          (let d = (if was_active \<and> has_suspend drv
                    then drv_suspend env (log_event Suspend d)
                    else if \<not> was_active \<and> has_resume drv
                    then drv_resume env (log_event Resume d)
                    else d)
           in Some (d\<lparr>callback_usage := callback_usage d - 1\<rparr>)))"

text \<open>The port serves the other kind of hub than the speed of the connected gadget.\<close>

definition wrong_hub :: "dummy_t \<Rightarrow> dummy_hcd \<Rightarrow> bool" where
  "wrong_hub dum h \<longleftrightarrow> pullup dum
     \<and> (speed_of_hcd h = HCD_USB3 \<and> speed (gadget dum) \<noteq> USB_SPEED_SUPER
        \<or> speed_of_hcd h \<noteq> HCD_USB3 \<and> speed (gadget dum) = USB_SPEED_SUPER)"

definition power_bit :: "dummy_hcd \<Rightarrow> u32" where
  "power_bit h =
     (if speed_of_hcd h = HCD_USB3 then USB_SS_PORT_STAT_POWER else USB_PORT_STAT_POWER)"

text \<open>
  The change of the port itself, and the report of it. After the report the status is read
  again: the callbacks may have changed it.
\<close>

definition new_link_state :: "dummy_t \<Rightarrow> dummy_hcd \<Rightarrow> dummy_hcd" where
  "new_link_state dum h =
     (let h = set_link_state_by_speed dum h
      in if port_status h AND USB_PORT_STAT_ENABLE = 0 \<or> active h
         then h\<lparr>resuming := False\<rparr> else h)"

definition report_link_state :: "env \<Rightarrow> dummy_hcd \<Rightarrow> dummy_t \<Rightarrow> dummy_t option" where
  "report_link_state env h d =
     (if port_status h AND power_bit h = 0 \<or> port_status h AND USB_PORT_STAT_RESET \<noteq> 0 then
        (let disconnect = power_bit h AND old_status h AND NOT (port_status h);
             reset = USB_PORT_STAT_RESET AND NOT (old_status h) AND port_status h
         in if ints_enabled d \<and> (disconnect \<noteq> 0 \<or> reset \<noteq> 0)
            then report_disconnect env (reset \<noteq> 0) d else Some d)
      else if active h \<noteq> old_active h \<and> ints_enabled d
      then report_power env (old_active h) d
      else Some d)"

definition set_link_state :: "env \<Rightarrow> hcd_sel \<Rightarrow> dummy_t \<Rightarrow> dummy_t option" where
  "set_link_state env w d =
     do {
       h \<leftarrow> hcd_of w d;
       let h = h\<lparr>active := False\<rparr>;
       if wrong_hub d h then Some (set_hcd w h d)
       else do {
         let h = new_link_state d h;
         d \<leftarrow> report_link_state env h (set_hcd w h d);
         h \<leftarrow> hcd_of w d;
         Some (set_hcd w (h\<lparr>old_status := port_status h, old_active := active h\<rparr>) d)
       }
     }"

section \<open>What the driver expects of its callbacks\<close>

definition same_hubs :: "dummy_t \<Rightarrow> dummy_t \<Rightarrow> bool" where
  "same_hubs d d' \<longleftrightarrow> hs_hcd d' = hs_hcd d \<and> ss_hcd d' = ss_hcd d"

definition no_new_requests :: "dummy_t \<Rightarrow> dummy_t \<Rightarrow> bool" where
  "no_new_requests d d' \<longleftrightarrow> length (ep d') = length (ep d)
     \<and> (\<forall>j < length (ep d). length (queue (ep d' ! j)) \<le> length (queue (ep d ! j)))"

definition cooperative :: "env \<Rightarrow> bool" where
  "cooperative env \<longleftrightarrow>
     (\<forall>i r d. same_hubs d (giveback_request env i r d)
        \<and> no_new_requests d (giveback_request env i r d)
        \<and> driver (giveback_request env i r d) = driver d)
     \<and> (\<forall>d. same_hubs d (udc_reset env d)) \<and> (\<forall>d. same_hubs d (drv_disconnect env d))
     \<and> (\<forall>d. same_hubs d (drv_suspend env d)) \<and> (\<forall>d. same_hubs d (drv_resume env d))
     \<and> (\<forall>w d. same_hubs d (poll_rh_status env w d))
     \<and> (\<forall>w d. same_hubs d (resume_root_hub env w d))"

lemma same_hubs_hcd_of: "same_hubs d d' \<Longrightarrow> hcd_of w d' = hcd_of w d"
  by (cases w) (simp_all add: same_hubs_def hcd_of_def)

lemma same_hubs_trans: "same_hubs a b \<Longrightarrow> same_hubs b c \<Longrightarrow> same_hubs a c"
  by (simp add: same_hubs_def)

lemma no_new_requests_trans:
  "no_new_requests a b \<Longrightarrow> no_new_requests b c \<Longrightarrow> no_new_requests a c"
  by (fastforce simp: no_new_requests_def)

lemma idle_env_cooperative [simp]: "cooperative idle_env"
  by (simp add: cooperative_def same_hubs_def no_new_requests_def)

definition nuke_step :: "env \<Rightarrow> nat \<Rightarrow> nat \<Rightarrow> nat list \<Rightarrow> dummy_t \<Rightarrow> dummy_t" where
  "nuke_step env i r rest d =
     giveback env i r
       (upd_req r (\<lambda>q. q\<lparr>rq_status := - ESHUTDOWN\<rparr>) (upd_ep i (\<lambda>e. e\<lparr>queue := rest\<rparr>) d))"

lemma nuke_Nil [simp]: "queue (ep d ! i) = [] \<Longrightarrow> nuke env i d = Some d"
  by (simp add: nuke.simps)

lemma nuke_Cons: "queue (ep d ! i) = r # rest \<Longrightarrow> nuke env i d = nuke env i (nuke_step env i r rest d)"
  by (simp add: nuke.simps [of env i d] nuke_step_def)

lemma nuke_induct:
  assumes ret: "nuke env i d = Some d'"
    and fin: "\<And>d. queue (ep d ! i) = [] \<Longrightarrow> P d d"
    and step: "\<And>d d' r rest. queue (ep d ! i) = r # rest \<Longrightarrow> P (nuke_step env i r rest d) d' \<Longrightarrow> P d d'"
  shows "P d d'"
proof -
  have "env0 = env \<longrightarrow> i0 = i \<longrightarrow> P d d'" if "nuke env0 i0 d = Some d'" for env0 i0
  proof (rule nuke.raw_induct [where P = "\<lambda>env0 i0 d d'. env0 = env \<longrightarrow> i0 = i \<longrightarrow> P d d'", OF _ that])
    fix f env0 i0 d d'
    assume IH: "\<And>env0 i0 d d'. f env0 i0 d = Some d' \<Longrightarrow> env0 = env \<longrightarrow> i0 = i \<longrightarrow> P d d'"
      and eq: "(case queue (ep d ! i0) of [] \<Rightarrow> Some d
        | r # rest \<Rightarrow> f env0 i0 (giveback env0 i0 r
              (upd_req r (\<lambda>q. q\<lparr>rq_status := - ESHUTDOWN\<rparr>)
                (upd_ep i0 (\<lambda>e. e\<lparr>queue := rest\<rparr>) d)))) = Some d'"
    show "env0 = env \<longrightarrow> i0 = i \<longrightarrow> P d d'"
      using eq IH fin step by (auto simp: nuke_step_def split: list.splits)
  qed
  with ret show ?thesis by blast
qed

lemma nuke_empties: "nuke env i d = Some d' \<Longrightarrow> queue (ep d' ! i) = []"
  by (rule nuke_induct [where P = "\<lambda>d d'. queue (ep d' ! i) = []"])

lemma nuke_step_cooperative:
  assumes "cooperative env" and "queue (ep d ! i) = r # rest"
  shows "same_hubs d (nuke_step env i r rest d)" "no_new_requests d (nuke_step env i r rest d)"
    "driver (nuke_step env i r rest d) = driver d"
    "i < length (ep d) \<Longrightarrow> length (queue (ep (nuke_step env i r rest d) ! i)) \<le> length rest"
proof -
  let ?d = "log_event (Giveback i r (- ESHUTDOWN) (rq_actual (reqs d r)))
      (upd_req r (\<lambda>q. q\<lparr>rq_status := - ESHUTDOWN\<rparr>) (upd_ep i (\<lambda>e. e\<lparr>queue := rest\<rparr>) d))"
  have eq: "nuke_step env i r rest d = giveback_request env i r ?d"
    by (simp add: nuke_step_def giveback_def)
  have c: "same_hubs ?d (giveback_request env i r ?d)"
     "no_new_requests ?d (giveback_request env i r ?d)"
     "driver (giveback_request env i r ?d) = driver ?d"
    using assms(1) by (simp_all add: cooperative_def)
  show "same_hubs d (nuke_step env i r rest d)"
    using c(1) by (simp add: eq same_hubs_def log_event_def upd_req_def upd_ep_def)
  have "no_new_requests d ?d"
    using assms(2)
    by (cases "i < length (ep d)")
      (auto simp: no_new_requests_def nth_list_update list_update_beyond)
  then show "no_new_requests d (nuke_step env i r rest d)"
    using c(2) unfolding eq by (rule no_new_requests_trans)
  show "driver (nuke_step env i r rest d) = driver d" using c(3) by (simp add: eq)
  show "length (queue (ep (nuke_step env i r rest d) ! i)) \<le> length rest" if "i < length (ep d)"
    using c(2) that unfolding eq by (auto simp: no_new_requests_def)
qed

lemma nuke_returns:
  assumes "cooperative env" and "i < length (ep d)"
  shows "\<exists>d'. nuke env i d = Some d'"
  using assms(2)
proof (induction "length (queue (ep d ! i))" arbitrary: d rule: less_induct)
  case less
  show ?case
  proof (cases "queue (ep d ! i)")
    case Nil
    then show ?thesis by simp
  next
    case (Cons r rest)
    note s = nuke_step_cooperative [OF assms(1) Cons]
    have "i < length (ep (nuke_step env i r rest d))"
      using s(2) less.prems by (simp add: no_new_requests_def)
    moreover have "length (queue (ep (nuke_step env i r rest d) ! i)) < length (queue (ep d ! i))"
      using s(4) less.prems Cons by (simp add: le_imp_less_Suc)
    ultimately show ?thesis using less.hyps by (simp add: nuke_Cons [OF Cons])
  qed
qed

lemma nuke_cooperative:
  assumes "cooperative env" and ret: "nuke env i d = Some d'"
  shows "same_hubs d d'" "no_new_requests d d'" "driver d' = driver d"
proof -
  have "same_hubs d d' \<and> no_new_requests d d' \<and> driver d' = driver d"
    using ret
  proof (rule nuke_induct)
    show "same_hubs d d \<and> no_new_requests d d \<and> driver d = driver d" for d
      by (simp add: same_hubs_def no_new_requests_def)
  next
    fix d d' r rest
    assume q: "queue (ep d ! i) = r # rest"
      and IH: "same_hubs (nuke_step env i r rest d) d' \<and> no_new_requests (nuke_step env i r rest d) d'
         \<and> driver d' = driver (nuke_step env i r rest d)"
    note s = nuke_step_cooperative [OF assms(1) q]
    then show "same_hubs d d' \<and> no_new_requests d d' \<and> driver d' = driver d"
      using IH by (blast intro: same_hubs_trans no_new_requests_trans trans)
  qed
  then show "same_hubs d d'" "no_new_requests d d'" "driver d' = driver d" by auto
qed

lemma nuke_all_returns:
  assumes "cooperative env" and "\<forall>i \<in> set is. i < length (ep d)"
  shows "\<exists>d'. nuke_all env is d = Some d'"
  using assms(2)
proof (induction "is" arbitrary: d)
  case Nil
  then show ?case by simp
next
  case (Cons i "is")
  then obtain d1 where d1: "nuke env i d = Some d1"
    using nuke_returns [OF assms(1), of i d] by auto
  then have "length (ep d1) = length (ep d)"
    using nuke_cooperative(2) [OF assms(1) d1] by (simp add: no_new_requests_def)
  with Cons d1 show ?case by simp
qed

lemma nuke_all_cooperative:
  assumes "cooperative env" and "nuke_all env is d = Some d'"
  shows "same_hubs d d' \<and> no_new_requests d d' \<and> driver d' = driver d"
  using assms(2)
proof (induction "is" arbitrary: d)
  case Nil
  then show ?case by (simp add: same_hubs_def no_new_requests_def)
next
  case (Cons i "is")
  then obtain d1 where d1: "nuke env i d = Some d1" "nuke_all env is d1 = Some d'"
    by (auto simp: bind_eq_Some_conv)
  from Cons.IH [OF d1(2)] nuke_cooperative [OF assms(1) d1(1)] show ?case
    by (auto intro: same_hubs_trans no_new_requests_trans)
qed

lemma nuke_all_empties:
  assumes "cooperative env" and "nuke_all env is d = Some d'"
    and "\<forall>i \<in> set is. i < length (ep d)" and "j \<in> set is"
  shows "queue (ep d' ! j) = []"
  using assms(2-)
proof (induction "is" arbitrary: d)
  case Nil
  then show ?case by simp
next
  case (Cons i "is")
  then obtain d1 where d1: "nuke env i d = Some d1" "nuke_all env is d1 = Some d'"
    by (auto simp: bind_eq_Some_conv)
  have len: "length (ep d1) = length (ep d)"
    using nuke_cooperative(2) [OF assms(1) d1(1)] by (simp add: no_new_requests_def)
  show ?case
  proof (cases "j \<in> set is")
    case True
    with Cons d1(2) len show ?thesis by auto
  next
    case False
    with Cons.prems(3) have "j = i" by simp
    then have "queue (ep d1 ! j) = []" using nuke_empties [OF d1(1)] by simp
    then show ?thesis
      using nuke_all_cooperative [OF assms(1) d1(2)] Cons.prems(2,3) len \<open>j = i\<close>
      by (fastforce simp: no_new_requests_def)
  qed
qed

lemma stop_activity_cooperative:
  assumes "cooperative env" and "length (ep d) = DUMMY_ENDPOINTS"
  obtains d' where "stop_activity env d = Some d'"
    "same_hubs d d'" "driver d' = driver d"
    "\<And>i. i < DUMMY_ENDPOINTS \<Longrightarrow> queue (ep d' ! i) = []"
proof -
  let ?d = "d\<lparr>address := 0\<rparr>"
  have ix: "\<forall>i \<in> set [0..<DUMMY_ENDPOINTS]. i < length (ep ?d)" using assms(2) by simp
  then obtain d' where d': "nuke_all env [0..<DUMMY_ENDPOINTS] ?d = Some d'"
    using nuke_all_returns [OF assms(1)] by blast
  have "same_hubs d d'" "driver d' = driver d"
    using nuke_all_cooperative [OF assms(1) d'] by (auto simp: same_hubs_def)
  moreover have "\<And>i. i < DUMMY_ENDPOINTS \<Longrightarrow> queue (ep d' ! i) = []"
    using nuke_all_empties [OF assms(1) d' ix] by simp
  ultimately show ?thesis using that d' by (simp add: stop_activity_def)
qed

section \<open>The link state\<close>

abbreviation connected :: "dummy_hcd \<Rightarrow> bool" where
  "connected h \<equiv> port_status h AND USB_PORT_STAT_CONNECTION \<noteq> 0"
abbreviation enabled :: "dummy_hcd \<Rightarrow> bool" where
  "enabled h \<equiv> port_status h AND USB_PORT_STAT_ENABLE \<noteq> 0"
abbreviation suspended :: "dummy_hcd \<Rightarrow> bool" where
  "suspended h \<equiv> port_status h AND USB_PORT_STAT_SUSPEND \<noteq> 0"
abbreviation in_reset :: "dummy_hcd \<Rightarrow> bool" where
  "in_reset h \<equiv> port_status h AND USB_PORT_STAT_RESET \<noteq> 0"
abbreviation powered :: "dummy_hcd \<Rightarrow> bool" where
  "powered h \<equiv> port_status h AND power_bit h \<noteq> 0"

definition link_up :: "dummy_hcd \<Rightarrow> bool" where
  "link_up h \<longleftrightarrow> connected h \<and> enabled h \<and> rh_state h \<noteq> DUMMY_RH_SUSPENDED
     \<and> (if speed_of_hcd h = HCD_USB3
        then port_status h AND USB_PORT_STAT_LINK_STATE = USB_SS_PORT_LS_U0
        else \<not> suspended h)"

definition synced :: "dummy_hcd \<Rightarrow> dummy_hcd" where
  "synced h = h\<lparr>old_status := port_status h, old_active := active h\<rparr>"

definition link_result :: "dummy_t \<Rightarrow> dummy_hcd \<Rightarrow> dummy_hcd" where
  "link_result d h =
     (let h = h\<lparr>active := False\<rparr>
      in if wrong_hub d h then h else synced (new_link_state d h))"

lemma set_link_state_by_speed_frame [simp]:
  "speed_of_hcd (set_link_state_by_speed d h) = speed_of_hcd h"
  "rh_state (set_link_state_by_speed d h) = rh_state h"
  "old_status (set_link_state_by_speed d h) = old_status h"
  "old_active (set_link_state_by_speed d h) = old_active h"
  "re_timeout (set_link_state_by_speed d h) = re_timeout h"
  "urbp_list (set_link_state_by_speed d h) = urbp_list h"
  "udev (set_link_state_by_speed d h) = udev h"
  "timer (set_link_state_by_speed d h) = timer h"
  "hw_accessible (set_link_state_by_speed d h) = hw_accessible h"
  by (simp_all add: set_link_state_by_speed_def Let_def)

lemma new_link_state_frame [simp]:
  "port_status (new_link_state d h) = port_status (set_link_state_by_speed d h)"
  "active (new_link_state d h) = active (set_link_state_by_speed d h)"
  "speed_of_hcd (new_link_state d h) = speed_of_hcd h"
  "rh_state (new_link_state d h) = rh_state h"
  "old_status (new_link_state d h) = old_status h"
  "old_active (new_link_state d h) = old_active h"
  "re_timeout (new_link_state d h) = re_timeout h"
  "urbp_list (new_link_state d h) = urbp_list h"
  "udev (new_link_state d h) = udev h"
  "timer (new_link_state d h) = timer h"
  "hw_accessible (new_link_state d h) = hw_accessible h"
  by (simp_all add: new_link_state_def Let_def)

lemma power_bit_frame [simp]:
  "power_bit (h\<lparr>active := a\<rparr>) = power_bit h"
  "power_bit (h\<lparr>port_status := p\<rparr>) = power_bit h"
  by (simp_all add: power_bit_def)

lemma link_state_connected:
  "connected (set_link_state_by_speed d h) \<longleftrightarrow> powered h \<and> pullup d \<and> \<not> udc_suspended d"
  by (simp add: set_link_state_by_speed_def power_bit_def flags Let_def)

lemma link_state_change:
  "port_status (set_link_state_by_speed d h) AND PORT_C_CONNECTION \<noteq> 0
     \<longleftrightarrow> powered h
       \<and> (port_status h AND PORT_C_CONNECTION \<noteq> 0
           \<or> connected (set_link_state_by_speed d h)
               \<noteq> (old_status h AND USB_PORT_STAT_CONNECTION \<noteq> 0))"
  by (auto simp add: set_link_state_by_speed_def power_bit_def flags Let_def)

lemma link_state_active:
  "\<not> active h \<Longrightarrow>
     active (set_link_state_by_speed d h) \<longleftrightarrow> link_up (set_link_state_by_speed d h)"
  by (auto simp add: set_link_state_by_speed_def link_up_def power_bit_def flags Let_def)

lemma link_state_off: "\<not> powered h \<Longrightarrow> port_status (set_link_state_by_speed d h) = 0"
  by (cases "speed_of_hcd h = HCD_USB3") (simp_all add: set_link_state_by_speed_def power_bit_def)

lemma report_cooperative:
  assumes "cooperative env" and "wf_dummy d"
  shows "\<exists>d'. report_link_state env h d = Some d' \<and> same_hubs d d'"
proof -
  have coop: "same_hubs x (udc_reset env x)" "same_hubs x (drv_disconnect env x)"
     "same_hubs x (drv_suspend env x)" "same_hubs x (drv_resume env x)" for x
    using assms(1) by (simp_all add: cooperative_def)
  have upd: "same_hubs x (f (log_event e (x\<lparr>callback_usage := c\<rparr>)))"
    if "\<And>y. same_hubs y (f y)" for x f e c
    using that [of "log_event e (x\<lparr>callback_usage := c\<rparr>)"]
    by (simp add: same_hubs_def log_event_def)
  show ?thesis
  proof (cases "ints_enabled d")
    case False
    then show ?thesis by (simp add: report_link_state_def same_hubs_def Let_def)
  next
    case True
    then obtain drv where drv: "driver d = Some drv"
      using wf_dummyD(3) [OF assms(2)] by auto
    obtain d1 where d1: "stop_activity env d = Some d1" "same_hubs d d1" "driver d1 = Some drv"
      using stop_activity_cooperative [OF assms(1) wf_dummyD(4) [OF assms(2)]] drv by metis
    have "\<exists>d'. report_disconnect env b d = Some d' \<and> same_hubs d d'" for b
      using d1 upd [OF coop(1)] upd [OF coop(2)]
      by (cases b) (auto simp: report_disconnect_def same_hubs_def Let_def)
    moreover have "\<exists>d'. report_power env b d = Some d' \<and> same_hubs d d'" for b
      using drv upd [OF coop(3)] upd [OF coop(4)]
      by (auto simp: report_power_def same_hubs_def Let_def)
    moreover have "same_hubs d d" by (simp add: same_hubs_def)
    ultimately show ?thesis by (auto simp: report_link_state_def Let_def)
  qed
qed

lemma wf_set_hcd [simp]: "wf_dummy (set_hcd w h d) = wf_dummy d"
  by (simp add: wf_dummy_def wf_queues_def queued_def)

lemma set_link_state_result:
  assumes "cooperative env" and "wf_dummy d" and "hcd_of w d = Some h"
  shows "\<exists>d'. set_link_state env w d = Some d' \<and> hcd_of w d' = Some (link_result d h)"
proof (cases "wrong_hub d (h\<lparr>active := False\<rparr>)")
  case True
  with assms(3) show ?thesis by (simp add: set_link_state_def link_result_def)
next
  case False
  let ?h = "new_link_state d (h\<lparr>active := False\<rparr>)"
  obtain d1 where d1: "report_link_state env ?h (set_hcd w ?h d) = Some d1"
     "same_hubs (set_hcd w ?h d) d1"
    using report_cooperative [OF assms(1), of "set_hcd w ?h d" ?h] assms(2) by auto
  have "hcd_of w d1 = Some ?h" using same_hubs_hcd_of [OF d1(2)] by simp
  with False d1(1) assms(3) show ?thesis
    by (simp add: set_link_state_def link_result_def synced_def Let_def)
qed

section \<open>The controller stays well formed\<close>

text \<open>
  What the environment promises besides: a callback finds a well-formed controller and leaves
  one, and it does not enable the interrupts of a controller that has them disabled.
\<close>

definition steady :: "dummy_t \<Rightarrow> dummy_t \<Rightarrow> bool" where
  "steady d d' \<longleftrightarrow> (wf_dummy d \<longrightarrow> wf_dummy d') \<and> (ints_enabled d' \<longrightarrow> ints_enabled d)"

definition env_ok :: "env \<Rightarrow> bool" where
  "env_ok env \<longleftrightarrow>
     (\<forall>i r d. steady d (giveback_request env i r d))
     \<and> (\<forall>d. steady d (udc_reset env d)) \<and> (\<forall>d. steady d (drv_disconnect env d))
     \<and> (\<forall>d. steady d (drv_suspend env d)) \<and> (\<forall>d. steady d (drv_resume env d))
     \<and> (\<forall>c d. steady d (snd (drv_setup env c d)))
     \<and> (\<forall>w u st d. steady d (giveback_urb env w u st d))
     \<and> (\<forall>w d. steady d (poll_rh_status env w d)) \<and> (\<forall>w d. steady d (resume_root_hub env w d))
     \<and> (\<forall>d. steady d (usleep_range env d))"

lemma steady_refl [simp]: "steady d d"
  by (simp add: steady_def)

lemma steady_trans [trans]: "steady a b \<Longrightarrow> steady b c \<Longrightarrow> steady a c"
  by (auto simp: steady_def)

lemma idle_env_ok [simp]: "env_ok idle_env"
  by (simp add: env_ok_def)

lemma env_okD:
  assumes "env_ok env"
  shows "steady d (giveback_request env i r d)" "steady d (udc_reset env d)"
    "steady d (drv_disconnect env d)" "steady d (drv_suspend env d)"
    "steady d (drv_resume env d)" "steady d (snd (drv_setup env c d))"
    "steady d (giveback_urb env w u st d)" "steady d (poll_rh_status env w d)"
    "steady d (resume_root_hub env w d)" "steady d (usleep_range env d)"
  using assms by (simp_all add: env_ok_def)

lemma steady_fields [simp]:
  "steady a (d\<lparr>address := x\<rparr>) = steady a d"
  "steady a (d\<lparr>callback_usage := c\<rparr>) = steady a d"
  "steady a (d\<lparr>gadget := g\<rparr>) = steady a d"
  "steady a (d\<lparr>devstatus := ds\<rparr>) = steady a d"
  "steady a (d\<lparr>udc_suspended := b\<rparr>) = steady a d"
  "steady a (d\<lparr>pullup := b\<rparr>) = steady a d"
  "steady a (log_event ev d) = steady a d"
  "steady a (set_hcd w h d) = steady a d"
  "steady (d\<lparr>address := x\<rparr>) a = steady d a"
  "steady (d\<lparr>callback_usage := c\<rparr>) a = steady d a"
  "steady (d\<lparr>gadget := g\<rparr>) a = steady d a"
  "steady (d\<lparr>devstatus := ds\<rparr>) a = steady d a"
  "steady (d\<lparr>udc_suspended := b\<rparr>) a = steady d a"
  "steady (d\<lparr>pullup := b\<rparr>) a = steady d a"
  "steady (log_event ev d) a = steady d a"
  "steady (set_hcd w h d) a = steady d a"
  by (simp_all add: steady_def)

lemma steady_callback:
  assumes "\<And>d. steady d (f d)" and "steady a d"
  shows "steady a (f d)"
  using assms steady_trans by blast

text \<open>A request that leaves its queue may get any status.\<close>

lemma steady_dequeue:
  assumes "i < DUMMY_ENDPOINTS"
    and q: "queue (ep d ! i) = xs @ r # ys" "queue (g (ep d ! i)) = xs @ ys"
  shows "steady d (upd_req r f (upd_ep i g d))"
proof -
  have "wf_dummy (upd_req r f (upd_ep i g d))" if wf: "wf_dummy d"
  proof (rule wf_upd_req)
    have i: "i < length (ep d)" using assms(1) wf_dummyD(4) [OF wf] by simp
    then have "distinct (queue (ep d ! i))"
      using wf by (auto simp: wf_dummy_def wf_queues_def distinct_concat_iff)
    then show "wf_dummy (upd_ep i g d)"
      using wf q by (intro wf_upd_ep_queue) auto
    show "\<not> queued r (upd_ep i g d)"
      using wf i q by (intro dequeued_not_queued) (auto simp: wf_dummy_def)
  qed
  then show ?thesis by (simp add: steady_def)
qed

lemma steady_giveback:
  assumes "env_ok env" and "steady a d"
  shows "steady a (giveback env i r d)"
proof -
  let ?d = "log_event (Giveback i r (rq_status (reqs d r)) (rq_actual (reqs d r))) d"
  have "steady a ?d" using assms(2) by simp
  also have "steady ?d (giveback_request env i r ?d)" by (rule env_okD(1) [OF assms(1)])
  finally show ?thesis by (simp add: giveback_def)
qed

lemma steady_upd_ep: "(\<And>e. queue (f e) = queue e) \<Longrightarrow> steady d (upd_ep i f d)"
  by (simp add: steady_def wf_upd_ep_fields)

lemma nuke_steady:
  assumes "env_ok env" and "i < DUMMY_ENDPOINTS" and "nuke env i d = Some d'"
  shows "steady d d'"
  using assms(3)
proof (rule nuke_induct)
  fix d d' r rest
  assume q: "queue (ep d ! i) = r # rest" and IH: "steady (nuke_step env i r rest d) d'"
  have "steady d (nuke_step env i r rest d)"
    unfolding nuke_step_def
    by (rule steady_giveback [OF assms(1)], rule steady_dequeue [OF assms(2), of d "[]" r rest])
      (simp_all add: q)
  with IH show "steady d d'" by (rule steady_trans [rotated])
qed simp

lemma nuke_all_steady:
  assumes "env_ok env" and "\<forall>i \<in> set is. i < DUMMY_ENDPOINTS" and "nuke_all env is d = Some d'"
  shows "steady d d'"
  using assms(2,3)
proof (induction "is" arbitrary: d)
  case (Cons i "is")
  then show ?case
    by (auto simp: bind_eq_Some_conv intro: steady_trans nuke_steady [OF assms(1)])
qed simp

lemma stop_activity_steady:
  assumes "env_ok env" and "stop_activity env d = Some d'"
  shows "steady d d'"
proof -
  have "steady (d\<lparr>address := 0\<rparr>) d'"
    using assms by (intro nuke_all_steady) (auto simp: stop_activity_def)
  then show ?thesis by (simp add: steady_def)
qed

lemma report_link_state_steady:
  assumes env: "env_ok env" and "report_link_state env h d = Some d'"
  shows "steady d d'"
proof -
  have "steady d d'" if dis: "report_disconnect env b d = Some d'" for b
  proof -
    obtain d1 where d1: "stop_activity env d = Some d1" using dis
      by (auto simp: report_disconnect_def bind_eq_Some_conv)
    have "steady d1 d'"
      using dis d1 by (cases b)
        (auto simp: report_disconnect_def Let_def split: option.splits
          intro!: steady_callback [OF env_okD(2) [OF env]] steady_callback [OF env_okD(3) [OF env]])
    with stop_activity_steady [OF env d1] show ?thesis by (rule steady_trans)
  qed
  moreover have "steady d d'" if "report_power env b d = Some d'" for b
    using that
    by (auto simp: report_power_def Let_def split: option.splits if_splits
        intro!: steady_callback [OF env_okD(4) [OF env]] steady_callback [OF env_okD(5) [OF env]])
  ultimately show ?thesis
    using assms(2) by (auto simp: report_link_state_def Let_def split: if_splits)
qed

lemma set_link_state_steady:
  assumes "env_ok env" and "set_link_state env w d = Some d'"
  shows "steady d d'"
  using assms(2)
  by (auto simp: set_link_state_def bind_eq_Some_conv Let_def split: if_splits
      dest!: report_link_state_steady [OF assms(1)])

lemma link_state_keeps:
  "in_reset (set_link_state_by_speed d h) \<longleftrightarrow> powered h \<and> in_reset h"
  "port_status (set_link_state_by_speed d h) AND power_bit h \<noteq> 0 \<longleftrightarrow> powered h"
  by (auto simp add: set_link_state_by_speed_def power_bit_def flags Let_def)

lemma power_bit_new [simp]: "power_bit (new_link_state d h) = power_bit h"
  by (simp add: power_bit_def)

lemma link_up_new [simp]: "link_up (new_link_state d h) = link_up (set_link_state_by_speed d h)"
  by (simp add: link_up_def)

lemma wrong_hub_fields [simp]: "wrong_hub d (h\<lparr>active := a\<rparr>) = wrong_hub d h"
  by (simp add: wrong_hub_def)

section \<open>What the hub operations rely on\<close>

text \<open>
  The contract of the link state with the operations of the hubs: recomputing it always returns,
  and the port it leaves is a function of the controller and the port before. What the hub
  operations use are the consequences below.
\<close>

lemma link_result_cong:
  assumes "pullup d' = pullup d" and "udc_suspended d' = udc_suspended d"
    and "speed (gadget d') = speed (gadget d)"
  shows "link_result d' h = link_result d h"
proof -
  have "set_link_state_by_speed d' x = set_link_state_by_speed d x" for x
    using assms by (simp add: set_link_state_by_speed_def)
  then have "new_link_state d' x = new_link_state d x" for x by (simp add: new_link_state_def)
  moreover have "wrong_hub d' x = wrong_hub d x" for x using assms by (simp add: wrong_hub_def)
  ultimately show ?thesis by (simp only: link_result_def Let_def)
qed

locale link_sync =
  fixes sync :: "hcd_sel \<Rightarrow> dummy_t \<Rightarrow> dummy_t option"
  assumes sync_result: "wf_dummy d \<Longrightarrow> hcd_of w d = Some h \<Longrightarrow>
    \<exists>d'. sync w d = Some d' \<and> hcd_of w d' = Some (link_result d h)"
begin

lemma sync_defined: "wf_dummy d \<Longrightarrow> hcd_of w d \<noteq> None \<Longrightarrow> sync w d \<noteq> None"
  using sync_result by blast

lemma sync_port:
  assumes "wf_dummy d"
  obtains d' where "sync w (set_hcd w h d) = Some d'" "hcd_of w d' = Some (link_result d h)"
proof -
  have "link_result (set_hcd w h d) h = link_result d h"
    by (rule link_result_cong) simp_all
  then show ?thesis using that sync_result [of "set_hcd w h d" w h] assms by auto
qed

end

lemma link_sync_set_link_state: "cooperative env \<Longrightarrow> link_sync (set_link_state env)"
  by unfold_locales (rule set_link_state_result)

interpretation idle_link: link_sync "set_link_state idle_env"
  by (rule link_sync_set_link_state) simp

section \<open>The specification of the link state\<close>

text \<open>
  C9. Recomputing the link state of a port, on a consistent controller whose gadget driver's
  callbacks leave the hubs alone. When the device pulls up on the other hub (its speed is
  SuperSpeed and the hub is not the one of USB 3.0, or the other way round), the link becomes
  inactive and nothing else changes. Otherwise, whatever the port was, it is left connected
  exactly when it is powered, the device pulls up and is not suspended; a connection change is
  reported exactly when one was pending or the connection differs from the status remembered; the
  link is active exactly when a connected, enabled port of a running hub is not suspended (in U0,
  on the USB 3.0 hub); a resume ends when the port is disabled or active; a port without power is
  cleared; and the status it is left with is remembered.
\<close>

theorem link_state_spec:
  assumes "cooperative env" and "wf_dummy d" and "hcd_of w d = Some h"
  shows "if wrong_hub d h then set_link_state env w d = Some (set_hcd w (h\<lparr>active := False\<rparr>) d)
     else \<exists>d' h'. set_link_state env w d = Some d' \<and> hcd_of w d' = Some h'
     \<and> (connected h' \<longleftrightarrow> powered h \<and> pullup d \<and> \<not> udc_suspended d)
     \<and> (port_status h' AND PORT_C_CONNECTION \<noteq> 0 \<longleftrightarrow>
          powered h \<and> (port_status h AND PORT_C_CONNECTION \<noteq> 0
            \<or> connected h' \<noteq> (old_status h AND USB_PORT_STAT_CONNECTION \<noteq> 0)))
     \<and> (active h' \<longleftrightarrow> link_up h')
     \<and> (resuming h' \<longleftrightarrow> resuming h \<and> enabled h' \<and> \<not> active h')
     \<and> (\<not> powered h \<longrightarrow> port_status h' = 0)
     \<and> old_status h' = port_status h' \<and> old_active h' = active h'"
proof (cases "wrong_hub d h")
  case True
  then have "wrong_hub d (h\<lparr>active := False\<rparr>)" by (simp add: wrong_hub_def)
  then show ?thesis using True assms(3) by (simp add: set_link_state_def)
next
  case right: False
  let ?h = "h\<lparr>active := False\<rparr>"
  obtain d' where d': "set_link_state env w d = Some d'" "hcd_of w d' = Some (link_result d h)"
    using set_link_state_result [OF assms(1-3)] by blast
  have res: "link_result d h = synced (new_link_state d ?h)"
    using right by (auto simp: link_result_def Let_def wrong_hub_def)
  have "connected (link_result d h) \<longleftrightarrow> powered h \<and> pullup d \<and> \<not> udc_suspended d"
    using link_state_connected [of d ?h] by (simp add: res synced_def)
  moreover have "port_status (link_result d h) AND PORT_C_CONNECTION \<noteq> 0 \<longleftrightarrow>
          powered h \<and> (port_status h AND PORT_C_CONNECTION \<noteq> 0
            \<or> connected (link_result d h) \<noteq> (old_status h AND USB_PORT_STAT_CONNECTION \<noteq> 0))"
    using link_state_change [of d ?h] by (simp add: res synced_def)
  moreover have "active (link_result d h) \<longleftrightarrow> link_up (link_result d h)"
    using link_state_active [of ?h d] by (simp add: res synced_def link_up_def)
  moreover have "resuming (link_result d h) \<longleftrightarrow>
      resuming h \<and> enabled (link_result d h) \<and> \<not> active (link_result d h)"
    by (auto simp: res synced_def new_link_state_def set_link_state_by_speed_def Let_def)
  moreover have "\<not> powered h \<longrightarrow> port_status (link_result d h) = 0"
    using link_state_off [of ?h d] by (simp add: res synced_def)
  moreover have "old_status (link_result d h) = port_status (link_result d h)"
     "old_active (link_result d h) = active (link_result d h)"
    by (simp_all add: res synced_def)
  ultimately show ?thesis using d' right by auto
qed

theorem link_state_spec_witness:
  "(\<exists>d' h'. set_link_state idle_env HS demo = Some d' \<and> hcd_of HS d' = Some h' \<and> connected h'
     \<and> port_status h' AND PORT_C_CONNECTION = 0)
   \<and> set_link_state idle_env HS (demo\<lparr>gadget := (gadget demo)\<lparr>speed := USB_SPEED_SUPER\<rparr>\<rparr>)
     = Some (set_hcd HS (demo_hcd\<lparr>active := False\<rparr>) (demo\<lparr>gadget := (gadget demo)\<lparr>speed := USB_SPEED_SUPER\<rparr>\<rparr>))"
proof
  have "\<not> wrong_hub demo demo_hcd" by (simp add: wrong_hub_def)
  then show "\<exists>d' h'. set_link_state idle_env HS demo = Some d' \<and> hcd_of HS d' = Some h' \<and> connected h'
     \<and> port_status h' AND PORT_C_CONNECTION = 0"
    using link_state_spec [OF idle_env_cooperative wf_demo, of HS demo_hcd]
    by (auto simp: power_bit_def)
next
  let ?d = "demo\<lparr>gadget := (gadget demo)\<lparr>speed := USB_SPEED_SUPER\<rparr>\<rparr>"
  have "wf_dummy ?d" using wf_demo by (simp add: wf_dummy_def wf_queues_def queued_def)
  moreover have "hcd_of HS ?d = Some demo_hcd" "wrong_hub ?d demo_hcd" by (simp_all add: wrong_hub_def)
  ultimately show "set_link_state idle_env HS ?d = Some (set_hcd HS (demo_hcd\<lparr>active := False\<rparr>) ?d)"
    using link_state_spec [OF idle_env_cooperative, of ?d HS demo_hcd] by simp
qed

end
