(* ===== verification/Dummy_Gadget.thy ===== *)
theory Dummy_Gadget
  imports Dummy_Link
begin

text \<open>
  The gadget side of the controller (dummy\_hcd.c, lines 488 to 1107): the endpoint operations
  a gadget driver calls, the gadget operations of the UDC core, and the life of the UDC device.
\<close>

section \<open>Endpoint operations\<close>

fun strstr :: "string \<Rightarrow> string \<Rightarrow> bool" where
  "strstr [] needle = (needle = [])"
| "strstr (c # cs) needle = (take (length needle) (c # cs) = needle \<or> strstr cs needle)"

text \<open>The nested switches of the enabling check, with their fall-throughs.\<close>

definition max_ok_full_int :: "nat \<Rightarrow> bool" where
  "max_ok_full_int maxp = (if maxp \<le> 64 then True else maxp \<le> 8)"

definition endpoint_ok :: "string \<Rightarrow> usb_device_speed \<Rightarrow> usb_endpoint_descriptor \<Rightarrow> nat \<Rightarrow> bool" where
  "endpoint_ok name spd ds maxp =
     (case usb_endpoint_type ds of
        USB_ENDPOINT_XFER_BULK \<Rightarrow>
          if strstr name ''-iso'' \<or> strstr name ''-int'' then False
          else (case spd of
                  USB_SPEED_SUPER \<Rightarrow> maxp = 1024
                | USB_SPEED_HIGH \<Rightarrow> maxp = 512
                | USB_SPEED_FULL \<Rightarrow> maxp = 8 \<or> maxp = 16 \<or> maxp = 32 \<or> maxp = 64
                | _ \<Rightarrow> False)
      | USB_ENDPOINT_XFER_INT \<Rightarrow>
          if strstr name ''-iso'' then False
          else (case spd of
                  USB_SPEED_SUPER \<Rightarrow> if maxp \<le> 1024 then True else max_ok_full_int maxp
                | USB_SPEED_HIGH \<Rightarrow> if maxp \<le> 1024 then True else max_ok_full_int maxp
                | USB_SPEED_FULL \<Rightarrow> max_ok_full_int maxp
                | _ \<Rightarrow> maxp \<le> 8)
      | USB_ENDPOINT_XFER_ISOC \<Rightarrow>
          if strstr name ''-bulk'' \<or> strstr name ''-int'' then False
          else (case spd of
                  USB_SPEED_SUPER \<Rightarrow> if maxp \<le> 1024 then True else maxp \<le> 1023
                | USB_SPEED_HIGH \<Rightarrow> if maxp \<le> 1024 then True else maxp \<le> 1023
                | USB_SPEED_FULL \<Rightarrow> maxp \<le> 1023
                | _ \<Rightarrow> False)
      | USB_ENDPOINT_XFER_CONTROL \<Rightarrow> False)"

definition dummy_enable ::
  "nat option \<Rightarrow> usb_endpoint_descriptor option \<Rightarrow> dummy_t \<Rightarrow> (int \<times> dummy_t) option" where
  "dummy_enable ep_ptr desc_ptr d =
     (case (ep_ptr, desc_ptr) of
        (Some i, Some ds) \<Rightarrow>
          (let e = ep d ! i in
           if desc e \<noteq> None \<or> ep_name e = ep0name \<or> bDescriptorType ds \<noteq> USB_DT_ENDPOINT
           then Some (- EINVAL, d)
           else if driver d = None then Some (- ESHUTDOWN, d)
           else do {
             h \<leftarrow> hcd_of (gadget_to_dummy_hcd d) d;
             if \<not> enabled h then Some (- ESHUTDOWN, d)
             else let maxp = usb_endpoint_maxp ds in
               if \<not> endpoint_ok (ep_name e) (speed (gadget d)) ds maxp then Some (- EINVAL, d)
               else let d = upd_ep i (\<lambda>e. e\<lparr>maxpacket := maxp\<rparr>) d in
                 if usb_ss_max_streams (comp_desc e) \<noteq> 0 \<and> \<not> usb_endpoint_xfer_bulk ds
                 then Some (- EINVAL, d)
                 else let d = (if usb_ss_max_streams (comp_desc e) \<noteq> 0
                               then upd_ep i (\<lambda>e. e\<lparr>stream_en := True\<rparr>) d else d);
                          d = upd_ep i (\<lambda>e. e\<lparr>desc := Some ds\<rparr>) d
                      in Some (0, upd_ep i (\<lambda>e. e\<lparr>halted := False, wedged := False\<rparr>) d)
           })
      | _ \<Rightarrow> Some (- EINVAL, d))"

definition dummy_disable :: "env \<Rightarrow> nat option \<Rightarrow> dummy_t \<Rightarrow> (int \<times> dummy_t) option" where
  "dummy_disable env ep_ptr d =
     (case ep_ptr of
        None \<Rightarrow> Some (- EINVAL, d)
      | Some i \<Rightarrow>
          if desc (ep d ! i) = None \<or> ep_name (ep d ! i) = ep0name then Some (- EINVAL, d)
          else do {
            d \<leftarrow> nuke env i (upd_ep i (\<lambda>e. e\<lparr>desc := None, stream_en := False\<rparr>) d);
            Some (0, d)
          })"

text \<open>
  Allocating gives a zeroed request; the result of \<open>kzalloc\<close> is an argument, the number of the new
  request or none. Freeing reports whether the kernel warns.
\<close>

definition dummy_alloc_request ::
  "nat option \<Rightarrow> nat option \<Rightarrow> dummy_t \<Rightarrow> nat option \<times> dummy_t" where
  "dummy_alloc_request kzalloc ep_ptr d =
     (case ep_ptr of
        None \<Rightarrow> (None, d)
      | Some _ \<Rightarrow>
          (case kzalloc of
             None \<Rightarrow> (None, d)
           | Some r \<Rightarrow> (Some r, (upd_req r (\<lambda>_. zero_request) d)\<lparr>allocated := r # allocated d\<rparr>)))"

definition dummy_free_request ::
  "nat option \<Rightarrow> nat option \<Rightarrow> dummy_t \<Rightarrow> bool \<times> dummy_t" where
  "dummy_free_request ep_ptr req_ptr d =
     (case (ep_ptr, req_ptr) of
        (Some _, Some r) \<Rightarrow> (queued r d, d\<lparr>allocated := remove1 r (allocated d)\<rparr>)
      | _ \<Rightarrow> (True, d))"

text \<open>
  Queueing a request. The emulated FIFO takes a short IN request whole: the driver's request
  completes at once, and a copy of it is queued for the host.
\<close>

definition fifo_takes :: "nat \<Rightarrow> nat \<Rightarrow> dummy_t \<Rightarrow> bool" where
  "fifo_takes i r d \<longleftrightarrow>
     (case desc (ep d ! i) of
        None \<Rightarrow> False
      | Some ds \<Rightarrow> bEndpointAddress ds AND USB_DIR_IN \<noteq> 0)
     \<and> \<not> queued fifo_req d \<and> queue (ep d ! i) = []
     \<and> unat (rq_length (reqs d r)) \<le> FIFO_SIZE"

definition fifo_copy :: "nat \<Rightarrow> nat \<Rightarrow> dummy_t \<Rightarrow> dummy_t option" where
  "fifo_copy i r d =
     do {
       let q = reqs d r;
       buf \<leftarrow> memcpy (fifo_buf d) 0 (rq_buf q) 0 (unat (rq_length q));
       let d = upd_req fifo_req (\<lambda>_. q\<lparr>rq_buf := buf, rq_context := Dummy_Context,
                 rq_complete := Fifo_Complete\<rparr>) (d\<lparr>fifo_buf := buf\<rparr>);
       Some (upd_ep i (\<lambda>e. e\<lparr>queue := queue e @ [fifo_req]\<rparr>) d)
     }"

definition dummy_queue ::
  "env \<Rightarrow> nat option \<Rightarrow> nat option \<Rightarrow> dummy_t \<Rightarrow> (int \<times> dummy_t) option" where
  "dummy_queue env ep_ptr req_ptr d =
     (case req_ptr of
        None \<Rightarrow> Some (- EINVAL, d)
      | Some r \<Rightarrow>
          if queued r d \<or> rq_complete (reqs d r) = No_Complete then Some (- EINVAL, d)
          else (case ep_ptr of
            None \<Rightarrow> Some (- EINVAL, d)
          | Some i \<Rightarrow>
              if desc (ep d ! i) = None \<and> ep_name (ep d ! i) \<noteq> ep0name then Some (- EINVAL, d)
              else if driver d = None then Some (- ESHUTDOWN, d)
              else do {
                h \<leftarrow> hcd_of (gadget_to_dummy_hcd d) d;
                if \<not> enabled h then Some (- ESHUTDOWN, d)
                else
                  let d = upd_req r (\<lambda>q. q\<lparr>rq_status := - EINPROGRESS, rq_actual := 0\<rparr>) d in
                  if fifo_takes i r d then do {
                    d \<leftarrow> fifo_copy i r d;
                    let d = upd_req r (\<lambda>q. q\<lparr>rq_actual := rq_length q, rq_status := 0\<rparr>) d;
                    Some (0, giveback env i r d)
                  }
                  else Some (0, upd_ep i (\<lambda>e. e\<lparr>queue := queue e @ [r]\<rparr>) d)
              }))"

definition dummy_dequeue ::
  "env \<Rightarrow> nat option \<Rightarrow> nat option \<Rightarrow> dummy_t \<Rightarrow> int \<times> dummy_t" where
  "dummy_dequeue env ep_ptr req_ptr d =
     (case (ep_ptr, req_ptr) of
        (Some i, Some r) \<Rightarrow>
          if driver d = None then (- ESHUTDOWN, d)
          else if List.member (queue (ep d ! i)) r
          then (let d = upd_ep i (\<lambda>e. e\<lparr>queue := remove1 r (queue e)\<rparr>) d;
                    d = upd_req r (\<lambda>q. q\<lparr>rq_status := - ECONNRESET\<rparr>) d
                in (0, giveback env i r d))
          else (- EINVAL, d)
      | _ \<Rightarrow> (- EINVAL, d))"

definition dummy_set_halt_and_wedge ::
  "nat option \<Rightarrow> int \<Rightarrow> bool \<Rightarrow> dummy_t \<Rightarrow> int \<times> dummy_t" where
  "dummy_set_halt_and_wedge ep_ptr value_arg wedge d =
     (case ep_ptr of
        None \<Rightarrow> (- EINVAL, d)
      | Some i \<Rightarrow>
          if driver d = None then (- ESHUTDOWN, d)
          else if value_arg = 0 then (0, upd_ep i (\<lambda>e. e\<lparr>halted := False, wedged := False\<rparr>) d)
          else if (case desc (ep d ! i) of
                     None \<Rightarrow> False
                   | Some ds \<Rightarrow> bEndpointAddress ds AND USB_DIR_IN \<noteq> 0)
                  \<and> queue (ep d ! i) \<noteq> []
          then (- EAGAIN, d)
          else (0, upd_ep i (\<lambda>e. e\<lparr>halted := True, wedged := (if wedge then True else wedged e)\<rparr>) d))"

definition dummy_set_halt :: "nat option \<Rightarrow> int \<Rightarrow> dummy_t \<Rightarrow> int \<times> dummy_t" where
  "dummy_set_halt ep_ptr value_arg d = dummy_set_halt_and_wedge ep_ptr value_arg False d"

definition dummy_set_wedge :: "nat option \<Rightarrow> dummy_t \<Rightarrow> int \<times> dummy_t" where
  "dummy_set_wedge ep_ptr d =
     (case ep_ptr of
        None \<Rightarrow> (- EINVAL, d)
      | Some i \<Rightarrow>
          if ep_name (ep d ! i) = ep0name then (- EINVAL, d)
          else dummy_set_halt_and_wedge ep_ptr 1 True d)"

section \<open>Gadget operations\<close>

text \<open>The nanoseconds of the current second are an argument.\<close>

definition dummy_g_get_frame :: "nat \<Rightarrow> nat" where
  "dummy_g_get_frame tv_nsec = tv_nsec div 1000000"

definition dummy_wakeup :: "dummy_t \<Rightarrow> (int \<times> dummy_t) option" where
  "dummy_wakeup d =
     do {
       let w = gadget_to_dummy_hcd d;
       h \<leftarrow> hcd_of w d;
       if devstatus d AND (2 ^ USB_DEVICE_B_HNP_ENABLE OR 2 ^ USB_DEVICE_REMOTE_WAKEUP) = 0
       then Some (- EINVAL, d)
       else if port_status h AND USB_PORT_STAT_CONNECTION = 0 then Some (- ENOLINK, d)
       else if port_status h AND USB_PORT_STAT_SUSPEND = 0 \<and> rh_state h \<noteq> DUMMY_RH_SUSPENDED
       then Some (- EIO, d)
       else
         let t = jiffies d + msecs_to_jiffies 20 in
         Some (0, set_hcd w (h\<lparr>resuming := True, re_timeout := t, rh_timer := Some t\<rparr>) d)
     }"

definition dummy_set_selfpowered :: "int \<Rightarrow> dummy_t \<Rightarrow> (int \<times> dummy_t) option" where
  "dummy_set_selfpowered value_arg d =
     do {
       let d = d\<lparr>gadget := (gadget d)\<lparr>is_selfpowered := (value_arg \<noteq> 0)\<rparr>\<rparr>;
       h \<leftarrow> hcd_of (gadget_to_dummy_hcd d) d;
       Some (0, d\<lparr>devstatus := (if value_arg \<noteq> 0
                  then devstatus d OR 2 ^ USB_DEVICE_SELF_POWERED
                  else devstatus d AND NOT (2 ^ USB_DEVICE_SELF_POWERED))\<rparr>)
     }"

definition dummy_udc_update_ep0 :: "dummy_t \<Rightarrow> dummy_t" where
  "dummy_udc_update_ep0 d =
     (if speed (gadget d) = USB_SPEED_SUPER
      then upd_ep 0 (\<lambda>e. e\<lparr>maxpacket := 9\<rparr>) d
      else upd_ep 0 (\<lambda>e. e\<lparr>maxpacket := 64\<rparr>) d)"

definition poll_root_hub :: "env \<Rightarrow> hcd_sel \<Rightarrow> dummy_t \<Rightarrow> dummy_t" where
  "poll_root_hub env w d = poll_rh_status env w (log_event (Poll_Rh_Status w) d)"

definition dummy_pullup :: "env \<Rightarrow> int \<Rightarrow> dummy_t \<Rightarrow> (int \<times> dummy_t) option" where
  "dummy_pullup env value_arg d =
     do {
       let w = gadget_to_dummy_hcd d;
       d \<leftarrow> set_link_state env w (d\<lparr>pullup := (value_arg \<noteq> 0)\<rparr>);
       Some (0, poll_root_hub env w d)
     }"

definition dummy_udc_set_speed :: "usb_device_speed \<Rightarrow> dummy_t \<Rightarrow> dummy_t" where
  "dummy_udc_set_speed spd d =
     dummy_udc_update_ep0 (d\<lparr>gadget := (gadget d)\<lparr>speed := spd\<rparr>\<rparr>)"

definition function_show :: "dummy_t \<Rightarrow> string" where
  "function_show d =
     (case driver d of
        None \<Rightarrow> []
      | Some drv \<Rightarrow>
          (case driver_function drv of
             None \<Rightarrow> []
           | Some f \<Rightarrow> take 4095 (f @ [CHR 0x0A])))"

definition dummy_udc_start :: "usb_gadget_driver \<Rightarrow> dummy_t \<Rightarrow> (int \<times> dummy_t) option" where
  "dummy_udc_start drv d =
     do {
       h \<leftarrow> hcd_of (gadget_to_dummy_hcd d) d;
       case speed (gadget d) of
         USB_SPEED_LOW \<Rightarrow> Some (0, d\<lparr>devstatus := 0, driver := Some drv, ints_enabled := True\<rparr>)
       | USB_SPEED_FULL \<Rightarrow> Some (0, d\<lparr>devstatus := 0, driver := Some drv, ints_enabled := True\<rparr>)
       | USB_SPEED_HIGH \<Rightarrow> Some (0, d\<lparr>devstatus := 0, driver := Some drv, ints_enabled := True\<rparr>)
       | USB_SPEED_SUPER \<Rightarrow> Some (0, d\<lparr>devstatus := 0, driver := Some drv, ints_enabled := True\<rparr>)
       | _ \<Rightarrow> Some (- EINVAL, d)
     }"

text \<open>Waiting for callbacks that run on other processors: \<open>None\<close> if they never end.\<close>

partial_function (option) wait_callbacks :: "env \<Rightarrow> dummy_t \<Rightarrow> dummy_t option" where
  "wait_callbacks env d =
     (if callback_usage d > 0 then wait_callbacks env (usleep_range env d) else Some d)"

definition dummy_udc_stop :: "env \<Rightarrow> dummy_t \<Rightarrow> (int \<times> dummy_t) option" where
  "dummy_udc_stop env d =
     do {
       h \<leftarrow> hcd_of (gadget_to_dummy_hcd d) d;
       d \<leftarrow> stop_activity env (d\<lparr>ints_enabled := False\<rparr>);
       d \<leftarrow> wait_callbacks env d;
       Some (0, d\<lparr>driver := None\<rparr>)
     }"

section \<open>The UDC device\<close>

record dummy_hcd_module_parameters =
  is_super_speed :: bool
  is_high_speed :: bool
  num :: u32

definition init_dummy_ep :: "ulong \<Rightarrow> nat \<Rightarrow> dummy_ep \<Rightarrow> dummy_ep" where
  "init_dummy_ep now i e =
     e\<lparr>ep_name := fst (ep_info ! i), ep_caps := snd (ep_info ! i),
       halted := False, wedged := False, already_seen := False, setup_stage := False,
       maxpacket_limit := 0xffff, maxpacket := 0xffff, max_streams := 16, last_io := now,
       desc := None, queue := []\<rparr>"

definition init_dummy_udc_hw :: "dummy_t \<Rightarrow> dummy_t" where
  "init_dummy_udc_hw d =
     d\<lparr>ep := map (\<lambda>i. init_dummy_ep (jiffies d) i (ep d ! i)) [0..<DUMMY_ENDPOINTS],
       gadget := (gadget d)\<lparr>ep_list := remove1 0 [0..<DUMMY_ENDPOINTS]\<rparr>\<rparr>"

text \<open>
  Probing: the results of adding the gadget to the UDC core and of creating the sysfs file are
  arguments. The second component tells whether the gadget stays registered.
\<close>

definition dummy_udc_probe ::
  "dummy_hcd_module_parameters \<Rightarrow> int \<Rightarrow> int \<Rightarrow> dummy_t \<Rightarrow> int \<times> bool \<times> dummy_t" where
  "dummy_udc_probe mod_data add_rc file_rc d =
     (let g = zero_gadget\<lparr>gadget_name := ''dummy_udc'',
                max_speed := (if is_super_speed mod_data then USB_SPEED_SUPER
                              else if is_high_speed mod_data then USB_SPEED_HIGH
                              else USB_SPEED_FULL)\<rparr>;
          d = init_dummy_udc_hw (d\<lparr>gadget := g\<rparr>)
      in if add_rc < 0 then (add_rc, False, d)
         else if file_rc < 0 then (file_rc, False, d)
         else (file_rc, True, d))"

definition dummy_udc_pm :: "env \<Rightarrow> hcd_sel \<Rightarrow> bool \<Rightarrow> dummy_t \<Rightarrow> dummy_t option" where
  "dummy_udc_pm env w suspend d = set_link_state env w (d\<lparr>udc_suspended := suspend\<rparr>)"

definition dummy_udc_suspend :: "env \<Rightarrow> dummy_t \<Rightarrow> (int \<times> dummy_t) option" where
  "dummy_udc_suspend env d =
     do {
       let w = gadget_to_dummy_hcd d;
       d \<leftarrow> dummy_udc_pm env w True d;
       Some (0, poll_root_hub env w d)
     }"

definition dummy_udc_resume :: "env \<Rightarrow> dummy_t \<Rightarrow> (int \<times> dummy_t) option" where
  "dummy_udc_resume env d =
     do {
       let w = gadget_to_dummy_hcd d;
       d \<leftarrow> dummy_udc_pm env w False d;
       Some (0, poll_root_hub env w d)
     }"

section \<open>The operations keep the controller well formed\<close>

lemma wf_steady: "steady d d' \<Longrightarrow> wf_dummy d \<Longrightarrow> wf_dummy d'"
  by (simp add: steady_def)

lemma dummy_enable_wf: "wf_dummy d \<Longrightarrow> dummy_enable e ds d = Some (rc, d') \<Longrightarrow> wf_dummy d'"
  by (auto simp: dummy_enable_def Let_def bind_eq_Some_conv split: option.splits if_splits
      intro!: wf_upd_ep_fields)

lemma dummy_disable_wf:
  assumes "env_ok env" and "\<forall>i. e = Some i \<longrightarrow> i < DUMMY_ENDPOINTS" and "wf_dummy d"
    and "dummy_disable env e d = Some (rc, d')"
  shows "wf_dummy d'"
  using assms(2-) nuke_steady [OF assms(1)]
  by (fastforce simp: dummy_disable_def bind_eq_Some_conv steady_def split: option.splits if_splits
      intro: wf_upd_ep_fields)

lemma fifo_copy_wf:
  assumes "wf_dummy d" and "wf_request (reqs d r)" and "fifo_takes i r d"
    and "fifo_copy i r d = Some d'"
  shows "wf_dummy d'"
proof -
  obtain buf where buf: "memcpy (fifo_buf d) 0 (rq_buf (reqs d r)) 0
      (unat (rq_length (reqs d r))) = Some buf"
    and d': "d' = upd_ep i (\<lambda>e. e\<lparr>queue := queue e @ [fifo_req]\<rparr>)
      (upd_req fifo_req (\<lambda>_. (reqs d r)\<lparr>rq_buf := buf, rq_context := Dummy_Context,
         rq_complete := Fifo_Complete\<rparr>) (d\<lparr>fifo_buf := buf\<rparr>))"
    using assms(4) by (auto simp: fifo_copy_def Let_def bind_eq_Some_conv)
  have nq: "\<not> queued fifo_req d" using assms(3) by (simp add: fifo_takes_def)
  have len: "unat (rq_length (reqs d r)) \<le> length buf"
    using buf by (auto simp: memcpy_def split: if_splits)
  show ?thesis unfolding d'
  proof (rule wf_append_request)
    show "wf_dummy (upd_req fifo_req (\<lambda>_. (reqs d r)\<lparr>rq_buf := buf, rq_context := Dummy_Context,
         rq_complete := Fifo_Complete\<rparr>) (d\<lparr>fifo_buf := buf\<rparr>))"
      using assms(1) nq by (intro wf_upd_req) (auto simp: queued_def)
    show "\<not> queued fifo_req (upd_req fifo_req (\<lambda>_. (reqs d r)\<lparr>rq_buf := buf,
         rq_context := Dummy_Context, rq_complete := Fifo_Complete\<rparr>) (d\<lparr>fifo_buf := buf\<rparr>))"
      using nq by (simp add: queued_def)
    show "wf_request (reqs (upd_req fifo_req (\<lambda>_. (reqs d r)\<lparr>rq_buf := buf,
         rq_context := Dummy_Context, rq_complete := Fifo_Complete\<rparr>) (d\<lparr>fifo_buf := buf\<rparr>)) fifo_req)"
      using assms(2) len by (simp add: wf_request_def)
  qed
qed

text \<open>
  A request the gadget driver may queue: not the controller's own, and with a buffer as long as
  it says.
\<close>

definition driver_request :: "nat \<Rightarrow> dummy_t \<Rightarrow> bool" where
  "driver_request r d \<longleftrightarrow> r \<noteq> fifo_req \<and> unat (rq_length (reqs d r)) \<le> length (rq_buf (reqs d r))"

lemma queued_ex: "queued r d \<longleftrightarrow> (\<exists>i < length (ep d). r \<in> set (queue (ep d ! i)))"
  by (simp add: queued_iff) (metis in_set_conv_nth)

lemma queued_append:
  "queued r' (upd_ep i (\<lambda>e. e\<lparr>queue := queue e @ [r]\<rparr>) d) \<Longrightarrow> queued r' d \<or> r' = r"
  by (cases "i < length (ep d)")
    (auto simp: queued_ex nth_list_update list_update_beyond split: if_splits)

lemma fifo_copy_frame:
  assumes "fifo_copy i r d = Some d'"
  shows "queued r' d' \<Longrightarrow> queued r' d \<or> r' = fifo_req"
    "r' \<noteq> fifo_req \<Longrightarrow> reqs d' r' = reqs d r'"
  using assms queued_append [of r' i fifo_req]
  by (auto simp: fifo_copy_def Let_def bind_eq_Some_conv queued_def)

lemma dummy_queue_wf:
  assumes env: "env_ok env" and "wf_dummy d"
    and "\<forall>r. rq = Some r \<longrightarrow> driver_request r d"
    and ret: "dummy_queue env e rq d = Some (rc, d')"
  shows "wf_dummy d'"
proof (cases "rc = 0")
  case False
  with ret show ?thesis using assms(2)
    by (auto simp: dummy_queue_def Let_def bind_eq_Some_conv split: option.splits if_splits)
next
  case True
  let ?start = "\<lambda>r. upd_req r (\<lambda>q. q\<lparr>rq_status := - EINPROGRESS, rq_actual := 0\<rparr>) d"
  obtain i r where i: "e = Some i" and r: "rq = Some r" and nq: "\<not> queued r d"
    and cases: "(\<exists>d1. fifo_takes i r (?start r) \<and> fifo_copy i r (?start r) = Some d1
         \<and> d' = giveback env i r (upd_req r (\<lambda>q. q\<lparr>rq_actual := rq_length q, rq_status := 0\<rparr>) d1))
      \<or> d' = upd_ep i (\<lambda>e. e\<lparr>queue := queue e @ [r]\<rparr>) (?start r)"
    using ret True
    by (auto simp: dummy_queue_def Let_def bind_eq_Some_conv split: option.splits if_splits)
  have dr: "r \<noteq> fifo_req" "unat (rq_length (reqs d r)) \<le> length (rq_buf (reqs d r))"
    using assms(3) r by (simp_all add: driver_request_def)
  have nq': "\<not> queued r (?start r)" using nq by (simp add: queued_def)
  have start: "wf_dummy (?start r)" using assms(2) nq by (rule wf_upd_req)
  have req: "wf_request (reqs (?start r) r)" using dr(2) by (simp add: wf_request_def)
  from cases show ?thesis
  proof (elim disjE exE conjE)
    fix d1
    assume ft: "fifo_takes i r (?start r)" and d1: "fifo_copy i r (?start r) = Some d1"
      and d': "d' = giveback env i r (upd_req r (\<lambda>q. q\<lparr>rq_actual := rq_length q, rq_status := 0\<rparr>) d1)"
    have "wf_dummy d1" by (rule fifo_copy_wf [OF start req ft d1])
    moreover have "\<not> queued r d1" using fifo_copy_frame(1) [OF d1, of r] nq' dr(1) by blast
    ultimately have "wf_dummy (upd_req r (\<lambda>q. q\<lparr>rq_actual := rq_length q, rq_status := 0\<rparr>) d1)"
      by (rule wf_upd_req)
    then show ?thesis unfolding d' by (rule wf_steady [OF steady_giveback [OF env steady_refl]])
  next
    assume "d' = upd_ep i (\<lambda>e. e\<lparr>queue := queue e @ [r]\<rparr>) (?start r)"
    then show ?thesis using wf_append_request [OF start nq' req] by simp
  qed
qed

lemma remove1_split: "r \<in> set q \<Longrightarrow> \<exists>xs ys. q = xs @ r # ys \<and> remove1 r q = xs @ ys"
  by (metis in_set_conv_decomp_first remove1_append remove1.simps(2))

lemma dummy_dequeue_wf:
  assumes env: "env_ok env" and "wf_dummy d" and "\<forall>i. e = Some i \<longrightarrow> i < DUMMY_ENDPOINTS"
  shows "wf_dummy (snd (dummy_dequeue env e rq d))"
proof -
  have "wf_dummy (giveback env i r (upd_req r (\<lambda>q. q\<lparr>rq_status := - ECONNRESET\<rparr>)
         (upd_ep i (\<lambda>e. e\<lparr>queue := remove1 r (queue e)\<rparr>) d)))"
    if i: "i < DUMMY_ENDPOINTS" and r: "r \<in> set (queue (ep d ! i))" for i r
  proof -
    obtain xs ys where "queue (ep d ! i) = xs @ r # ys" "remove1 r (queue (ep d ! i)) = xs @ ys"
      using remove1_split [OF r] by blast
    then show ?thesis
      by (intro wf_steady [OF steady_giveback [OF env steady_refl]]
          wf_steady [OF steady_dequeue [OF i] assms(2)]) simp_all
  qed
  with assms(2,3) show ?thesis
    by (auto simp: dummy_dequeue_def Let_def split: option.splits)
qed

lemma dummy_set_halt_and_wedge_wf:
  "wf_dummy d \<Longrightarrow> wf_dummy (snd (dummy_set_halt_and_wedge e v wedge d))"
  by (auto simp: dummy_set_halt_and_wedge_def split: option.splits intro!: wf_upd_ep_fields)

lemma dummy_set_halt_wf: "wf_dummy d \<Longrightarrow> wf_dummy (snd (dummy_set_halt e v d))"
  by (simp add: dummy_set_halt_def dummy_set_halt_and_wedge_wf)

lemma dummy_set_wedge_wf: "wf_dummy d \<Longrightarrow> wf_dummy (snd (dummy_set_wedge e d))"
  by (auto simp: dummy_set_wedge_def dummy_set_halt_and_wedge_wf split: option.splits)

lemma dummy_alloc_request_wf:
  "wf_dummy d \<Longrightarrow> \<forall>r. mem = Some r \<longrightarrow> \<not> queued r d \<Longrightarrow> wf_dummy (snd (dummy_alloc_request mem e d))"
  by (auto simp: dummy_alloc_request_def split: option.splits intro!: wf_upd_req)

lemma dummy_free_request_wf: "wf_dummy d \<Longrightarrow> wf_dummy (snd (dummy_free_request e rq d))"
  by (auto simp: dummy_free_request_def split: option.splits)

lemma poll_root_hub_steady: "env_ok env \<Longrightarrow> steady d (poll_root_hub env w d)"
  unfolding poll_root_hub_def using env_okD(8) by (metis steady_fields(15))

lemma dummy_wakeup_wf: "wf_dummy d \<Longrightarrow> dummy_wakeup d = Some (rc, d') \<Longrightarrow> wf_dummy d'"
  by (auto simp: dummy_wakeup_def Let_def bind_eq_Some_conv split: if_splits)

lemma dummy_set_selfpowered_wf:
  "wf_dummy d \<Longrightarrow> dummy_set_selfpowered v d = Some (rc, d') \<Longrightarrow> wf_dummy d'"
  by (auto simp: dummy_set_selfpowered_def Let_def bind_eq_Some_conv split: if_splits)

lemma dummy_udc_set_speed_wf: "wf_dummy d \<Longrightarrow> wf_dummy (dummy_udc_set_speed s d)"
  by (auto simp: dummy_udc_set_speed_def dummy_udc_update_ep0_def intro!: wf_upd_ep_fields)

lemma set_link_state_wf:
  "env_ok env \<Longrightarrow> wf_dummy d \<Longrightarrow> set_link_state env w d = Some d' \<Longrightarrow> wf_dummy d'"
  using set_link_state_steady wf_steady by blast

lemma poll_root_hub_wf: "env_ok env \<Longrightarrow> wf_dummy d \<Longrightarrow> wf_dummy (poll_root_hub env w d)"
  using poll_root_hub_steady wf_steady by blast

lemma dummy_pullup_wf:
  "env_ok env \<Longrightarrow> wf_dummy d \<Longrightarrow> dummy_pullup env v d = Some (rc, d') \<Longrightarrow> wf_dummy d'"
  by (auto simp: dummy_pullup_def Let_def bind_eq_Some_conv
      intro!: poll_root_hub_wf dest: set_link_state_wf [rotated 2])

lemma dummy_udc_start_wf: "wf_dummy d \<Longrightarrow> dummy_udc_start drv d = Some (rc, d') \<Longrightarrow> wf_dummy d'"
  by (auto simp: dummy_udc_start_def bind_eq_Some_conv wf_dummy_def wf_queues_def queued_def
      split: usb_device_speed.splits)

lemma wait_callbacks_steady:
  assumes "env_ok env" and "wait_callbacks env d = Some d'"
  shows "steady d d'"
proof -
  have "env0 = env \<longrightarrow> steady d d'" if "wait_callbacks env0 d = Some d'" for env0
  proof (rule wait_callbacks.raw_induct [where P = "\<lambda>env0 d d'. env0 = env \<longrightarrow> steady d d'", OF _ that])
    fix f env0 d d'
    assume IH: "\<And>env0 d d'. f env0 d = Some d' \<Longrightarrow> env0 = env \<longrightarrow> steady d d'"
      and eq: "(if 0 < callback_usage d then f env0 (usleep_range env0 d) else Some d) = Some d'"
    show "env0 = env \<longrightarrow> steady d d'"
      using eq IH [of env0 "usleep_range env0 d" d'] env_okD(10) [OF assms(1), of d]
      by (auto split: if_splits intro: steady_trans)
  qed
  with assms(2) show ?thesis by blast
qed

lemma dummy_udc_stop_wf:
  assumes "env_ok env" and "wf_dummy d" and "dummy_udc_stop env d = Some (rc, d')"
  shows "wf_dummy d'"
proof -
  obtain d1 d2 where d1: "stop_activity env (d\<lparr>ints_enabled := False\<rparr>) = Some d1"
    and d2: "wait_callbacks env d1 = Some d2" and d': "d' = d2\<lparr>driver := None\<rparr>"
    using assms(3) by (auto simp: dummy_udc_stop_def bind_eq_Some_conv)
  have "wf_dummy (d\<lparr>ints_enabled := False\<rparr>)"
    using assms(2) by (simp add: wf_dummy_def wf_queues_def queued_def)
  moreover have "steady (d\<lparr>ints_enabled := False\<rparr>) d2"
    using steady_trans [OF stop_activity_steady [OF assms(1) d1] wait_callbacks_steady [OF assms(1) d2]] .
  ultimately have "wf_dummy d2" "\<not> ints_enabled d2" by (simp_all add: steady_def)
  then show ?thesis by (simp add: d' wf_dummy_def wf_queues_def queued_def)
qed

lemma dummy_udc_probe_wf: "wf_dummy d \<Longrightarrow> wf_dummy (snd (snd (dummy_udc_probe m a f d)))"
proof -
  assume wf: "wf_dummy d"
  have "wf_dummy (init_dummy_udc_hw (d\<lparr>gadget := g\<rparr>))" for g
  proof -
    have "\<not> queued r (init_dummy_udc_hw (d\<lparr>gadget := g\<rparr>))" for r
      by (auto simp: queued_ex init_dummy_udc_hw_def init_dummy_ep_def)
    moreover have "map queue (map (\<lambda>i. init_dummy_ep j i (f i)) is) = replicate (length is) []"
      for j f "is" by (induction "is") (simp_all add: init_dummy_ep_def)
    ultimately show ?thesis
      using wf by (auto simp: wf_dummy_def wf_queues_def init_dummy_udc_hw_def distinct_concat_iff
          init_dummy_ep_def)
  qed
  then show ?thesis by (simp add: dummy_udc_probe_def Let_def)
qed

lemma dummy_udc_suspend_wf:
  "env_ok env \<Longrightarrow> wf_dummy d \<Longrightarrow> dummy_udc_suspend env d = Some (rc, d') \<Longrightarrow> wf_dummy d'"
  by (auto simp: dummy_udc_suspend_def dummy_udc_pm_def Let_def bind_eq_Some_conv
      intro!: poll_root_hub_wf dest: set_link_state_wf [rotated 2])

lemma dummy_udc_resume_wf:
  "env_ok env \<Longrightarrow> wf_dummy d \<Longrightarrow> dummy_udc_resume env d = Some (rc, d') \<Longrightarrow> wf_dummy d'"
  by (auto simp: dummy_udc_resume_def dummy_udc_pm_def Let_def bind_eq_Some_conv
      intro!: poll_root_hub_wf dest: set_link_state_wf [rotated 2])

section \<open>Properties of the queues\<close>

text \<open>An environment whose completion handlers leave the controller alone.\<close>

definition plain_env :: "env \<Rightarrow> bool" where
  "plain_env env \<longleftrightarrow> (\<forall>i r d. giveback_request env i r d = d)"

lemma idle_env_plain [simp]: "plain_env idle_env"
  by (simp add: plain_env_def)

definition shutdown_event :: "dummy_t \<Rightarrow> nat \<Rightarrow> nat \<Rightarrow> event" where
  "shutdown_event d i r = Giveback i r (- ESHUTDOWN) (rq_actual (reqs d r))"

lemma shutdown_event_fields [simp]:
  "shutdown_event (d\<lparr>address := a\<rparr>) = shutdown_event d"
  "shutdown_event (d\<lparr>ints_enabled := b\<rparr>) = shutdown_event d"
  "shutdown_event (set_hcd w h d) = shutdown_event d"
  by (simp_all add: shutdown_event_def fun_eq_iff)

lemma nuke_plain:
  assumes "plain_env env" and "i < length (ep d)" and "queue (ep d ! i) = q"
  shows "nuke env i d = Some (d\<lparr>ep := (ep d)[i := (ep d ! i)\<lparr>queue := []\<rparr>],
     reqs := (\<lambda>r. if r \<in> set q then (reqs d r)\<lparr>rq_status := - ESHUTDOWN\<rparr> else reqs d r),
     trace := trace d @ map (shutdown_event d i) q\<rparr>)"
  using assms(2,3)
proof (induction q arbitrary: d)
  case Nil
  have "(ep d ! i)\<lparr>queue := []\<rparr> = ep d ! i" using Nil(2) by (cases "ep d ! i") simp
  then have "d\<lparr>ep := (ep d)[i := (ep d ! i)\<lparr>queue := []\<rparr>]\<rparr> = d"
    by (simp only: list_update_id) (cases d, simp)
  then show ?case using Nil by simp
next
  case (Cons r rest)
  let ?d = "nuke_step env i r rest d"
  have d: "?d = d\<lparr>ep := (ep d)[i := (ep d ! i)\<lparr>queue := rest\<rparr>],
      reqs := (reqs d)(r := (reqs d r)\<lparr>rq_status := - ESHUTDOWN\<rparr>),
      trace := trace d @ [shutdown_event d i r]\<rparr>"
    using assms(1)
    by (simp add: nuke_step_def plain_env_def giveback_def upd_req_def upd_ep_def log_event_def
        shutdown_event_def)
  have ev: "map (shutdown_event ?d i) rest = map (shutdown_event d i) rest"
    by (simp add: d shutdown_event_def)
  have "nuke env i d = nuke env i ?d" by (rule nuke_Cons [OF Cons.prems(2)])
  also have "\<dots> = Some (?d\<lparr>ep := (ep ?d)[i := (ep ?d ! i)\<lparr>queue := []\<rparr>],
     reqs := (\<lambda>r. if r \<in> set rest then (reqs ?d r)\<lparr>rq_status := - ESHUTDOWN\<rparr> else reqs ?d r),
     trace := trace ?d @ map (shutdown_event ?d i) rest\<rparr>)"
    using Cons.prems by (intro Cons.IH) (simp_all add: d)
  finally show ?case
    unfolding ev using Cons.prems(1) by (simp add: d fun_eq_iff)
qed

lemma stop_activity_plain:
  assumes "plain_env env" and "wf_queues d"
  shows "\<exists>d'. stop_activity env d = Some d' \<and> (\<forall>i < DUMMY_ENDPOINTS. queue (ep d' ! i) = [])
     \<and> trace d' = trace d @
         concat (map (\<lambda>i. map (shutdown_event d i) (queue (ep d ! i))) [0..<DUMMY_ENDPOINTS])
     \<and> callback_usage d' = callback_usage d \<and> driver d' = driver d
     \<and> ints_enabled d' = ints_enabled d \<and> same_hubs d d'"
proof -
  have run: "\<exists>d'. nuke_all env is d = Some d' \<and> (\<forall>i \<in> set is. queue (ep d' ! i) = [])
     \<and> (\<forall>i. i \<notin> set is \<longrightarrow> ep d' ! i = ep d ! i)
     \<and> trace d' = trace d @ concat (map (\<lambda>i. map (shutdown_event d i) (queue (ep d ! i))) is)
     \<and> callback_usage d' = callback_usage d \<and> driver d' = driver d
     \<and> ints_enabled d' = ints_enabled d \<and> same_hubs d d'"
    if "\<forall>i \<in> set is. i < length (ep d)" "distinct is" for "is" d
    using that
  proof (induction "is" arbitrary: d)
    case Nil
    then show ?case by (simp add: same_hubs_def)
  next
    case (Cons i "is")
    then have i: "i < length (ep d)" by simp
    obtain d1 where d1: "nuke env i d = Some d1" "length (ep d1) = length (ep d)"
       "queue (ep d1 ! i) = []" "\<forall>j. j \<noteq> i \<longrightarrow> ep d1 ! j = ep d ! j"
       "\<forall>j r. shutdown_event d1 j r = shutdown_event d j r"
       "trace d1 = trace d @ map (shutdown_event d i) (queue (ep d ! i))"
       "callback_usage d1 = callback_usage d" "driver d1 = driver d"
       "ints_enabled d1 = ints_enabled d" "same_hubs d d1"
      using nuke_plain [OF assms(1) i refl] i by (auto simp: shutdown_event_def same_hubs_def)
    obtain d2 where d2: "nuke_all env is d1 = Some d2" "\<forall>j \<in> set is. queue (ep d2 ! j) = []"
       "\<forall>j. j \<notin> set is \<longrightarrow> ep d2 ! j = ep d1 ! j"
       "trace d2 = trace d1 @ concat (map (\<lambda>i. map (shutdown_event d1 i) (queue (ep d1 ! i))) is)"
       "callback_usage d2 = callback_usage d1" "driver d2 = driver d1"
       "ints_enabled d2 = ints_enabled d1" "same_hubs d1 d2"
      using Cons.IH [of d1] Cons.prems d1(2) by auto
    have "map (\<lambda>i. map (shutdown_event d1 i) (queue (ep d1 ! i))) is
        = map (\<lambda>i. map (shutdown_event d i) (queue (ep d ! i))) is"
      using Cons.prems(2) d1(4,5) by (intro map_cong refl) (auto intro!: map_cong)
    with d1 d2 Cons.prems(2) show ?case by (auto simp: same_hubs_def)
  qed
  have len: "length (ep d) = DUMMY_ENDPOINTS" using assms(2) by (simp add: wf_queues_def)
  show ?thesis
    using run [of "[0..<DUMMY_ENDPOINTS]" "d\<lparr>address := 0\<rparr>"] len
    by (auto simp: stop_activity_def same_hubs_def)
qed

text \<open>
  Callbacks running on other processors, as seen by one who sleeps: they do nothing to the
  controller but end, and some time all have ended.
\<close>

definition callbacks_end :: "env \<Rightarrow> bool" where
  "callbacks_end env \<longleftrightarrow> (\<forall>d. \<exists>k. usleep_range env d = d\<lparr>callback_usage := k\<rparr>)
     \<and> (\<forall>d. \<exists>n. callback_usage ((usleep_range env ^^ n) d) \<le> 0)"

lemma wait_callbacks_returns:
  assumes "callbacks_end env"
  obtains k where "wait_callbacks env d = Some (d\<lparr>callback_usage := k\<rparr>)" "k \<le> 0"
proof -
  have "\<exists>k. wait_callbacks env d = Some (d\<lparr>callback_usage := k\<rparr>) \<and> k \<le> 0"
    if "callback_usage ((usleep_range env ^^ n) d) \<le> 0" for n
    using that
  proof (induction n arbitrary: d)
    case 0
    then have "wait_callbacks env d = Some (d\<lparr>callback_usage := callback_usage d\<rparr>)"
      by (simp add: wait_callbacks.simps)
    then show ?case using 0 by (intro exI [of _ "callback_usage d"]) simp
  next
    case (Suc n)
    obtain k where k: "usleep_range env d = d\<lparr>callback_usage := k\<rparr>"
      using assms unfolding callbacks_end_def by blast
    show ?case
    proof (cases "callback_usage d > 0")
      case True
      obtain k' where k': "wait_callbacks env (usleep_range env d) = Some ((usleep_range env d)\<lparr>callback_usage := k'\<rparr>)" "k' \<le> 0"
        using Suc.IH [of "usleep_range env d"] Suc.prems by (auto simp only: funpow_Suc_right o_apply)
      then have "wait_callbacks env d = Some (d\<lparr>callback_usage := k'\<rparr>)"
        using True by (simp add: wait_callbacks.simps [of env d] k)
      then show ?thesis using k'(2) by blast
    next
      case False
      then have "wait_callbacks env d = Some (d\<lparr>callback_usage := callback_usage d\<rparr>)"
        by (simp add: wait_callbacks.simps)
      then show ?thesis using False by (intro exI [of _ "callback_usage d"]) simp
    qed
  qed
  moreover obtain n where "callback_usage ((usleep_range env ^^ n) d) \<le> 0"
    using assms unfolding callbacks_end_def by blast
  ultimately show thesis using that by blast
qed

text \<open>
  C38. Unbinding the driver stops the device for good. Let the controller have the hub its speed
  asks for and no request on two queues; let completion handlers only take their request back, and
  let the callbacks that run on other processors end after some number of sleeps, doing nothing
  else to the controller. Then \<open>dummy_udc_stop\<close> returns, only once no callback is running; interrupts
  are off, the driver is gone, every queue is empty, and each request that was queued was given back
  exactly once with \<open>-ESHUTDOWN\<close>, endpoint by endpoint and in the order of its queue.
\<close>

theorem udc_stop_drains:
  assumes "plain_env env" and "callbacks_end env" and "wf_queues d" and "hcd_of (gadget_to_dummy_hcd d) d \<noteq> None"
  shows "\<exists>d'. dummy_udc_stop env d = Some (0, d') \<and> callback_usage d' \<le> 0
     \<and> driver d' = None \<and> \<not> ints_enabled d'
     \<and> (\<forall>i < DUMMY_ENDPOINTS. queue (ep d' ! i) = [])
     \<and> trace d' = trace d @
         concat (map (\<lambda>i. map (shutdown_event d i) (queue (ep d ! i))) [0..<DUMMY_ENDPOINTS])"
proof -
  let ?d = "d\<lparr>ints_enabled := False\<rparr>"
  have "wf_queues ?d" using assms(3) by (simp add: wf_queues_def)
  then obtain d1 where d1: "stop_activity env ?d = Some d1"
     "\<forall>i < DUMMY_ENDPOINTS. queue (ep d1 ! i) = []"
     "trace d1 = trace d @
        concat (map (\<lambda>i. map (shutdown_event d i) (queue (ep d ! i))) [0..<DUMMY_ENDPOINTS])"
     "\<not> ints_enabled d1"
    using stop_activity_plain [OF assms(1), of ?d] by auto
  obtain k where "wait_callbacks env d1 = Some (d1\<lparr>callback_usage := k\<rparr>)" "k \<le> 0"
    by (rule wait_callbacks_returns [OF assms(2)])
  with d1 show ?thesis using assms(4) by (auto simp: dummy_udc_stop_def)
qed

text \<open>
  Emptying a queue never ends when the driver queues the request again from its completion
  handler: \<open>nuke\<close> loops until the queue is empty, with no bound.
\<close>

theorem nuke_requeue_diverges:
  assumes "i < length (ep d)" and "queue (ep d ! i) \<noteq> []"
    and requeues: "\<And>r d. i < length (ep d) \<Longrightarrow>
      length (ep (giveback_request env i r d)) = length (ep d)
      \<and> r \<in> set (queue (ep (giveback_request env i r d) ! i))"
  shows "nuke env i d = None"
proof (rule ccontr)
  assume "nuke env i d \<noteq> None"
  then obtain d' where "nuke env i d = Some d'" by auto
  then have "i < length (ep d) \<longrightarrow> queue (ep d ! i) = []"
  proof (rule nuke_induct)
    fix d d' r rest
    assume IH: "i < length (ep (nuke_step env i r rest d)) \<longrightarrow>
      queue (ep (nuke_step env i r rest d) ! i) = []"
    show "i < length (ep d) \<longrightarrow> queue (ep d ! i) = []"
    proof
      assume "i < length (ep d)"
      then have "length (ep (nuke_step env i r rest d)) = length (ep d)
          \<and> r \<in> set (queue (ep (nuke_step env i r rest d) ! i))"
        using requeues [of "log_event e (upd_req r f (upd_ep i g d))" r for e f g]
        by (simp add: nuke_step_def giveback_def)
      with IH \<open>i < length (ep d)\<close> show "queue (ep d ! i) = []" by auto
    qed
  qed simp
  with assms(1,2) show False by blast
qed

section \<open>Properties of the endpoint operations\<close>

text \<open>
  The packet sizes the specification allows, by type and speed. An interrupt or isochronous
  endpoint may have any size up to its maximum.
\<close>

definition legal_packet :: "usb_xfer_type \<Rightarrow> usb_device_speed \<Rightarrow> nat set" where
  "legal_packet t s =
     (case t of
        USB_ENDPOINT_XFER_BULK \<Rightarrow>
          (if s = USB_SPEED_SUPER then {1024} else if s = USB_SPEED_HIGH then {512}
           else if s = USB_SPEED_FULL then {8, 16, 32, 64} else {})
      | USB_ENDPOINT_XFER_INT \<Rightarrow>
          (if s \<in> {USB_SPEED_SUPER, USB_SPEED_HIGH} then {..1024}
           else if s = USB_SPEED_FULL then {..64} else {..8})
      | USB_ENDPOINT_XFER_ISOC \<Rightarrow>
          (if s \<in> {USB_SPEED_SUPER, USB_SPEED_HIGH} then {..1024}
           else if s = USB_SPEED_FULL then {..1023} else {})
      | USB_ENDPOINT_XFER_CONTROL \<Rightarrow> {})"

text \<open>The types an endpoint's name rules out.\<close>

definition name_excludes :: "string \<Rightarrow> usb_xfer_type \<Rightarrow> bool" where
  "name_excludes name t \<longleftrightarrow>
     strstr name ''-iso'' \<and> t \<noteq> USB_ENDPOINT_XFER_ISOC
     \<or> strstr name ''-int'' \<and> t \<noteq> USB_ENDPOINT_XFER_INT
     \<or> strstr name ''-bulk'' \<and> t = USB_ENDPOINT_XFER_ISOC"

lemma endpoint_ok_iff:
  "endpoint_ok name s ds n \<longleftrightarrow>
     \<not> name_excludes name (usb_endpoint_type ds) \<and> n \<in> legal_packet (usb_endpoint_type ds) s"
  by (cases "usb_endpoint_type ds"; cases s)
    (auto simp: endpoint_ok_def legal_packet_def name_excludes_def max_ok_full_int_def)

text \<open>
  Enabling an endpoint succeeds exactly for a free endpoint other than endpoint 0, an
  endpoint descriptor whose type the endpoint's name does not rule out, whose packet size is one
  the specification allows for its type and the device's speed, and bulk if it has streams,
  while a driver is bound and the port is enabled. On success the endpoint takes the descriptor
  and loses its halt; on failure nothing but its packet size can have changed.
\<close>

theorem enable_accepts:
  assumes "hcd_of (gadget_to_dummy_hcd d) d = Some h" and "i < length (ep d)"
  shows "\<exists>rc d'. dummy_enable (Some i) (Some ds) d = Some (rc, d')
     \<and> (rc = 0 \<longleftrightarrow> desc (ep d ! i) = None \<and> ep_name (ep d ! i) \<noteq> ep0name
           \<and> bDescriptorType ds = USB_DT_ENDPOINT \<and> driver d \<noteq> None \<and> enabled h
           \<and> \<not> name_excludes (ep_name (ep d ! i)) (usb_endpoint_type ds)
           \<and> usb_endpoint_maxp ds \<in> legal_packet (usb_endpoint_type ds) (speed (gadget d))
           \<and> (usb_ss_max_streams (comp_desc (ep d ! i)) \<noteq> 0 \<longrightarrow> usb_endpoint_xfer_bulk ds))
     \<and> (if rc = 0
        then d' = upd_ep i (\<lambda>e. e\<lparr>maxpacket := usb_endpoint_maxp ds, desc := Some ds,
               halted := False, wedged := False,
               stream_en := (stream_en e \<or> usb_ss_max_streams (comp_desc e) \<noteq> 0)\<rparr>) d
        else \<exists>m. d' = upd_ep i (\<lambda>e. e\<lparr>maxpacket := m\<rparr>) d)"
proof -
  let ?e = "ep d ! i"
  have same: "\<exists>m. d = upd_ep i (\<lambda>e. e\<lparr>maxpacket := m\<rparr>) d"
    by (intro exI [of _ "maxpacket ?e"]) (simp add: upd_ep_def)
  have twice: "upd_ep i f (upd_ep i g d) = upd_ep i (\<lambda>e. f (g e)) d" for f g d
    by (cases "i < length (ep d)") (simp_all add: upd_ep_def list_update_beyond)
  have cong: "f ?e = g ?e \<Longrightarrow> upd_ep i f d = upd_ep i g d" for f g
    by (simp add: upd_ep_def)
  show ?thesis
  proof (cases "desc ?e \<noteq> None \<or> ep_name ?e = ep0name \<or> bDescriptorType ds \<noteq> USB_DT_ENDPOINT
      \<or> driver d = None \<or> \<not> enabled h
      \<or> \<not> endpoint_ok (ep_name ?e) (speed (gadget d)) ds (usb_endpoint_maxp ds)")
    case True
    then have "\<exists>rc. dummy_enable (Some i) (Some ds) d = Some (rc, d) \<and> rc \<noteq> 0"
      using assms(1) by (auto simp: dummy_enable_def Let_def)
    with True same show ?thesis by (auto simp: endpoint_ok_iff)
  next
    case False
    then have ok: "dummy_enable (Some i) (Some ds) d =
        (if usb_ss_max_streams (comp_desc ?e) \<noteq> 0 \<and> \<not> usb_endpoint_xfer_bulk ds
         then Some (- EINVAL, upd_ep i (\<lambda>e. e\<lparr>maxpacket := usb_endpoint_maxp ds\<rparr>) d)
         else Some (0, upd_ep i (\<lambda>e. e\<lparr>maxpacket := usb_endpoint_maxp ds, desc := Some ds,
               halted := False, wedged := False,
               stream_en := (stream_en e \<or> usb_ss_max_streams (comp_desc e) \<noteq> 0)\<rparr>) d))"
      using assms(1) by (auto simp: dummy_enable_def Let_def twice intro!: cong)
    show ?thesis
      using False unfolding ok by (auto simp: endpoint_ok_iff)
  qed
qed

text \<open>
  A request that can be queued: it is free and has a completion handler, the endpoint is enabled
  or endpoint 0, and the device is connected to a driver on an enabled port.
\<close>

definition can_queue :: "nat \<Rightarrow> nat \<Rightarrow> dummy_t \<Rightarrow> bool" where
  "can_queue i r d \<longleftrightarrow> \<not> queued r d \<and> rq_complete (reqs d r) \<noteq> No_Complete
     \<and> (desc (ep d ! i) \<noteq> None \<or> ep_name (ep d ! i) = ep0name) \<and> driver d \<noteq> None
     \<and> (\<exists>h. hcd_of (gadget_to_dummy_hcd d) d = Some h \<and> enabled h)"

lemma fifo_takes_start [simp]:
  "fifo_takes i r (upd_req r (\<lambda>q. q\<lparr>rq_status := s, rq_actual := a\<rparr>) d) = fifo_takes i r d"
  by (simp add: fifo_takes_def queued_def)

lemma wf_queues_append:
  assumes "wf_queues d" and "i < DUMMY_ENDPOINTS" and "length (ep d') = DUMMY_ENDPOINTS"
    and "queue (ep d' ! i) = queue (ep d ! i) @ [x]" and "\<forall>j. j \<noteq> i \<longrightarrow> queue (ep d' ! j) = queue (ep d ! j)"
    and "\<not> queued x d"
  shows "wf_queues d'"
proof -
  let ?q = "map queue (ep d)"
  have len: "length (ep d) = DUMMY_ENDPOINTS" using assms(1) by (simp add: wf_queues_def)
  have "map queue (ep d') = ?q[i := ?q ! i @ [x]]"
    by (rule nth_equalityI) (use assms(2-5) len in \<open>auto simp: nth_list_update\<close>)
  moreover have "distinct (concat (?q[i := ?q ! i @ [x]]))"
    by (rule distinct_concat_insert) (use assms(1,2,6) len in \<open>auto simp: wf_queues_def queued_iff\<close>)
  ultimately show ?thesis using assms(3) by (simp add: wf_queues_def)
qed

lemma fifo_path:
  assumes "plain_env env" and "can_queue i r d" and "fifo_takes i r d" and "driver_request r d"
    and "length (fifo_buf d) = FIFO_SIZE" and "i < length (ep d)"
  shows "\<exists>d'. dummy_queue env (Some i) (Some r) d = Some (0, d')
     \<and> length (ep d') = length (ep d)
     \<and> queue (ep d' ! i) = [fifo_req] \<and> (\<forall>j. j \<noteq> i \<longrightarrow> queue (ep d' ! j) = queue (ep d ! j))
     \<and> take (unat (rq_length (reqs d r))) (rq_buf (reqs d' fifo_req))
         = take (unat (rq_length (reqs d r))) (rq_buf (reqs d r))
     \<and> rq_length (reqs d' fifo_req) = rq_length (reqs d r)
     \<and> rq_actual (reqs d' fifo_req) = 0 \<and> rq_status (reqs d' fifo_req) = - EINPROGRESS
     \<and> reqs d' r = (reqs d r)\<lparr>rq_actual := rq_length (reqs d r), rq_status := 0\<rparr>
     \<and> trace d' = trace d @ [Giveback i r 0 (rq_length (reqs d r))]"
proof -
  let ?q = "reqs d r" and ?n = "unat (rq_length (reqs d r))"
  have q: "queue (ep d ! i) = []" and n: "?n \<le> FIFO_SIZE" using assms(3) by (auto simp: fifo_takes_def)
  have r: "r \<noteq> fifo_req" "?n \<le> length (rq_buf ?q)"
    using assms(4) by (simp_all add: driver_request_def)
  let ?start = "upd_req r (\<lambda>q. q\<lparr>rq_status := - EINPROGRESS, rq_actual := 0\<rparr>) d"
  let ?buf = "take ?n (rq_buf ?q) @ drop ?n (fifo_buf d)"
  let ?d1 = "upd_ep i (\<lambda>e. e\<lparr>queue := queue e @ [fifo_req]\<rparr>)
      (upd_req fifo_req (\<lambda>_. ?q\<lparr>rq_status := - EINPROGRESS, rq_actual := 0, rq_buf := ?buf,
          rq_context := Dummy_Context, rq_complete := Fifo_Complete\<rparr>)
        (?start\<lparr>fifo_buf := ?buf\<rparr>))"
  have "fifo_copy i r ?start = Some ?d1"
    using n r(2) assms(5) by (simp add: fifo_copy_def memcpy_def upd_req_def Let_def)
  then have "dummy_queue env (Some i) (Some r) d
     = Some (0, giveback env i r (upd_req r (\<lambda>q. q\<lparr>rq_actual := rq_length q, rq_status := 0\<rparr>) ?d1))"
    using assms(2,3) by (auto simp: dummy_queue_def can_queue_def Let_def)
  then show ?thesis
    using assms(1,6) q r by (auto simp: giveback_def plain_env_def upd_req_def nth_list_update)
qed

text \<open>
  C24. Queueing a request of the driver on a usable endpoint (it is queued nowhere, has a completion
  handler, a buffer of its length, and the port of the device's hub is enabled; handlers only take
  their request back). The emulated FIFO takes it when the endpoint is IN and its queue is empty,
  the request is not longer than the FIFO, and the controller's own request, of which there is one,
  is on no queue: then it completes at once, with status 0 and its whole length, and a copy of its
  bytes waits for the host under that one request. In every other case, and so while the FIFO is
  taken, the request itself is put at the end of the endpoint's queue, in progress with nothing
  moved, and nothing is given back. Either way no other queue changes and no request is on two.
\<close>

theorem queue_fifo:
  assumes "plain_env env" and "can_queue i r d" and "driver_request r d"
    and "length (fifo_buf d) = FIFO_SIZE" and "i < DUMMY_ENDPOINTS" and "wf_queues d"
  shows "\<exists>d'. dummy_queue env (Some i) (Some r) d = Some (0, d') \<and> wf_queues d'
     \<and> (\<forall>j. j \<noteq> i \<longrightarrow> queue (ep d' ! j) = queue (ep d ! j))
     \<and> (if (\<exists>ds. desc (ep d ! i) = Some ds \<and> bEndpointAddress ds AND USB_DIR_IN \<noteq> 0)
           \<and> queue (ep d ! i) = [] \<and> unat (rq_length (reqs d r)) \<le> FIFO_SIZE
           \<and> (\<forall>j < DUMMY_ENDPOINTS. fifo_req \<notin> set (queue (ep d ! j)))
        then queue (ep d' ! i) = [fifo_req]
           \<and> take (unat (rq_length (reqs d r))) (rq_buf (reqs d' fifo_req))
               = take (unat (rq_length (reqs d r))) (rq_buf (reqs d r))
           \<and> rq_length (reqs d' fifo_req) = rq_length (reqs d r)
           \<and> rq_actual (reqs d' fifo_req) = 0 \<and> rq_status (reqs d' fifo_req) = - EINPROGRESS
           \<and> reqs d' r = (reqs d r)\<lparr>rq_actual := rq_length (reqs d r), rq_status := 0\<rparr>
           \<and> trace d' = trace d @ [Giveback i r 0 (rq_length (reqs d r))]
        else queue (ep d' ! i) = queue (ep d ! i) @ [r]
           \<and> reqs d' r = (reqs d r)\<lparr>rq_actual := 0, rq_status := - EINPROGRESS\<rparr>
           \<and> trace d' = trace d)"
proof -
  have len: "length (ep d) = DUMMY_ENDPOINTS" using assms(6) by (simp add: wf_queues_def)
  have i: "i < length (ep d)" using assms(5) len by simp
  have q: "queued fifo_req d \<longleftrightarrow> (\<exists>j < DUMMY_ENDPOINTS. fifo_req \<in> set (queue (ep d ! j)))"
    unfolding queued_def list_ex_iff len [symmetric] using in_set_conv_nth [of _ "ep d"] by (simp, metis)
  have fifo: "fifo_takes i r d \<longleftrightarrow> (\<exists>ds. desc (ep d ! i) = Some ds \<and> bEndpointAddress ds AND USB_DIR_IN \<noteq> 0)
      \<and> queue (ep d ! i) = [] \<and> unat (rq_length (reqs d r)) \<le> FIFO_SIZE
      \<and> (\<forall>j < DUMMY_ENDPOINTS. fifo_req \<notin> set (queue (ep d ! j)))"
    unfolding fifo_takes_def q by (auto split: option.splits)
  show ?thesis
  proof (cases "fifo_takes i r d")
    case True
    from fifo_path [OF assms(1,2) True assms(3,4) i] obtain d' where d': "dummy_queue env (Some i) (Some r) d = Some (0, d')"
      "length (ep d') = length (ep d)" "queue (ep d' ! i) = [fifo_req]" "\<forall>j. j \<noteq> i \<longrightarrow> queue (ep d' ! j) = queue (ep d ! j)"
      "take (unat (rq_length (reqs d r))) (rq_buf (reqs d' fifo_req)) = take (unat (rq_length (reqs d r))) (rq_buf (reqs d r))
       \<and> rq_length (reqs d' fifo_req) = rq_length (reqs d r)
       \<and> rq_actual (reqs d' fifo_req) = 0 \<and> rq_status (reqs d' fifo_req) = - EINPROGRESS
       \<and> reqs d' r = (reqs d r)\<lparr>rq_actual := rq_length (reqs d r), rq_status := 0\<rparr>
       \<and> trace d' = trace d @ [Giveback i r 0 (rq_length (reqs d r))]" by (elim exE conjE) blast
    have nq: "\<not> queued fifo_req d" and empty: "queue (ep d ! i) = []" using True by (simp_all add: fifo_takes_def)
    have "wf_queues d'"
      by (rule wf_queues_append [OF assms(6,5) _ _ d'(4) nq]) (use d'(2,3) len empty in simp_all)
    then show ?thesis using d'(1,3-5) True unfolding fifo [symmetric] by auto
  next
    case False
    let ?d = "upd_ep i (\<lambda>e. e\<lparr>queue := queue e @ [r]\<rparr>) (upd_req r (\<lambda>q. q\<lparr>rq_status := - EINPROGRESS, rq_actual := 0\<rparr>) d)"
    have "dummy_queue env (Some i) (Some r) d = Some (0, ?d)"
      using assms(2) False by (auto simp: dummy_queue_def can_queue_def Let_def)
    moreover have "wf_queues ?d"
      by (rule wf_queues_append [OF assms(6,5), where x = r]) (use assms(2,5) len in \<open>simp_all add: can_queue_def nth_list_update\<close>)
    ultimately show ?thesis using False i unfolding fifo [symmetric] by (auto simp: upd_req_def nth_list_update)
  qed
qed

text \<open>
  Dequeueing takes a queued request out of its endpoint's queue and out of every queue, and
  gives it back once with \<open>-ECONNRESET\<close>; a request of another endpoint is refused and nothing
  changes.
\<close>

theorem dequeue_returns_request:
  assumes "plain_env env" and "wf_queues d" and "i < DUMMY_ENDPOINTS" and "driver d \<noteq> None"
  shows "if r \<in> set (queue (ep d ! i))
     then \<exists>d'. dummy_dequeue env (Some i) (Some r) d = (0, d')
        \<and> queue (ep d' ! i) = remove1 r (queue (ep d ! i)) \<and> \<not> queued r d'
        \<and> trace d' = trace d @ [Giveback i r (- ECONNRESET) (rq_actual (reqs d r))]
     else dummy_dequeue env (Some i) (Some r) d = (- EINVAL, d)"
proof (cases "r \<in> set (queue (ep d ! i))")
  case True
  obtain xs ys where q: "queue (ep d ! i) = xs @ r # ys" "remove1 r (queue (ep d ! i)) = xs @ ys"
    using remove1_split [OF True] by blast
  have i: "i < length (ep d)" using assms(2,3) by (simp add: wf_queues_def)
  have "\<not> queued r (upd_ep i (\<lambda>e. e\<lparr>queue := remove1 r (queue e)\<rparr>) d)"
    by (rule dequeued_not_queued [OF assms(2) i q(1)]) (simp add: q(2))
  then have "\<not> queued r (upd_req r f (upd_ep i (\<lambda>e. e\<lparr>queue := remove1 r (queue e)\<rparr>) d))" for f
    by (simp add: queued_def)
  with True i assms(1,4) show ?thesis
    by (auto simp: dummy_dequeue_def giveback_def plain_env_def Let_def queued_def)
qed (use assms in \<open>auto simp: dummy_dequeue_def\<close>)

section \<open>Examples\<close>

definition demo_busy :: dummy_t where
  "demo_busy = upd_ep 1 (\<lambda>e. e\<lparr>queue := [5]\<rparr>) demo"

lemma wf_demo_busy: "wf_queues demo_busy"
proof -
  have "map queue (ep demo) = replicate DUMMY_ENDPOINTS []" by (rule nth_equalityI) simp_all
  then have "distinct (concat ((map queue (ep demo))[1 := map queue (ep demo) ! 1 @ [5]]))"
    by (intro distinct_concat_insert) (simp_all add: DUMMY_ENDPOINTS_eq distinct_concat_iff)
  then show ?thesis by (simp add: wf_queues_def demo_busy_def map_update DUMMY_ENDPOINTS_eq)
qed

text \<open>Two callbacks are running, and one ends with every sleep.\<close>

definition sleepy_env :: env where
  "sleepy_env = idle_env\<lparr>usleep_range := (\<lambda>d. d\<lparr>callback_usage := callback_usage d - 1\<rparr>)\<rparr>"

lemma sleepy_env_ok: "plain_env sleepy_env" "callbacks_end sleepy_env"
proof -
  show "plain_env sleepy_env" by (simp add: plain_env_def sleepy_env_def)
  have u: "usleep_range sleepy_env d = d\<lparr>callback_usage := callback_usage d - 1\<rparr>" for d
    by (simp add: sleepy_env_def)
  have n: "callback_usage ((usleep_range sleepy_env ^^ n) d) = callback_usage d - int n" for n d
    by (induction n) (simp_all add: u)
  have "callback_usage ((usleep_range sleepy_env ^^ nat (callback_usage d)) d) \<le> 0" for d
    by (simp add: n)
  then show "callbacks_end sleepy_env" unfolding callbacks_end_def using u by blast
qed

theorem udc_stop_drains_witness:
  "\<exists>d'. dummy_udc_stop sleepy_env (demo_busy\<lparr>callback_usage := 2\<rparr>) = Some (0, d') \<and> callback_usage d' \<le> 0
     \<and> driver d' = None \<and> queue (ep d' ! 1) = [] \<and> queue (ep demo_busy ! 1) = [5]"
proof -
  let ?d = "demo_busy\<lparr>callback_usage := 2\<rparr>"
  have "hcd_of (gadget_to_dummy_hcd ?d) ?d \<noteq> None" "wf_queues ?d"
    using wf_demo_busy by (simp_all add: demo_busy_def gadget_to_dummy_hcd_def upd_ep_def wf_queues_def)
  from udc_stop_drains [OF sleepy_env_ok this(2,1)] show ?thesis
    by (auto simp: DUMMY_ENDPOINTS_eq demo_busy_def)
qed

definition requeue_env :: env where
  "requeue_env = idle_env\<lparr>giveback_request :=
     (\<lambda>i r. upd_ep i (\<lambda>e. e\<lparr>queue := queue e @ [r]\<rparr>))\<rparr>"

theorem nuke_requeue_diverges_witness: "nuke requeue_env 1 demo_busy = None"
  by (rule nuke_requeue_diverges)
    (simp_all add: demo_busy_def requeue_env_def DUMMY_ENDPOINTS_eq)

theorem enable_accepts_witness:
  "\<exists>d'. dummy_enable (Some 3) (Some (bulk_desc 3)) (upd_ep 3 (\<lambda>_. zero_ep\<lparr>ep_name := ''ep3out''\<rparr>) demo)
     = Some (0, d')"
proof -
  let ?d = "upd_ep 3 (\<lambda>_. zero_ep\<lparr>ep_name := ''ep3out''\<rparr>) demo"
  have e: "ep ?d ! 3 = zero_ep\<lparr>ep_name := ''ep3out''\<rparr>" "3 < length (ep ?d)"
    by (simp_all add: DUMMY_ENDPOINTS_eq)
  have h: "hcd_of (gadget_to_dummy_hcd ?d) ?d = Some demo_hcd"
    by (simp add: gadget_to_dummy_hcd_def)
  have "usb_endpoint_type (bulk_desc 3) = USB_ENDPOINT_XFER_BULK" "usb_endpoint_maxp (bulk_desc 3) = 512"
    "bDescriptorType (bulk_desc 3) = USB_DT_ENDPOINT"
    by code_simp+
  then show ?thesis
    using enable_accepts [OF h e(2), of "bulk_desc 3"]
    by (auto simp: e name_excludes_def legal_packet_def usb_ss_max_streams_def ep0name_def
        simp del: upd_ep_simps(1))
qed

definition demo_request :: dummy_t where
  "demo_request = upd_req 7 (\<lambda>q. q\<lparr>rq_buf := [1, 2, 3], rq_length := 3,
     rq_complete := Driver_Complete\<rparr>) demo"

theorem queue_fifo_witness:
  "(\<exists>d'. dummy_queue idle_env (Some 1) (Some 7) demo_request = Some (0, d')
     \<and> queue (ep d' ! 1) = [fifo_req] \<and> take 3 (rq_buf (reqs d' fifo_req)) = [1, 2, 3])
   \<and> (\<exists>d'. dummy_queue idle_env (Some 1) (Some 7) (upd_ep 2 (\<lambda>e. e\<lparr>queue := [fifo_req]\<rparr>) demo_request) = Some (0, d')
     \<and> queue (ep d' ! 1) = [7])"
proof
  have nq: "\<not> queued r demo_request" for r
    using demo_queues(2) by (simp add: queued_def demo_request_def)
  let ?busy = "upd_ep 2 (\<lambda>e. e\<lparr>queue := [fifo_req]\<rparr>) demo_request"
  have ep: "ep demo_request = ep demo" by (simp add: demo_request_def)
  have wf: "wf_queues demo_request" using wf_demo by (simp add: wf_dummy_def wf_queues_def ep)
  have busy: "wf_queues ?busy"
    by (rule wf_queues_append [OF wf, of 2 _ fifo_req])
      (use nq in \<open>simp_all add: ep DUMMY_ENDPOINTS_eq\<close>)
  have ok: "can_queue 1 7 demo_request" "driver_request 7 demo_request" "length (fifo_buf demo_request) = FIFO_SIZE"
    "1 < DUMMY_ENDPOINTS"
    using nq by (auto simp: can_queue_def gadget_to_dummy_hcd_def demo_request_def driver_request_def fifo_req_def
      upd_req_def DUMMY_ENDPOINTS_eq)
  have "queue (ep demo_request ! 1) = []" "\<forall>j < DUMMY_ENDPOINTS. fifo_req \<notin> set (queue (ep demo_request ! j))"
    "unat (rq_length (reqs demo_request 7)) = 3" "rq_buf (reqs demo_request 7) = [1, 2, 3]"
    "\<exists>ds. desc (ep demo_request ! 1) = Some ds \<and> bEndpointAddress ds AND USB_DIR_IN \<noteq> 0"
    by (simp_all add: ep zero_ep_def bulk_desc_def) (simp_all add: demo_request_def upd_req_def)
  then show "\<exists>d'. dummy_queue idle_env (Some 1) (Some 7) demo_request = Some (0, d')
     \<and> queue (ep d' ! 1) = [fifo_req] \<and> take 3 (rq_buf (reqs d' fifo_req)) = [1, 2, 3]"
    using queue_fifo [OF idle_env_plain ok wf] by (auto simp: FIFO_SIZE_def)
  have "\<not> queued 7 ?busy"
    using nq [of 7] by (auto simp: queued_def list_ex_iff fifo_req_def dest!: subsetD [OF set_update_subset_insert])
  then have ok2: "can_queue 1 7 ?busy" "driver_request 7 ?busy" "length (fifo_buf ?busy) = FIFO_SIZE"
    using ok(1-3) by (simp_all add: can_queue_def gadget_to_dummy_hcd_def driver_request_def upd_ep_def)
  have "fifo_req \<in> set (queue (ep ?busy ! 2))" "2 < DUMMY_ENDPOINTS" and empty: "queue (ep ?busy ! 1) = []"
    by (simp_all add: ep DUMMY_ENDPOINTS_eq)
  then have n: "(\<forall>j < DUMMY_ENDPOINTS. fifo_req \<notin> set (queue (ep ?busy ! j))) = False" by blast
  show "\<exists>d'. dummy_queue idle_env (Some 1) (Some 7) ?busy = Some (0, d') \<and> queue (ep d' ! 1) = [7]"
    using queue_fifo [OF idle_env_plain ok2 ok(4) busy] unfolding n simp_thms if_False empty append_Nil by blast
qed

theorem dequeue_returns_request_witness:
  "\<exists>d'. dummy_dequeue idle_env (Some 1) (Some 5) demo_busy = (0, d') \<and> \<not> queued 5 d'"
proof -
  have "1 < DUMMY_ENDPOINTS" "driver demo_busy \<noteq> None" "5 \<in> set (queue (ep demo_busy ! 1))"
    by (simp_all add: demo_busy_def DUMMY_ENDPOINTS_eq)
  then show ?thesis
    using dequeue_returns_request [OF idle_env_plain wf_demo_busy, of 1 5] by auto
qed

section \<open>Losing the link\<close>

text \<open>
  The port lost its power, or began a reset, since its status was last remembered.
\<close>

definition link_drops :: "dummy_hcd \<Rightarrow> bool" where
  "link_drops h \<longleftrightarrow>
     (if powered h then in_reset h \<and> old_status h AND USB_PORT_STAT_RESET = 0
      else old_status h AND power_bit h \<noteq> 0)"

lemma hcd_of_callbacks: "hcd_of w (d\<lparr>callback_usage := k\<rparr>) = hcd_of w d"
  by simp


text \<open>A driver that turns interrupts off when the device is reset.\<close>

definition reset_env :: env where
  "reset_env = idle_env\<lparr>udc_reset := (\<lambda>d. d\<lparr>ints_enabled := False\<rparr>)\<rparr>"


end
