(* ===== verification/Dummy_Urb.thy ===== *)
theory Dummy_Urb
  imports Dummy_Streams Dummy_Gadget
begin

text \<open>
  Transfers on the host side (dummy\_hcd.c, lines 1240 to 1542): queueing and cancelling them,
  and the emulated wire, which moves bytes between the buffer of a transfer and the requests
  queued at the gadget's endpoint, by the rules of the USB specification for short packets.
\<close>

section \<open>Queueing\<close>

text \<open>
  The results of \<open>kmalloc\<close> (a fresh entry with whatever it held) and of linking the transfer to
  the endpoint in the USB core are arguments.
\<close>

definition dummy_urb_enqueue ::
  "urbp option \<Rightarrow> int \<Rightarrow> hcd_sel \<Rightarrow> urb \<Rightarrow> dummy_t \<Rightarrow> (int \<times> dummy_t) option" where
  "dummy_urb_enqueue kmalloc link_rc w u d =
     (case kmalloc of
        None \<Rightarrow> Some (- ENOMEM, d)
      | Some mem \<Rightarrow> do {
          let p = mem\<lparr>urbp_urb := u, miter_started := False\<rparr>;
          h \<leftarrow> hcd_of w d;
          rc \<leftarrow> dummy_validate_stream h u;
          if rc \<noteq> 0 then Some (rc, d)
          else if link_rc \<noteq> 0 then Some (link_rc, d)
          else
            let h = (if udev h = None then h\<lparr>udev := Some (urb_dev u)\<rparr> else h);
                p = (if usb_pipetype (urb_pipe u) = PIPE_CONTROL
                     then p\<lparr>urbp_urb := u\<lparr>error_count := 1\<rparr>\<rparr> else p);
                h = h\<lparr>urbp_list := urbp_list h @ [p]\<rparr>;
                h = (if next_frame_urbp h = None
                     then h\<lparr>next_frame_urbp := Some (urbp_id p)\<rparr> else h);
                h = (if timer h = None then h\<lparr>timer := Some (jiffies d + 1)\<rparr> else h)
            in Some (0, set_hcd w h d)
        })"

text \<open>
  Cancelling: the USB core checks the transfer and marks it; its answer and the controller it
  leaves are the argument \<open>check_unlink\<close>.
\<close>

definition dummy_urb_dequeue ::
  "(dummy_t \<Rightarrow> int \<times> dummy_t) \<Rightarrow> hcd_sel \<Rightarrow> dummy_t \<Rightarrow> (int \<times> dummy_t) option" where
  "dummy_urb_dequeue check_unlink w d =
     do {
       let (rc, d) = check_unlink d;
       h \<leftarrow> hcd_of w d;
       Some (rc, if rc = 0 \<and> rh_state h \<noteq> DUMMY_RH_RUNNING \<and> urbp_list h \<noteq> []
                 then set_hcd w (h\<lparr>timer := Some (jiffies d)\<rparr>) d else d)
     }"

section \<open>Moving bytes\<close>

text \<open>
  The copy of one piece, then the loop over the pieces. \<open>roff\<close> is the position of \<open>rbuf\<close> in the
  request's buffer; writing outside a piece or a buffer is undefined.
\<close>

definition sg_copy_piece ::
  "urb \<Rightarrow> sg_mapping_iter \<Rightarrow> usb_request \<Rightarrow> nat \<Rightarrow> nat \<Rightarrow> (urb \<times> usb_request) option" where
  "sg_copy_piece u m q roff n =
     (if length (urb_sg u) \<le> mi_seg m then None
      else if usb_urb_dir_in u then do {
        b \<leftarrow> memcpy (urb_sg u ! mi_seg m) (mi_off m) (rq_buf q) roff n;
        Some (u\<lparr>urb_sg := (urb_sg u)[mi_seg m := b]\<rparr>, q)
      }
      else do {
        b \<leftarrow> memcpy (rq_buf q) roff (urb_sg u ! mi_seg m) (mi_off m) n;
        Some (u, q\<lparr>rq_buf := b\<rparr>)
      })"

partial_function (option) sg_copy ::
  "env \<Rightarrow> u32 \<Rightarrow> nat \<Rightarrow> u32 \<Rightarrow> urbp \<Rightarrow> usb_request \<Rightarrow> (int \<times> urbp \<times> usb_request) option" where
  "sg_copy env len roff done_len p q =
     do {
       let m = miter p;
       let this_sg = min len (of_nat (mi_len m));
       let m = m\<lparr>mi_consumed := unat this_sg\<rparr>;
       let done_len = done_len + this_sg;
       (u, q) \<leftarrow> sg_copy_piece (urbp_urb p) m q roff (unat this_sg);
       let p = p\<lparr>urbp_urb := u, miter := m\<rparr>;
       let len = len - this_sg;
       if len = 0 then Some (sint done_len, p\<lparr>miter := sg_miter_stop env m\<rparr>, q)
       else (let (more, m) = sg_miter_next env u m in
             if \<not> more then Some (- EINVAL, p\<lparr>miter := m\<rparr>, q)
             else sg_copy env len (roff + unat this_sg) done_len (p\<lparr>miter := m\<rparr>) q)
     }"

definition dummy_perform_transfer ::
  "env \<Rightarrow> u32 \<Rightarrow> urbp \<Rightarrow> usb_request \<Rightarrow> (int \<times> urbp \<times> usb_request) option" where
  "dummy_perform_transfer env len p q =
     (let u = urbp_urb p; uoff = unat (actual_length u); roff = unat (rq_actual q) in
      if num_sgs u = 0 then
        if usb_urb_dir_in u then do {
          b \<leftarrow> memcpy (transfer_buffer u) uoff (rq_buf q) roff (unat len);
          Some (sint len, p\<lparr>urbp_urb := u\<lparr>transfer_buffer := b\<rparr>\<rparr>, q)
        }
        else do {
          b \<leftarrow> memcpy (rq_buf q) roff (transfer_buffer u) uoff (unat len);
          Some (sint len, p, q\<lparr>rq_buf := b\<rparr>)
        }
      else
        let p = (if miter_started p then p
                 else p\<lparr>miter := sg_miter_start env u, miter_started := True\<rparr>);
            (more, m) = sg_miter_next env u (miter p)
        in if \<not> more then Some (- EINVAL, p\<lparr>miter := m\<rparr>, q)
           else sg_copy env len roff 0 (p\<lparr>miter := m\<rparr>) q)"

section \<open>The transfer of one frame\<close>

text \<open>
  The bytes moved for one request: whether the packet that ends it is short, whether to rescan,
  and the two completion states. The arithmetic is the code's, on unsigned integers of 32 bits.
  \<open>Data_Stop\<close> is the loop's \<open>break\<close>.
\<close>

record xfer =
  x_urbp :: urbp
  x_req :: usb_request
  x_limit :: u32
  x_sent :: u32
  x_status :: int
  x_rescan :: bool

datatype data_result = Data_Stop | Data_Moved bool bool xfer \<comment> \<open>short, moved any, state\<close>

definition count_moved :: "int \<Rightarrow> urbp \<Rightarrow> usb_request \<Rightarrow> xfer \<Rightarrow> xfer" where
  "count_moved rc p q x =
     (let x = x\<lparr>x_urbp := p, x_req := q\<rparr> in
      if rc < 0 then x\<lparr>x_req := q\<lparr>rq_status := rc\<rparr>\<rparr>
      else let n = word_of_int rc; u = urbp_urb p
           in x\<lparr>x_limit := x_limit x - n, x_sent := x_sent x + n,
                x_urbp := p\<lparr>urbp_urb := u\<lparr>actual_length := actual_length u + n\<rparr>\<rparr>,
                x_req := q\<lparr>rq_actual := rq_actual q + n\<rparr>\<rparr>)"

definition move_packets :: "env \<Rightarrow> bool \<Rightarrow> u32 \<Rightarrow> xfer \<Rightarrow> data_result option" where
  "move_packets env is_short len x =
     do {
       (rc, p, q) \<leftarrow> dummy_perform_transfer env len (x_urbp x) (x_req x);
       Some (Data_Moved is_short True (count_moved rc p q x))
     }"

definition move_data :: "env \<Rightarrow> nat \<Rightarrow> u32 \<Rightarrow> xfer \<Rightarrow> data_result option" where
  "move_data env maxp len x =
     (if len = 0 then Some (Data_Moved True False x)
      else if sint (x_limit x) < int maxp \<and> x_limit x < len then Some Data_Stop
      else let len = min len (x_limit x) in
        if len = 0 then Some Data_Stop
        else if of_nat maxp \<le> len then
          if maxp = 0 then None
          else let r = len mod of_nat maxp
               in move_packets env False (len - r) (if r \<noteq> 0 then x\<lparr>x_rescan := True\<rparr> else x)
        else move_packets env True len x)"

definition settle :: "bool \<Rightarrow> u32 \<Rightarrow> u32 \<Rightarrow> xfer \<Rightarrow> xfer" where
  "settle is_short host_len dev_len x =
     (let u = urbp_urb (x_urbp x); to_host = usb_urb_dir_in u; q = x_req x in
      if is_short then
        if host_len = dev_len then x\<lparr>x_req := q\<lparr>rq_status := 0\<rparr>, x_status := 0\<rparr>
        else if to_host then
          x\<lparr>x_req := q\<lparr>rq_status := 0\<rparr>,
            x_status := (if dev_len > host_len then - EOVERFLOW else 0)\<rparr>
        else
          x\<lparr>x_req := q\<lparr>rq_status := (if host_len > dev_len then - EOVERFLOW else 0)\<rparr>,
            x_status := 0\<rparr>
      else
        (let x = (if rq_length q = rq_actual q then
                    if rq_zero q \<and> to_host then x\<lparr>x_rescan := True\<rparr>
                    else x\<lparr>x_req := q\<lparr>rq_status := 0\<rparr>\<rparr>
                  else x)
         in if transfer_buffer_length u = actual_length u then
              if transfer_flags u AND URB_ZERO_PACKET \<noteq> 0 \<and> \<not> to_host
              then x\<lparr>x_rescan := True\<rparr> else x\<lparr>x_status := 0\<rparr>
            else x))"

text \<open>
  The body of the loop for the request \<open>r\<close>, then the loop over the requests that remain of the
  queue, from the top after each rescan.
\<close>

datatype flow = Stop | Rescan | Advance

definition transfer_one ::
  "env \<Rightarrow> hcd_sel \<Rightarrow> nat \<Rightarrow> nat \<Rightarrow> nat \<Rightarrow> u32 \<Rightarrow> u32 \<Rightarrow> int \<Rightarrow> dummy_t
     \<Rightarrow> (flow \<times> u32 \<times> u32 \<times> int \<times> dummy_t) option" where
  "transfer_one env w k i r limit sent st d =
     do {
       h \<leftarrow> hcd_of w d;
       p \<leftarrow> get_urbp w k d;
       let u = urbp_urb p;
       let q = reqs d r;
       if dummy_ep_stream_en h u \<and> urb_stream_id u \<noteq> rq_stream_id q
       then Some (Advance, limit, sent, st, d)
       else do {
         let host_len = transfer_buffer_length u - actual_length u;
         let dev_len = rq_length q - rq_actual q;
         res \<leftarrow> move_data env (maxpacket (ep d ! i)) (min host_len dev_len)
                  \<lparr>x_urbp = p, x_req = q, x_limit = limit, x_sent = sent, x_status = st,
                    x_rescan = False\<rparr>;
         case res of
           Data_Stop \<Rightarrow> Some (Stop, limit, sent, st, d)
         | Data_Moved is_short moved x \<Rightarrow>
             let x = settle is_short host_len dev_len x;
                 d = (if moved then upd_ep i (\<lambda>e. e\<lparr>last_io := jiffies d\<rparr>) d else d);
                 d = upd_req r (\<lambda>_. x_req x) (put_urbp w (x_urbp x) d);
                 finished = (rq_status (x_req x) \<noteq> - EINPROGRESS);
                 d = (if finished
                      then giveback env i r (upd_ep i (\<lambda>e. e\<lparr>queue := remove1 r (queue e)\<rparr>) d)
                      else d);
                 f = (if x_status x \<noteq> - EINPROGRESS then Stop
                      else if finished \<or> x_rescan x then Rescan else Advance)
             in Some (f, x_limit x, x_sent x, x_status x, d)
       }
     }"

partial_function (option) transfer_loop ::
  "env \<Rightarrow> hcd_sel \<Rightarrow> nat \<Rightarrow> nat \<Rightarrow> nat list \<Rightarrow> u32 \<Rightarrow> u32 \<Rightarrow> int \<Rightarrow> dummy_t
     \<Rightarrow> (u32 \<times> int \<times> dummy_t) option" where
  "transfer_loop env w k i rs limit sent st d =
     (case rs of
        [] \<Rightarrow> Some (sent, st, d)
      | r # rs \<Rightarrow> do {
          (f, limit, sent, st, d) \<leftarrow> transfer_one env w k i r limit sent st d;
          case f of
            Stop \<Rightarrow> Some (sent, st, d)
          | Rescan \<Rightarrow> transfer_loop env w k i (queue (ep d ! i)) limit sent st d
          | Advance \<Rightarrow> transfer_loop env w k i rs limit sent st d
        })"

definition transfer ::
  "env \<Rightarrow> hcd_sel \<Rightarrow> nat \<Rightarrow> nat \<Rightarrow> int \<Rightarrow> int \<Rightarrow> dummy_t \<Rightarrow> (int \<times> int \<times> dummy_t) option" where
  "transfer env w k i limit st d =
     do {
       (sent, st, d) \<leftarrow> transfer_loop env w k i (queue (ep d ! i)) (word_of_int limit) 0 st d;
       Some (sint sent, st, d)
     }"

definition periodic_bytes :: "nat \<Rightarrow> dummy_t \<Rightarrow> int option" where
  "periodic_bytes i d =
     (let limit = int (maxpacket (ep d ! i)) in
      do {
        limit \<leftarrow> (if speed (gadget d) = USB_SPEED_HIGH then do {
                    ds \<leftarrow> desc (ep d ! i);
                    let tmp = int (usb_endpoint_maxp_mult ds) * 8;
                    Some (limit + limit * tmp)
                  } else Some limit);
        if speed (gadget d) = USB_SPEED_SUPER then do {
          ds \<leftarrow> desc (ep d ! i);
          Some (case usb_endpoint_type ds of
                  USB_ENDPOINT_XFER_ISOC \<Rightarrow> 3 * 16 * 1024 * 8
                | USB_ENDPOINT_XFER_INT \<Rightarrow> 3 * 1024 * 8
                | _ \<Rightarrow> limit)
        } else Some limit
      })"

section \<open>What a copy changes\<close>

text \<open>
  A copy changes bytes only: the buffer of the request or of the transfer keeps its length, and
  every other field stays. The iterator of the entry may move.
\<close>

definition same_request :: "usb_request \<Rightarrow> usb_request \<Rightarrow> bool" where
  "same_request q q' \<longleftrightarrow> (\<exists>b. q' = q\<lparr>rq_buf := b\<rparr> \<and> length b = length (rq_buf q))"

definition same_urb :: "urb \<Rightarrow> urb \<Rightarrow> bool" where
  "same_urb u u' \<longleftrightarrow> (\<exists>b sg. u' = u\<lparr>transfer_buffer := b, urb_sg := sg\<rparr>
     \<and> length b = length (transfer_buffer u) \<and> map length sg = map length (urb_sg u))"

definition same_urbp :: "urbp \<Rightarrow> urbp \<Rightarrow> bool" where
  "same_urbp p p' \<longleftrightarrow> urbp_id p' = urbp_id p \<and> same_urb (urbp_urb p) (urbp_urb p')"

lemma same_request_refl [simp]: "same_request q q"
  unfolding same_request_def by (rule exI [of _ "rq_buf q"]) simp

lemma same_urb_refl [simp]: "same_urb u u"
  unfolding same_urb_def by (rule exI [of _ "transfer_buffer u"], rule exI [of _ "urb_sg u"]) simp

lemma same_urbp_refl [simp]: "same_urbp p p"
  by (simp add: same_urbp_def)

lemma same_request_trans: "same_request a b \<Longrightarrow> same_request b c \<Longrightarrow> same_request a c"
  by (auto simp: same_request_def)

lemma same_urb_trans: "same_urb a b \<Longrightarrow> same_urb b c \<Longrightarrow> same_urb a c"
  unfolding same_urb_def by (elim exE conjE, intro exI) auto

lemma same_requestI: "length b = length (rq_buf q) \<Longrightarrow> same_request q (q\<lparr>rq_buf := b\<rparr>)"
  by (auto simp: same_request_def)

lemma same_urb_bufferI:
  "length b = length (transfer_buffer u) \<Longrightarrow> same_urb u (u\<lparr>transfer_buffer := b\<rparr>)"
  unfolding same_urb_def by (intro exI [of _ b] exI [of _ "urb_sg u"]) simp

lemma same_urb_sgI:
  "length b = length (urb_sg u ! s) \<Longrightarrow> same_urb u (u\<lparr>urb_sg := (urb_sg u)[s := b]\<rparr>)"
  unfolding same_urb_def
  by (intro exI [of _ "transfer_buffer u"] exI [of _ "(urb_sg u)[s := b]"])
    (simp add: map_update, metis list_update_id map_update)

lemma same_urbp_trans: "same_urbp a b \<Longrightarrow> same_urbp b c \<Longrightarrow> same_urbp a c"
  by (auto simp: same_urbp_def intro: same_urb_trans)

lemma same_urbp_fields [simp]:
  "same_urbp p (p'\<lparr>miter := m\<rparr>) = same_urbp p p'"
  "same_urbp (p\<lparr>miter := m\<rparr>) p' = same_urbp p p'"
  "same_urbp p (p'\<lparr>miter_started := b\<rparr>) = same_urbp p p'"
  "same_urbp (p\<lparr>miter_started := b\<rparr>) p' = same_urbp p p'"
  by (simp_all add: same_urbp_def)

lemma sg_copy_piece_same:
  assumes "sg_copy_piece u m q roff n = Some (u', q')"
  shows "same_urb u u' \<and> same_request q q'"
  using assms
  by (auto simp: sg_copy_piece_def bind_eq_Some_conv dest: memcpy_length
      intro: same_requestI same_urb_sgI split: if_splits)

lemma sg_copy_result:
  assumes "sg_copy env len roff tot p q = Some (rc, p', q')"
  shows "(rc = - EINVAL \<or> rc = sint (tot + len)) \<and> same_urbp p p' \<and> same_request q q'"
proof -
  have "case res of (rc, p', q') \<Rightarrow>
      (rc = - EINVAL \<or> rc = sint (tot + len)) \<and> same_urbp p p' \<and> same_request q q'"
    if "sg_copy env len roff tot p q = Some res" for res
  proof (rule sg_copy.raw_induct [where P = "\<lambda>env len roff tot p q res. case res of (rc, p', q') \<Rightarrow>
      (rc = - EINVAL \<or> rc = sint (tot + len)) \<and> same_urbp p p' \<and> same_request q q'", OF _ that])
    fix sg_copy env len roff tot p q res
    assume IH: "\<And>env len roff tot p q res. sg_copy env len roff tot p q = Some res \<Longrightarrow>
        case res of (rc, p', q') \<Rightarrow>
          (rc = - EINVAL \<or> rc = sint (tot + len)) \<and> same_urbp p p' \<and> same_request q q'"
      and eq: "(let m = miter p; this_sg = min len (word_of_nat (mi_len m));
             m = m\<lparr>mi_consumed := unat this_sg\<rparr>; done_len = tot + this_sg
         in sg_copy_piece (urbp_urb p) m q roff (unat this_sg) \<bind>
            (\<lambda>(u, q). let p = p\<lparr>urbp_urb := u, miter := m\<rparr>; len = len - this_sg
                in if len = 0 then Some (sint done_len, p\<lparr>miter := sg_miter_stop env m\<rparr>, q)
                   else let (more, m) = sg_miter_next env u m
                        in if \<not> more then Some (- EINVAL, p\<lparr>miter := m\<rparr>, q)
                           else sg_copy env len (roff + unat this_sg) done_len (p\<lparr>miter := m\<rparr>) q))
        = Some res"
    show "case res of (rc, p', q') \<Rightarrow>
      (rc = - EINVAL \<or> rc = sint (tot + len)) \<and> same_urbp p p' \<and> same_request q q'"
    proof -
      obtain u q1 where piece: "sg_copy_piece (urbp_urb p)
          ((miter p)\<lparr>mi_consumed := unat (min len (word_of_nat (mi_len (miter p))))\<rparr>) q roff
          (unat (min len (word_of_nat (mi_len (miter p))))) = Some (u, q1)"
        using eq by (auto simp: Let_def bind_eq_Some_conv)
      note same = sg_copy_piece_same [OF piece]
      have "same_urbp p (p\<lparr>urbp_urb := u, miter := m\<rparr>)" for m
        using same by (simp add: same_urbp_def)
      then show ?thesis
        using eq piece same
        by (auto simp: Let_def split: if_splits prod.splits
            dest!: IH intro: same_urbp_trans same_request_trans)
    qed
  qed
  with assms show ?thesis by auto
qed

lemma perform_transfer_result:
  assumes "dummy_perform_transfer env len p q = Some (rc, p', q')"
  shows "(rc = - EINVAL \<or> rc = sint len) \<and> same_urbp p p' \<and> same_request q q'"
proof (cases "num_sgs (urbp_urb p) = 0")
  case True
  with assms show ?thesis
    by (auto simp: dummy_perform_transfer_def Let_def bind_eq_Some_conv same_urbp_def
        dest!: memcpy_length intro: same_requestI same_urb_bufferI split: if_splits)
next
  case False
  let ?p = "if miter_started p then p
            else p\<lparr>miter := sg_miter_start env (urbp_urb p), miter_started := True\<rparr>"
  have p: "same_urbp p ?p" by simp
  obtain m more where m: "sg_miter_next env (urbp_urb p) (miter ?p) = (more, m)" by fastforce
  show ?thesis
  proof (cases more)
    case True
    then have "sg_copy env len (unat (rq_actual q)) 0 (?p\<lparr>miter := m\<rparr>) q = Some (rc, p', q')"
      using False assms m by (simp add: dummy_perform_transfer_def Let_def)
    from sg_copy_result [OF this] show ?thesis by (auto split: if_splits)
  next
    case more: False
    then have "rc = - EINVAL" "p' = ?p\<lparr>miter := m\<rparr>" "q' = q"
      using False assms m by (auto simp: dummy_perform_transfer_def Let_def)
    then show ?thesis by simp
  qed
qed

section \<open>One pass of a transfer\<close>

text \<open>
  How moving data changes the state of a transfer: the bytes are counted on both sides and
  against the limit, or the request takes the error.
\<close>

definition moved_by :: "u32 \<Rightarrow> xfer \<Rightarrow> xfer \<Rightarrow> bool" where
  "moved_by n x x' \<longleftrightarrow> n \<le> x_limit x
     \<and> same_urb ((urbp_urb (x_urbp x))\<lparr>actual_length := actual_length (urbp_urb (x_urbp x)) + n\<rparr>)
         (urbp_urb (x_urbp x'))
     \<and> urbp_id (x_urbp x') = urbp_id (x_urbp x)
     \<and> same_request ((x_req x)\<lparr>rq_actual := rq_actual (x_req x) + n\<rparr>) (x_req x')
     \<and> x_limit x' = x_limit x - n \<and> x_sent x' = x_sent x + n \<and> x_status x' = x_status x"

definition failed_by :: "int \<Rightarrow> xfer \<Rightarrow> xfer \<Rightarrow> bool" where
  "failed_by rc x x' \<longleftrightarrow> rc < 0 \<and> same_urbp (x_urbp x) (x_urbp x')
     \<and> same_request ((x_req x)\<lparr>rq_status := rc\<rparr>) (x_req x')
     \<and> x_limit x' = x_limit x \<and> x_sent x' = x_sent x \<and> x_status x' = x_status x"

lemma same_request_actual:
  assumes "same_request q q'"
  shows "same_request (q\<lparr>rq_actual := a\<rparr>) (q'\<lparr>rq_actual := a\<rparr>)"
    "same_request (q\<lparr>rq_status := s\<rparr>) (q'\<lparr>rq_status := s\<rparr>)"
    "rq_actual q' = rq_actual q" "rq_length q' = rq_length q" "rq_status q' = rq_status q"
    "length (rq_buf q') = length (rq_buf q)" "rq_zero q' = rq_zero q"
proof -
  obtain b where b: "q' = q\<lparr>rq_buf := b\<rparr>" "length b = length (rq_buf q)"
    using assms by (auto simp: same_request_def)
  then show "rq_actual q' = rq_actual q" "rq_length q' = rq_length q" "rq_status q' = rq_status q"
    "length (rq_buf q') = length (rq_buf q)" "rq_zero q' = rq_zero q" by simp_all
  show "same_request (q\<lparr>rq_actual := a\<rparr>) (q'\<lparr>rq_actual := a\<rparr>)"
    "same_request (q\<lparr>rq_status := s\<rparr>) (q'\<lparr>rq_status := s\<rparr>)"
    unfolding same_request_def by (rule exI [of _ b], simp add: b)+
qed

lemma same_urb_actual:
  assumes "same_urb u u'"
  shows "same_urb (u\<lparr>actual_length := a\<rparr>) (u'\<lparr>actual_length := a\<rparr>)"
    "actual_length u' = actual_length u" "transfer_buffer_length u' = transfer_buffer_length u"
    "transfer_flags u' = transfer_flags u" "num_sgs u' = num_sgs u"
    "length (transfer_buffer u') = length (transfer_buffer u)"
proof -
  obtain b sg where b: "u' = u\<lparr>transfer_buffer := b, urb_sg := sg\<rparr>"
      "length b = length (transfer_buffer u)" "map length sg = map length (urb_sg u)"
    using assms by (auto simp: same_urb_def)
  then show "actual_length u' = actual_length u"
    "transfer_buffer_length u' = transfer_buffer_length u"
    "transfer_flags u' = transfer_flags u" "num_sgs u' = num_sgs u"
    "length (transfer_buffer u') = length (transfer_buffer u)" by simp_all
  show "same_urb (u\<lparr>actual_length := a\<rparr>) (u'\<lparr>actual_length := a\<rparr>)"
    unfolding same_urb_def by (rule exI [of _ b], rule exI [of _ sg], simp add: b)
qed

lemma count_moved:
  assumes "same_urbp (x_urbp x) p" and "same_request (x_req x) q"
    and "n \<le> x_limit x" and "rc < 0 \<or> rc = sint n"
  shows "moved_by n x (count_moved rc p q x) \<or> failed_by rc x (count_moved rc p q x)"
    and "x_rescan (count_moved rc p q x) = x_rescan x"
  using assms
  by (auto simp: count_moved_def moved_by_def failed_by_def Let_def same_urbp_def
      same_request_actual same_urb_actual)

lemma mod_sub_le: "(l :: u32) - l mod m \<le> l"
  by (rule word_sub_le) (simp add: word_le_nat_alt unat_mod)

lemma move_packets_result:
  assumes "move_packets env b n x = Some res" and "n \<le> x_limit x"
  obtains x' rc where "res = Data_Moved b True x'" "x_rescan x' = x_rescan x"
    "moved_by n x x' \<or> failed_by rc x x'"
proof -
  obtain rc p q where pt: "dummy_perform_transfer env n (x_urbp x) (x_req x) = Some (rc, p, q)"
    and res: "res = Data_Moved b True (count_moved rc p q x)"
    using assms(1) by (auto simp: move_packets_def bind_eq_Some_conv)
  have "same_urbp (x_urbp x) p" "same_request (x_req x) q" "rc < 0 \<or> rc = sint n"
    using perform_transfer_result [OF pt] by auto
  from count_moved [OF this(1,2) assms(2) this(3)] show ?thesis using that res by blast
qed

text \<open>
  The number of bytes of one pass: all that fits the limit if it is less than a packet, whole
  packets otherwise, with a rescan for the remainder.
\<close>

definition pass_len :: "nat \<Rightarrow> u32 \<Rightarrow> xfer \<Rightarrow> u32" where
  "pass_len maxp len x =
     (let l = min len (x_limit x) in if of_nat maxp \<le> l then l - l mod of_nat maxp else l)"

lemma pass_len_le: "pass_len maxp len x \<le> len" "pass_len maxp len x \<le> x_limit x"
  using mod_sub_le [of "min len (x_limit x)" "of_nat maxp"]
  by (auto simp: pass_len_def Let_def intro: order_trans)

lemma rescan_if: "x_rescan (if c then x\<lparr>x_rescan := True\<rparr> else x) = (x_rescan x \<or> c)"
  by simp

lemma move_data_result:
  assumes "move_data env maxp len x = Some (Data_Moved is_short mv x')"
  shows "len = 0 \<and> \<not> mv \<and> is_short \<and> x' = x
    \<or> len \<noteq> 0 \<and> mv \<and> (is_short \<longleftrightarrow> min len (x_limit x) < of_nat maxp)
      \<and> x_rescan x' = (x_rescan x \<or> \<not> is_short \<and> min len (x_limit x) mod of_nat maxp \<noteq> 0)
      \<and> (moved_by (pass_len maxp len x) x x' \<or> (\<exists>rc. failed_by rc x x'))"
proof (cases "len = 0")
  case True
  with assms show ?thesis by (simp add: move_data_def)
next
  case False
  let ?l = "min len (x_limit x)" and ?n = "pass_len maxp len x"
  let ?short = "\<not> of_nat maxp \<le> ?l"
  let ?x = "if \<not> ?short \<and> ?l mod of_nat maxp \<noteq> 0 then x\<lparr>x_rescan := True\<rparr> else x"
  have "move_packets env ?short ?n ?x = Some (Data_Moved is_short mv x')"
    using assms False
    by (simp add: move_data_def pass_len_def Let_def del: min.bounded_iff split: if_splits)
  moreover have "?n \<le> x_limit ?x" using pass_len_le(2) by simp
  ultimately obtain y rc where y: "Data_Moved is_short mv x' = Data_Moved ?short True y"
      and r: "x_rescan y = x_rescan ?x" "moved_by ?n ?x y \<or> failed_by rc ?x y"
    by (rule move_packets_result)
  have "moved_by ?n ?x y = moved_by ?n x y" "failed_by rc ?x y = failed_by rc x y"
    by (simp_all add: moved_by_def failed_by_def)
  moreover have "y = x'" "mv" "is_short = ?short" using y by (simp_all del: min.bounded_iff)
  moreover have "x_rescan ?x = (x_rescan x \<or> \<not> ?short \<and> ?l mod of_nat maxp \<noteq> 0)"
    by (rule rescan_if)
  ultimately show ?thesis using r False by (metis not_le)
qed

lemma settle_frame [simp]:
  "x_urbp (settle b hl dl x) = x_urbp x" "x_limit (settle b hl dl x) = x_limit x"
  "x_sent (settle b hl dl x) = x_sent x"
  "rq_actual (x_req (settle b hl dl x)) = rq_actual (x_req x)"
  "rq_length (x_req (settle b hl dl x)) = rq_length (x_req x)"
  "rq_buf (x_req (settle b hl dl x)) = rq_buf (x_req x)"
  by (simp_all add: settle_def Let_def)

lemma settle_status:
  "rq_status (x_req (settle b hl dl x)) \<in> {rq_status (x_req x), 0, - EOVERFLOW}"
  by (auto simp: settle_def Let_def)

lemma upd_hcd_steady [simp]:
  "steady a (upd_hcd w f d) = steady a d" "steady (upd_hcd w f d) a = steady d a"
  by (simp_all add: upd_hcd_def split: option.split)

lemma put_urbp_steady [simp]:
  "steady a (put_urbp w p d) = steady a d" "steady (put_urbp w p d) a = steady d a"
  by (simp_all add: put_urbp_def)

lemma upd_hcd_fields [simp]:
  "ep (upd_hcd w f d) = ep d" "reqs (upd_hcd w f d) = reqs d" "trace (upd_hcd w f d) = trace d"
  "driver (upd_hcd w f d) = driver d" "gadget (upd_hcd w f d) = gadget d"
  "ints_enabled (upd_hcd w f d) = ints_enabled d" "jiffies (upd_hcd w f d) = jiffies d"
  "hcd_of w (upd_hcd w f d) = map_option f (hcd_of w d)"
  by (simp_all add: upd_hcd_def split: option.split)

lemma put_urbp_fields [simp]:
  "ep (put_urbp w p d) = ep d" "reqs (put_urbp w p d) = reqs d" "trace (put_urbp w p d) = trace d"
  "driver (put_urbp w p d) = driver d" "gadget (put_urbp w p d) = gadget d"
  "ints_enabled (put_urbp w p d) = ints_enabled d" "jiffies (put_urbp w p d) = jiffies d"
  by (simp_all add: put_urbp_def)

lemma wf_put_urbp [simp]: "wf_dummy (put_urbp w p d) = wf_dummy d"
  by (simp add: put_urbp_def upd_hcd_def split: option.split)

lemma find_replaced:
  "List.find (\<lambda>q. urbp_id q = urbp_id p') ps = Some p \<Longrightarrow>
     List.find (\<lambda>q. urbp_id q = urbp_id p') (map (\<lambda>q. if urbp_id q = urbp_id p' then p' else q) ps)
       = Some p'"
  by (induction ps) (auto split: if_splits)

lemma get_put_urbp:
  assumes "get_urbp w k d = Some p" and "urbp_id p' = k"
  shows "get_urbp w k (put_urbp w p' d) = Some p'"
proof -
  obtain h where h: "hcd_of w d = Some h" and "List.find (\<lambda>q. urbp_id q = k) (urbp_list h) = Some p"
    using assms(1) by (auto simp: get_urbp_def split: option.splits)
  then show ?thesis
    using assms(2) find_replaced [of p' "urbp_list h" p] by (auto simp: get_urbp_def put_urbp_def)
qed

lemma get_urbp_id: "get_urbp w k d = Some p \<Longrightarrow> urbp_id p = k"
  by (auto simp: get_urbp_def find_Some_iff split: option.splits)

lemma get_urbp_upd_ep [simp]: "get_urbp w k (upd_ep i f d) = get_urbp w k d"
  by (simp add: get_urbp_def)

lemma wf_replace_request:
  assumes "wf_dummy d" and "wf_request (f (reqs d r))"
  shows "wf_dummy (upd_req r f d)"
  using assms by (auto simp: wf_dummy_def wf_queues_def queued_def)

text \<open>
  The request after one pass: it stays well formed, or is done.
\<close>

lemma moved_request_wf:
  assumes "wf_request (x_req x)" and "n \<le> rq_length (x_req x) - rq_actual (x_req x)"
    and "moved_by n x x' \<or> failed_by rc x x'"
  shows "wf_request (x_req x') \<or> rq_status (x_req x') \<noteq> - EINPROGRESS"
  using assms(3)
proof
  assume "moved_by n x x'"
  then have s: "same_request ((x_req x)\<lparr>rq_actual := rq_actual (x_req x) + n\<rparr>) (x_req x')"
    by (simp add: moved_by_def)
  have "rq_actual (x_req x) + n \<le> rq_length (x_req x)"
    using assms(1,2) unfolding wf_request_def by unat_arith
  then show ?thesis
    using assms(1) same_request_actual(3-6) [OF s] by (auto simp: wf_request_def)
next
  assume "failed_by rc x x'"
  then have s: "same_request ((x_req x)\<lparr>rq_status := rc\<rparr>) (x_req x')"
    by (simp add: failed_by_def)
  then show ?thesis
    using assms(1) same_request_actual(3-6) [OF s] by (auto simp: wf_request_def)
qed

lemma settle_request_wf:
  assumes "wf_request (x_req x) \<or> rq_status (x_req x) \<noteq> - EINPROGRESS"
  shows "wf_request (x_req (settle b hl dl x)) \<or> rq_status (x_req (settle b hl dl x)) \<noteq> - EINPROGRESS"
  using assms settle_status [of b hl dl x] by (auto simp: wf_request_def)

text \<open>The three ways one pass ends.\<close>

lemma transfer_one_cases:
  assumes "transfer_one env w k i r limit sent st d = Some (f, limit', sent', st', d')"
  obtains (skip) "f \<noteq> Rescan" "limit' = limit" "sent' = sent" "st' = st" "d' = d"
  | (pass) h p x b mv y g where
      "hcd_of w d = Some h" "get_urbp w k d = Some p"
      "x = \<lparr>x_urbp = p, x_req = reqs d r, x_limit = limit, x_sent = sent, x_status = st,
            x_rescan = False\<rparr>"
      "move_data env (maxpacket (ep d ! i))
         (min (transfer_buffer_length (urbp_urb p) - actual_length (urbp_urb p))
            (rq_length (reqs d r) - rq_actual (reqs d r))) x = Some (Data_Moved b mv y)"
      "\<And>e. queue (g e) = queue e"
      "let z = settle b (transfer_buffer_length (urbp_urb p) - actual_length (urbp_urb p))
            (rq_length (reqs d r) - rq_actual (reqs d r)) y;
           d1 = upd_req r (\<lambda>_. x_req z) (put_urbp w (x_urbp z) (upd_ep i g d)) in
         limit' = x_limit z \<and> sent' = x_sent z \<and> st' = x_status z
         \<and> d' = (if rq_status (x_req z) \<noteq> - EINPROGRESS
                then giveback env i r (upd_ep i (\<lambda>e. e\<lparr>queue := remove1 r (queue e)\<rparr>) d1) else d1)
         \<and> f = (if x_status z \<noteq> - EINPROGRESS then Stop
               else if rq_status (x_req z) \<noteq> - EINPROGRESS \<or> x_rescan z then Rescan else Advance)"
      "\<And>e. maxpacket (g e) = maxpacket e \<and> desc (g e) = desc e \<and> already_seen (g e) = already_seen e"
proof -
  obtain h p where hp: "hcd_of w d = Some h" "get_urbp w k d = Some p"
    using assms by (auto simp: transfer_one_def bind_eq_Some_conv)
  show ?thesis
  proof (cases "dummy_ep_stream_en h (urbp_urb p) \<and> urb_stream_id (urbp_urb p) \<noteq> rq_stream_id (reqs d r)")
    case True
    with assms hp skip show ?thesis by (auto simp: transfer_one_def)
  next
    case False
    let ?hl = "transfer_buffer_length (urbp_urb p) - actual_length (urbp_urb p)"
    let ?dl = "rq_length (reqs d r) - rq_actual (reqs d r)"
    let ?x = "\<lparr>x_urbp = p, x_req = reqs d r, x_limit = limit, x_sent = sent, x_status = st,
            x_rescan = False\<rparr>"
    obtain res where res: "move_data env (maxpacket (ep d ! i)) (min ?hl ?dl) ?x = Some res"
      using assms hp False by (auto simp: transfer_one_def Let_def bind_eq_Some_conv)
    show ?thesis
    proof (cases res)
      case Data_Stop
      with assms hp False res skip show ?thesis by (auto simp: transfer_one_def Let_def)
    next
      case (Data_Moved b mv y)
      show ?thesis
        by (rule pass [OF hp refl, where b = b and mv = mv and y = y
              and g = "if mv then \<lambda>e. e\<lparr>last_io := jiffies d\<rparr> else (\<lambda>e. e)"])
          (use assms hp False res Data_Moved in
            \<open>auto simp: transfer_one_def Let_def upd_ep_def\<close>)
    qed
  qed
qed

lemma upd_ep_req_commute: "upd_ep i g (upd_req r f d) = upd_req r f (upd_ep i g d)"
  by (simp add: upd_ep_def upd_req_def)

lemma upd_ep_put_commute: "upd_ep i g (put_urbp w p d) = put_urbp w p (upd_ep i g d)"
  by (cases w) (simp_all add: upd_ep_def put_urbp_def upd_hcd_def set_hcd_def hcd_of_def split: option.split)

lemma upd_ep_twice: "upd_ep i f (upd_ep i g d) = upd_ep i (\<lambda>e. f (g e)) d"
  by (cases "i < length (ep d)") (simp_all add: upd_ep_def list_update_beyond)

lemma transfer_one_wf:
  assumes env: "env_ok env" and wf: "wf_dummy d" and i: "i < DUMMY_ENDPOINTS"
    and r: "r \<in> set (queue (ep d ! i))"
    and one: "transfer_one env w k i r limit sent st d = Some (f, limit', sent', st', d')"
  shows "wf_dummy d'" "f = Advance \<Longrightarrow> queue (ep d' ! i) = queue (ep d ! i)"
proof -
  have len: "i < length (ep d)" using i wf_dummyD(4) [OF wf] by simp
  have wfr: "wf_request (reqs d r)"
    using wf_dummyD(2) [OF wf queued_queue [OF len r]] .
  have "wf_dummy d' \<and> (f = Advance \<longrightarrow> queue (ep d' ! i) = queue (ep d ! i))"
    using one
  proof (cases rule: transfer_one_cases)
    case skip
    with wf show ?thesis by simp
  next
    case (pass h p x b mv y g)
    let ?hl = "transfer_buffer_length (urbp_urb p) - actual_length (urbp_urb p)"
    let ?dl = "rq_length (reqs d r) - rq_actual (reqs d r)"
    let ?z = "settle b ?hl ?dl y"
    let ?d1 = "upd_req r (\<lambda>_. x_req ?z) (put_urbp w (x_urbp ?z) (upd_ep i g d))"
    have xr: "x_req x = reqs d r" using pass(3) by simp
    have y: "wf_request (x_req y) \<or> rq_status (x_req y) \<noteq> - EINPROGRESS"
      using move_data_result [OF pass(4)]
    proof (elim disjE conjE exE)
      show "y = x \<Longrightarrow> ?thesis" using wfr xr by simp
      show "moved_by (pass_len (maxpacket (ep d ! i)) (min ?hl ?dl) x) x y \<Longrightarrow> ?thesis"
        by (rule moved_request_wf [OF _ _ disjI1])
          (use wfr xr order_trans [OF pass_len_le(1) min.cobounded2] in auto)
      show "failed_by rc x y \<Longrightarrow> ?thesis" for rc
        by (rule moved_request_wf [of x 0, OF _ _ disjI2]) (use wfr xr in auto)
    qed
    note z = settle_request_wf [OF this, of b ?hl ?dl]
    have q: "queue (ep ?d1 ! i) = queue (ep d ! i)" using len pass(5) by simp
    show ?thesis
    proof (cases "rq_status (x_req ?z) = - EINPROGRESS")
      case True
      then have "wf_request (x_req ?z)" using z by simp
      then have "wf_dummy ?d1"
        using wf pass(5) by (intro wf_replace_request) (simp_all add: wf_upd_ep_fields)
      then show ?thesis using pass(6) True q by (auto simp: Let_def)
    next
      case False
      obtain xs ys where split: "queue (ep d ! i) = xs @ r # ys" "remove1 r (queue (ep d ! i)) = xs @ ys"
        using remove1_split [OF r] by blast
      have "upd_ep i (\<lambda>e. e\<lparr>queue := remove1 r (queue e)\<rparr>) ?d1
        = upd_req r (\<lambda>_. x_req ?z) (upd_ep i (\<lambda>e. (g e)\<lparr>queue := remove1 r (queue (g e))\<rparr>)
             (put_urbp w (x_urbp ?z) d))"
        by (simp add: upd_ep_req_commute upd_ep_put_commute upd_ep_twice flip: upd_ep_put_commute)
      moreover have "wf_dummy \<dots>"
        by (rule wf_steady [OF steady_dequeue [OF i, where xs = xs and ys = ys]])
          (use wf split pass(5) in auto)
      ultimately have "wf_dummy (upd_ep i (\<lambda>e. e\<lparr>queue := remove1 r (queue e)\<rparr>) ?d1)" by simp
      then show ?thesis
        using pass(6) False wf_steady [OF steady_giveback [OF env steady_refl]]
        by (auto simp: Let_def split: if_splits)
    qed
  qed
  then show "wf_dummy d'" "f = Advance \<Longrightarrow> queue (ep d' ! i) = queue (ep d ! i)" by auto
qed

lemma transfer_loop_wf:
  assumes env: "env_ok env" and i: "i < DUMMY_ENDPOINTS"
    and "wf_dummy d" and "set rs \<subseteq> set (queue (ep d ! i))"
    and "transfer_loop env w k i rs limit sent st d = Some (sent', st', d')"
  shows "wf_dummy d'"
proof -
  have "env0 = env \<longrightarrow> i0 = i \<longrightarrow> wf_dummy d \<longrightarrow> set rs \<subseteq> set (queue (ep d ! i)) \<longrightarrow>
      wf_dummy (snd (snd res))"
    if "transfer_loop env0 w k i0 rs limit sent st d = Some res" for env0 i0 res
  proof (rule transfer_loop.raw_induct [where P = "\<lambda>env0 w k i0 rs limit sent st d res.
      env0 = env \<longrightarrow> i0 = i \<longrightarrow> wf_dummy d \<longrightarrow> set rs \<subseteq> set (queue (ep d ! i)) \<longrightarrow>
      wf_dummy (snd (snd res))", OF _ that])
    fix loop env0 w k i0 rs limit sent st d res
    assume IH: "\<And>env0 w k i0 rs limit sent st d res.
        loop env0 w k i0 rs limit sent st d = Some res \<Longrightarrow>
        env0 = env \<longrightarrow> i0 = i \<longrightarrow> wf_dummy d \<longrightarrow> set rs \<subseteq> set (queue (ep d ! i)) \<longrightarrow>
        wf_dummy (snd (snd res))"
      and eq: "(case rs of [] \<Rightarrow> Some (sent, st, d)
          | r # rs \<Rightarrow> transfer_one env0 w k i0 r limit sent st d \<bind>
              (\<lambda>(f, limit, sent, st, d).
                 case f of Stop \<Rightarrow> Some (sent, st, d)
                 | Rescan \<Rightarrow> loop env0 w k i0 (queue (ep d ! i0)) limit sent st d
                 | Advance \<Rightarrow> loop env0 w k i0 rs limit sent st d)) = Some res"
    show "env0 = env \<longrightarrow> i0 = i \<longrightarrow> wf_dummy d \<longrightarrow> set rs \<subseteq> set (queue (ep d ! i)) \<longrightarrow>
      wf_dummy (snd (snd res))"
    proof (intro impI)
      assume e: "env0 = env" "i0 = i" and wf: "wf_dummy d" and rs: "set rs \<subseteq> set (queue (ep d ! i))"
      show "wf_dummy (snd (snd res))"
      proof (cases rs)
        case Nil
        with eq wf show ?thesis by auto
      next
        case (Cons r rs')
        then obtain f l s t d1 where one: "transfer_one env w k i r limit sent st d = Some (f, l, s, t, d1)"
          using eq e by (auto simp: bind_eq_Some_conv)
        have r: "r \<in> set (queue (ep d ! i))" using rs Cons by simp
        note step = transfer_one_wf [OF env wf i r one]
        show ?thesis
          using eq e Cons one step rs IH [of env w k i "queue (ep d1 ! i)" l s t d1 res]
            IH [of env w k i rs' l s t d1 res]
          by (cases f) auto
      qed
    qed
  qed
  from this [OF assms(5)] assms(3,4) show ?thesis by simp
qed

lemma transfer_wf:
  assumes "env_ok env" and "i < DUMMY_ENDPOINTS" and "wf_dummy d"
    and "transfer env w k i limit st d = Some (sent, st', d')"
  shows "wf_dummy d'"
  using assms by (auto simp: transfer_def bind_eq_Some_conv intro: transfer_loop_wf)

lemma dummy_urb_enqueue_wf:
  "wf_dummy d \<Longrightarrow> dummy_urb_enqueue mem rc0 w u d = Some (rc, d') \<Longrightarrow> wf_dummy d'"
  by (auto simp: dummy_urb_enqueue_def Let_def bind_eq_Some_conv split: option.splits if_splits)

end
