(* ===== verification/Dummy_Wire.thy ===== *)
theory Dummy_Wire
  imports Dummy_Urb
begin

text \<open>
  Total correctness of the emulated wire (dummy\_perform\_transfer and transfer of
  dummy\_hcd.c): copies through a scatter-gather list are copies through one buffer, for every
  iterator that keeps the contract of the kernel's, and the transfer of a frame always returns,
  moves no more than its limit, and never leaves the buffer of the host's transfer.
\<close>

section \<open>Scatter-gather transfers\<close>

text \<open>
  The iterator over the pieces of a scatter-gather list, as an interface. Its position is the
  number of bytes of the whole list before the current mapping, plus those consumed of it; the
  next mapping starts there and is not empty while bytes remain. The pieces of a list are not
  empty and shorter than the C type of their length can count.
\<close>

definition sg_bytes :: "urb \<Rightarrow> u8 list" where
  "sg_bytes u = concat (urb_sg u)"

definition sg_shape :: "urb \<Rightarrow> bool" where
  "sg_shape u \<longleftrightarrow> urb_sg u \<noteq> [] \<and> (\<forall>b \<in> set (urb_sg u). b \<noteq> [] \<and> length b < 2 ^ 32)"

definition sg_offset :: "urb \<Rightarrow> sg_mapping_iter \<Rightarrow> nat" where
  "sg_offset u m = length (concat (take (mi_seg m) (urb_sg u))) + mi_off m"

definition sg_at :: "urb \<Rightarrow> sg_mapping_iter \<Rightarrow> nat \<Rightarrow> bool" where
  "sg_at u m a \<longleftrightarrow> sg_offset u m + mi_consumed m = a \<and> mi_seg m < length (urb_sg u)
     \<and> mi_off m + mi_consumed m \<le> length (urb_sg u ! mi_seg m)"

definition sg_mapped :: "urb \<Rightarrow> sg_mapping_iter \<Rightarrow> nat \<Rightarrow> bool" where
  "sg_mapped u m a \<longleftrightarrow> sg_offset u m = a \<and> mi_seg m < length (urb_sg u) \<and> 0 < mi_len m
     \<and> mi_off m + mi_len m \<le> length (urb_sg u ! mi_seg m)"

locale sg_iterator =
  fixes env :: env
  assumes start: "sg_shape u \<Longrightarrow> sg_at u (sg_miter_start env u) 0"
    and next_piece: "sg_shape u \<Longrightarrow> sg_at u m a \<Longrightarrow> a < length (sg_bytes u) \<Longrightarrow>
      \<exists>m'. sg_miter_next env u m = (True, m') \<and> sg_mapped u m' a"
    and stop: "sg_at u m a \<Longrightarrow> sg_at u (sg_miter_stop env m) a"

text \<open>Copies inside one piece are copies inside the whole.\<close>

lemma concat_take_drop:
  assumes "s < length xss"
  shows "concat xss = concat (take s xss) @ xss ! s @ concat (drop (Suc s) xss)"
  using id_take_nth_drop [OF assms] by (metis concat.simps(2) concat_append)

lemma memcpy_to_piece:
  assumes "s < length xss" and "off + n \<le> length (xss ! s)" and "soff + n \<le> length src"
  obtains b where "memcpy (xss ! s) off src soff n = Some b"
    and "memcpy (concat xss) (length (concat (take s xss)) + off) src soff n
      = Some (concat (xss[s := b]))"
proof -
  let ?b = "take off (xss ! s) @ take n (drop soff src) @ drop (off + n) (xss ! s)"
  let ?pre = "concat (take s xss)" and ?post = "concat (drop (Suc s) xss)"
  have "memcpy (xss ! s) off src soff n = Some ?b" using assms(2,3) by (simp add: memcpy_def)
  moreover have "concat (xss[s := ?b]) = ?pre @ ?b @ ?post"
    using assms(1) by (simp add: upd_conv_take_nth_drop)
  moreover have "memcpy (concat xss) (length ?pre + off) src soff n = Some (?pre @ ?b @ ?post)"
    unfolding concat_take_drop [OF assms(1)] memcpy_def using assms(2,3) by simp
  ultimately show ?thesis using that by simp
qed

lemma memcpy_from_piece:
  assumes "s < length xss" and "off + n \<le> length (xss ! s)"
  shows "memcpy dst doff (xss ! s) off n
    = memcpy dst doff (concat xss) (length (concat (take s xss)) + off) n"
  unfolding concat_take_drop [OF assms(1)] memcpy_def using assms(2) by simp

lemma memcpy_twice:
  assumes "memcpy dst doff src soff m = Some x" and "memcpy x (doff + m) src (soff + m) n = Some y"
  shows "memcpy dst doff src soff (m + n) = Some y"
proof -
  have d: "doff + m \<le> length dst" "soff + m \<le> length src"
    and x: "x = take doff dst @ take m (drop soff src) @ drop (doff + m) dst"
    using assms(1) by (auto simp: memcpy_def split: if_splits)
  have len: "length x = length dst" by (rule memcpy_length [OF assms(1)])
  have n: "doff + m + n \<le> length dst" "soff + m + n \<le> length src"
    and y: "y = take (doff + m) x @ take n (drop (soff + m) src) @ drop (doff + m + n) x"
    using assms(2) len by (auto simp: memcpy_def split: if_splits)
  have "take (doff + m) x = take doff dst @ take m (drop soff src)" using d x by simp
  moreover have "drop (doff + m + n) x = drop (doff + (m + n)) dst" using d x by (simp add: ac_simps)
  moreover have "take m (drop soff src) @ take n (drop (soff + m) src) = take (m + n) (drop soff src)"
    by (simp add: take_add ac_simps)
  ultimately show ?thesis using n by (simp add: memcpy_def y)
qed

text \<open>The copy of a piece keeps the shape of the list and so the positions of the iterator.\<close>

lemma same_urb_shape:
  assumes "same_urb u u'"
  shows "sg_shape u' = sg_shape u" "sg_offset u' m = sg_offset u m" "sg_at u' m a = sg_at u m a"
    "sg_mapped u' m a = sg_mapped u m a" "length (sg_bytes u') = length (sg_bytes u)"
    "length (urb_sg u') = length (urb_sg u)"
proof -
  have l: "map length (urb_sg u') = map length (urb_sg u)" using assms by (auto simp: same_urb_def)
  then have len: "length (urb_sg u') = length (urb_sg u)" by (metis length_map)
  have nth: "k < length (urb_sg u) \<Longrightarrow> length (urb_sg u' ! k) = length (urb_sg u ! k)" for k
    using l len by (metis nth_map)
  have pre: "length (concat (take k (urb_sg u'))) = length (concat (take k (urb_sg u)))" for k
    using l by (simp add: length_concat flip: take_map)
  show "length (sg_bytes u') = length (sg_bytes u)" using l by (simp add: sg_bytes_def length_concat)
  show o: "sg_offset u' m = sg_offset u m" for m using pre by (simp add: sg_offset_def)
  show "sg_at u' m a = sg_at u m a" "sg_mapped u' m a = sg_mapped u m a"
    using len nth [of "mi_seg m"] by (auto simp: sg_at_def sg_mapped_def o)
  show "sg_shape u' = sg_shape u"
    using len nth unfolding sg_shape_def all_set_conv_all_nth by (metis length_0_conv)
  show "length (urb_sg u') = length (urb_sg u)" by (rule len)
qed

text \<open>
  The effect of a copy in terms of the bytes of the whole list: where the data goes, the rest
  unchanged, and where the iterator stands.
\<close>

definition sg_copied :: "nat \<Rightarrow> nat \<Rightarrow> nat \<Rightarrow> urbp \<Rightarrow> usb_request \<Rightarrow> urbp \<Rightarrow> usb_request \<Rightarrow> bool" where
  "sg_copied a roff n p q p' q' \<longleftrightarrow>
     (if usb_urb_dir_in (urbp_urb p)
      then memcpy (sg_bytes (urbp_urb p)) a (rq_buf q) roff n = Some (sg_bytes (urbp_urb p')) \<and> q' = q
      else memcpy (rq_buf q) roff (sg_bytes (urbp_urb p)) a n = Some (rq_buf q')
        \<and> urbp_urb p' = urbp_urb p)"

lemma sg_copy_piece_copied:
  assumes map: "sg_mapped (urbp_urb p) m a" and n: "n \<le> mi_len m" and roff: "roff + n \<le> length (rq_buf q)"
  obtains u q' where "sg_copy_piece (urbp_urb p) (m\<lparr>mi_consumed := n\<rparr>) q roff n = Some (u, q')"
    and "sg_copied a roff n p q (p\<lparr>urbp_urb := u\<rparr>) q'"
    and "sg_at u (m\<lparr>mi_consumed := n\<rparr>) (a + n)"
    and "same_urb (urbp_urb p) u" and "usb_urb_dir_in u = usb_urb_dir_in (urbp_urb p)"
    and "same_request q q'"
proof -
  let ?u = "urbp_urb p" and ?m = "m\<lparr>mi_consumed := n\<rparr>"
  have s: "mi_seg m < length (urb_sg ?u)" and off: "mi_off m + n \<le> length (urb_sg ?u ! mi_seg m)"
    and a: "length (concat (take (mi_seg m) (urb_sg ?u))) + mi_off m = a"
    using map n by (auto simp: sg_mapped_def sg_offset_def)
  have at: "sg_at ?u ?m (a + n)" using s off a by (simp add: sg_at_def sg_offset_def)
  show ?thesis
  proof (cases "usb_urb_dir_in ?u")
    case True
    obtain b where b: "memcpy (urb_sg ?u ! mi_seg m) (mi_off m) (rq_buf q) roff n = Some b"
      and c: "memcpy (concat (urb_sg ?u)) (length (concat (take (mi_seg m) (urb_sg ?u))) + mi_off m)
        (rq_buf q) roff n = Some (concat ((urb_sg ?u)[mi_seg m := b]))"
      using memcpy_to_piece [OF s off roff] .
    let ?u' = "?u\<lparr>urb_sg := (urb_sg ?u)[mi_seg m := b]\<rparr>"
    have piece: "sg_copy_piece ?u ?m q roff n = Some (?u', q)"
      using s b True by (simp add: sg_copy_piece_def)
    note same = sg_copy_piece_same [OF this]
    show ?thesis
      by (rule that [OF piece])
        (use c True same at in \<open>simp_all add: sg_copied_def sg_bytes_def a same_urb_shape usb_urb_dir_in_def\<close>)
  next
    case False
    have c: "memcpy (rq_buf q) roff (urb_sg ?u ! mi_seg m) (mi_off m) n
        = memcpy (rq_buf q) roff (sg_bytes ?u) a n"
      using memcpy_from_piece [OF s off] by (simp add: a sg_bytes_def)
    obtain b where b: "memcpy (rq_buf q) roff (urb_sg ?u ! mi_seg m) (mi_off m) n = Some b"
      using roff off by (auto simp: memcpy_def)
    have piece: "sg_copy_piece ?u ?m q roff n = Some (?u, q\<lparr>rq_buf := b\<rparr>)"
      using s b False by (simp add: sg_copy_piece_def)
    note same = sg_copy_piece_same [OF this]
    show ?thesis
      by (rule that [OF piece])
        (use c b False same at in \<open>simp_all add: sg_copied_def\<close>)
  qed
qed

lemma sg_copied_add:
  assumes "sg_copied a roff m p q p1 q1" and "sg_copied (a + m) (roff + m) n p2 q1 p' q'"
    and "urbp_urb p2 = urbp_urb p1" and "usb_urb_dir_in (urbp_urb p1) = usb_urb_dir_in (urbp_urb p)"
  shows "sg_copied a roff (m + n) p q p' q'"
  using assms by (auto simp: sg_copied_def intro: memcpy_twice)

lemma same_urb_dir: "same_urb u u' \<Longrightarrow> usb_urb_dir_in u' = usb_urb_dir_in u"
  by (simp add: usb_urb_dir_in_def same_urb_actual(4))


lemma sg_mapped_len: "sg_shape u \<Longrightarrow> sg_mapped u m a \<Longrightarrow> mi_len m < 2 ^ 32"
  using nth_mem [of "mi_seg m" "urb_sg u"] unfolding sg_shape_def sg_mapped_def
  by (meson le_add2 le_less_trans order.trans)

lemma unat_min_of_nat: "n < 2 ^ 32 \<Longrightarrow> unat (min (l :: u32) (of_nat n)) = min (unat l) n"
  by (simp add: min_def word_le_nat_alt unat_of_nat)

context sg_iterator
begin

lemma sg_copy_all:
  assumes "sg_shape (urbp_urb p)" and "sg_mapped (urbp_urb p) (miter p) a" and "0 < len"
    and "a + unat len \<le> length (sg_bytes (urbp_urb p))" and "roff + unat len \<le> length (rq_buf q)"
  shows "\<exists>p' q'. sg_copy env len roff dl p q = Some (sint (dl + len), p', q')
    \<and> sg_copied a roff (unat len) p q p' q' \<and> sg_at (urbp_urb p') (miter p') (a + unat len)
    \<and> miter_started p' = miter_started p"
  using assms
proof (induction "unat len" arbitrary: len a roff dl p q rule: less_induct)
  case less
  let ?m = "miter p" and ?u = "urbp_urb p"
  let ?w = "min len (of_nat (mi_len ?m)) :: u32"
  let ?n = "unat ?w"
  have n: "?n = min (unat len) (mi_len ?m)"
    using sg_mapped_len [OF less.prems(1,2)] by (rule unat_min_of_nat)
  have pos: "0 < ?n" using less.prems(2,3) n by (simp add: sg_mapped_def unat_gt_0)
  have le: "?n \<le> mi_len ?m" "roff + ?n \<le> length (rq_buf q)" using n less.prems(5) by simp_all
  obtain u q1 where piece: "sg_copy_piece ?u (?m\<lparr>mi_consumed := ?n\<rparr>) q roff ?n = Some (u, q1)"
    and cop: "sg_copied a roff ?n p q (p\<lparr>urbp_urb := u\<rparr>) q1"
    and at: "sg_at u (?m\<lparr>mi_consumed := ?n\<rparr>) (a + ?n)"
    and same: "same_urb ?u u" "usb_urb_dir_in u = usb_urb_dir_in ?u" "same_request q q1"
    by (rule sg_copy_piece_copied [OF less.prems(2) le])
  let ?m1 = "?m\<lparr>mi_consumed := ?n\<rparr>"
  let ?p1 = "p\<lparr>urbp_urb := u, miter := ?m1\<rparr>"
  have len: "unat (len - ?w) = unat len - ?n" using unat_sub [of ?w len] by simp
  show ?case
  proof (cases "len - ?w = 0")
    case True
    then have w: "?w = len" by simp
    have "sg_copy env len roff dl p q = Some (sint (dl + len), ?p1\<lparr>miter := sg_miter_stop env ?m1\<rparr>, q1)"
      using piece w by (subst sg_copy.simps) (simp add: Let_def)
    moreover have "sg_copied a roff (unat len) p q (?p1\<lparr>miter := sg_miter_stop env ?m1\<rparr>) q1"
      using cop w by (auto simp: sg_copied_def split: if_splits)
    moreover have "sg_at u (sg_miter_stop env ?m1) (a + unat len)"
      using stop [OF at] w by simp
    ultimately show ?thesis by force
  next
    case False
    then have "?n < unat len" using n len by (metis diff_is_0_eq not_le unat_0_iff)
    then have more: "a + ?n < length (sg_bytes u)"
      using less.prems(4) same_urb_shape(5) [OF same(1)] by simp
    have shape: "sg_shape u" using less.prems(1) same_urb_shape(1) [OF same(1)] by simp
    obtain m2 where m2: "sg_miter_next env u ?m1 = (True, m2)" and mp: "sg_mapped u m2 (a + ?n)"
      using next_piece [OF shape at more] by blast
    let ?p2 = "?p1\<lparr>miter := m2\<rparr>"
    have "\<exists>p' q'. sg_copy env (len - ?w) (roff + ?n) (dl + ?w) ?p2 q1
        = Some (sint (dl + ?w + (len - ?w)), p', q')
      \<and> sg_copied (a + ?n) (roff + ?n) (unat (len - ?w)) ?p2 q1 p' q'
      \<and> sg_at (urbp_urb p') (miter p') (a + ?n + unat (len - ?w))
      \<and> miter_started p' = miter_started ?p2"
    proof (rule less.hyps)
      show "unat (len - ?w) < unat len" using len pos \<open>?n < unat len\<close> by simp
      show "0 < len - ?w" using False word_neq_0_conv by blast
      show "a + ?n + unat (len - ?w) \<le> length (sg_bytes (urbp_urb ?p2))"
        using len less.prems(4) same_urb_shape(5) [OF same(1)] \<open>?n < unat len\<close> by simp
      show "roff + ?n + unat (len - ?w) \<le> length (rq_buf q1)"
        using len less.prems(5) same_request_actual(6) [OF same(3)] \<open>?n < unat len\<close> by simp
    qed (use shape mp in simp_all)
    then obtain p' q' where rec: "sg_copy env (len - ?w) (roff + ?n) (dl + ?w) ?p2 q1
        = Some (sint (dl + ?w + (len - ?w)), p', q')"
      and rest: "sg_copied (a + ?n) (roff + ?n) (unat (len - ?w)) ?p2 q1 p' q'"
        "sg_at (urbp_urb p') (miter p') (a + ?n + unat (len - ?w))"
        "miter_started p' = miter_started ?p2"
      by blast
    have sum: "?n + unat (len - ?w) = unat len" using len \<open>?n < unat len\<close> by simp
    have "sg_copied a roff (?n + unat (len - ?w)) p q p' q'"
      by (rule sg_copied_add [OF cop rest(1)]) (simp_all add: same(2))
    then have "sg_copied a roff (unat len) p q p' q'" using sum by simp
    moreover have "sg_at (urbp_urb p') (miter p') (a + unat len)" using rest(2) sum by (simp add: add.assoc)
    moreover have "sg_copy env len roff dl p q
        = sg_copy env (len - ?w) (roff + ?n) (dl + ?w) ?p2 q1"
      using piece False m2 by (subst sg_copy.simps) (simp add: Let_def)
    ultimately show ?thesis using rec rest(3) by auto
  qed
qed

text \<open>Where the next transfer of an entry starts: at its iterator, or at the front of the list.\<close>

lemma sg_transfer:
  assumes "num_sgs (urbp_urb p) \<noteq> 0" and "sg_shape (urbp_urb p)"
    and at: "if miter_started p then sg_at (urbp_urb p) (miter p) a else a = 0"
    and "0 < len" and "a + unat len \<le> length (sg_bytes (urbp_urb p))"
    and "unat (rq_actual q) + unat len \<le> length (rq_buf q)"
  shows "\<exists>p' q'. dummy_perform_transfer env len p q = Some (sint len, p', q')
    \<and> sg_copied a (unat (rq_actual q)) (unat len) p q p' q'
    \<and> miter_started p' \<and> sg_at (urbp_urb p') (miter p') (a + unat len)"
proof -
  define p1 where "p1 = (if miter_started p then p
    else p\<lparr>miter := sg_miter_start env (urbp_urb p), miter_started := True\<rparr>)"
  have p1: "urbp_urb p1 = urbp_urb p" "miter_started p1" by (simp_all add: p1_def)
  have "sg_at (urbp_urb p) (miter p1) a"
    using at start [OF assms(2)] by (auto simp: p1_def split: if_splits)
  moreover have "a < length (sg_bytes (urbp_urb p))" using assms(4,5) by (simp add: word_less_nat_alt)
  ultimately obtain m where m: "sg_miter_next env (urbp_urb p) (miter p1) = (True, m)"
      "sg_mapped (urbp_urb p) m a"
    using next_piece [OF assms(2)] by blast
  obtain p' q' where copy: "sg_copy env len (unat (rq_actual q)) 0 (p1\<lparr>miter := m\<rparr>) q
        = Some (sint (0 + len), p', q')"
      and res: "sg_copied a (unat (rq_actual q)) (unat len) (p1\<lparr>miter := m\<rparr>) q p' q'"
      "sg_at (urbp_urb p') (miter p') (a + unat len)" "miter_started p' = miter_started (p1\<lparr>miter := m\<rparr>)"
    using sg_copy_all [of "p1\<lparr>miter := m\<rparr>" a len "unat (rq_actual q)" q 0] m(2) assms(2,4-6) p1
    by auto
  have "sg_copied a (unat (rq_actual q)) (unat len) p q p' q'"
    using res(1) p1 by (auto simp: sg_copied_def split: if_splits)
  moreover have "dummy_perform_transfer env len p q = Some (sint len, p', q')"
    using assms(1) m(1) copy p1 unfolding p1_def [symmetric] dummy_perform_transfer_def
    by (simp add: Let_def p1_def [symmetric])
  ultimately show ?thesis using res(2,3) p1 by auto
qed

end

text \<open>The iterator of the documentation keeps the contract.\<close>

lemma sg_stop_at: "sg_at u m a \<Longrightarrow> sg_at u (sg_stop m) a"
  by (simp add: sg_at_def sg_offset_def sg_stop_def)

lemma sg_next_piece:
  assumes "sg_shape u" and "sg_at u m a" and "a < length (sg_bytes u)"
  shows "\<exists>m'. sg_next u m = (True, m') \<and> sg_mapped u m' a"
proof -
  let ?m = "sg_stop m"
  let ?s = "mi_seg ?m" and ?n = "length (urb_sg u ! mi_seg ?m) - mi_off ?m"
  have at: "length (concat (take ?s (urb_sg u))) + mi_off ?m = a" "?s < length (urb_sg u)"
      "mi_off ?m \<le> length (urb_sg u ! ?s)"
    using sg_stop_at [OF assms(2)] by (auto simp: sg_at_def sg_offset_def sg_stop_def)
  show ?thesis
  proof (cases "0 < ?n")
    case True
    then show ?thesis using at by (simp add: sg_next_def Let_def sg_mapped_def sg_offset_def)
  next
    case False
    then have off: "mi_off ?m = length (urb_sg u ! ?s)" using at(3) by simp
    then have a: "a = length (concat (take (Suc ?s) (urb_sg u)))"
      using at(1,2) by (simp add: take_Suc_conv_app_nth)
    then have "Suc ?s < length (urb_sg u)"
      using assms(3) at(2) by (metis Suc_lessI less_irrefl sg_bytes_def take_all_iff order_refl)
    moreover from this have "urb_sg u ! Suc ?s \<noteq> []" using assms(1) by (simp add: sg_shape_def)
    ultimately show ?thesis
      using False a by (simp add: sg_next_def Let_def sg_mapped_def sg_offset_def)
  qed
qed

interpretation idle_sg: sg_iterator idle_env
proof
  show "sg_at u (sg_miter_start idle_env u) 0" if "sg_shape u" for u
    using that by (simp add: sg_start_def sg_at_def sg_offset_def sg_shape_def)
  show "\<exists>m'. sg_miter_next idle_env u m = (True, m') \<and> sg_mapped u m' a"
    if "sg_shape u" "sg_at u m a" "a < length (sg_bytes u)" for u m a
    using sg_next_piece [OF that] by simp
  show "sg_at u (sg_miter_stop idle_env m) a" if "sg_at u m a" for u m a
    using sg_stop_at [OF that] by simp
qed


text \<open>
  C39. A transfer to or from a scatter-gather list moves the same bytes as a transfer to or from
  one buffer with the contents of all its pieces: it never fails while the list and the buffer
  of the request are long enough, it returns the length asked for, and the next transfer goes on
  where this one ended, in whatever pieces the list is cut.
\<close>

theorem sg_transfer_as_linear:
  assumes "sg_iterator env" and "num_sgs (urbp_urb p) \<noteq> 0" and "sg_shape (urbp_urb p)"
    and "if miter_started p then sg_at (urbp_urb p) (miter p) a else a = 0"
    and "0 < len" and "a + unat len \<le> length (sg_bytes (urbp_urb p))"
    and "unat (rq_actual q) + unat len \<le> length (rq_buf q)"
  shows "\<exists>p' q'. dummy_perform_transfer env len p q = Some (sint len, p', q')
    \<and> (if usb_urb_dir_in (urbp_urb p)
       then memcpy (sg_bytes (urbp_urb p)) a (rq_buf q) (unat (rq_actual q)) (unat len)
         = Some (sg_bytes (urbp_urb p')) \<and> q' = q
       else memcpy (rq_buf q) (unat (rq_actual q)) (sg_bytes (urbp_urb p)) a (unat len)
         = Some (rq_buf q') \<and> urbp_urb p' = urbp_urb p)
    \<and> miter_started p' \<and> sg_at (urbp_urb p') (miter p') (a + unat len)"
  using sg_iterator.sg_transfer [OF assms] by (simp only: sg_copied_def)

definition sg_example :: urbp where
  "sg_example = zero_urbp\<lparr>urbp_urb := zero_urb\<lparr>transfer_flags := 0x200, num_sgs := 2,
     urb_sg := [[1, 2], [3, 4, 5]]\<rparr>\<rparr>"

theorem sg_transfer_as_linear_witness:
  "\<exists>p'. dummy_perform_transfer idle_env 4 sg_example (zero_request\<lparr>rq_buf := [9, 8, 7, 6]\<rparr>)
     = Some (4, p', zero_request\<lparr>rq_buf := [9, 8, 7, 6]\<rparr>)
   \<and> sg_bytes (urbp_urb p') = [9, 8, 7, 6, 5]"
proof -
  have "sg_shape (urbp_urb sg_example)" by (simp add: sg_example_def sg_shape_def)
  then show ?thesis
    using sg_transfer_as_linear [OF idle_sg.sg_iterator_axioms, of sg_example 0 4
        "zero_request\<lparr>rq_buf := [9, 8, 7, 6]\<rparr>"]
    by (auto simp: sg_example_def sg_bytes_def zero_urbp_def usb_urb_dir_in_def memcpy_def)
qed

section \<open>The transfer of a frame\<close>

text \<open>
  An entry ready for the wire: it expects no more than its buffer holds, and the iterator of a
  scatter-gather list stands where the bytes already moved end.
\<close>

definition urb_ready :: "urbp \<Rightarrow> bool" where
  "urb_ready p \<longleftrightarrow>
     (let u = urbp_urb p in
      actual_length u \<le> transfer_buffer_length u \<and> unat (transfer_buffer_length u) < 2 ^ 31
      \<and> (if num_sgs u = 0 then unat (transfer_buffer_length u) \<le> length (transfer_buffer u)
         else sg_shape u \<and> unat (transfer_buffer_length u) \<le> length (sg_bytes u)
           \<and> (if miter_started p then sg_at u (miter p) (unat (actual_length u))
              else actual_length u = 0)))"

definition count_urbp :: "u32 \<Rightarrow> urbp \<Rightarrow> urbp" where
  "count_urbp n p = p\<lparr>urbp_urb := (urbp_urb p)\<lparr>actual_length := actual_length (urbp_urb p) + n\<rparr>\<rparr>"

lemma sg_ignores_count [simp]:
  "sg_shape (u\<lparr>actual_length := n\<rparr>) = sg_shape u" "sg_bytes (u\<lparr>actual_length := n\<rparr>) = sg_bytes u"
  "sg_at (u\<lparr>actual_length := n\<rparr>) m a = sg_at u m a"
  by (simp_all add: sg_shape_def sg_bytes_def sg_at_def sg_offset_def)

lemma room_unat:
  fixes a b n :: u32
  assumes "a \<le> b" and "n \<le> b - a"
  shows "unat a + unat n \<le> unat b" "unat (a + n) = unat a + unat n" "a + n \<le> b"
    "unat (b - (a + n)) = unat (b - a) - unat n"
proof -
  have "unat (b - a) = unat b - unat a" by (rule unat_sub [OF assms(1)])
  moreover have "unat n \<le> unat (b - a)" "unat a \<le> unat b" using assms by (simp_all add: word_le_nat_alt)
  ultimately show le: "unat a + unat n \<le> unat b" by simp
  then show sum: "unat (a + n) = unat a + unat n"
    using unsigned_less [of b, where 'a = nat] by (simp add: unat_word_ariths)
  then show ab: "a + n \<le> b" using le by (simp add: word_le_nat_alt)
  show "unat (b - (a + n)) = unat (b - a) - unat n"
    using unat_sub [OF ab] unat_sub [OF assms(1)] sum by simp
qed

lemma perform_transfer_ready:
  assumes sg: "sg_iterator env" and ready: "urb_ready p" and pos: "0 < len"
    and len: "len \<le> transfer_buffer_length (urbp_urb p) - actual_length (urbp_urb p)"
    and req: "unat (rq_actual q) + unat len \<le> length (rq_buf q)"
  obtains p' q' where "dummy_perform_transfer env len p q = Some (sint len, p', q')"
    and "urb_ready (count_urbp len p')" and "same_urbp p p'" and "same_request q q'"
proof -
  let ?u = "urbp_urb p"
  let ?a = "actual_length ?u" and ?t = "transfer_buffer_length ?u"
  have at: "?a \<le> ?t" and small: "unat ?t < 2 ^ 31" using ready by (simp_all add: urb_ready_def Let_def)
  note room = room_unat [OF at len]
  obtain p' q' where ret: "dummy_perform_transfer env len p q = Some (sint len, p', q')"
    and buf: "if num_sgs ?u = 0 then length (transfer_buffer (urbp_urb p')) = length (transfer_buffer ?u)
      else miter_started p' \<and> sg_at (urbp_urb p') (miter p') (unat (?a + len))"
  proof (cases "num_sgs ?u = 0")
    case True
    then have room': "unat ?a + unat len \<le> length (transfer_buffer ?u)"
      using ready room(1) by (simp add: urb_ready_def Let_def)
    show ?thesis
    proof (cases "usb_urb_dir_in ?u")
      case d: True
      obtain b where b: "memcpy (transfer_buffer ?u) (unat ?a) (rq_buf q) (unat (rq_actual q)) (unat len) = Some b"
        using memcpy_Some_iff [of "transfer_buffer ?u" "unat ?a" "rq_buf q"] room' req by blast
      then show ?thesis
        using True d memcpy_length [OF b] that [of "p\<lparr>urbp_urb := ?u\<lparr>transfer_buffer := b\<rparr>\<rparr>" q]
        by (simp add: dummy_perform_transfer_def Let_def)
    next
      case d: False
      obtain b where b: "memcpy (rq_buf q) (unat (rq_actual q)) (transfer_buffer ?u) (unat ?a) (unat len) = Some b"
        using memcpy_Some_iff [of "rq_buf q" "unat (rq_actual q)" "transfer_buffer ?u"] room' req by blast
      then show ?thesis
        using True d that [of p "q\<lparr>rq_buf := b\<rparr>"]
        by (simp add: dummy_perform_transfer_def Let_def)
    qed
  next
    case False
    then have shape: "sg_shape ?u" "unat ?a + unat len \<le> length (sg_bytes ?u)"
      and pos': "if miter_started p then sg_at ?u (miter p) (unat ?a) else unat ?a = 0"
      using ready room(1) by (auto simp: urb_ready_def Let_def split: if_splits)
    show ?thesis
      using sg_iterator.sg_transfer [OF sg False shape(1) pos' pos shape(2) req] False that room(2)
      by auto
  qed
  note same = perform_transfer_result [OF ret]
  then have u: "same_urb ?u (urbp_urb p')" by (simp add: same_urbp_def)
  have "urb_ready (count_urbp len p')"
    using ready buf room(3) small same_urb_actual [OF u] same_urb_shape [OF u]
    by (auto simp: urb_ready_def count_urbp_def Let_def split: if_splits)
  with ret same that show ?thesis by blast
qed

text \<open>One pass moves what \<open>pass_len\<close> says, and a pass that ends without a short packet something.\<close>

lemma pass_len_pos:
  assumes "0 < maxp" and "maxp < 2 ^ 16" and "0 < min len (x_limit x)"
  shows "0 < pass_len maxp len x"
proof -
  let ?l = "min len (x_limit x)" and ?m = "of_nat maxp :: u32"
  have m: "unat ?m = maxp" using assms(2) by (simp add: unat_of_nat)
  show ?thesis
  proof (cases "?m \<le> ?l")
    case True
    have "unat ?l mod maxp < maxp" using assms(1) by simp
    moreover have "maxp \<le> unat ?l" using True m by (simp add: word_le_nat_alt)
    ultimately have "?l mod ?m < ?l" using m by (simp add: word_less_nat_alt unat_mod)
    then have "?l - ?l mod ?m \<noteq> 0" by (metis eq_iff_diff_eq_0 order_less_irrefl)
    then show ?thesis using True by (simp add: pass_len_def Let_def word_gt_0)
  next
    case False
    then show ?thesis using assms(3) by (simp add: pass_len_def Let_def del: min.bounded_iff min_less_iff_conj)
  qed
qed


text \<open>Progress of an entry by a number of bytes.\<close>

definition advanced :: "nat \<Rightarrow> urbp \<Rightarrow> urbp \<Rightarrow> bool" where
  "advanced n p p' \<longleftrightarrow> urb_ready p' \<and> urbp_id p' = urbp_id p
     \<and> transfer_buffer_length (urbp_urb p') = transfer_buffer_length (urbp_urb p)
     \<and> unat (actual_length (urbp_urb p')) = unat (actual_length (urbp_urb p)) + n"

lemma advanced_refl: "urb_ready p \<Longrightarrow> advanced 0 p p"
  by (simp add: advanced_def)

lemma advanced_add: "advanced m p q \<Longrightarrow> advanced n q r \<Longrightarrow> advanced (m + n) p r"
  by (simp add: advanced_def)

lemma move_packets_ready:
  assumes sg: "sg_iterator env" and ready: "urb_ready (x_urbp x)" and pos: "0 < n"
    and len: "n \<le> transfer_buffer_length (urbp_urb (x_urbp x)) - actual_length (urbp_urb (x_urbp x))"
    and req: "unat (rq_actual (x_req x)) + unat n \<le> length (rq_buf (x_req x))"
  obtains y where "move_packets env b n x = Some (Data_Moved b True y)"
    and "advanced (unat n) (x_urbp x) (x_urbp y)" and "x_limit y = x_limit x - n"
    and "x_sent y = x_sent x + n" and "x_status y = x_status x"
proof -
  let ?u = "urbp_urb (x_urbp x)"
  obtain p' q' where ret: "dummy_perform_transfer env n (x_urbp x) (x_req x) = Some (sint n, p', q')"
    and ready': "urb_ready (count_urbp n p')" and same: "same_urbp (x_urbp x) p'"
    by (rule perform_transfer_ready [OF sg ready pos len req])
  have at: "actual_length ?u \<le> transfer_buffer_length ?u"
    and small: "unat (transfer_buffer_length ?u) < 2 ^ 31"
    using ready by (simp_all add: urb_ready_def Let_def)
  note room = room_unat [OF at len]
  have n: "sint n = int (unat n)" by (rule sint_small) (use room(1) small in simp)
  let ?y = "count_moved (sint n) p' q' x"
  have y: "x_urbp ?y = count_urbp n p'" "x_limit ?y = x_limit x - n" "x_sent ?y = x_sent x + n"
      "x_status ?y = x_status x"
    using n by (simp_all add: count_moved_def count_urbp_def Let_def)
  have "urbp_id p' = urbp_id (x_urbp x)" and u: "same_urb ?u (urbp_urb p')"
    using same by (simp_all add: same_urbp_def)
  then have "advanced (unat n) (x_urbp x) (x_urbp ?y)"
    using ready' room(2) same_urb_actual [OF u] y(1) by (simp add: advanced_def count_urbp_def)
  with that [of ?y] ret y(2-4) show ?thesis by (simp add: move_packets_def)
qed

lemma move_data_ready:
  assumes sg: "sg_iterator env" and ready: "urb_ready (x_urbp x)"
    and maxp: "0 < maxp" "maxp < 2 ^ 16"
    and len: "len \<le> transfer_buffer_length (urbp_urb (x_urbp x)) - actual_length (urbp_urb (x_urbp x))"
    and req: "unat (rq_actual (x_req x)) + unat len \<le> length (rq_buf (x_req x))"
  shows "move_data env maxp len x = Some Data_Stop
    \<or> (\<exists>b mv y n. move_data env maxp len x = Some (Data_Moved b mv y) \<and> n \<le> unat (x_limit x)
        \<and> (b \<or> 0 < n) \<and> advanced n (x_urbp x) (x_urbp y) \<and> unat (x_limit y) = unat (x_limit x) - n
        \<and> x_sent y = x_sent x + of_nat n \<and> x_status y = x_status x)"
proof -
  let ?l = "min len (x_limit x)" and ?n = "pass_len maxp len x"
  let ?short = "\<not> of_nat maxp \<le> ?l"
  let ?x = "if \<not> ?short \<and> ?l mod of_nat maxp \<noteq> 0 then x\<lparr>x_rescan := True\<rparr> else x"
  have x: "x_urbp ?x = x_urbp x" "x_req ?x = x_req x" "x_limit ?x = x_limit x" "x_sent ?x = x_sent x"
    "x_status ?x = x_status x" by simp_all
  consider (empty) "len = 0" | (stop) "move_data env maxp len x = Some Data_Stop"
    | (move) "0 < ?l" "move_data env maxp len x = move_packets env ?short ?n ?x"
  proof -
    have "move_data env maxp len x = Some Data_Stop"
      if "len \<noteq> 0" "sint (x_limit x) < int maxp \<and> x_limit x < len \<or> ?l = 0"
      using that by (auto simp: move_data_def)
    moreover have "move_data env maxp len x = move_packets env ?short ?n ?x"
      if "len \<noteq> 0" "\<not> (sint (x_limit x) < int maxp \<and> x_limit x < len)" "?l \<noteq> 0"
      unfolding move_data_def if_not_P [OF that(1)] if_not_P [OF that(2)] Let_def if_not_P [OF that(3)]
      using maxp(1) by (cases ?short) (simp_all add: pass_len_def Let_def del: min.bounded_iff)
    moreover have "0 < ?l" if "?l \<noteq> 0" using that by (rule word_neq_0_conv [THEN iffD1])
    ultimately show thesis using empty stop move by blast
  qed
  then show ?thesis
  proof cases
    case empty
    then show ?thesis
      using advanced_refl [OF ready]
      by (intro disjI2 exI [of _ True] exI [of _ False] exI [of _ x] exI [of _ 0])
        (simp add: move_data_def)
  next
    case stop
    then show ?thesis ..
  next
    case move
    have pos: "0 < ?n" by (rule pass_len_pos [OF maxp move(1)])
    have "unat ?n \<le> unat len" using pass_len_le(1) by (simp add: word_le_nat_alt)
    then have req': "unat (rq_actual (x_req ?x)) + unat ?n \<le> length (rq_buf (x_req ?x))"
      using req x(2) by simp
    have lim: "?n \<le> x_limit x" by (rule pass_len_le(2))
    obtain y where y: "move_packets env ?short ?n ?x = Some (Data_Moved ?short True y)"
      "advanced (unat ?n) (x_urbp x) (x_urbp y)" "x_limit y = x_limit x - ?n"
      "x_sent y = x_sent x + ?n" "x_status y = x_status x"
      by (rule move_packets_ready [OF sg, of ?x ?n ?short, unfolded x(1,3-5)])
        (use ready pos order_trans [OF pass_len_le(1) len] req' x(2) in simp_all)
    have "unat ?n \<le> unat (x_limit x)" "unat (x_limit y) = unat (x_limit x) - unat ?n" "0 < unat ?n"
      using lim y(3) unat_sub [OF lim] pos by (simp_all add: word_le_nat_alt unat_gt_0 word_neq_0_conv)
    then show ?thesis
      using move(2) y
      by (intro disjI2 exI [of _ ?short] exI [of _ True] exI [of _ y] exI [of _ "unat ?n"])
        (simp del: min.bounded_iff)
  qed
qed


text \<open>
  What the completion handlers of the gadget driver leave alone while a transfer is on the wire:
  the hubs and the packet sizes of the endpoints. They may queue, dequeue and complete requests.
\<close>

definition leaves_wire :: "env \<Rightarrow> bool" where
  "leaves_wire env \<longleftrightarrow> (\<forall>i r d w. hcd_of w (giveback_request env i r d) = hcd_of w d
     \<and> map maxpacket (ep (giveback_request env i r d)) = map maxpacket (ep d))"

definition on_wire :: "hcd_sel \<Rightarrow> nat \<Rightarrow> nat \<Rightarrow> urbp \<Rightarrow> dummy_t \<Rightarrow> bool" where
  "on_wire w k i p d \<longleftrightarrow> wf_dummy d \<and> get_urbp w k d = Some p \<and> urb_ready p
     \<and> 0 < maxpacket (ep d ! i) \<and> maxpacket (ep d ! i) < 2 ^ 16"

lemma get_urbp_upd_req [simp]: "get_urbp w k (upd_req r f d) = get_urbp w k d"
  by (simp add: get_urbp_def)

lemma settle_short: "x_status (settle True hl dl x) \<in> {0, - EOVERFLOW}"
  by (simp add: settle_def Let_def)

lemma settle_x_status: "x_status (settle b hl dl x) \<in> {x_status x, 0, - EOVERFLOW}"
  by (auto simp: settle_def Let_def)

lemma giveback_wire:
  assumes "leaves_wire env"
  shows "get_urbp w k (giveback env i r d) = get_urbp w k d"
    "j < length (ep d) \<Longrightarrow> maxpacket (ep (giveback env i r d) ! j) = maxpacket (ep d ! j)"
proof -
  let ?d = "log_event (Giveback i r (rq_status (reqs d r)) (rq_actual (reqs d r))) d"
  have h: "hcd_of w (giveback env i r d) = hcd_of w d"
    and m: "map maxpacket (ep (giveback env i r d)) = map maxpacket (ep d)"
    using assms by (simp_all add: leaves_wire_def giveback_def)
  show "get_urbp w k (giveback env i r d) = get_urbp w k d" by (simp add: get_urbp_def h)
  show "maxpacket (ep (giveback env i r d) ! j) = maxpacket (ep d ! j)" if "j < length (ep d)"
    using m that by (metis length_map nth_map)
qed

lemma transfer_one_ready:
  assumes sg: "sg_iterator env" and env: "env_ok env" and wire: "leaves_wire env"
    and i: "i < DUMMY_ENDPOINTS" and r: "r \<in> set (queue (ep d ! i))" and on: "on_wire w k i p d"
  shows "\<exists>f limit' st' d' p' n. transfer_one env w k i r limit sent st d
      = Some (f, limit', sent + of_nat n, st', d')
    \<and> on_wire w k i p' d' \<and> advanced n p p' \<and> n \<le> unat limit \<and> unat limit' = unat limit - n
    \<and> (f = Rescan \<longrightarrow> 0 < n) \<and> (f = Advance \<longrightarrow> queue (ep d' ! i) = queue (ep d ! i))
    \<and> st' \<in> {st, 0, - EOVERFLOW}"
proof -
  have wf: "wf_dummy d" and p: "get_urbp w k d = Some p" and ready: "urb_ready p"
    and maxp: "0 < maxpacket (ep d ! i)" "maxpacket (ep d ! i) < 2 ^ 16"
    using on by (simp_all add: on_wire_def)
  have len: "i < length (ep d)" using i wf_dummyD(4) [OF wf] by simp
  obtain h where h: "hcd_of w d = Some h" using p by (auto simp: get_urbp_def split: option.splits)
  let ?u = "urbp_urb p" and ?q = "reqs d r"
  show ?thesis
  proof (cases "dummy_ep_stream_en h ?u \<and> urb_stream_id ?u \<noteq> rq_stream_id ?q")
    case True
    then show ?thesis
      using h p on advanced_refl [OF ready]
      by (intro exI [of _ Advance] exI [of _ limit] exI [of _ st] exI [of _ d] exI [of _ p]
          exI [of _ 0]) (simp add: transfer_one_def)
  next
    case False
    let ?hl = "transfer_buffer_length ?u - actual_length ?u" and ?dl = "rq_length ?q - rq_actual ?q"
    let ?x = "\<lparr>x_urbp = p, x_req = ?q, x_limit = limit, x_sent = sent, x_status = st,
      x_rescan = False\<rparr>"
    have q: "wf_request ?q" using wf_dummyD(2) [OF wf queued_queue [OF len r]] .
    then have "unat (rq_actual ?q) + unat ?dl \<le> length (rq_buf ?q)"
      using unat_sub [of "rq_actual ?q" "rq_length ?q"] by (simp add: wf_request_def word_le_nat_alt)
    moreover have "unat (min ?hl ?dl) \<le> unat ?dl" by (simp add: word_le_nat_alt [symmetric])
    ultimately have req: "unat (rq_actual ?q) + unat (min ?hl ?dl) \<le> length (rq_buf ?q)" by simp
    consider (stop) "move_data env (maxpacket (ep d ! i)) (min ?hl ?dl) ?x = Some Data_Stop"
      | (moved) b mv y n where
        "move_data env (maxpacket (ep d ! i)) (min ?hl ?dl) ?x = Some (Data_Moved b mv y)"
        "n \<le> unat limit" "b \<or> 0 < n" "advanced n p (x_urbp y)" "unat (x_limit y) = unat limit - n"
        "x_sent y = sent + of_nat n" "x_status y = st"
      using move_data_ready [OF sg, of ?x "maxpacket (ep d ! i)" "min ?hl ?dl"] ready maxp req by auto
    then show ?thesis
    proof cases
      case stop
      then show ?thesis
        using h p on False advanced_refl [OF ready]
        by (intro exI [of _ Stop] exI [of _ limit] exI [of _ st] exI [of _ d] exI [of _ p]
            exI [of _ 0]) (simp add: transfer_one_def Let_def)
    next
      case moved
      let ?z = "settle b ?hl ?dl y"
      let ?d0 = "if mv then upd_ep i (\<lambda>e. e\<lparr>last_io := jiffies d\<rparr>) d else d"
      let ?d1 = "upd_req r (\<lambda>_. x_req ?z) (put_urbp w (x_urbp ?z) ?d0)"
      let ?fin = "rq_status (x_req ?z) \<noteq> - EINPROGRESS"
      let ?d2 = "upd_ep i (\<lambda>e. e\<lparr>queue := remove1 r (queue e)\<rparr>) ?d1"
      let ?d' = "if ?fin then giveback env i r ?d2 else ?d1"
      let ?f = "if x_status ?z \<noteq> - EINPROGRESS then Stop
        else if ?fin \<or> x_rescan ?z then Rescan else Advance"
      have one: "transfer_one env w k i r limit sent st d
          = Some (?f, x_limit y, sent + of_nat n, x_status ?z, ?d')"
        using h p moved(1,6) by (simp add: transfer_one_def Let_def False)
      have id: "urbp_id (x_urbp y) = k" using moved(4) get_urbp_id [OF p] by (simp add: advanced_def)
      have "get_urbp w k ?d0 = Some p" using p by simp
      from get_put_urbp [OF this id] have get1: "get_urbp w k ?d1 = Some (x_urbp y)" by simp
      have m1: "maxpacket (ep ?d1 ! i) = maxpacket (ep d ! i)" "length (ep ?d1) = length (ep d)"
        using len by simp_all
      have get: "get_urbp w k ?d' = Some (x_urbp y)"
        using get1 giveback_wire(1) [OF wire, of w k i r ?d2] by simp
      have m: "maxpacket (ep ?d' ! i) = maxpacket (ep d ! i)"
        using m1 len giveback_wire(2) [OF wire, of i ?d2 i r] by simp
      note wfs = transfer_one_wf [OF env wf i r one]
      have "on_wire w k i (x_urbp y) ?d'"
        using wfs(1) get m maxp moved(4) by (simp add: on_wire_def advanced_def)
      moreover have "?f = Rescan \<longrightarrow> 0 < n"
        using moved(3) settle_short [of ?hl ?dl y] by (cases b) auto
      moreover have "x_status ?z \<in> {st, 0, - EOVERFLOW}"
        using settle_x_status [of b ?hl ?dl y] moved(7) by simp
      ultimately show ?thesis
        using one wfs(2) moved(2,4,5)
        by (intro exI [of _ ?f] exI [of _ "x_limit y"] exI [of _ "x_status ?z"] exI [of _ ?d']
            exI [of _ "x_urbp y"] exI [of _ n]) simp
    qed
  qed
qed

lemma transfer_loop_ready:
  assumes sg: "sg_iterator env" and env: "env_ok env" and wire: "leaves_wire env"
    and i: "i < DUMMY_ENDPOINTS" and "set rs \<subseteq> set (queue (ep d ! i))" and "on_wire w k i p d"
  shows "\<exists>st' d' p' n. transfer_loop env w k i rs limit sent st d = Some (sent + of_nat n, st', d')
    \<and> on_wire w k i p' d' \<and> advanced n p p' \<and> n \<le> unat limit \<and> st' \<in> {st, 0, - EOVERFLOW}"
  using assms(5,6)
proof (induction "(unat limit, length rs)" arbitrary: limit rs sent st d p
    rule: wf_induct [OF wf_lex_prod [OF wf_less_than wf_less_than]])
  case 1
  show ?case
  proof (cases rs)
    case Nil
    then show ?thesis
      using "1.prems"(2) advanced_refl [of p]
      by (intro exI [of _ st] exI [of _ d] exI [of _ p] exI [of _ 0])
        (simp add: transfer_loop.simps on_wire_def)
  next
    case (Cons r rs')
    then have r: "r \<in> set (queue (ep d ! i))" using "1.prems"(1) by simp
    obtain f l' s' d1 p1 n where one: "transfer_one env w k i r limit sent st d
        = Some (f, l', sent + of_nat n, s', d1)"
      and on: "on_wire w k i p1 d1" and adv: "advanced n p p1" and n: "n \<le> unat limit"
      and l': "unat l' = unat limit - n" and resc: "f = Rescan \<longrightarrow> 0 < n"
      and nxt: "f = Advance \<longrightarrow> queue (ep d1 ! i) = queue (ep d ! i)"
      and st: "s' \<in> {st, 0, - EOVERFLOW}"
      using transfer_one_ready [OF sg env wire i r "1.prems"(2)] by blast
    have loop: "transfer_loop env w k i rs limit sent st d =
        (case f of Stop \<Rightarrow> Some (sent + of_nat n, s', d1)
         | Rescan \<Rightarrow> transfer_loop env w k i (queue (ep d1 ! i)) l' (sent + of_nat n) s' d1
         | Advance \<Rightarrow> transfer_loop env w k i rs' l' (sent + of_nat n) s' d1)"
      using one Cons by (subst transfer_loop.simps) simp
    show ?thesis
    proof (cases f)
      case Stop
      then show ?thesis using loop on adv n st by auto
    next
      case go: Rescan
      then have "((unat l', length (queue (ep d1 ! i))), unat limit, length rs) \<in> less_than <*lex*> less_than"
        using l' n resc by simp
      with "1.hyps" on obtain st2 d2 p2 m where
          rec: "transfer_loop env w k i (queue (ep d1 ! i)) l' (sent + of_nat n) s' d1
            = Some (sent + of_nat n + of_nat m, st2, d2)"
          "on_wire w k i p2 d2" "advanced m p1 p2" "m \<le> unat l'" "st2 \<in> {s', 0, - EOVERFLOW}"
        by blast
      then show ?thesis
        using loop go advanced_add [OF adv rec(3)] n l' st
        by (intro exI [of _ st2] exI [of _ d2] exI [of _ p2] exI [of _ "n + m"]) (auto simp: add.assoc)
    next
      case go: Advance
      then have "((unat l', length rs'), unat limit, length rs) \<in> less_than <*lex*> less_than"
        using l' n Cons by auto
      moreover have "set rs' \<subseteq> set (queue (ep d1 ! i))" using go nxt "1.prems"(1) Cons by simp
      ultimately obtain st2 d2 p2 m where
          rec: "transfer_loop env w k i rs' l' (sent + of_nat n) s' d1
            = Some (sent + of_nat n + of_nat m, st2, d2)"
          "on_wire w k i p2 d2" "advanced m p1 p2" "m \<le> unat l'" "st2 \<in> {s', 0, - EOVERFLOW}"
        using "1.hyps" on by blast
      then show ?thesis
        using loop go advanced_add [OF adv rec(3)] n l' st
        by (intro exI [of _ st2] exI [of _ d2] exI [of _ p2] exI [of _ "n + m"]) (auto simp: add.assoc)
    qed
  qed
qed


text \<open>
  C5. The transfer of a frame always returns, whatever requests the gadget driver queues,
  dequeues or completes meanwhile: it moves at most its limit, what it reports as sent is what
  the host's transfer advanced by, the transfer never advances beyond the length of its buffer,
  and the status left is the old one, success or an overflow.
\<close>

theorem transfer_returns:
  assumes "sg_iterator env" and "env_ok env" and "leaves_wire env" and "i < DUMMY_ENDPOINTS"
    and "on_wire w k i p d" and "0 \<le> limit" and "limit < 2 ^ 31"
  shows "\<exists>sent st' d' p'. transfer env w k i limit st d = Some (sent, st', d')
    \<and> 0 \<le> sent \<and> sent \<le> limit \<and> st' \<in> {st, 0, - EOVERFLOW}
    \<and> wf_dummy d' \<and> get_urbp w k d' = Some p'
    \<and> unat (actual_length (urbp_urb p')) = unat (actual_length (urbp_urb p)) + nat sent
    \<and> actual_length (urbp_urb p') \<le> transfer_buffer_length (urbp_urb p')
    \<and> transfer_buffer_length (urbp_urb p') = transfer_buffer_length (urbp_urb p)"
proof -
  have "unat (word_of_int limit :: u32) = nat limit"
    using assms(6,7) by (simp add: unat_eq_nat_uint uint_word_of_int)
  then obtain st' d' p' n where
      loop: "transfer_loop env w k i (queue (ep d ! i)) (word_of_int limit) 0 st d
        = Some (0 + of_nat n, st', d')"
      and on: "on_wire w k i p' d'" and adv: "advanced n p p'" and n: "n \<le> nat limit"
      and st: "st' \<in> {st, 0, - EOVERFLOW}"
    using transfer_loop_ready [OF assms(1-4) order_refl assms(5), of "word_of_int limit" 0 st] by auto
  have un: "unat (of_nat n :: u32) = n" using n assms(7) by (simp add: unat_of_nat)
  then have "sint (of_nat n :: u32) = int n" using n assms(7) sint_small [of "of_nat n"] by simp
  then have "transfer env w k i limit st d = Some (int n, st', d')"
    using loop by (simp add: transfer_def)
  then show ?thesis
    using on adv n st assms(6) by (auto simp: on_wire_def advanced_def urb_ready_def Let_def)
qed

text \<open>The example: a bulk IN transfer of 16 bytes, with a request of 3 bytes queued for it.\<close>

definition in_urbp :: urbp where
  "in_urbp = zero_urbp\<lparr>urbp_id := 7, urbp_urb := zero_urb\<lparr>transfer_flags := 0x200,
     transfer_buffer := replicate 16 0, transfer_buffer_length := 16\<rparr>\<rparr>"

definition in_request :: "u8 list \<Rightarrow> usb_request" where
  "in_request b = zero_request\<lparr>rq_buf := b, rq_length := of_nat (length b),
     rq_status := - EINPROGRESS\<rparr>"

definition wire_demo :: "u8 list list \<Rightarrow> dummy_t" where
  "wire_demo bs = zero_dummy\<lparr>driver := Some demo_driver, ints_enabled := True,
     hs_hcd := Some (demo_hcd\<lparr>urbp_list := [in_urbp]\<rparr>),
     ep := (ep zero_dummy)[1 := zero_ep\<lparr>desc := Some (bulk_desc 0x81), maxpacket := 8,
       queue := [0..<length bs]\<rparr>],
     reqs := (\<lambda>r. if r < length bs then in_request (bs ! r) else zero_request)\<rparr>"

lemma wire_demo_simps [simp]:
  "ep (wire_demo bs) ! 1 = zero_ep\<lparr>desc := Some (bulk_desc 0x81), maxpacket := 8,
     queue := [0..<length bs]\<rparr>"
  "get_urbp HS 7 (wire_demo bs) = Some in_urbp"
  by (simp_all add: wire_demo_def zero_dummy_def DUMMY_ENDPOINTS_eq get_urbp_def hcd_of_def in_urbp_def)

lemma queue_wire_demo:
  "map queue (ep (wire_demo bs)) = (replicate DUMMY_ENDPOINTS [])[1 := [0..<length bs]]"
  by (simp add: wire_demo_def zero_dummy_def map_update)

lemma wf_wire_demo:
  assumes "\<forall>b \<in> set bs. length b < 2 ^ 32"
  shows "wf_dummy (wire_demo bs)"
proof -
  have "queued r (wire_demo bs) \<Longrightarrow> r < length bs" for r
    unfolding queued_iff queue_wire_demo by (auto dest!: set_update_subset_insert [THEN subsetD])
  moreover have "wf_request (in_request b)" if "length b < 2 ^ 32" for b
    using that by (simp add: wf_request_def in_request_def unat_of_nat)
  moreover have "distinct (concat (map queue (ep (wire_demo bs))))"
    unfolding queue_wire_demo DUMMY_ENDPOINTS_eq by (simp add: numeral_eq_Suc)
  ultimately show ?thesis
    using assms by (auto simp: wf_dummy_def wf_queues_def wire_demo_def zero_dummy_def)
qed

lemma in_urbp_ready: "urb_ready in_urbp"
  by (simp add: in_urbp_def urb_ready_def zero_urbp_def zero_urb_def)

lemma idle_leaves_wire [simp]: "leaves_wire idle_env"
  by (simp add: leaves_wire_def)

theorem transfer_returns_witness:
  "\<exists>sent st d. transfer idle_env HS 7 1 1000 (- EINPROGRESS) (wire_demo [[1, 2, 3]]) = Some (sent, st, d)
     \<and> 0 \<le> sent \<and> sent \<le> 1000"
proof -
  have "on_wire HS 7 1 in_urbp (wire_demo [[1, 2, 3]])"
    using wf_wire_demo [of "[[1, 2, 3]]"] in_urbp_ready by (simp add: on_wire_def del: One_nat_def)
  then show ?thesis
    using transfer_returns [OF idle_sg.sg_iterator_axioms idle_env_ok idle_leaves_wire, of 1 HS 7 in_urbp
        "wire_demo [[1, 2, 3]]" 1000 "- EINPROGRESS"]
    by (auto simp: DUMMY_ENDPOINTS_eq)
qed

declare transfer_loop.simps [code] sg_copy.simps [code]

text \<open>
  The order of the requests of an endpoint is not kept: when the first request has used up
  the bandwidth of the frame at the end of a packet, the loop goes on to the next request
  without starting over, and an empty request there ends the host's transfer as a short packet,
  while the rest of the first request is still queued.
\<close>

theorem empty_request_overtakes:
  "map_option (\<lambda>(sent, st, d). (sent, st, trace d, queue (ep d ! 1)))
     (transfer idle_env HS 7 1 8 (- EINPROGRESS) (wire_demo [replicate 12 0xAA, []]))
   = Some (8, 0, [Giveback 1 1 0 0], [0])"
  by code_simp

end
