(* ===== verification/Dummy_Control.thy ===== *)
theory Dummy_Control
  imports Dummy_Wire
begin

text \<open>
  Finding an endpoint by its address and the standard control requests the controller handles
  itself, without the gadget driver (dummy\_hcd.c, lines 1544 to 1754).
\<close>

section \<open>Finding an endpoint\<close>

definition is_active :: "dummy_hcd \<Rightarrow> bool" where
  "is_active h \<longleftrightarrow>
     port_status h AND (USB_PORT_STAT_CONNECTION OR USB_PORT_STAT_ENABLE OR USB_PORT_STAT_SUSPEND)
       = (USB_PORT_STAT_CONNECTION OR USB_PORT_STAT_ENABLE)"

definition has_address :: "u8 \<Rightarrow> dummy_ep \<Rightarrow> bool" where
  "has_address a e \<longleftrightarrow> (case desc e of None \<Rightarrow> False | Some ds \<Rightarrow> bEndpointAddress ds = a)"

text \<open>The outer \<open>None\<close> is a null pointer to the hub; the inner one is the result \<open>NULL\<close>.\<close>

definition find_endpoint :: "u8 \<Rightarrow> dummy_t \<Rightarrow> nat option option" where
  "find_endpoint a d =
     do {
       h \<leftarrow> hcd_of (gadget_to_dummy_hcd d) d;
       if \<not> is_active h then Some None
       else if \<not> ints_enabled d then Some None
       else if a AND NOT USB_DIR_IN = 0 then Some (Some 0)
       else Some (List.find (\<lambda>i. has_address a (ep d ! i)) [1..<DUMMY_ENDPOINTS])
     }"

section \<open>Standard requests\<close>

abbreviation (input) Dev_Request :: u8 where
  "Dev_Request \<equiv> USB_TYPE_STANDARD OR USB_RECIP_DEVICE"
abbreviation (input) Dev_InRequest :: u8 where "Dev_InRequest \<equiv> Dev_Request OR USB_DIR_IN"
abbreviation (input) Intf_Request :: u8 where
  "Intf_Request \<equiv> USB_TYPE_STANDARD OR USB_RECIP_INTERFACE"
abbreviation (input) Intf_InRequest :: u8 where "Intf_InRequest \<equiv> Intf_Request OR USB_DIR_IN"
abbreviation (input) Ep_Request :: u8 where
  "Ep_Request \<equiv> USB_TYPE_STANDARD OR USB_RECIP_ENDPOINT"
abbreviation (input) Ep_InRequest :: u8 where "Ep_InRequest \<equiv> Ep_Request OR USB_DIR_IN"

text \<open>
  The power management features of USB 3.0, common to setting and clearing: the bit of the
  device status a feature becomes, where the hub is a SuperSpeed one.
\<close>

definition link_feature :: "dummy_hcd \<Rightarrow> nat \<Rightarrow> int \<times> nat" where
  "link_feature h v =
     (if v = USB_DEVICE_U1_ENABLE then
        if speed_of_hcd h = HCD_USB3 then (0, USB_DEV_STAT_U1_ENABLED) else (- EOPNOTSUPP, v)
      else if v = USB_DEVICE_U2_ENABLE then
        if speed_of_hcd h = HCD_USB3 then (0, USB_DEV_STAT_U2_ENABLED) else (- EOPNOTSUPP, v)
      else if v = USB_DEVICE_LTM_ENABLE then
        if speed_of_hcd h = HCD_USB3 then (0, USB_DEV_STAT_LTM_ENABLED) else (- EOPNOTSUPP, v)
      else (- EOPNOTSUPP, v))"

definition set_device_feature :: "dummy_hcd \<Rightarrow> nat \<Rightarrow> int \<Rightarrow> dummy_t \<Rightarrow> int \<times> int \<times> dummy_t" where
  "set_device_feature h w_value st d =
     (let (ret_val, v, g) =
        (if w_value = USB_DEVICE_REMOTE_WAKEUP then (0, w_value, gadget d)
         else if w_value = USB_DEVICE_B_HNP_ENABLE
         then (0, w_value, (gadget d)\<lparr>b_hnp_enable := True\<rparr>)
         else if w_value = USB_DEVICE_A_HNP_SUPPORT
         then (0, w_value, (gadget d)\<lparr>a_hnp_support := True\<rparr>)
         else if w_value = USB_DEVICE_A_ALT_HNP_SUPPORT
         then (0, w_value, (gadget d)\<lparr>a_alt_hnp_support := True\<rparr>)
         else (let (rv, v) = link_feature h w_value in (rv, v, gadget d)));
          d = d\<lparr>gadget := g\<rparr>
      in if ret_val = 0 then (ret_val, 0, d\<lparr>devstatus := devstatus d OR push_bit v 1\<rparr>)
         else (ret_val, st, d))"

definition clear_device_feature :: "dummy_hcd \<Rightarrow> nat \<Rightarrow> int \<Rightarrow> dummy_t \<Rightarrow> int \<times> int \<times> dummy_t" where
  "clear_device_feature h w_value st d =
     (let (ret_val, v) = (if w_value = USB_DEVICE_REMOTE_WAKEUP
                          then (0, USB_DEVICE_REMOTE_WAKEUP) else link_feature h w_value)
      in if ret_val = 0 then (ret_val, 0, d\<lparr>devstatus := devstatus d AND NOT (push_bit v 1)\<rparr>)
         else (ret_val, st, d))"

text \<open>A store through the pointer \<open>buf\<close>; beyond the buffer it is undefined.\<close>

definition store_byte :: "nat \<Rightarrow> u8 \<Rightarrow> u8 list \<Rightarrow> u8 list option" where
  "store_byte n b buf = (if n < length buf then Some (buf[n := b]) else None)"

definition get_status ::
  "hcd_sel \<Rightarrow> nat \<Rightarrow> usb_ctrlrequest \<Rightarrow> int \<Rightarrow> dummy_t \<Rightarrow> (int \<times> int \<times> dummy_t) option" where
  "get_status w k setup st d =
     do {
       p \<leftarrow> get_urbp w k d;
       let u = urbp_urb p;
       let n = transfer_buffer_length u;
       first \<leftarrow>
         (if n > 0 then
            if bRequestType setup = Ep_InRequest then do {
              e2 \<leftarrow> find_endpoint (ucast (wIndex setup)) d;
              Some (map_option (\<lambda>i. if halted (ep d ! i) then 1 else 0) e2)
            }
            else if bRequestType setup = Dev_InRequest then Some (Some (ucast (devstatus d)))
            else Some (Some 0)
          else Some (Some 0));
       case first of
         None \<Rightarrow> Some (- EOPNOTSUPP, st, d)
       | Some b \<Rightarrow> do {
           buf \<leftarrow> (if n > 0 then store_byte 0 b (transfer_buffer u) else Some (transfer_buffer u));
           buf \<leftarrow> (if n > 1 then store_byte 1 0 buf else Some buf);
           Some (0, 0,
             put_urbp w (p\<lparr>urbp_urb := u\<lparr>transfer_buffer := buf, actual_length := min 2 n\<rparr>\<rparr>) d)
         }
     }"

text \<open>
  The result is the function's value, the status left in the pointer argument, and the
  controller. The value 1 hands the request to the gadget driver.
\<close>

definition handle_control_request ::
  "hcd_sel \<Rightarrow> nat \<Rightarrow> usb_ctrlrequest \<Rightarrow> int \<Rightarrow> dummy_t \<Rightarrow> (int \<times> int \<times> dummy_t) option" where
  "handle_control_request w k setup st d =
     (let w_index = wIndex setup; w_value = unat (wValue setup); rt = bRequestType setup in
      if bRequest setup = USB_REQ_SET_ADDRESS then
        if rt \<noteq> Dev_Request then Some (1, st, d)
        else Some (0, 0, d\<lparr>address := int w_value\<rparr>)
      else if bRequest setup = USB_REQ_SET_FEATURE then
        if rt = Dev_Request then do {
          h \<leftarrow> hcd_of w d;
          Some (set_device_feature h w_value st d)
        }
        else if rt = Ep_Request then do {
          ep2 \<leftarrow> find_endpoint (ucast w_index) d;
          case ep2 of
            None \<Rightarrow> Some (- EOPNOTSUPP, st, d)
          | Some i \<Rightarrow>
              if ep_name (ep d ! i) = ep0name then Some (- EOPNOTSUPP, st, d)
              else Some (0, 0, upd_ep i (\<lambda>e. e\<lparr>halted := True\<rparr>) d)
        }
        else Some (1, st, d)
      else if bRequest setup = USB_REQ_CLEAR_FEATURE then
        if rt = Dev_Request then do {
          h \<leftarrow> hcd_of w d;
          Some (clear_device_feature h w_value st d)
        }
        else if rt = Ep_Request then do {
          ep2 \<leftarrow> find_endpoint (ucast w_index) d;
          case ep2 of
            None \<Rightarrow> Some (- EOPNOTSUPP, st, d)
          | Some i \<Rightarrow>
              Some (0, 0, if \<not> wedged (ep d ! i)
                          then upd_ep i (\<lambda>e. e\<lparr>halted := False\<rparr>) d else d)
        }
        else Some (1, st, d)
      else if bRequest setup = USB_REQ_GET_STATUS then
        if rt = Dev_InRequest \<or> rt = Intf_InRequest \<or> rt = Ep_InRequest
        then get_status w k setup st d
        else Some (1, st, d)
      else Some (1, st, d))"

lemma set_device_feature_wf:
  "set_device_feature h v st d = (rv, st', d') \<Longrightarrow> wf_dummy d' = wf_dummy d \<and> ep d' = ep d"
  by (auto simp: set_device_feature_def Let_def split_def split: if_splits)

lemma clear_device_feature_wf:
  "clear_device_feature h v st d = (rv, st', d') \<Longrightarrow> wf_dummy d' = wf_dummy d \<and> ep d' = ep d"
  by (auto simp: clear_device_feature_def Let_def split_def split: if_splits)

lemma get_status_wf:
  "get_status w k setup st d = Some (rv, st', d') \<Longrightarrow> wf_dummy d' = wf_dummy d \<and> ep d' = ep d"
  by (auto simp: get_status_def Let_def bind_eq_Some_conv split: if_splits option.splits)

lemma handle_control_request_wf:
  assumes "wf_dummy d" and "handle_control_request w k setup st d = Some (rv, st', d')"
  shows "wf_dummy d'" "map queue (ep d') = map queue (ep d)"
proof -
  have upd: "map queue ((ep d)[i := (ep d ! i)\<lparr>halted := b\<rparr>]) = map queue (ep d)" for i b
    by (cases "i < length (ep d)") (simp_all add: map_update list_update_same_conv list_update_beyond)
  have "wf_dummy d' \<and> map queue (ep d') = map queue (ep d)"
    using assms
    by (auto simp: handle_control_request_def Let_def bind_eq_Some_conv upd wf_upd_ep_fields
        split: if_splits option.splits
        dest!: get_status_wf set_device_feature_wf clear_device_feature_wf)
  then show "wf_dummy d'" "map queue (ep d') = map queue (ep d)" by auto
qed

section \<open>Properties\<close>

definition handled_requests :: "(u8 \<times> u8) list" where
  "handled_requests =
     [(USB_REQ_SET_ADDRESS, Dev_Request), (USB_REQ_SET_FEATURE, Dev_Request),
      (USB_REQ_SET_FEATURE, Ep_Request), (USB_REQ_CLEAR_FEATURE, Dev_Request),
      (USB_REQ_CLEAR_FEATURE, Ep_Request), (USB_REQ_GET_STATUS, Dev_InRequest),
      (USB_REQ_GET_STATUS, Intf_InRequest), (USB_REQ_GET_STATUS, Ep_InRequest)]"

lemma link_feature_result: "fst (link_feature h v) \<in> {0, - EOPNOTSUPP}"
  by (simp add: link_feature_def)

lemma set_device_feature_result:
  "set_device_feature h v st d = (rv, st', d') \<Longrightarrow>
     rv = 0 \<and> st' = 0 \<or> rv = - EOPNOTSUPP \<and> st' = st \<and> d' = d"
  using link_feature_result [of h v]
  by (auto simp: set_device_feature_def Let_def split_def split: if_splits)

lemma clear_device_feature_result:
  "clear_device_feature h v st d = (rv, st', d') \<Longrightarrow>
     rv = 0 \<and> st' = 0 \<or> rv = - EOPNOTSUPP \<and> st' = st \<and> d' = d"
  using link_feature_result [of h v]
  by (auto simp: clear_device_feature_def Let_def split_def split: if_splits)

lemma get_status_result:
  "get_status w k setup st d = Some (rv, st', d') \<Longrightarrow>
     rv = 0 \<and> st' = 0 \<or> rv = - EOPNOTSUPP \<and> st' = st \<and> d' = d"
  by (auto simp: get_status_def Let_def bind_eq_Some_conv split: option.splits)

text \<open>
  C25. The controller answers exactly the eight standard requests of its table, each with
  success and the status zero, or with \<open>-EOPNOTSUPP\<close> and no change of any state; every other
  request it leaves to the gadget driver, untouched.
\<close>

theorem control_request_results:
  assumes "handle_control_request w k setup st d = Some (rv, st', d')"
  shows "if (bRequest setup, bRequestType setup) \<in> set handled_requests
     then rv = 0 \<and> st' = 0 \<or> rv = - EOPNOTSUPP \<and> st' = st \<and> d' = d
     else rv = 1 \<and> st' = st \<and> d' = d"
proof (cases "(bRequest setup, bRequestType setup) \<in> set handled_requests")
  case True
  then show ?thesis
    using assms
    by (auto simp: handled_requests_def handle_control_request_def Let_def bind_eq_Some_conv
        split: if_splits option.splits
        dest!: set_device_feature_result clear_device_feature_result get_status_result)
next
  case False
  then have "handle_control_request w k setup st d = Some (1, st, d)"
    by (auto simp: handled_requests_def handle_control_request_def Let_def)
  then show ?thesis using assms False by simp
qed


text \<open>Standard requests to an endpoint, and what a transfer's buffer holds.\<close>

definition halt_request :: "u8 \<Rightarrow> u8 \<Rightarrow> u16 \<Rightarrow> usb_ctrlrequest" where
  "halt_request rq rt i =
     \<lparr>bRequestType = rt, bRequest = rq, wValue = 0, wIndex = i, wLength = 0\<rparr>"

definition buffer_of :: "hcd_sel \<Rightarrow> nat \<Rightarrow> dummy_t \<Rightarrow> u8 list option" where
  "buffer_of w k d = map_option (\<lambda>p. transfer_buffer (urbp_urb p)) (get_urbp w k d)"

lemma find_endpoint_halted [simp]:
  "find_endpoint a (upd_ep i (\<lambda>e. e\<lparr>halted := b\<rparr>) d) = find_endpoint a d"
proof -
  have "has_address a ((ep d)[i := (ep d ! i)\<lparr>halted := b\<rparr>] ! j) = has_address a (ep d ! j)" for j
    by (cases "i < length (ep d)")
      (auto simp: has_address_def nth_list_update list_update_beyond split: option.split)
  then show ?thesis by (simp add: find_endpoint_def gadget_to_dummy_hcd_def cong: if_cong)
qed

lemma get_status_endpoint:
  assumes "find_endpoint (ucast idx) d = Some (Some i)" and "get_urbp w k d = Some p"
    and "transfer_buffer_length (urbp_urb p) = 2" and "transfer_buffer (urbp_urb p) = [x, y]"
  shows "\<exists>d'. handle_control_request w k (halt_request USB_REQ_GET_STATUS Ep_InRequest idx) st d
      = Some (0, 0, d') \<and> buffer_of w k d' = Some [if halted (ep d ! i) then 1 else 0, 0]"
  using assms get_urbp_id [OF assms(2)]
  by (simp add: handle_control_request_def halt_request_def get_status_def store_byte_def
      buffer_of_def get_put_urbp [OF assms(2)])

text \<open>
  C15. The halt feature of an endpoint: setting it succeeds and the status of the endpoint then
  reads halted; clearing it succeeds too, and the status reads halted afterwards exactly when
  the gadget driver wedged the endpoint, which the host cannot undo.
\<close>

theorem endpoint_halt_protocol:
  assumes "find_endpoint (ucast idx) d = Some (Some i)" and "i < length (ep d)"
    and "ep_name (ep d ! i) \<noteq> ep0name" and "get_urbp w k d = Some p"
    and "transfer_buffer_length (urbp_urb p) = 2" and "transfer_buffer (urbp_urb p) = [x, y]"
  shows "\<exists>d1 d2 d3 d4.
     handle_control_request w k (halt_request USB_REQ_SET_FEATURE Ep_Request idx) st d = Some (0, 0, d1)
   \<and> handle_control_request w k (halt_request USB_REQ_GET_STATUS Ep_InRequest idx) st d1 = Some (0, 0, d2)
   \<and> buffer_of w k d2 = Some [1, 0]
   \<and> handle_control_request w k (halt_request USB_REQ_CLEAR_FEATURE Ep_Request idx) st d1 = Some (0, 0, d3)
   \<and> handle_control_request w k (halt_request USB_REQ_GET_STATUS Ep_InRequest idx) st d3 = Some (0, 0, d4)
   \<and> buffer_of w k d4 = Some [if wedged (ep d ! i) then 1 else 0, 0]"
proof -
  let ?d1 = "upd_ep i (\<lambda>e. e\<lparr>halted := True\<rparr>) d"
  let ?d3 = "if wedged (ep d ! i) then ?d1 else upd_ep i (\<lambda>e. e\<lparr>halted := False\<rparr>) ?d1"
  have f: "find_endpoint (ucast idx) ?d1 = Some (Some i)" "find_endpoint (ucast idx) ?d3 = Some (Some i)"
    and p: "get_urbp w k ?d1 = Some p" "get_urbp w k ?d3 = Some p"
    and h: "halted (ep ?d1 ! i)" "halted (ep ?d3 ! i) \<longleftrightarrow> wedged (ep d ! i)"
    using assms(1,2,4) by simp_all
  have "handle_control_request w k (halt_request USB_REQ_SET_FEATURE Ep_Request idx) st d = Some (0, 0, ?d1)"
    using assms(1,3) by (simp add: handle_control_request_def halt_request_def)
  moreover have "handle_control_request w k (halt_request USB_REQ_CLEAR_FEATURE Ep_Request idx) st ?d1
      = Some (0, 0, ?d3)"
    using f(1) assms(2) by (simp add: handle_control_request_def halt_request_def)
  moreover obtain d2 where "handle_control_request w k (halt_request USB_REQ_GET_STATUS Ep_InRequest idx) st ?d1
      = Some (0, 0, d2)" "buffer_of w k d2 = Some [1, 0]"
    using get_status_endpoint [OF f(1) p(1) assms(5,6)] h(1) by (simp only: if_True) blast
  moreover obtain d4 where "handle_control_request w k (halt_request USB_REQ_GET_STATUS Ep_InRequest idx) st ?d3
      = Some (0, 0, d4)" "buffer_of w k d4 = Some [if wedged (ep d ! i) then 1 else 0, 0]"
    using get_status_endpoint [OF f(2) p(2) assms(5,6)] h(2) by (simp only:) blast
  ultimately show ?thesis by blast
qed

text \<open>The bit of the device status that a device feature stands for.\<close>

definition feature_bit :: "nat \<Rightarrow> nat" where
  "feature_bit v =
     (if v = USB_DEVICE_U1_ENABLE then USB_DEV_STAT_U1_ENABLED
      else if v = USB_DEVICE_U2_ENABLE then USB_DEV_STAT_U2_ENABLED
      else if v = USB_DEVICE_LTM_ENABLE then USB_DEV_STAT_LTM_ENABLED else v)"

definition device_request :: "u8 \<Rightarrow> nat \<Rightarrow> usb_ctrlrequest" where
  "device_request rq v =
     \<lparr>bRequestType = Dev_Request, bRequest = rq, wValue = of_nat v, wIndex = 0, wLength = 0\<rparr>"

text \<open>
  Setting a device feature sets its bit of the device status and no other, clearing one
  clears its bit and no other. The features of the power management of USB 3.0 are refused
  unless the hub is a SuperSpeed one; the three features of the OTG supplement can be set, but
  not cleared, and the first of them has the same bit as the U2 state.
\<close>

theorem device_feature_bits:
  assumes "hcd_of w d = Some h" and "v < 65536"
  shows "(if v \<in> {USB_DEVICE_REMOTE_WAKEUP, USB_DEVICE_B_HNP_ENABLE, USB_DEVICE_A_HNP_SUPPORT,
              USB_DEVICE_A_ALT_HNP_SUPPORT}
            \<or> v \<in> {USB_DEVICE_U1_ENABLE, USB_DEVICE_U2_ENABLE, USB_DEVICE_LTM_ENABLE}
              \<and> speed_of_hcd h = HCD_USB3
          then \<exists>d'. handle_control_request w k (device_request USB_REQ_SET_FEATURE v) st d = Some (0, 0, d')
            \<and> (\<forall>n. bit (devstatus d') n = (bit (devstatus d) n \<or> n = feature_bit v))
          else handle_control_request w k (device_request USB_REQ_SET_FEATURE v) st d
            = Some (- EOPNOTSUPP, st, d))
   \<and> (if v = USB_DEVICE_REMOTE_WAKEUP
            \<or> v \<in> {USB_DEVICE_U1_ENABLE, USB_DEVICE_U2_ENABLE, USB_DEVICE_LTM_ENABLE}
              \<and> speed_of_hcd h = HCD_USB3
          then \<exists>d'. handle_control_request w k (device_request USB_REQ_CLEAR_FEATURE v) st d = Some (0, 0, d')
            \<and> (\<forall>n. bit (devstatus d') n = (bit (devstatus d) n \<and> n \<noteq> feature_bit v))
          else handle_control_request w k (device_request USB_REQ_CLEAR_FEATURE v) st d
            = Some (- EOPNOTSUPP, st, d))
   \<and> feature_bit USB_DEVICE_B_HNP_ENABLE = feature_bit USB_DEVICE_U2_ENABLE"
proof -
  have v: "unat (of_nat v :: u16) = v" using assms(2) by (simp add: unat_of_nat)
  have set: "bit (x OR push_bit m 1) n = (bit x n \<or> n = m)" if "m < 16" for x :: u16 and m n
    using that by (auto simp: bit_simps)
  have clear: "bit (x AND NOT (push_bit m 1)) n = (bit x n \<and> n \<noteq> m)" if "m < 16" for x :: u16 and m n
    using that by (auto simp: bit_simps dest: bit_imp_le_length)
  have eq: "handle_control_request w k (device_request USB_REQ_SET_FEATURE v) st d
      = Some (set_device_feature h v st d)"
    "handle_control_request w k (device_request USB_REQ_CLEAR_FEATURE v) st d
      = Some (clear_device_feature h v st d)"
    using assms(1) v by (simp_all add: handle_control_request_def device_request_def)
  show ?thesis
    unfolding eq option.inject
  proof (intro conjI)
    show "if v \<in> {1, 3, 4, 5} \<or> v \<in> {48, 49, 50} \<and> speed_of_hcd h = HCD_USB3
      then \<exists>d'. set_device_feature h v st d = (0, 0, d')
            \<and> (\<forall>n. bit (devstatus d') n = (bit (devstatus d) n \<or> n = feature_bit v))
      else set_device_feature h v st d = (- EOPNOTSUPP, st, d)"
      using set [of 1 "devstatus d"] set [of 2 "devstatus d"] set [of 3 "devstatus d"]
        set [of 4 "devstatus d"] set [of 5 "devstatus d"]
      by (simp add: set_device_feature_def link_feature_def feature_bit_def)
    show "if v = 1 \<or> v \<in> {48, 49, 50} \<and> speed_of_hcd h = HCD_USB3
      then \<exists>d'. clear_device_feature h v st d = (0, 0, d')
            \<and> (\<forall>n. bit (devstatus d') n = (bit (devstatus d) n \<and> n \<noteq> feature_bit v))
      else clear_device_feature h v st d = (- EOPNOTSUPP, st, d)"
      using clear [of 1 "devstatus d"] clear [of 2 "devstatus d"] clear [of 3 "devstatus d"]
        clear [of 4 "devstatus d"]
      by (simp add: clear_device_feature_def link_feature_def feature_bit_def)
    show "feature_bit USB_DEVICE_B_HNP_ENABLE = feature_bit USB_DEVICE_U2_ENABLE"
      by (simp add: feature_bit_def)
  qed
qed

section \<open>Examples\<close>

text \<open>The example controller with a control transfer of two bytes queued.\<close>

definition status_urbp :: urbp where
  "status_urbp = zero_urbp\<lparr>urbp_id := 7, urbp_urb := zero_urb\<lparr>transfer_flags := 0x200,
     transfer_buffer := [0xFF, 0xFF], transfer_buffer_length := 2\<rparr>\<rparr>"

definition demo_control :: "bool \<Rightarrow> dummy_t" where
  "demo_control b = upd_ep 1 (\<lambda>e. e\<lparr>wedged := b\<rparr>)
     (set_hcd HS (demo_hcd\<lparr>urbp_list := [status_urbp]\<rparr>) demo)"

lemma demo_control_simps [simp]:
  "hcd_of HS (demo_control b) = Some (demo_hcd\<lparr>urbp_list := [status_urbp]\<rparr>)"
  "get_urbp HS 7 (demo_control b) = Some status_urbp"
  "ep (demo_control b) ! 1 = (ep demo ! 1)\<lparr>wedged := b\<rparr>"
  "ep (demo_control b) ! Suc 0 = (ep demo ! 1)\<lparr>wedged := b\<rparr>"
  "length (ep (demo_control b)) = DUMMY_ENDPOINTS" "gadget (demo_control b) = gadget demo"
  "ints_enabled (demo_control b)"
  by (simp_all add: demo_control_def get_urbp_def status_urbp_def upd_ep_def set_hcd_def hcd_of_def
      DUMMY_ENDPOINTS_eq)

lemma demo_control_endpoint: "find_endpoint (ucast (0x81 :: u16)) (demo_control b) = Some (Some 1)"
proof -
  have "is_active (demo_hcd\<lparr>urbp_list := us\<rparr>)" for us by (simp add: is_active_def)
  moreover have "has_address 0x81 (ep (demo_control b) ! 1)"
    by (simp add: has_address_def bulk_desc_def)
  ultimately show ?thesis
    by (simp add: find_endpoint_def gadget_to_dummy_hcd_def DUMMY_ENDPOINTS_eq upt_conv_Cons)
qed

theorem control_request_results_witness:
  "\<exists>d. handle_control_request HS 7 (halt_request USB_REQ_SET_FEATURE Ep_Request 0x81) (- EINPROGRESS)
      (demo_control False) = Some (0, 0, d)"
proof -
  obtain rv st d where "handle_control_request HS 7 (halt_request USB_REQ_SET_FEATURE Ep_Request 0x81)
      (- EINPROGRESS) (demo_control False) = Some (rv, st, d)"
    "rv \<noteq> - EOPNOTSUPP"
    using demo_control_endpoint
    by (simp add: handle_control_request_def halt_request_def ep0name_def)
  with control_request_results [OF this(1)] show ?thesis
    by (simp add: handled_requests_def halt_request_def)
qed

theorem endpoint_halt_protocol_witness:
  "\<exists>d1 d4. handle_control_request HS 7 (halt_request USB_REQ_CLEAR_FEATURE Ep_Request 0x81) 0 d1
        = Some (0, 0, d4)
     \<and> handle_control_request HS 7 (halt_request USB_REQ_SET_FEATURE Ep_Request 0x81) 0
         (demo_control True) = Some (0, 0, d1)"
proof -
  have "ep_name (ep (demo_control True) ! 1) \<noteq> ep0name" by (simp add: ep0name_def)
  moreover have "transfer_buffer_length (urbp_urb status_urbp) = 2"
    "transfer_buffer (urbp_urb status_urbp) = [0xFF, 0xFF]" by (simp_all add: status_urbp_def)
  ultimately show ?thesis
    using endpoint_halt_protocol [OF demo_control_endpoint [of True], where w = HS and k = 7 and st = 0
        and p = status_urbp and x = "0xFF" and y = "0xFF"]
    by (simp add: DUMMY_ENDPOINTS_eq) blast
qed

theorem device_feature_bits_witness:
  "\<exists>d. handle_control_request HS 7 (device_request USB_REQ_SET_FEATURE USB_DEVICE_B_HNP_ENABLE) 1 demo
      = Some (0, 0, d) \<and> bit (devstatus d) USB_DEV_STAT_U2_ENABLED"
  using device_feature_bits [of HS demo demo_hcd USB_DEVICE_B_HNP_ENABLE 7 1]
  by (auto simp: feature_bit_def)

end
