(* ===== verification/Dummy_Timer.thy ===== *)
theory Dummy_Timer
  imports Dummy_Control
begin

text \<open>
  The scheduler of the host side (dummy\_hcd.c, lines 1756 to 1981): once a tick it visits the
  transfers the host queued, lets each move what the frame's bandwidth allows, and gives back
  those that are complete.
\<close>

section \<open>One visit\<close>

definition frame_bandwidth :: "usb_device_speed \<Rightarrow> int" where
  "frame_bandwidth s =
     (case s of
        USB_SPEED_LOW \<Rightarrow> 8 * 12
      | USB_SPEED_FULL \<Rightarrow> 64 * 19
      | USB_SPEED_HIGH \<Rightarrow> 512 * 13 * 8
      | USB_SPEED_SUPER \<Rightarrow> 490000
      | _ \<Rightarrow> 0)"

text \<open>
  The tail of the loop at the label \<open>return_urb\<close>: the entry leaves the list, and the transfer
  goes back to the USB core with the lock released.
\<close>

definition return_urb ::
  "env \<Rightarrow> hcd_sel \<Rightarrow> nat \<Rightarrow> nat option \<Rightarrow> int \<Rightarrow> dummy_t \<Rightarrow> dummy_t option" where
  "return_urb env w k ep_ptr st d =
     do {
       p \<leftarrow> get_urbp w k d;
       let d = upd_hcd w (\<lambda>h. h\<lparr>urbp_list := filter (\<lambda>q. urbp_id q \<noteq> k) (urbp_list h)\<rparr>) d;
       let d = (case ep_ptr of
                  None \<Rightarrow> d
                | Some i \<Rightarrow> upd_ep i (\<lambda>e. e\<lparr>already_seen := False, setup_stage := False\<rparr>) d);
       Some (giveback_urb env w (urbp_urb p) st
              (log_event (Giveback_Urb w k st (actual_length (urbp_urb p))) d))
     }"

text \<open>How a visit ends: with the next entry, or from the head of the list again.\<close>

datatype visit = Next | Restart

definition data_stage ::
  "env \<Rightarrow> hcd_sel \<Rightarrow> nat \<Rightarrow> nat \<Rightarrow> int \<Rightarrow> int \<Rightarrow> int \<Rightarrow> dummy_t
     \<Rightarrow> (visit \<times> int \<times> dummy_t) option" where
  "data_stage env w k i limit budget st d =
     do {
       (sent, st, d) \<leftarrow> transfer env w k i limit st (upd_ep i (\<lambda>e. e\<lparr>last_io := jiffies d\<rparr>) d);
       let budget = budget - sent;
       if st = - EINPROGRESS then Some (Next, budget, d)
       else do { d \<leftarrow> return_urb env w k (Some i) st d; Some (Restart, budget, d) }
     }"

text \<open>
  A new control transfer: a request left over on endpoint 0 is given back first; then the
  controller answers the setup packet, or the gadget driver with the lock released. A driver
  that accepts it gets a data stage without a limit by the frame; an error stalls the transfer.
\<close>

definition call_setup :: "env \<Rightarrow> usb_ctrlrequest \<Rightarrow> dummy_t \<Rightarrow> (int \<times> dummy_t) option" where
  "call_setup env setup d =
     (case driver d of
        None \<Rightarrow> None
      | Some _ \<Rightarrow>
          (let d = log_event (Setup setup) (d\<lparr>callback_usage := callback_usage d + 1\<rparr>);
               (val, d) = drv_setup env setup d
           in Some (val, d\<lparr>callback_usage := callback_usage d - 1\<rparr>)))"

definition stall_urb :: "hcd_sel \<Rightarrow> nat \<Rightarrow> dummy_t \<Rightarrow> dummy_t option" where
  "stall_urb w k d =
     do {
       p \<leftarrow> get_urbp w k d;
       Some (put_urbp w (p\<lparr>urbp_urb := (urbp_urb p)\<lparr>actual_length := 0\<rparr>\<rparr>) d)
     }"

definition answer_setup ::
  "env \<Rightarrow> hcd_sel \<Rightarrow> nat \<Rightarrow> usb_ctrlrequest \<Rightarrow> int \<Rightarrow> dummy_t
     \<Rightarrow> (visit \<times> int \<times> dummy_t) option" where
  "answer_setup env w k setup budget d =
     do {
       (val, st, d) \<leftarrow> handle_control_request w k setup (- EINPROGRESS) d;
       (accepted, val, d) \<leftarrow>
         (if val > 0 then do { (val, d) \<leftarrow> call_setup env setup d; Some (val \<ge> 0, val, d) }
          else Some (False, val, d));
       if accepted then data_stage env w k 0 (64 * 1024) budget st d
       else if val < 0 then do {
         d \<leftarrow> stall_urb w k d;
         d \<leftarrow> return_urb env w k (Some 0) (- EPIPE) d;
         Some (Restart, budget, d)
       }
       else do { d \<leftarrow> return_urb env w k (Some 0) st d; Some (Restart, budget, d) }
     }"

definition control_stage ::
  "env \<Rightarrow> hcd_sel \<Rightarrow> nat \<Rightarrow> int \<Rightarrow> dummy_t \<Rightarrow> (visit \<times> int \<times> dummy_t) option" where
  "control_stage env w k budget d =
     do {
       p \<leftarrow> get_urbp w k d;
       let setup = setup_packet (urbp_urb p);
       case queue (ep d ! 0) of
         r # rest \<Rightarrow>
           let d = upd_ep 0 (\<lambda>e. e\<lparr>queue := rest\<rparr>) d;
               d = giveback env 0 r (upd_req r (\<lambda>q. q\<lparr>rq_status := - EOVERFLOW\<rparr>) d)
           in Some (Restart, budget, upd_ep 0 (\<lambda>e. e\<lparr>already_seen := False\<rparr>) d)
       | [] \<Rightarrow>
           answer_setup env w k setup budget
             (upd_ep 0 (\<lambda>e. e\<lparr>last_io := jiffies d, setup_stage := False, halted := False\<rparr>) d)
     }"

definition urb_address :: "urb \<Rightarrow> u8" where
  "urb_address u =
     (let a = of_nat (usb_pipeendpoint (urb_pipe u))
      in if usb_urb_dir_in u then a OR USB_DIR_IN else a)"

text \<open>A setup stage begins on endpoint 0 when the transfer there is a new one.\<close>

definition mark_seen :: "hcd_sel \<Rightarrow> urbp \<Rightarrow> nat \<Rightarrow> dummy_t \<Rightarrow> dummy_t" where
  "mark_seen w p i d =
     (let d = upd_ep i (\<lambda>e. e\<lparr>already_seen := True\<rparr>) d in
      if i = 0 \<and> error_count (urbp_urb p) \<noteq> 0
      then put_urbp w (p\<lparr>urbp_urb := (urbp_urb p)\<lparr>error_count := 0\<rparr>\<rparr>)
             (upd_ep i (\<lambda>e. e\<lparr>setup_stage := True\<rparr>) d)
      else d)"

definition timer_visit ::
  "env \<Rightarrow> hcd_sel \<Rightarrow> nat \<Rightarrow> int \<Rightarrow> dummy_t \<Rightarrow> (visit \<times> int \<times> dummy_t) option" where
  "timer_visit env w k budget d =
     do {
       h \<leftarrow> hcd_of w d;
       p \<leftarrow> get_urbp w k d;
       let u = urbp_urb p;
       if unlinked u \<noteq> 0
       then do { d \<leftarrow> return_urb env w k None (- EINPROGRESS) d; Some (Restart, budget, d) }
       else if rh_state h \<noteq> DUMMY_RH_RUNNING then Some (Next, budget, d)
       else if budget \<le> 0 then Some (Next, budget, d)
       else do {
         e \<leftarrow> find_endpoint (urb_address u) d;
         case e of
           None \<Rightarrow> do { d \<leftarrow> return_urb env w k None (- EPROTO) d; Some (Restart, budget, d) }
         | Some i \<Rightarrow>
             if already_seen (ep d ! i) then Some (Next, budget, d)
             else let d = mark_seen w p i d in
               if halted (ep d ! i) \<and> \<not> setup_stage (ep d ! i)
               then do { d \<leftarrow> return_urb env w k (Some i) (- EPIPE) d; Some (Restart, budget, d) }
               else if i = 0 \<and> setup_stage (ep d ! i) then control_stage env w k budget d
               else do {
                 limit \<leftarrow> (if usb_pipetype (urb_pipe u) \<in> {PIPE_ISOCHRONOUS, PIPE_INTERRUPT}
                           then map_option (max budget) (periodic_bytes i d) else Some budget);
                 data_stage env w k i limit budget (- EINPROGRESS) d
               }
       }
     }"

section \<open>The loop\<close>

text \<open>
  The safe iteration remembers the entry after the current one before the body runs; \<open>None\<close> in
  place of an entry is the end of the list.
\<close>

fun urbp_after :: "nat \<Rightarrow> urbp list \<Rightarrow> nat option option" where
  "urbp_after k [] = None"
| "urbp_after k (p # ps) =
     (if urbp_id p = k then Some (case ps of [] \<Rightarrow> None | q # _ \<Rightarrow> Some (urbp_id q))
      else urbp_after k ps)"

definition first_urbp :: "dummy_hcd \<Rightarrow> nat option" where
  "first_urbp h = (case urbp_list h of [] \<Rightarrow> None | p # _ \<Rightarrow> Some (urbp_id p))"

partial_function (option) timer_scan ::
  "env \<Rightarrow> hcd_sel \<Rightarrow> nat option \<Rightarrow> int \<Rightarrow> dummy_t \<Rightarrow> dummy_t option" where
  "timer_scan env w cur budget d =
     (case cur of
        None \<Rightarrow> Some d
      | Some k \<Rightarrow> do {
          h \<leftarrow> hcd_of w d;
          nxt \<leftarrow> urbp_after k (urbp_list h);
          if next_frame_urbp h = Some k then Some d
          else do {
            (v, budget, d) \<leftarrow> timer_visit env w k budget d;
            if v = Next then timer_scan env w nxt budget d
            else do { h \<leftarrow> hcd_of w d; timer_scan env w (first_urbp h) budget d }
          }
        })"

text \<open>The frame's begin and end around the loop. When the timer fires it is not pending.\<close>

definition timer_end :: "hcd_sel \<Rightarrow> dummy_t \<Rightarrow> dummy_t option" where
  "timer_end w d =
     do {
       h \<leftarrow> hcd_of w d;
       Some (if urbp_list h = [] then set_hcd w (h\<lparr>udev := None\<rparr>) d
             else if rh_state h = DUMMY_RH_RUNNING
             then set_hcd w (h\<lparr>timer := Some (jiffies d + msecs_to_jiffies 1)\<rparr>) d
             else d)
     }"

definition timer_begin :: "hcd_sel \<Rightarrow> dummy_t \<Rightarrow> dummy_t" where
  "timer_begin w d =
     (let d = upd_hcd w (\<lambda>h. h\<lparr>next_frame_urbp := None\<rparr>) d
      in d\<lparr>ep := map (\<lambda>e. e\<lparr>already_seen := False\<rparr>) (ep d)\<rparr>)"

definition dummy_timer :: "env \<Rightarrow> hcd_sel \<Rightarrow> dummy_t \<Rightarrow> dummy_t option" where
  "dummy_timer env w d =
     do {
       let budget = frame_bandwidth (speed (gadget d));
       h \<leftarrow> hcd_of w d;
       let h = h\<lparr>timer := None\<rparr>;
       let d = set_hcd w h d;
       if udev h = None then Some d
       else do {
         d \<leftarrow> timer_scan env w (first_urbp h) budget (timer_begin w d);
         timer_end w d
       }
     }"

lemma find_endpoint_bound: "find_endpoint a d = Some (Some i) \<Longrightarrow> i < DUMMY_ENDPOINTS"
  by (auto simp: find_endpoint_def bind_eq_Some_conv find_Some_iff DUMMY_ENDPOINTS_eq split: if_splits)

lemma find_endpoint_active:
  "find_endpoint a d = Some (Some i) \<Longrightarrow> ints_enabled d
     \<and> (i \<noteq> 0 \<longrightarrow> (\<exists>ds. desc (ep d ! i) = Some ds \<and> bEndpointAddress ds = a))"
  by (auto simp: find_endpoint_def bind_eq_Some_conv find_Some_iff has_address_def
      split: if_splits option.splits)

section \<open>The scheduler keeps the controller well formed\<close>

lemma steady_giveback_urb: "env_ok env \<Longrightarrow> steady a d \<Longrightarrow> steady a (giveback_urb env w u st d)"
  using steady_trans env_okD(7) by blast

lemma return_urb_steady:
  assumes "env_ok env" and "return_urb env w k e st d = Some d'"
  shows "steady d d'"
proof -
  have upd: "steady d (upd_ep i (\<lambda>e. e\<lparr>already_seen := a, setup_stage := b\<rparr>) (upd_hcd w f d))" for i a b f
    using steady_upd_ep [of "\<lambda>e. e\<lparr>already_seen := a, setup_stage := b\<rparr>" "upd_hcd w f d" i] by simp
  obtain p where p: "get_urbp w k d = Some p"
    using assms(2) by (auto simp: return_urb_def bind_eq_Some_conv)
  then have "d' = giveback_urb env w (urbp_urb p) st
      (log_event (Giveback_Urb w k st (actual_length (urbp_urb p)))
        (case e of None \<Rightarrow> upd_hcd w (\<lambda>h. h\<lparr>urbp_list := filter (\<lambda>q. urbp_id q \<noteq> k) (urbp_list h)\<rparr>) d
         | Some i \<Rightarrow> upd_ep i (\<lambda>e. e\<lparr>already_seen := False, setup_stage := False\<rparr>)
             (upd_hcd w (\<lambda>h. h\<lparr>urbp_list := filter (\<lambda>q. urbp_id q \<noteq> k) (urbp_list h)\<rparr>) d)))"
    using assms(2) by (simp add: return_urb_def Let_def)
  then show ?thesis
    using upd by (cases e) (simp_all add: steady_giveback_urb [OF assms(1)])
qed

lemma data_stage_wf:
  assumes "env_ok env" and "i < DUMMY_ENDPOINTS" and "wf_dummy d"
    and "data_stage env w k i limit budget st d = Some (v, budget', d')"
  shows "wf_dummy d'"
proof -
  let ?d = "upd_ep i (\<lambda>e. e\<lparr>last_io := jiffies d\<rparr>) d"
  obtain sent st1 d1 where t: "transfer env w k i limit st ?d = Some (sent, st1, d1)"
    using assms(4) by (auto simp: data_stage_def bind_eq_Some_conv)
  then have d': "d' = d1 \<or> return_urb env w k (Some i) st1 d1 = Some d'"
    using assms(4) by (auto simp: data_stage_def Let_def bind_eq_Some_conv split: if_splits)
  have "wf_dummy d1" by (rule transfer_wf [OF assms(1,2) _ t]) (simp add: wf_upd_ep_fields assms(3))
  with d' return_urb_steady [OF assms(1)] show ?thesis by (blast intro: wf_steady)
qed

lemma drv_setup_wf: "env_ok env \<Longrightarrow> wf_dummy d \<Longrightarrow> drv_setup env c d = (v, d') \<Longrightarrow> wf_dummy d'"
  using wf_steady env_okD(6) by (metis snd_conv)

lemma call_setup_wf:
  assumes "env_ok env" and "wf_dummy d" and "call_setup env c d = Some (v, d')"
  shows "wf_dummy d'"
proof -
  let ?d = "log_event (Setup c) (d\<lparr>callback_usage := callback_usage d + 1\<rparr>)"
  obtain d1 where d1: "drv_setup env c ?d = (v, d1)"
    and d': "d' = d1\<lparr>callback_usage := callback_usage d1 - 1\<rparr>"
    using assms(3) by (auto simp: call_setup_def Let_def split: option.splits prod.splits)
  have "wf_dummy d1" by (rule drv_setup_wf [OF assms(1) _ d1]) (simp add: assms(2))
  then show ?thesis by (simp add: d')
qed

lemma answer_setup_wf:
  assumes env: "env_ok env" and wf: "wf_dummy d"
    and ret: "answer_setup env w k setup budget d = Some (v, budget', d')"
  shows "wf_dummy d'"
proof -
  obtain v1 st1 d1 where h: "handle_control_request w k setup (- EINPROGRESS) d = Some (v1, st1, d1)"
    using ret by (auto simp: answer_setup_def Let_def bind_eq_Some_conv)
  have d1: "wf_dummy d1" using handle_control_request_wf(1) [OF wf h] .
  obtain acc v2 d2 where d2: "(if v1 > 0 then do { (val, d) \<leftarrow> call_setup env setup d1; Some (val \<ge> 0, val, d) }
          else Some (False, v1, d1)) = Some (acc, v2, d2)"
    using ret h by (auto simp: answer_setup_def Let_def bind_eq_Some_conv)
  have wf2: "wf_dummy d2"
    using d1 d2 call_setup_wf [OF env d1]
    by (auto simp: bind_eq_Some_conv split: if_splits)
  have wf_return: "wf_dummy d4"
    if "return_urb env w k (Some 0) s d3 = Some d4" "wf_dummy d3" for s d3 d4
    using wf_steady [OF return_urb_steady [OF env that(1)] that(2)] .
  have "(acc \<and> data_stage env w k 0 (64 * 1024) budget st1 d2 = Some (v, budget', d'))
      \<or> (\<exists>d3. stall_urb w k d2 = Some d3 \<and> return_urb env w k (Some 0) (- EPIPE) d3 = Some d')
      \<or> return_urb env w k (Some 0) st1 d2 = Some d'"
    using ret h d2 by (auto simp: answer_setup_def Let_def bind_eq_Some_conv split: if_splits)
  moreover have "wf_dummy d3" if "stall_urb w k d2 = Some d3" for d3
    using that wf2 by (auto simp: stall_urb_def bind_eq_Some_conv)
  moreover have "0 < DUMMY_ENDPOINTS" by (simp add: DUMMY_ENDPOINTS_eq)
  ultimately show ?thesis
    using wf_return wf2 data_stage_wf [OF env _ wf2] by blast
qed

lemma control_stage_wf:
  assumes env: "env_ok env" and wf: "wf_dummy d"
    and "control_stage env w k budget d = Some (v, budget', d')"
  shows "wf_dummy d'"
proof (cases "queue (ep d ! 0)")
  case (Cons r rest)
  let ?d = "upd_ep 0 (\<lambda>e. e\<lparr>queue := rest\<rparr>) d"
  have d': "d' = upd_ep 0 (\<lambda>e. e\<lparr>already_seen := False\<rparr>)
      (giveback env 0 r (upd_req r (\<lambda>q. q\<lparr>rq_status := - EOVERFLOW\<rparr>) ?d))"
    using assms(3) Cons by (auto simp: control_stage_def Let_def bind_eq_Some_conv)
  have "steady d (upd_req r (\<lambda>q. q\<lparr>rq_status := - EOVERFLOW\<rparr>) ?d)"
    by (rule steady_dequeue [where xs = "[]" and ys = rest]) (simp_all add: Cons DUMMY_ENDPOINTS_eq)
  from wf_steady [OF steady_giveback [OF env this] wf] show ?thesis
    unfolding d' by (rule wf_upd_ep_fields) simp
next
  case Nil
  let ?d = "upd_ep 0 (\<lambda>e. e\<lparr>last_io := jiffies d, setup_stage := False, halted := False\<rparr>) d"
  obtain p where "get_urbp w k d = Some p"
    using assms(3) by (auto simp: control_stage_def bind_eq_Some_conv)
  then have "answer_setup env w k (setup_packet (urbp_urb p)) budget ?d = Some (v, budget', d')"
    using assms(3) Nil by (simp add: control_stage_def Let_def)
  moreover have "wf_dummy ?d" by (simp add: wf_upd_ep_fields wf)
  ultimately show ?thesis using answer_setup_wf [OF env] by blast
qed

lemma mark_seen_wf: "wf_dummy d \<Longrightarrow> wf_dummy (mark_seen w p i d)"
  by (simp add: mark_seen_def wf_upd_ep_fields Let_def)

lemma timer_visit_wf:
  assumes env: "env_ok env" and wf: "wf_dummy d"
    and ret: "timer_visit env w k budget d = Some (v, budget', d')"
  shows "wf_dummy d'"
proof -
  have ret_wf: "wf_dummy d2" if "return_urb env w k e st d1 = Some d2" "wf_dummy d1" for e st d1 d2
    using wf_steady [OF return_urb_steady [OF env that(1)] that(2)] .
  obtain h p where h: "hcd_of w d = Some h" and p: "get_urbp w k d = Some p"
    using ret by (auto simp: timer_visit_def bind_eq_Some_conv)
  note unf = ret [unfolded timer_visit_def, simplified h p, simplified]
  show ?thesis
  proof (cases "unlinked (urbp_urb p) \<noteq> 0 \<or> rh_state h \<noteq> DUMMY_RH_RUNNING \<or> budget \<le> 0")
    case True
    with unf wf ret_wf show ?thesis
      by (auto simp: Let_def bind_eq_Some_conv split: if_splits)
  next
    case False
    then obtain e where e: "find_endpoint (urb_address (urbp_urb p)) d = Some e"
      using unf by (auto simp: Let_def bind_eq_Some_conv)
    show ?thesis
    proof (cases e)
      case None
      with False e unf wf ret_wf show ?thesis by (auto simp: Let_def bind_eq_Some_conv)
    next
      case (Some i)
      let ?d = "mark_seen w p i d"
      have m: "wf_dummy ?d" by (rule mark_seen_wf [OF wf])
      have i: "i < DUMMY_ENDPOINTS" using find_endpoint_bound e Some by simp
      show ?thesis
      proof (cases "already_seen (ep d ! i) \<or> halted (ep ?d ! i) \<and> \<not> setup_stage (ep ?d ! i)
          \<or> i = 0 \<and> setup_stage (ep ?d ! i)")
        case True
        with False Some e unf wf m ret_wf control_stage_wf [OF env m] show ?thesis
          by (auto simp: Let_def bind_eq_Some_conv split: if_splits)
      next
        case data: False
        then obtain limit where "data_stage env w k i limit budget (- EINPROGRESS) ?d = Some (v, budget', d')"
          using False Some e unf by (auto simp: Let_def bind_eq_Some_conv)
        then show ?thesis by (rule data_stage_wf [OF env i m])
      qed
    qed
  qed
qed

lemma timer_scan_wf:
  assumes "env_ok env" and "wf_dummy d" and "timer_scan env w cur budget d = Some d'"
  shows "wf_dummy d'"
proof -
  have "env0 = env \<longrightarrow> wf_dummy d \<longrightarrow> wf_dummy d'"
    if "timer_scan env0 w cur budget d = Some d'" for env0
  proof (rule timer_scan.raw_induct [where P = "\<lambda>env0 w cur budget d d'.
      env0 = env \<longrightarrow> wf_dummy d \<longrightarrow> wf_dummy d'", OF _ that])
    fix scan env0 w cur budget d d'
    assume IH: "\<And>env0 w cur budget d d'. scan env0 w cur budget d = Some d' \<Longrightarrow>
        env0 = env \<longrightarrow> wf_dummy d \<longrightarrow> wf_dummy d'"
      and eq: "(case cur of None \<Rightarrow> Some d
        | Some k \<Rightarrow> hcd_of w d \<bind> (\<lambda>h. urbp_after k (urbp_list h) \<bind>
            (\<lambda>nxt. if next_frame_urbp h = Some k then Some d
              else timer_visit env0 w k budget d \<bind>
                (\<lambda>(v, budget, d). if v = Next then scan env0 w nxt budget d
                   else hcd_of w d \<bind> (\<lambda>h. scan env0 w (first_urbp h) budget d))))) = Some d'"
    show "env0 = env \<longrightarrow> wf_dummy d \<longrightarrow> wf_dummy d'"
      using eq
      by (auto simp: bind_eq_Some_conv split: option.splits if_splits
          dest!: IH dest: timer_visit_wf [OF assms(1), rotated])
  qed
  with assms(2,3) show ?thesis by blast
qed

lemma timer_begin_wf [simp]: "wf_dummy (timer_begin w d) = wf_dummy d"
proof -
  have "map queue (map (\<lambda>e. e\<lparr>already_seen := b\<rparr>) es) = map queue es" for b es by simp
  then show ?thesis
    by (simp add: timer_begin_def wf_dummy_def wf_queues_def queued_iff o_def upd_hcd_def
        split: option.split)
qed

lemma dummy_timer_wf:
  assumes "env_ok env" and "wf_dummy d" and "dummy_timer env w d = Some d'"
  shows "wf_dummy d'"
  using assms(2,3)
  by (auto simp: dummy_timer_def timer_end_def Let_def bind_eq_Some_conv split: if_splits
      dest!: timer_scan_wf [OF assms(1), rotated])

end
