(* ===== verification/Dummy_Hub.thy ===== *)
theory Dummy_Hub
  imports Dummy_Timer
begin

text \<open>
  The root hubs (dummy\_hcd.c, lines 1985 to 2359): the change report the core polls, the hub
  class requests, and suspending and resuming the bus.
\<close>

section \<open>Status changes\<close>

text \<open>Connection, enable, suspend, over-current and reset change, in the upper half.\<close>

definition PORT_C_MASK :: u32 where
  "PORT_C_MASK = push_bit 16 (0x0001 OR 0x0002 OR 0x0004 OR 0x0008 OR 0x0010)"

definition resume_timed_out :: "dummy_t \<Rightarrow> dummy_hcd \<Rightarrow> bool" where
  "resume_timed_out d h \<longleftrightarrow> resuming h \<and> time_after_eq (jiffies d) (re_timeout h)"

definition resume_signalled :: "dummy_hcd \<Rightarrow> dummy_hcd" where
  "resume_signalled h =
     h\<lparr>port_status := (port_status h OR PORT_C_SUSPEND) AND NOT USB_PORT_STAT_SUSPEND\<rparr>"

definition dummy_hub_status ::
  "env \<Rightarrow> hcd_sel \<Rightarrow> u8 list \<Rightarrow> dummy_t \<Rightarrow> (int \<times> u8 list \<times> dummy_t) option" where
  "dummy_hub_status env w buf d =
     do {
       h \<leftarrow> hcd_of w d;
       if \<not> hw_accessible h then Some (0, buf, d)
       else do {
         d \<leftarrow> (if resume_timed_out d h
               then set_link_state env w (set_hcd w (resume_signalled h) d) else Some d);
         h \<leftarrow> hcd_of w d;
         if port_status h AND PORT_C_MASK \<noteq> 0 then do {
           buf \<leftarrow> store_byte 0 (push_bit 1 1) buf;
           Some (1, buf, if rh_state h = DUMMY_RH_SUSPENDED
                         then resume_root_hub env w (log_event (Resume_Root_Hub w) d) else d)
         }
         else Some (0, buf, d)
       }
     }"

section \<open>Hub class requests\<close>

text \<open>
  The descriptors as bytes: multi-byte fields are little endian, and the structure for both
  kinds of hub is 15 bytes long, cleared before it is filled.
\<close>

definition usb3_bos_desc :: "u8 list" where
  "usb3_bos_desc =
     [5, USB_DT_BOS, 15, 0, 1] @
     [10, USB_DT_DEVICE_CAPABILITY, 3, 0, 8, 0, 3, 0, 0, 0]"

definition ss_hub_descriptor :: "u8 list" where
  "ss_hub_descriptor = [12, USB_DT_SS_HUB, 1, 1, 0, 0, 0, 0x04, 0, 0, 0, 0, 0, 0, 0]"

definition hub_descriptor :: "u8 list" where
  "hub_descriptor = [9, USB_DT_HUB, 1, 1, 0, 0, 0, 0, 0xff, 0, 0, 0, 0, 0, 0]"

definition store_bytes :: "u8 list \<Rightarrow> u8 list \<Rightarrow> u8 list option" where
  "store_bytes bs buf = memcpy buf 0 bs 0 (length bs)"

text \<open>\<open>1 << n\<close> on 32 bits; a shift by 32 or more is undefined.\<close>

definition bit_shift :: "u16 \<Rightarrow> u32 option" where
  "bit_shift n = (if unat n < 32 then Some (push_bit (unat n) 1) else None)"

definition clear_port_feature :: "env \<Rightarrow> hcd_sel \<Rightarrow> u16 \<Rightarrow> dummy_t \<Rightarrow> (int \<times> dummy_t) option" where
  "clear_port_feature env w wVal d =
     do {
       h \<leftarrow> hcd_of w d;
       if wVal = USB_PORT_FEAT_SUSPEND then
         if speed_of_hcd h = HCD_USB3 then Some (- EPIPE, d)
         else Some (0, if port_status h AND USB_PORT_STAT_SUSPEND \<noteq> 0
                then set_hcd w (h\<lparr>resuming := True,
                       re_timeout := jiffies d + msecs_to_jiffies 20\<rparr>) d
                else d)
       else if wVal = USB_PORT_FEAT_POWER then do {
         let h = (if speed_of_hcd h = HCD_USB3
                  then h\<lparr>port_status := port_status h AND NOT USB_SS_PORT_STAT_POWER\<rparr>
                  else h\<lparr>port_status := port_status h AND NOT USB_PORT_STAT_POWER\<rparr>);
         d \<leftarrow> set_link_state env w (set_hcd w h d);
         Some (0, d)
       }
       else do {
         b \<leftarrow> bit_shift wVal;
         d \<leftarrow> set_link_state env w (set_hcd w (h\<lparr>port_status := port_status h AND NOT b\<rparr>) d);
         Some (0, d)
       }
     }"

text \<open>The end of a reset enables the port, and tells its speed on the USB 2.0 hub.\<close>

definition finish_reset :: "hcd_sel \<Rightarrow> dummy_hcd \<Rightarrow> dummy_t \<Rightarrow> dummy_t" where
  "finish_reset w h d =
     (let h = h\<lparr>port_status := (port_status h OR PORT_C_RESET) AND NOT USB_PORT_STAT_RESET\<rparr> in
      if \<not> pullup d then set_hcd w h d
      else
        (let h = h\<lparr>port_status := port_status h OR USB_PORT_STAT_ENABLE\<rparr> in
         if speed_of_hcd h < HCD_USB3 then
           (case speed (gadget d) of
              USB_SPEED_HIGH \<Rightarrow>
                set_hcd w (h\<lparr>port_status := port_status h OR USB_PORT_STAT_HIGH_SPEED\<rparr>) d
            | USB_SPEED_LOW \<Rightarrow>
                set_hcd w (h\<lparr>port_status := port_status h OR USB_PORT_STAT_LOW_SPEED\<rparr>)
                  (upd_ep 0 (\<lambda>e. e\<lparr>maxpacket := 8\<rparr>) d)
            | _ \<Rightarrow> set_hcd w h d)
         else set_hcd w h d))"

definition le16_bytes :: "u32 \<Rightarrow> u8 list" where
  "le16_bytes x = [ucast x, ucast (drop_bit 8 x)]"

definition get_port_status ::
  "env \<Rightarrow> hcd_sel \<Rightarrow> u16 \<Rightarrow> u8 list \<Rightarrow> dummy_t \<Rightarrow> (int \<times> u8 list \<times> dummy_t) option" where
  "get_port_status env w wInd buf d =
     do {
       h \<leftarrow> hcd_of w d;
       let h = (if resume_timed_out d h then resume_signalled h else h);
       let d = (if port_status h AND USB_PORT_STAT_RESET \<noteq> 0
                   \<and> time_after_eq (jiffies d) (re_timeout h)
                then finish_reset w h d else set_hcd w h d);
       d \<leftarrow> set_link_state env w d;
       h \<leftarrow> hcd_of w d;
       buf \<leftarrow> store_bytes (le16_bytes (port_status h) @ le16_bytes (drop_bit 16 (port_status h)))
                buf;
       Some (if wInd \<noteq> 1 then - EPIPE else 0, buf, d)
     }"

text \<open>The default branch, which a reset falls through to, sets the bit on a powered port.\<close>

definition set_port_bit :: "env \<Rightarrow> hcd_sel \<Rightarrow> u16 \<Rightarrow> dummy_t \<Rightarrow> (int \<times> dummy_t) option" where
  "set_port_bit env w wVal d =
     do {
       h \<leftarrow> hcd_of w d;
       h \<leftarrow> (if port_status h AND power_bit h \<noteq> 0
             then do { b \<leftarrow> bit_shift wVal; Some (h\<lparr>port_status := port_status h OR b\<rparr>) }
             else Some h);
       d \<leftarrow> set_link_state env w (set_hcd w h d);
       Some (0, d)
     }"

definition start_reset :: "hcd_sel \<Rightarrow> dummy_hcd \<Rightarrow> dummy_t \<Rightarrow> dummy_t" where
  "start_reset w h d =
     (let h = (if speed_of_hcd h = HCD_USB3
               then h\<lparr>port_status :=
                      USB_SS_PORT_STAT_POWER OR USB_PORT_STAT_CONNECTION OR USB_PORT_STAT_RESET\<rparr>
               else h\<lparr>port_status := port_status h AND
                      NOT (USB_PORT_STAT_ENABLE OR USB_PORT_STAT_LOW_SPEED
                           OR USB_PORT_STAT_HIGH_SPEED)\<rparr>);
          d = d\<lparr>devstatus := devstatus d AND push_bit USB_DEVICE_SELF_POWERED 1\<rparr>
      in set_hcd w (h\<lparr>re_timeout := jiffies d + msecs_to_jiffies 50\<rparr>) d)"

definition set_port_feature :: "env \<Rightarrow> hcd_sel \<Rightarrow> u16 \<Rightarrow> dummy_t \<Rightarrow> (int \<times> dummy_t) option" where
  "set_port_feature env w wVal d =
     do {
       h \<leftarrow> hcd_of w d;
       let usb3 = (speed_of_hcd h = HCD_USB3);
       if wVal = USB_PORT_FEAT_LINK_STATE then Some (if \<not> usb3 then (- EPIPE, d) else (0, d))
       else if wVal = USB_PORT_FEAT_U1_TIMEOUT \<or> wVal = USB_PORT_FEAT_U2_TIMEOUT
       then Some (if \<not> usb3 then (- EPIPE, d) else (0, d))
       else if wVal = USB_PORT_FEAT_SUSPEND then
         if usb3 then Some (- EPIPE, d)
         else if active h then do {
           d \<leftarrow> set_link_state env w
                 (set_hcd w (h\<lparr>port_status := port_status h OR USB_PORT_STAT_SUSPEND\<rparr>) d);
           Some (0, d)
         }
         else Some (0, d)
       else if wVal = USB_PORT_FEAT_POWER then do {
         d \<leftarrow> set_link_state env w
               (set_hcd w (h\<lparr>port_status := port_status h OR
                  (if usb3 then USB_SS_PORT_STAT_POWER else USB_PORT_STAT_POWER)\<rparr>) d);
         Some (0, d)
       }
       else if wVal = USB_PORT_FEAT_BH_PORT_RESET then
         if \<not> usb3 then Some (- EPIPE, d) else set_port_bit env w wVal (start_reset w h d)
       else if wVal = USB_PORT_FEAT_RESET then set_port_bit env w wVal (start_reset w h d)
       else set_port_bit env w wVal d
     }"

definition hub_request ::
  "env \<Rightarrow> hcd_sel \<Rightarrow> u16 \<Rightarrow> u16 \<Rightarrow> u16 \<Rightarrow> u8 list \<Rightarrow> u16 \<Rightarrow> dummy_t
     \<Rightarrow> (int \<times> u8 list \<times> dummy_t) option" where
  "hub_request env w typeReq wVal wInd buf wLen d =
     do {
       h \<leftarrow> hcd_of w d;
       let usb3 = (speed_of_hcd h = HCD_USB3);
       if typeReq = ClearHubFeature then Some (0, buf, d)
       else if typeReq = ClearPortFeature
       then do { (rc, d) \<leftarrow> clear_port_feature env w wVal d; Some (rc, buf, d) }
       else if typeReq = GetHubDescriptor then
         if usb3 \<and> (wLen < 12 \<or> wVal \<noteq> push_bit 8 (ucast USB_DT_SS_HUB)) then Some (- EPIPE, buf, d)
         else do {
           buf \<leftarrow> store_bytes (if usb3 then ss_hub_descriptor else hub_descriptor) buf;
           Some (0, buf, d)
         }
       else if typeReq = DeviceRequest_GetDescriptor then
         if \<not> usb3 then Some (- EPIPE, buf, d)
         else if drop_bit 8 wVal \<noteq> ucast USB_DT_BOS then Some (- EPIPE, buf, d)
         else do {
           buf \<leftarrow> store_bytes usb3_bos_desc buf;
           Some (int (length usb3_bos_desc), buf, d)
         }
       else if typeReq = GetHubStatus
       then do { buf \<leftarrow> store_bytes [0, 0, 0, 0] buf; Some (0, buf, d) }
       else if typeReq = GetPortStatus then get_port_status env w wInd buf d
       else if typeReq = SetHubFeature then Some (- EPIPE, buf, d)
       else if typeReq = SetPortFeature
       then do { (rc, d) \<leftarrow> set_port_feature env w wVal d; Some (rc, buf, d) }
       else if typeReq = GetPortErrorCount then
         if \<not> usb3 then Some (- EPIPE, buf, d)
         else do { buf \<leftarrow> store_bytes [0, 0, 0, 0] buf; Some (0, buf, d) }
       else if typeReq = SetHubDepth then Some (if \<not> usb3 then - EPIPE else 0, buf, d)
       else Some (- EPIPE, buf, d)
     }"

definition dummy_hub_control ::
  "env \<Rightarrow> hcd_sel \<Rightarrow> u16 \<Rightarrow> u16 \<Rightarrow> u16 \<Rightarrow> u8 list \<Rightarrow> u16 \<Rightarrow> dummy_t
     \<Rightarrow> (int \<times> u8 list \<times> dummy_t) option" where
  "dummy_hub_control env w typeReq wVal wInd buf wLen d =
     do {
       h \<leftarrow> hcd_of w d;
       if \<not> hw_accessible h then Some (- ETIMEDOUT, buf, d)
       else do {
         (rc, buf, d) \<leftarrow> hub_request env w typeReq wVal wInd buf wLen d;
         h \<leftarrow> hcd_of w d;
         Some (rc, buf, if port_status h AND PORT_C_MASK \<noteq> 0 then poll_root_hub env w d else d)
       }
     }"

section \<open>Suspending and resuming the bus\<close>

definition dummy_bus_suspend :: "env \<Rightarrow> hcd_sel \<Rightarrow> dummy_t \<Rightarrow> (int \<times> dummy_t) option" where
  "dummy_bus_suspend env w d =
     do {
       h \<leftarrow> hcd_of w d;
       d \<leftarrow> set_link_state env w (set_hcd w (h\<lparr>rh_state := DUMMY_RH_SUSPENDED\<rparr>) d);
       h \<leftarrow> hcd_of w d;
       Some (0, set_hcd w (h\<lparr>hc_state := HC_STATE_SUSPENDED\<rparr>) d)
     }"

definition dummy_bus_resume :: "env \<Rightarrow> hcd_sel \<Rightarrow> dummy_t \<Rightarrow> (int \<times> dummy_t) option" where
  "dummy_bus_resume env w d =
     do {
       h \<leftarrow> hcd_of w d;
       if \<not> hw_accessible h then Some (- ESHUTDOWN, d)
       else do {
         d \<leftarrow> set_link_state env w (set_hcd w (h\<lparr>rh_state := DUMMY_RH_RUNNING\<rparr>) d);
         h \<leftarrow> hcd_of w d;
         let h = (if urbp_list h \<noteq> [] then h\<lparr>timer := Some (jiffies d)\<rparr> else h);
         Some (0, set_hcd w (h\<lparr>hc_state := HC_STATE_RUNNING\<rparr>) d)
       }
     }"

section \<open>The hubs keep the controller well formed\<close>

lemma dummy_hub_status_wf:
  assumes "env_ok env" and "wf_dummy d" and "dummy_hub_status env w buf d = Some (rc, buf', d')"
  shows "wf_dummy d'"
proof -
  have resume: "wf_dummy (resume_root_hub env w x)" if "wf_dummy x" for x
    using wf_steady [OF env_okD(9) [OF assms(1)] that] .
  have link: "wf_dummy x" if "set_link_state env w (set_hcd w h d) = Some x" for x h
    by (rule set_link_state_wf [OF assms(1) _ that]) (simp add: assms(2))
  show ?thesis using assms(2,3)
    by (auto simp: dummy_hub_status_def Let_def bind_eq_Some_conv split: if_splits
        intro!: resume dest: link)
qed

lemma set_hub_link_wf:
  assumes "env_ok env" and "wf_dummy d" and "set_link_state env w (set_hcd w h d) = Some d'"
  shows "wf_dummy d'"
  by (rule set_link_state_wf [OF assms(1) _ assms(3)]) (simp add: assms(2))

lemma clear_port_feature_wf:
  "env_ok env \<Longrightarrow> wf_dummy d \<Longrightarrow> clear_port_feature env w v d = Some (rc, d') \<Longrightarrow> wf_dummy d'"
  by (auto simp: clear_port_feature_def Let_def bind_eq_Some_conv split: if_splits
      dest: set_hub_link_wf)

lemma finish_reset_wf: "wf_dummy d \<Longrightarrow> wf_dummy (finish_reset w h d)"
  by (auto simp: finish_reset_def Let_def wf_upd_ep_fields split: usb_device_speed.splits)

lemma get_port_status_wf:
  assumes "env_ok env" and "wf_dummy d" and "get_port_status env w v buf d = Some (rc, buf', d')"
  shows "wf_dummy d'"
proof -
  obtain h where h: "hcd_of w d = Some h" using assms(3)
    by (auto simp: get_port_status_def bind_eq_Some_conv)
  let ?h = "if resume_timed_out d h then resume_signalled h else h"
  let ?d = "if port_status ?h AND USB_PORT_STAT_RESET \<noteq> 0
                   \<and> time_after_eq (jiffies d) (re_timeout ?h)
                then finish_reset w ?h d else set_hcd w ?h d"
  have "set_link_state env w ?d = Some d'"
    using assms(3) h by (auto simp: get_port_status_def Let_def bind_eq_Some_conv)
  moreover have "wf_dummy ?d" using assms(2) finish_reset_wf by simp
  ultimately show ?thesis using set_link_state_wf [OF assms(1)] by blast
qed

lemma set_port_bit_wf:
  "env_ok env \<Longrightarrow> wf_dummy d \<Longrightarrow> set_port_bit env w v d = Some (rc, d') \<Longrightarrow> wf_dummy d'"
  by (auto simp: set_port_bit_def Let_def bind_eq_Some_conv split: if_splits
      dest: set_hub_link_wf)

lemma start_reset_wf [simp]: "wf_dummy (start_reset w h d) = wf_dummy d"
  by (simp add: start_reset_def Let_def)

lemma set_port_feature_wf:
  "env_ok env \<Longrightarrow> wf_dummy d \<Longrightarrow> set_port_feature env w v d = Some (rc, d') \<Longrightarrow> wf_dummy d'"
  by (auto simp: set_port_feature_def Let_def bind_eq_Some_conv split: if_splits
      dest: set_hub_link_wf set_port_bit_wf [rotated 2])

lemma hub_request_wf:
  assumes "env_ok env" and "wf_dummy d"
    and "hub_request env w t v i buf n d = Some (rc, buf', d')"
  shows "wf_dummy d'"
  using assms(2,3)
  by (auto simp: hub_request_def Let_def bind_eq_Some_conv split: if_splits
      dest: clear_port_feature_wf [OF assms(1,2)] set_port_feature_wf [OF assms(1,2)]
        get_port_status_wf [OF assms(1,2)])

lemma dummy_hub_control_wf:
  assumes "env_ok env" and "wf_dummy d"
    and "dummy_hub_control env w t v i buf n d = Some (rc, buf', d')"
  shows "wf_dummy d'"
  using assms(2,3) poll_root_hub_wf [OF assms(1)]
  by (auto simp: dummy_hub_control_def bind_eq_Some_conv split: if_splits
      dest: hub_request_wf [OF assms(1,2)])

lemma dummy_bus_suspend_wf:
  "env_ok env \<Longrightarrow> wf_dummy d \<Longrightarrow> dummy_bus_suspend env w d = Some (rc, d') \<Longrightarrow> wf_dummy d'"
  by (auto simp: dummy_bus_suspend_def bind_eq_Some_conv dest: set_hub_link_wf)

lemma dummy_bus_resume_wf:
  "env_ok env \<Longrightarrow> wf_dummy d \<Longrightarrow> dummy_bus_resume env w d = Some (rc, d') \<Longrightarrow> wf_dummy d'"
  by (auto simp: dummy_bus_resume_def bind_eq_Some_conv Let_def split: if_splits
      dest: set_hub_link_wf)

section \<open>The port of a connected USB 2.0 hub\<close>

text \<open>A powered port of the USB 2.0 hub with a device that pulls up and is not suspended.\<close>

definition usb2_attached :: "dummy_t \<Rightarrow> dummy_hcd \<Rightarrow> bool" where
  "usb2_attached d h \<longleftrightarrow> speed_of_hcd h < HCD_USB3 \<and> speed (gadget d) \<noteq> USB_SPEED_SUPER
     \<and> powered h \<and> pullup d \<and> \<not> udc_suspended d"

lemma usb2_attachedD:
  assumes "usb2_attached d h"
  shows "speed_of_hcd h \<noteq> HCD_USB3" "\<not> wrong_hub d h" "pullup d" "\<not> udc_suspended d"
    "bit (port_status h) 8" "power_bit h = USB_PORT_STAT_POWER"
  using assms by (auto simp: usb2_attached_def wrong_hub_def power_bit_def flags split: if_splits)

lemma usb2_link:
  assumes "usb2_attached d h"
  defines "h' \<equiv> link_result d h"
  shows "bit (port_status h') 0" "bit (port_status h') 1 = bit (port_status h) 1"
    "bit (port_status h') 2 \<longleftrightarrow> bit (port_status h) 2 \<and> bit (port_status h) 1"
    "n \<notin> {0, 2, 16} \<Longrightarrow> bit (port_status h') n = bit (port_status h) n"
    "active h' \<longleftrightarrow> bit (port_status h) 1 \<and> \<not> bit (port_status h) 2
       \<and> rh_state h \<noteq> DUMMY_RH_SUSPENDED"
    "re_timeout h' = re_timeout h" "rh_state h' = rh_state h"
    "hw_accessible h' = hw_accessible h" "speed_of_hcd h' = speed_of_hcd h"
    "resuming h' \<longleftrightarrow> resuming h \<and> bit (port_status h) 1 \<and> \<not> active h'"
proof -
  have s: "h' = synced (new_link_state d (h\<lparr>active := False\<rparr>))"
    using usb2_attachedD(2) [OF assms(1)] by (simp add: h'_def link_result_def Let_def)
  note d = usb2_attachedD [OF assms(1)]
  have odd: "\<not> bit (1 :: u32) n \<and> \<not> bit (4 :: u32) n \<and> \<not> bit (0x10000 :: u32) n
      \<and> (n < 32 \<longrightarrow> bit (- 5 :: u32) n)" if "n \<notin> {0, 2, 16}" for n
  proof -
    have "bit (- 5 :: u32) n \<longleftrightarrow> n < 32 \<and> \<not> bit (4 :: u32) n" using bit_ops(3) [of 4 n] by simp
    then show ?thesis
      using that bit_exp_iff [of 2 n, where 'a = u32] bit_exp_iff [of 16 n, where 'a = u32]
      by (auto simp: bit_1_iff)
  qed
  show "bit (port_status h') 0" "bit (port_status h') 1 = bit (port_status h) 1"
    "bit (port_status h') 2 \<longleftrightarrow> bit (port_status h) 2 \<and> bit (port_status h) 1"
    using d by (auto simp: s synced_def set_link_state_by_speed_def flags Let_def)
  show "n \<notin> {0, 2, 16} \<Longrightarrow> bit (port_status h') n = bit (port_status h) n"
    using d odd [of n] bit_imp_le_length [of "port_status h" n]
    by (auto simp: s synced_def set_link_state_by_speed_def flags Let_def)
  show "active h' \<longleftrightarrow> bit (port_status h) 1 \<and> \<not> bit (port_status h) 2
       \<and> rh_state h \<noteq> DUMMY_RH_SUSPENDED"
    using d by (auto simp: s synced_def set_link_state_by_speed_def flags Let_def)
  show "re_timeout h' = re_timeout h" "rh_state h' = rh_state h"
    "hw_accessible h' = hw_accessible h" "speed_of_hcd h' = speed_of_hcd h"
    by (simp_all add: s synced_def)
  show "resuming h' \<longleftrightarrow> resuming h \<and> bit (port_status h) 1 \<and> \<not> active h'"
    using d by (auto simp: s synced_def new_link_state_def set_link_state_by_speed_def flags Let_def)
qed

lemma finish_reset_port:
  assumes "pullup d" and "speed_of_hcd h < HCD_USB3"
  obtains p where "hcd_of w (finish_reset w h d) = Some (h\<lparr>port_status := p\<rparr>)"
    "bit p 20" "\<not> bit p 4" "bit p 1" "bit p 10 \<longleftrightarrow> bit (port_status h) 10 \<or> speed (gadget d) = USB_SPEED_HIGH"
    "bit p 9 \<longleftrightarrow> bit (port_status h) 9 \<or> speed (gadget d) = USB_SPEED_LOW"
    "\<And>n. n \<in> {0, 2, 8, 16} \<Longrightarrow> bit p n = bit (port_status h) n"
proof -
  define q where "q = ((port_status h OR PORT_C_RESET) AND NOT USB_PORT_STAT_RESET)
      OR USB_PORT_STAT_ENABLE"
  define p where "p = q OR (case speed (gadget d) of USB_SPEED_HIGH \<Rightarrow> USB_PORT_STAT_HIGH_SPEED
      | USB_SPEED_LOW \<Rightarrow> USB_PORT_STAT_LOW_SPEED | _ \<Rightarrow> 0)"
  have "hcd_of w (finish_reset w h d) = Some (h\<lparr>port_status := p\<rparr>)"
    using assms by (cases "speed (gadget d)") (simp_all add: finish_reset_def Let_def p_def q_def)
  moreover have "bit p 20" "\<not> bit p 4" "bit p 1" "bit p 10 \<longleftrightarrow> bit (port_status h) 10 \<or> speed (gadget d) = USB_SPEED_HIGH"
    "bit p 9 \<longleftrightarrow> bit (port_status h) 9 \<or> speed (gadget d) = USB_SPEED_LOW"
    by (cases "speed (gadget d)"; simp add: p_def q_def flags)+
  moreover have "bit p n = bit (port_status h) n" if "n \<in> {0, 2, 8, 16}" for n
    using that by (cases "speed (gadget d)") (auto simp: p_def q_def flags)
  ultimately show ?thesis using that by blast
qed

lemma finish_reset_frame [simp]:
  "pullup (finish_reset w h d) = pullup d" "speed (gadget (finish_reset w h d)) = speed (gadget d)"
  "udc_suspended (finish_reset w h d) = udc_suspended d" "jiffies (finish_reset w h d) = jiffies d"
  by (auto simp: finish_reset_def Let_def upd_ep_def split: usb_device_speed.splits)

lemma poll_root_hub_hub: "cooperative env \<Longrightarrow> hcd_of w (poll_root_hub env w' d) = hcd_of w d"
  by (rule same_hubs_hcd_of)
    (simp add: cooperative_def poll_root_hub_def same_hubs_def log_event_def)

text \<open>
  Reading the port status, once the port's new state before the link update is known.
\<close>

lemma hub_control_get_port_status:
  assumes env: "cooperative env" and wf: "wf_dummy d" and h: "hcd_of w d = Some h" "hw_accessible h"
    and buf: "4 \<le> length buf"
    and d1: "d1 = (let h = (if resume_timed_out d h then resume_signalled h else h)
      in if port_status h AND USB_PORT_STAT_RESET \<noteq> 0 \<and> time_after_eq (jiffies d) (re_timeout h)
         then finish_reset w h d else set_hcd w h d)"
    and h1: "hcd_of w d1 = Some h1"
  shows "\<exists>d' buf'. dummy_hub_control env w GetPortStatus v i buf n d
       = Some (if i \<noteq> 1 then - EPIPE else 0, buf', d')
     \<and> take 4 buf' = le16_bytes (port_status (link_result d1 h1))
         @ le16_bytes (drop_bit 16 (port_status (link_result d1 h1)))
     \<and> hcd_of w d' = Some (link_result d1 h1)"
proof -
  have "wf_dummy d1" using wf finish_reset_wf by (simp add: d1 Let_def)
  then obtain d2 where d2: "set_link_state env w d1 = Some d2" "hcd_of w d2 = Some (link_result d1 h1)"
    using link_sync.sync_result [OF link_sync_set_link_state [OF env] _ h1] by blast
  let ?b = "le16_bytes (port_status (link_result d1 h1))
         @ le16_bytes (drop_bit 16 (port_status (link_result d1 h1)))"
  have len: "length ?b = 4" by (simp add: le16_bytes_def)
  have "store_bytes ?b buf = Some (?b @ drop 4 buf)"
    using buf len by (simp add: store_bytes_def memcpy_def)
  then have "hub_request env w GetPortStatus v i buf n d
      = Some (if i \<noteq> 1 then - EPIPE else 0, ?b @ drop 4 buf, d2)"
    using d2 h(1) by (simp add: hub_request_def get_port_status_def d1 Let_def)
  then show ?thesis
    using h d2(2) len poll_root_hub_hub [OF env] by (auto simp: dummy_hub_control_def)
qed

section \<open>Properties of the hub\<close>

text \<open>
  C20. Whoever resets the port completes the reset by reading its status. Let a USB 2.0 port with an
  attached device be in reset, with the reset time over, and neither suspended nor resuming, its
  root hub not suspended and the controller accessible; let the gadget driver's callbacks leave the
  hubs alone, and the reader's buffer have four bytes. Then reading the status succeeds and reports
  the port out of reset, with a reset change, connected and enabled; as of high or of low speed
  exactly when that is the speed of the device (or its bit was still set, which the start of a reset
  clears); and it leaves the link active.
\<close>

theorem reset_completes:
  assumes "cooperative env" and "wf_dummy d" and "hcd_of w d = Some h" and "hw_accessible h"
    and "usb2_attached d h" and "in_reset h" and "time_after_eq (jiffies d) (re_timeout h)"
    and "\<not> suspended h" and "rh_state h \<noteq> DUMMY_RH_SUSPENDED" and "\<not> resuming h" and "4 \<le> length buf"
  shows "\<exists>S buf' d' h'. dummy_hub_control env w GetPortStatus v 1 buf n d = Some (0, buf', d')
     \<and> take 4 buf' = le16_bytes S @ le16_bytes (drop_bit 16 S)
     \<and> S AND USB_PORT_STAT_RESET = 0 \<and> S AND PORT_C_RESET \<noteq> 0
     \<and> S AND USB_PORT_STAT_ENABLE \<noteq> 0 \<and> S AND USB_PORT_STAT_CONNECTION \<noteq> 0
     \<and> (S AND USB_PORT_STAT_HIGH_SPEED \<noteq> 0 \<longleftrightarrow>
          speed (gadget d) = USB_SPEED_HIGH \<or> port_status h AND USB_PORT_STAT_HIGH_SPEED \<noteq> 0)
     \<and> (S AND USB_PORT_STAT_LOW_SPEED \<noteq> 0 \<longleftrightarrow>
          speed (gadget d) = USB_SPEED_LOW \<or> port_status h AND USB_PORT_STAT_LOW_SPEED \<noteq> 0)
     \<and> hcd_of w d' = Some h' \<and> active h'"
proof -
  note a = usb2_attachedD [OF assms(5)]
  have "speed_of_hcd h < HCD_USB3" using assms(5) by (simp add: usb2_attached_def)
  then obtain p where p: "hcd_of w (finish_reset w h d) = Some (h\<lparr>port_status := p\<rparr>)"
    "bit p 20" "\<not> bit p 4" "bit p 1" "bit p 10 \<longleftrightarrow> bit (port_status h) 10 \<or> speed (gadget d) = USB_SPEED_HIGH"
    "bit p 9 \<longleftrightarrow> bit (port_status h) 9 \<or> speed (gadget d) = USB_SPEED_LOW"
    "\<And>n. n \<in> {0, 2, 8, 16} \<Longrightarrow> bit p n = bit (port_status h) n"
    using finish_reset_port [OF a(3)] by metis
  let ?d = "finish_reset w h d" and ?h = "h\<lparr>port_status := p\<rparr>"
  have att: "usb2_attached ?d ?h"
    using assms(5) p(7) by (simp add: usb2_attached_def flags power_bit_def split: if_splits)
  note l = usb2_link [OF att]
  have S: "\<not> bit p 2" using p(7) assms(8) by (simp add: flags)
  obtain d' buf' where res: "dummy_hub_control env w GetPortStatus v 1 buf n d = Some (0, buf', d')"
     "take 4 buf' = le16_bytes (port_status (link_result ?d ?h))
         @ le16_bytes (drop_bit 16 (port_status (link_result ?d ?h)))"
     "hcd_of w d' = Some (link_result ?d ?h)"
    using hub_control_get_port_status [OF assms(1-4,11) refl, of ?h v 1 n] p(1) assms(6,7,10)
    by (auto simp: resume_timed_out_def)
  show ?thesis
    using res p l(1-5) S assms(9)
    by (intro exI [of _ "port_status (link_result ?d ?h)"] exI [of _ buf'] exI [of _ d'] exI conjI)
      (auto simp: flags)
qed

text \<open>A request that ends in a link update of the port \<open>h\<close>.\<close>

lemma hub_control_link:
  assumes env: "cooperative env" and wf: "wf_dummy d" and h: "hcd_of w d = Some h0" "hw_accessible h0"
    and req: "\<And>d2. set_link_state env w (set_hcd w h d) = Some d2 \<Longrightarrow>
       hub_request env w t v i buf n d0 = Some (0, buf, d2)"
    and d0: "hcd_of w d0 = hcd_of w d"
  shows "\<exists>d'. dummy_hub_control env w t v i buf n d0 = Some (0, buf, d')
     \<and> hcd_of w d' = Some (link_result d h)"
proof -
  obtain d2 where "set_link_state env w (set_hcd w h d) = Some d2" "hcd_of w d2 = Some (link_result d h)"
    using link_sync.sync_port [OF link_sync_set_link_state [OF env] wf] by blast
  then show ?thesis
    using h d0 req poll_root_hub_hub [OF env] by (auto simp: dummy_hub_control_def)
qed

text \<open>
  A reset request to a USB 2.0 port with a device attached puts the port in reset for 50 ms:
  it is disabled and the link inactive until then, though still connected.
\<close>

theorem reset_starts:
  assumes "cooperative env" and "wf_dummy d" and "hcd_of w d = Some h" and "hw_accessible h"
    and "usb2_attached d h"
  shows "\<exists>d' h'. dummy_hub_control env w SetPortFeature USB_PORT_FEAT_RESET i buf n d = Some (0, buf, d')
     \<and> hcd_of w d' = Some h' \<and> in_reset h' \<and> \<not> enabled h' \<and> \<not> active h' \<and> connected h'
     \<and> re_timeout h' = jiffies d + msecs_to_jiffies 50"
proof -
  note a = usb2_attachedD [OF assms(5)]
  define p where "p = (port_status h AND NOT (USB_PORT_STAT_ENABLE OR USB_PORT_STAT_LOW_SPEED
      OR USB_PORT_STAT_HIGH_SPEED)) OR 16"
  let ?h = "h\<lparr>re_timeout := jiffies d + msecs_to_jiffies 50, port_status := p\<rparr>"
  let ?d = "d\<lparr>devstatus := devstatus d AND push_bit USB_DEVICE_SELF_POWERED 1\<rparr>"
  have wf: "wf_dummy ?d" using assms(2) by simp
  have hd: "hcd_of w ?d = Some h" using assms(3) by simp
  have "(port_status h AND NOT (USB_PORT_STAT_ENABLE OR USB_PORT_STAT_LOW_SPEED
      OR USB_PORT_STAT_HIGH_SPEED)) AND USB_PORT_STAT_POWER \<noteq> 0"
    using a(5) by (simp add: and.assoc flags)
  then have req: "hub_request env w SetPortFeature USB_PORT_FEAT_RESET i buf n d = Some (0, buf, d2)"
    if "set_link_state env w (set_hcd w ?h ?d) = Some d2" for d2
    using that assms(3) a(1)
    by (simp add: hub_request_def set_port_feature_def set_port_bit_def start_reset_def bit_shift_def
        power_bit_def p_def Let_def)
  obtain d' where d': "dummy_hub_control env w SetPortFeature USB_PORT_FEAT_RESET i buf n d = Some (0, buf, d')"
     "hcd_of w d' = Some (link_result ?d ?h)"
    using hub_control_link [OF assms(1) wf hd assms(4) req] assms(3) by auto
  have att: "usb2_attached ?d ?h"
    using assms(5) by (simp add: usb2_attached_def flags power_bit_def p_def split: if_splits)
  note l = usb2_link [OF att]
  show ?thesis
    using d' l(1,2,4-6) by (auto simp: flags p_def)
qed

text \<open>
  Suspending an active USB 2.0 port stops its link without disabling it; clearing the
  suspend feature does not end the suspension but starts the resume signal, to end 20 ms later.
\<close>

theorem suspend_and_resume_start:
  assumes "cooperative env" and "wf_dummy d" and "hcd_of w d = Some h" and "hw_accessible h"
    and "usb2_attached d h" and "active h" and "enabled h"
  shows "\<exists>d1 h1 d2 h2. dummy_hub_control env w SetPortFeature USB_PORT_FEAT_SUSPEND i buf n d
       = Some (0, buf, d1)
     \<and> hcd_of w d1 = Some h1 \<and> suspended h1 \<and> enabled h1 \<and> connected h1 \<and> \<not> active h1
     \<and> dummy_hub_control env w ClearPortFeature USB_PORT_FEAT_SUSPEND i buf n d1 = Some (0, buf, d2)
     \<and> hcd_of w d2 = Some h2 \<and> resuming h2 \<and> suspended h2
     \<and> re_timeout h2 = jiffies d1 + msecs_to_jiffies 20"
proof -
  note a = usb2_attachedD [OF assms(5)]
  let ?h = "h\<lparr>port_status := port_status h OR USB_PORT_STAT_SUSPEND\<rparr>"
  have req: "hub_request env w SetPortFeature USB_PORT_FEAT_SUSPEND i buf n d = Some (0, buf, d2)"
    if "set_link_state env w (set_hcd w ?h d) = Some d2" for d2
    using that assms(3,6) a(1) by (simp add: hub_request_def set_port_feature_def Let_def)
  obtain d1 where d1: "dummy_hub_control env w SetPortFeature USB_PORT_FEAT_SUSPEND i buf n d = Some (0, buf, d1)"
     "hcd_of w d1 = Some (link_result d ?h)"
    using hub_control_link [OF assms(1,2,3,4) req refl] by auto
  have att: "usb2_attached d ?h"
    using assms(5) by (simp add: usb2_attached_def flags power_bit_def split: if_splits)
  note l = usb2_link [OF att]
  have h1: "suspended (link_result d ?h)" "enabled (link_result d ?h)" "connected (link_result d ?h)"
    "\<not> active (link_result d ?h)"
    using assms(7) l(1-3,5) by (auto simp: flags)
  have "hw_accessible (link_result d ?h)" "speed_of_hcd (link_result d ?h) \<noteq> HCD_USB3"
    using l(8,9) assms(4) a(1) by simp_all
  then show ?thesis
    using d1 h1 poll_root_hub_hub [OF assms(1)]
    by (auto simp: dummy_hub_control_def hub_request_def clear_port_feature_def Let_def)
qed

text \<open>
  Once the resume time is over, reading the status of the port ends the suspension: it
  succeeds, reports the port enabled and its suspend change, and the link is active again.
\<close>

theorem resume_completes:
  assumes "cooperative env" and "wf_dummy d" and "hcd_of w d = Some h" and "hw_accessible h"
    and "usb2_attached d h" and "enabled h" and "resuming h" and "time_after_eq (jiffies d) (re_timeout h)"
    and "rh_state h \<noteq> DUMMY_RH_SUSPENDED" and "\<not> in_reset h" and "4 \<le> length buf"
  shows "\<exists>S buf' d' h'. dummy_hub_control env w GetPortStatus v 1 buf n d = Some (0, buf', d')
     \<and> take 4 buf' = le16_bytes S @ le16_bytes (drop_bit 16 S)
     \<and> S AND USB_PORT_STAT_SUSPEND = 0 \<and> S AND PORT_C_SUSPEND \<noteq> 0 \<and> S AND USB_PORT_STAT_ENABLE \<noteq> 0
     \<and> hcd_of w d' = Some h' \<and> active h' \<and> \<not> resuming h'"
proof -
  let ?h = "resume_signalled h"
  have p: "\<not> bit (port_status ?h) 2" "bit (port_status ?h) 18" "bit (port_status ?h) 1"
    "\<not> in_reset ?h" "rh_state ?h = rh_state h" "re_timeout ?h = re_timeout h"
    using assms(6,10) by (simp_all add: resume_signalled_def flags)
  have att: "usb2_attached (set_hcd w ?h d) ?h"
    using assms(5) by (simp add: usb2_attached_def flags power_bit_def resume_signalled_def split: if_splits)
  note l = usb2_link [OF att]
  obtain d' buf' where res: "dummy_hub_control env w GetPortStatus v 1 buf n d = Some (0, buf', d')"
     "take 4 buf' = le16_bytes (port_status (link_result (set_hcd w ?h d) ?h))
         @ le16_bytes (drop_bit 16 (port_status (link_result (set_hcd w ?h d) ?h)))"
     "hcd_of w d' = Some (link_result (set_hcd w ?h d) ?h)"
    using hub_control_get_port_status [OF assms(1-4,11) refl, of ?h v 1 n] assms(7,8) p(4)
    by (auto simp: resume_timed_out_def)
  show ?thesis
    using res p l(1-5,10) assms(9)
    by (intro exI [of _ "port_status (link_result (set_hcd w ?h d) ?h)"] exI [of _ buf']
        exI [of _ d'] exI conjI) (auto simp: flags)
qed

text \<open>
  The USB 2.0 hub answers every request of the USB 3.0 hub class with a stall, and changes
  neither the buffer nor the controller; it only lets the core poll when a change is pending.
\<close>

theorem usb2_hub_rejects_usb3_requests:
  assumes "hcd_of w d = Some h" and "hw_accessible h" and "speed_of_hcd h \<noteq> HCD_USB3"
    and "t \<in> {GetPortErrorCount, SetHubDepth, DeviceRequest_GetDescriptor}
       \<or> t = SetPortFeature \<and> v \<in> {USB_PORT_FEAT_LINK_STATE, USB_PORT_FEAT_U1_TIMEOUT,
           USB_PORT_FEAT_U2_TIMEOUT, USB_PORT_FEAT_BH_PORT_RESET}"
  shows "dummy_hub_control env w t v i buf n d
     = Some (- EPIPE, buf, if port_status h AND PORT_C_MASK \<noteq> 0 then poll_root_hub env w d else d)"
  using assms(4)
  by (elim disjE conjE insertE emptyE)
    (simp_all add: assms(1-3) dummy_hub_control_def hub_request_def set_port_feature_def Let_def)

text \<open>The requests whose value is shifted out of the word.\<close>

definition bad_shift :: "dummy_hcd \<Rightarrow> u16 \<Rightarrow> u16 \<Rightarrow> bool" where
  "bad_shift h t v \<longleftrightarrow> 32 \<le> unat v \<and> (t = ClearPortFeature \<or> t = SetPortFeature \<and> powered h)"

lemma store_bytes_fits [simp]:
  "length bs \<le> length buf \<Longrightarrow> store_bytes bs buf = Some (bs @ drop (length bs) buf)"
  by (simp add: store_bytes_def memcpy_def)

lemma hub_descriptor_lengths [simp]:
  "length ss_hub_descriptor = 15" "length hub_descriptor = 15" "length usb3_bos_desc = 15"
  by (simp_all add: ss_hub_descriptor_def hub_descriptor_def usb3_bos_desc_def)

lemma finish_reset_hub: "\<exists>h'. hcd_of w (finish_reset w h d) = Some h'"
  by (auto simp: finish_reset_def Let_def split: usb_device_speed.splits)

text \<open>That an operation on a hub returns, and leaves the hub there.\<close>

definition keeps_hub :: "hcd_sel \<Rightarrow> ('a \<times> dummy_t) option \<Rightarrow> bool" where
  "keeps_hub w res \<longleftrightarrow> (\<exists>rc d'. res = Some (rc, d') \<and> hcd_of w d' \<noteq> None)"

lemma keeps_hub_link:
  assumes "cooperative env" and "wf_dummy d"
  shows "keeps_hub w (Option.bind (set_link_state env w (set_hcd w h d)) (\<lambda>d. Some (rc, d)))"
proof -
  obtain d' where "set_link_state env w (set_hcd w h d) = Some d'" "hcd_of w d' \<noteq> None"
    using link_sync.sync_port [OF link_sync_set_link_state [OF assms(1)] assms(2)]
    by (metis option.distinct(1))
  then show ?thesis by (simp add: keeps_hub_def)
qed

lemma keeps_hub_Some [simp]:
  "keeps_hub w (Some (rc, d)) \<longleftrightarrow> hcd_of w d \<noteq> None" "\<not> keeps_hub w None"
  by (simp_all add: keeps_hub_def)

lemma clear_port_feature_defined:
  assumes "cooperative env" and "wf_dummy d" and "hcd_of w d = Some h"
  shows "keeps_hub w (clear_port_feature env w v d) \<longleftrightarrow> unat v < 32"
proof (cases "v = USB_PORT_FEAT_SUSPEND \<or> v = USB_PORT_FEAT_POWER")
  case True
  with keeps_hub_link [OF assms(1,2)] assms(3) show ?thesis
    by (auto simp: clear_port_feature_def Let_def)
next
  case False
  then show ?thesis
    using keeps_hub_link [OF assms(1,2)] assms(3)
    by (auto simp: clear_port_feature_def bit_shift_def Let_def)
qed

lemma set_port_bit_defined:
  assumes "cooperative env" and "wf_dummy d" and "hcd_of w d = Some h"
  shows "keeps_hub w (set_port_bit env w v d) \<longleftrightarrow> (powered h \<longrightarrow> unat v < 32)"
  using keeps_hub_link [OF assms(1,2)] assms(3)
  by (auto simp: set_port_bit_def bit_shift_def)

lemma set_port_feature_defined:
  assumes "cooperative env" and "wf_dummy d" and "hcd_of w d = Some h"
  shows "keeps_hub w (set_port_feature env w v d) \<longleftrightarrow> (powered h \<longrightarrow> unat v < 32)"
proof -
  have start: "keeps_hub w (set_port_bit env w v (start_reset w h d))" if "unat v < 32"
    using set_port_bit_defined [OF assms(1), of "start_reset w h d" w _ v] assms(2) that
    by (auto simp: start_reset_def Let_def)
  consider (reset) "v = USB_PORT_FEAT_RESET \<or> v = USB_PORT_FEAT_BH_PORT_RESET"
    | (named) "v \<in> {USB_PORT_FEAT_LINK_STATE, USB_PORT_FEAT_U1_TIMEOUT, USB_PORT_FEAT_U2_TIMEOUT,
        USB_PORT_FEAT_SUSPEND, USB_PORT_FEAT_POWER}"
    | (other) "v \<notin> {USB_PORT_FEAT_RESET, USB_PORT_FEAT_BH_PORT_RESET, USB_PORT_FEAT_LINK_STATE,
        USB_PORT_FEAT_U1_TIMEOUT, USB_PORT_FEAT_U2_TIMEOUT, USB_PORT_FEAT_SUSPEND,
        USB_PORT_FEAT_POWER}" by auto
  then show ?thesis
  proof cases
    case reset
    then have "unat v < 32" by auto
    with \<open>v = _ \<or> v = _\<close> assms(3) start show ?thesis by (auto simp: set_port_feature_def Let_def)
  next
    case named
    with assms(3) keeps_hub_link [OF assms(1,2)] show ?thesis
      by (auto simp: set_port_feature_def Let_def)
  next
    case other
    with assms(3) set_port_bit_defined [OF assms] show ?thesis by (simp add: set_port_feature_def)
  qed
qed

text \<open>
  C10. A hub request with a buffer for a hub descriptor is defined, whatever its type, value and
  index, except for one case: clearing a port feature of 32 or more, or setting one on a powered
  port, which shifts a one out of the 32 bits of an integer.
\<close>

theorem hub_control_defined_iff:
  assumes "cooperative env" and "wf_dummy d" and "hcd_of w d = Some h" and "hw_accessible h"
    and "15 \<le> length buf"
  shows "dummy_hub_control env w t v i buf n d \<noteq> None \<longleftrightarrow> \<not> bad_shift h t v"
proof -
  have via: "dummy_hub_control env w t v i buf n d \<noteq> None \<longleftrightarrow> keeps_hub w res"
    if "hub_request env w t v i buf n d = map_option (\<lambda>(rc, d). (rc, buf, d)) res" for res
    using that assms(3,4) by (cases res)
      (auto simp: dummy_hub_control_def keeps_hub_def bind_eq_Some_conv split: prod.splits)
  consider (clear) "t = ClearPortFeature" | (set) "t = SetPortFeature" | (get) "t = GetPortStatus"
    | (other) "t \<notin> {ClearPortFeature, SetPortFeature, GetPortStatus}" by auto
  then show ?thesis
  proof cases
    case clear
    then have "hub_request env w t v i buf n d
       = map_option (\<lambda>(rc, d). (rc, buf, d)) (clear_port_feature env w v d)"
      using assms(3) by (cases "clear_port_feature env w v d") (auto simp: hub_request_def)
    from via [OF this] clear show ?thesis
      using clear_port_feature_defined [OF assms(1-3)] by (auto simp: bad_shift_def)
  next
    case set
    then have "hub_request env w t v i buf n d
       = map_option (\<lambda>(rc, d). (rc, buf, d)) (set_port_feature env w v d)"
      using assms(3) by (cases "set_port_feature env w v d") (auto simp: hub_request_def)
    from via [OF this] set show ?thesis
      using set_port_feature_defined [OF assms(1-3)] by (auto simp: bad_shift_def)
  next
    case get
    let ?h = "if resume_timed_out d h then resume_signalled h else h"
    let ?d = "if port_status ?h AND USB_PORT_STAT_RESET \<noteq> 0 \<and> time_after_eq (jiffies d) (re_timeout ?h)
         then finish_reset w ?h d else set_hcd w ?h d"
    obtain h1 where "hcd_of w ?d = Some h1"
      using finish_reset_hub [of w ?h d] by (cases "port_status ?h AND USB_PORT_STAT_RESET \<noteq> 0
        \<and> time_after_eq (jiffies d) (re_timeout ?h)") auto
    then have "\<exists>d' b. dummy_hub_control env w GetPortStatus v i buf n d
       = Some (if i \<noteq> 1 then - EPIPE else 0, b, d')"
      using hub_control_get_port_status [OF assms(1-4), of buf ?d h1 v i n] assms(5)
      by (auto simp: Let_def)
    then show ?thesis by (auto simp: get bad_shift_def)
  next
    case other
    have "hub_request env w t v i buf n d \<noteq> None \<and>
       (\<forall>rc b d'. hub_request env w t v i buf n d = Some (rc, b, d') \<longrightarrow> d' = d)"
      using other assms(3,5) by (simp add: hub_request_def Let_def)
    then obtain rc b where "hub_request env w t v i buf n d = Some (rc, b, d)" by auto
    with other assms(3,4) show ?thesis by (auto simp: dummy_hub_control_def bad_shift_def)
  qed
qed

text \<open>
  Remote wakeup: after a wakeup the gadget was allowed, the first poll of the hub once 20 ms
  are over reports a change, and the port has left its suspension with the suspend change set;
  the link is active again unless the hub itself is suspended.
\<close>

theorem wakeup_resumes_port:
  assumes "cooperative env" and "wf_dummy d" and "hcd_of HS d = Some h" and "hw_accessible h"
    and "usb2_attached d h" and "enabled h" and "dummy_wakeup d = Some (0, d1)"
    and "time_after_eq t (jiffies d + msecs_to_jiffies 20)" and "buf \<noteq> []"
  shows "\<exists>buf' d2 h2. dummy_hub_status env HS buf (d1\<lparr>jiffies := t\<rparr>) = Some (1, buf', d2)
     \<and> buf' ! 0 = 2 \<and> hcd_of HS d2 = Some h2 \<and> \<not> suspended h2
     \<and> port_status h2 AND PORT_C_SUSPEND \<noteq> 0 \<and> (active h2 \<longleftrightarrow> rh_state h \<noteq> DUMMY_RH_SUSPENDED)"
proof -
  have hs: "gadget_to_dummy_hcd d = HS"
    using assms(5) by (simp add: usb2_attached_def gadget_to_dummy_hcd_def)
  let ?t0 = "jiffies d + msecs_to_jiffies 20"
  let ?h1 = "h\<lparr>resuming := True, re_timeout := ?t0, rh_timer := Some ?t0\<rparr>"
  have d1: "d1 = set_hcd HS ?h1 d"
    using assms(3,7) hs by (simp add: dummy_wakeup_def Let_def split: if_splits)
  let ?d = "d1\<lparr>jiffies := t\<rparr>" and ?h = "resume_signalled ?h1"
  have wf: "wf_dummy ?d" using assms(2) by (simp add: d1 wf_dummy_def wf_queues_def queued_def)
  have hd: "hcd_of HS ?d = Some ?h1" by (simp add: d1 hcd_of_def set_hcd_def)
  have out: "resume_timed_out ?d ?h1" using assms(8) by (simp add: resume_timed_out_def)
  obtain d2 where d2: "set_link_state env HS (set_hcd HS ?h ?d) = Some d2"
      "hcd_of HS d2 = Some (link_result ?d ?h)"
    using link_sync.sync_port [OF link_sync_set_link_state [OF assms(1)] wf] by blast
  have att: "usb2_attached ?d ?h"
    using assms(5) by (simp add: d1 usb2_attached_def flags power_bit_def resume_signalled_def
        set_hcd_def split: if_splits)
  note l = usb2_link [OF att]
  have p: "\<not> bit (port_status ?h) 2" "bit (port_status ?h) 18" "bit (port_status ?h) 1"
      "rh_state ?h = rh_state h"
    using assms(6) by (simp_all add: resume_signalled_def flags)
  have s: "bit (port_status (link_result ?d ?h)) 18" "\<not> bit (port_status (link_result ?d ?h)) 2"
      "active (link_result ?d ?h) \<longleftrightarrow> rh_state h \<noteq> DUMMY_RH_SUSPENDED"
    using l(3-5) p by auto
  then have "port_status (link_result ?d ?h) AND PORT_C_MASK \<noteq> 0"
  proof -
    have "bit (port_status (link_result ?d ?h) AND PORT_C_MASK) 18"
      using s(1) by (simp add: bit_and_iff PORT_C_MASK_def bit_push_bit_iff bit_or_iff)
    then show ?thesis by auto
  qed
  moreover have "store_byte 0 (push_bit 1 1) buf = Some (buf[0 := 2])"
    using assms(9) by (simp add: store_byte_def)
  ultimately have "\<exists>d3. dummy_hub_status env HS buf ?d = Some (1, buf[0 := 2], d3)
     \<and> (d3 = d2 \<or> d3 = resume_root_hub env HS (log_event (Resume_Root_Hub HS) d2))"
    using hd out d2 assms(4) by (auto simp: dummy_hub_status_def)
  moreover have "hcd_of HS (resume_root_hub env HS x) = hcd_of HS x" for x
    by (rule same_hubs_hcd_of) (use assms(1) in \<open>simp add: cooperative_def\<close>)
  ultimately show ?thesis
    using d2(2) s assms(9) by (auto simp: flags)
qed

section \<open>Examples\<close>

lemma demo_attached:
  assumes "port_status h AND 0x100 \<noteq> 0" and "speed_of_hcd h = HCD_USB2"
  shows "usb2_attached (set_hcd HS h demo) h"
  using assms by (simp add: usb2_attached_def power_bit_def less_hcd_speed_def)

lemma demo_buffer: "4 \<le> length (replicate 15 (0 :: u8))" by simp

theorem reset_completes_witness:
  "\<exists>S buf' d'. dummy_hub_control idle_env HS GetPortStatus 0 1 (replicate 15 0) 4
       (set_hcd HS (demo_hcd\<lparr>port_status := 0x111\<rparr>) demo) = Some (0, buf', d')
     \<and> take 4 buf' = le16_bytes S @ le16_bytes (drop_bit 16 S)
     \<and> S AND USB_PORT_STAT_HIGH_SPEED \<noteq> 0 \<and> S AND USB_PORT_STAT_LOW_SPEED = 0"
proof -
  let ?h = "demo_hcd\<lparr>port_status := 0x111\<rparr>" let ?d = "set_hcd HS ?h demo"
  have "usb2_attached ?d ?h" by (rule demo_attached) simp_all
  moreover have "wf_dummy ?d" "hcd_of HS ?d = Some ?h" "hw_accessible ?h" "in_reset ?h"
    "time_after_eq (jiffies ?d) (re_timeout ?h)" "\<not> suspended ?h" "rh_state ?h \<noteq> DUMMY_RH_SUSPENDED"
    "\<not> resuming ?h" "speed (gadget ?d) = USB_SPEED_HIGH" by simp_all
  ultimately show ?thesis
    using reset_completes [OF idle_env_cooperative, of ?d HS ?h "replicate 15 0" 0 4] by auto
qed

theorem reset_starts_witness:
  "\<exists>d' h'. dummy_hub_control idle_env HS SetPortFeature USB_PORT_FEAT_RESET 1 [] 0 demo
     = Some (0, [], d') \<and> hcd_of HS d' = Some h' \<and> in_reset h' \<and> re_timeout h' = 5"
proof -
  have "usb2_attached demo demo_hcd"
    by (simp add: usb2_attached_def power_bit_def less_hcd_speed_def)
  then show ?thesis
    using reset_starts [OF idle_env_cooperative wf_demo, of HS demo_hcd 1 "[]" 0] by auto
qed

theorem suspend_and_resume_start_witness:
  "\<exists>d1 d2 h2. dummy_hub_control idle_env HS SetPortFeature USB_PORT_FEAT_SUSPEND 1 [] 0 demo
       = Some (0, [], d1)
     \<and> dummy_hub_control idle_env HS ClearPortFeature USB_PORT_FEAT_SUSPEND 1 [] 0 d1
       = Some (0, [], d2) \<and> hcd_of HS d2 = Some h2 \<and> resuming h2"
proof -
  have "usb2_attached demo demo_hcd"
    by (simp add: usb2_attached_def power_bit_def less_hcd_speed_def)
  then show ?thesis
    using suspend_and_resume_start [OF idle_env_cooperative wf_demo, of HS demo_hcd 1 "[]" 0] by auto
qed

theorem resume_completes_witness:
  "\<exists>buf' d' h'. dummy_hub_control idle_env HS GetPortStatus 0 1 (replicate 15 0) 4
       (set_hcd HS (demo_hcd\<lparr>port_status := 0x507, resuming := True\<rparr>) demo) = Some (0, buf', d')
     \<and> hcd_of HS d' = Some h' \<and> active h'"
proof -
  let ?h = "demo_hcd\<lparr>port_status := 0x507, resuming := True\<rparr>" let ?d = "set_hcd HS ?h demo"
  have "usb2_attached ?d ?h" by (rule demo_attached) simp_all
  moreover have "wf_dummy ?d" "hcd_of HS ?d = Some ?h" "hw_accessible ?h" "\<not> in_reset ?h"
    "time_after_eq (jiffies ?d) (re_timeout ?h)" "enabled ?h" "rh_state ?h \<noteq> DUMMY_RH_SUSPENDED"
    "resuming ?h" by simp_all
  ultimately show ?thesis
    using resume_completes [OF idle_env_cooperative, of ?d HS ?h "replicate 15 0" 0 4] by auto
qed

theorem usb2_hub_rejects_usb3_requests_witness:
  "dummy_hub_control idle_env HS SetHubDepth 0 0 [] 0 demo = Some (- EPIPE, [], demo)"
  using usb2_hub_rejects_usb3_requests [of HS demo demo_hcd SetHubDepth 0 idle_env 0 "[]" 0]
  by (simp add: PORT_C_MASK_def)

theorem hub_control_defined_iff_witness:
  "dummy_hub_control idle_env HS ClearPortFeature 40 1 (replicate 15 0) 0 demo = None
   \<and> dummy_hub_control idle_env HS ClearPortFeature 16 1 (replicate 15 0) 0 demo \<noteq> None"
  using hub_control_defined_iff [OF idle_env_cooperative wf_demo, of HS demo_hcd "replicate 15 0"
      ClearPortFeature 40 1 0]
    hub_control_defined_iff [OF idle_env_cooperative wf_demo, of HS demo_hcd "replicate 15 0"
      ClearPortFeature 16 1 0]
  by (simp add: bad_shift_def del: not_None_eq)

theorem wakeup_resumes_port_witness:
  "\<exists>d1 buf' d2. dummy_wakeup ((set_hcd HS (demo_hcd\<lparr>port_status := 0x507\<rparr>) demo)\<lparr>devstatus := 2\<rparr>)
       = Some (0, d1)
     \<and> dummy_hub_status idle_env HS [0] (d1\<lparr>jiffies := 2\<rparr>) = Some (1, buf', d2)"
proof -
  let ?h = "demo_hcd\<lparr>port_status := 0x507\<rparr>"
  let ?d = "(set_hcd HS ?h demo)\<lparr>devstatus := 2\<rparr>"
  have "usb2_attached (set_hcd HS ?h demo) ?h" by (rule demo_attached) simp_all
  then have att: "usb2_attached ?d ?h" by (simp add: usb2_attached_def)
  have facts: "wf_dummy ?d" "hcd_of HS ?d = Some ?h" "hw_accessible ?h" "enabled ?h" by simp_all
  have "gadget_to_dummy_hcd ?d = HS" by (simp add: gadget_to_dummy_hcd_def)
  then obtain d1 where d1: "dummy_wakeup ?d = Some (0, d1)" by (simp add: dummy_wakeup_def)
  have "time_after_eq 2 (jiffies ?d + msecs_to_jiffies 20)" by (simp add: set_hcd_def)
  from wakeup_resumes_port [OF idle_env_cooperative facts(1,2,3) att facts(4) d1 this, of "[0]"] d1
  show ?thesis by auto
qed

end
