(* ===== verification/Dummy_Module.thy ===== *)
theory Dummy_Module
  imports Dummy_Hub
begin

text \<open>
  The life of the host controller and of the module (dummy\_hcd.c, lines 2363 to 2514 and 2618 to
  2872): the listing of the queued transfers, starting and setting up the two hubs, probing and
  removing the controller, and loading and unloading the module with all its error exits.
\<close>

section \<open>Listing the transfers\<close>

definition scnprintf :: "nat \<Rightarrow> string \<Rightarrow> string" where
  "scnprintf sz s = take (sz - 1) s"

text \<open>The text of the pointer (\<open>%p\<close>) is the kernel's, an argument.\<close>

definition urb_text :: "string \<Rightarrow> urb \<Rightarrow> string" where
  "urb_text ptr u =
     (let e = usb_pipeendpoint (urb_pipe u) in
      ''urb/'' @ ptr @ '' ''
      @ (case urb_dev_speed u of
           USB_SPEED_LOW \<Rightarrow> ''ls'' | USB_SPEED_FULL \<Rightarrow> ''fs'' | USB_SPEED_HIGH \<Rightarrow> ''hs''
         | USB_SPEED_SUPER \<Rightarrow> ''ss'' | _ \<Rightarrow> ''?'')
      @ '' ep'' @ show_int (int e)
      @ (if e \<noteq> 0 then (if usb_urb_dir_in u then ''in'' else ''out'') else [])
      @ (case usb_pipetype (urb_pipe u) of
           PIPE_CONTROL \<Rightarrow> [] | PIPE_BULK \<Rightarrow> ''-bulk'' | PIPE_INTERRUPT \<Rightarrow> ''-int''
         | _ \<Rightarrow> ''-iso'')
      @ '' len '' @ show_int (sint (actual_length u))
      @ ''/'' @ show_int (sint (transfer_buffer_length u)) @ [CHR 0x0A])"

definition show_urb :: "string \<Rightarrow> nat \<Rightarrow> urb \<Rightarrow> string" where
  "show_urb ptr sz u = scnprintf sz (urb_text ptr u)"

definition PAGE_SIZE :: nat where "PAGE_SIZE = 4096"

text \<open>The characters written to the page; the function returns their number.\<close>

primrec show_urbs :: "(nat \<Rightarrow> string) \<Rightarrow> urbp list \<Rightarrow> string \<Rightarrow> string" where
  "show_urbs ptr [] buf = buf"
| "show_urbs ptr (p # ps) buf =
     show_urbs ptr ps
       (buf @ show_urb (ptr (urbp_id p)) (PAGE_SIZE - length buf) (urbp_urb p))"

definition urbs_show :: "(nat \<Rightarrow> string) \<Rightarrow> dummy_hcd \<Rightarrow> nat \<times> string" where
  "urbs_show ptr h = (let buf = show_urbs ptr (urbp_list h) '''' in (length buf, buf))"

section \<open>Starting the hubs\<close>

abbreviation (input) POWER_BUDGET :: nat where "POWER_BUDGET \<equiv> 500"
abbreviation (input) POWER_BUDGET_3 :: nat where "POWER_BUDGET_3 \<equiv> 900"

definition dummy_start_ss :: "dummy_hcd \<Rightarrow> int \<times> dummy_hcd" where
  "dummy_start_ss h =
     (0, h\<lparr>timer := None, rh_state := DUMMY_RH_RUNNING, stream_en_ep := 0, urbp_list := [],
           power_budget := POWER_BUDGET_3, hc_state := HC_STATE_RUNNING,
           uses_new_polling := True\<rparr>)"

text \<open>The result of creating the sysfs file is an argument, as is which hub is the primary.\<close>

definition dummy_start :: "bool \<Rightarrow> int \<Rightarrow> dummy_hcd \<Rightarrow> int \<times> dummy_hcd" where
  "dummy_start primary file_rc h =
     (if \<not> primary then dummy_start_ss h
      else (file_rc, h\<lparr>timer := None, rh_state := DUMMY_RH_RUNNING, urbp_list := [],
              power_budget := POWER_BUDGET, hc_state := HC_STATE_RUNNING,
              uses_new_polling := True\<rparr>))"

definition dummy_h_get_frame :: "nat \<Rightarrow> nat" where
  "dummy_h_get_frame tv_nsec = dummy_g_get_frame tv_nsec"

definition dummy_setup :: "bool \<Rightarrow> dummy_hcd \<Rightarrow> dummy_t \<Rightarrow> int \<times> dummy_t" where
  "dummy_setup primary h d =
     (let h = h\<lparr>sg_tablesize := - 1\<rparr> in
      if primary
      then (0, set_hcd HS (h\<lparr>speed_of_hcd := HCD_USB2, root_hub_speed := USB_SPEED_HIGH\<rparr>) d)
      else (0, set_hcd SS (h\<lparr>speed_of_hcd := HCD_USB3, root_hub_speed := USB_SPEED_SUPER\<rparr>) d))"

section \<open>The host controller device\<close>

text \<open>
  What the probe does with the USB core, as a log. The core's part is a parameter: whether a hub
  could be created, and adding one, which calls back the driver and so changes the controller.
\<close>

datatype hcd_action =
  Create_Hcd hcd_sel | Add_Hcd hcd_sel | Remove_Hcd hcd_sel | Put_Hcd hcd_sel

datatype hcd_flags = Flags_USB3_Shared | Flags_USB2 | Flags_USB11

record hcd_core =
  create_hcd :: "hcd_sel \<Rightarrow> bool"
  usb_add_hcd :: "hcd_sel \<Rightarrow> dummy_t \<Rightarrow> int \<times> dummy_t"
  usb_remove_hcd :: "hcd_sel \<Rightarrow> dummy_t \<Rightarrow> dummy_t"

definition hcd_flags_of :: "dummy_hcd_module_parameters \<Rightarrow> hcd_flags" where
  "hcd_flags_of mod_data =
     (if is_super_speed mod_data then Flags_USB3_Shared
      else if is_high_speed mod_data then Flags_USB2 else Flags_USB11)"

definition put_usb2_hcd :: "int \<Rightarrow> hcd_action list \<Rightarrow> dummy_t \<Rightarrow> int \<times> hcd_action list \<times> dummy_t" where
  "put_usb2_hcd rc acts d =
     (rc, acts @ [Put_Hcd HS], d\<lparr>hs_hcd := None, ss_hcd := None\<rparr>)"

definition dealloc_usb2_hcd ::
  "hcd_core \<Rightarrow> int \<Rightarrow> hcd_action list \<Rightarrow> dummy_t \<Rightarrow> int \<times> hcd_action list \<times> dummy_t" where
  "dealloc_usb2_hcd core rc acts d =
     put_usb2_hcd rc (acts @ [Remove_Hcd HS]) (usb_remove_hcd core HS d)"

definition dummy_hcd_probe ::
  "dummy_hcd_module_parameters \<Rightarrow> hcd_core \<Rightarrow> dummy_t \<Rightarrow> int \<times> hcd_action list \<times> dummy_t" where
  "dummy_hcd_probe mod_data core d =
     (if \<not> create_hcd core HS then (- ENOMEM, [], d)
      else let acts = [Create_Hcd HS]; (rc, d) = usb_add_hcd core HS d in
        if rc \<noteq> 0 then put_usb2_hcd rc acts d
        else let acts = acts @ [Add_Hcd HS] in
          if is_super_speed mod_data then
            if \<not> create_hcd core SS then dealloc_usb2_hcd core (- ENOMEM) acts d
            else let acts = acts @ [Create_Hcd SS]; (rc, d) = usb_add_hcd core SS d in
              if rc \<noteq> 0 then dealloc_usb2_hcd core rc (acts @ [Put_Hcd SS]) d
              else (0, acts @ [Add_Hcd SS], d)
          else (0, acts, d))"

definition dummy_hcd_remove ::
  "hcd_core \<Rightarrow> dummy_t \<Rightarrow> (int \<times> hcd_action list \<times> dummy_t) option" where
  "dummy_hcd_remove core d =
     do {
       let (acts, d) = (if ss_hcd d \<noteq> None
                        then ([Remove_Hcd SS, Put_Hcd SS], usb_remove_hcd core SS d)
                        else ([], d));
       _ \<leftarrow> hs_hcd d;
       let d = usb_remove_hcd core HS d;
       Some (0, acts @ [Remove_Hcd HS, Put_Hcd HS], d\<lparr>hs_hcd := None, ss_hcd := None\<rparr>)
     }"

definition dummy_hcd_suspend :: "hcd_sel \<Rightarrow> dummy_t \<Rightarrow> (int \<times> dummy_t) option" where
  "dummy_hcd_suspend w d =
     do {
       h \<leftarrow> hcd_of w d;
       if rh_state h = DUMMY_RH_RUNNING then Some (- EBUSY, d)
       else Some (0, set_hcd w (h\<lparr>hw_accessible := False\<rparr>) d)
     }"

definition dummy_hcd_resume :: "env \<Rightarrow> hcd_sel \<Rightarrow> dummy_t \<Rightarrow> (int \<times> dummy_t) option" where
  "dummy_hcd_resume env w d =
     do {
       h \<leftarrow> hcd_of w d;
       Some (0, poll_root_hub env w (set_hcd w (h\<lparr>hw_accessible := True\<rparr>) d))
     }"

section \<open>The module\<close>

text \<open>
  The platform core's answers are parameters, by the number of the device: whether an
  allocation succeeds, the result of each registration, and what the probes left behind.
\<close>

record platform =
  usb_disabled :: bool
  alloc_hcd_pdev :: "nat \<Rightarrow> bool"
  alloc_udc_pdev :: "nat \<Rightarrow> bool"
  kzalloc_dum :: "nat \<Rightarrow> bool"
  add_data_hcd :: "nat \<Rightarrow> int"
  add_data_udc :: "nat \<Rightarrow> int"
  register_hcd_driver :: int
  register_udc_driver :: int
  device_add_hcd :: "nat \<Rightarrow> int"
  has_hs_hcd :: "nat \<Rightarrow> bool"
  has_ss_hcd :: "nat \<Rightarrow> bool"
  device_add_udc :: "nat \<Rightarrow> int"
  has_drvdata :: "nat \<Rightarrow> bool"

datatype resource =
  Hcd_Pdev nat | Udc_Pdev nat | Dum nat | Hcd_Driver | Udc_Driver | Hcd_Added nat | Udc_Added nat

datatype mod_action = Get resource | Put resource

text \<open>
  The array of controllers lives on the stack: an element holds garbage until it is assigned,
  and freeing garbage is undefined. Freeing a null pointer does nothing.
\<close>

datatype dum_ptr = Garbage | Null | Allocated

primrec kfree_dums :: "(nat \<Rightarrow> dum_ptr) \<Rightarrow> nat list \<Rightarrow> mod_action list option" where
  "kfree_dums dum [] = Some []"
| "kfree_dums dum (i # is) =
     do {
       fs \<leftarrow> (case dum i of Garbage \<Rightarrow> None | Null \<Rightarrow> Some [] | Allocated \<Rightarrow> Some [Put (Dum i)]);
       rest \<leftarrow> kfree_dums dum is;
       Some (fs @ rest)
     }"

definition MAX_NUM_UDC :: nat where "MAX_NUM_UDC = 32"

text \<open>The error exits, each falling through to the next.\<close>

type_synonym init_result = "(int \<times> mod_action list) option"

definition err_alloc_udc :: "nat \<Rightarrow> int \<Rightarrow> mod_action list \<Rightarrow> init_result" where
  "err_alloc_udc n rc acts = Some (rc, acts @ map (\<lambda>i. Put (Hcd_Pdev i)) [0..<n])"

definition err_add_pdata :: "nat \<Rightarrow> (nat \<Rightarrow> dum_ptr) \<Rightarrow> int \<Rightarrow> mod_action list \<Rightarrow> init_result" where
  "err_add_pdata n dum rc acts =
     do {
       fs \<leftarrow> kfree_dums dum [0..<n];
       err_alloc_udc n rc (acts @ fs @ map (\<lambda>i. Put (Udc_Pdev i)) [0..<n])
     }"

definition err_register_udc_driver ::
  "nat \<Rightarrow> (nat \<Rightarrow> dum_ptr) \<Rightarrow> int \<Rightarrow> mod_action list \<Rightarrow> init_result" where
  "err_register_udc_driver n dum rc acts = err_add_pdata n dum rc (acts @ [Put Hcd_Driver])"

definition err_add_hcd ::
  "nat \<Rightarrow> (nat \<Rightarrow> dum_ptr) \<Rightarrow> int \<Rightarrow> mod_action list \<Rightarrow> init_result" where
  "err_add_hcd n dum rc acts = err_register_udc_driver n dum rc (acts @ [Put Udc_Driver])"

definition err_add_udc ::
  "nat \<Rightarrow> (nat \<Rightarrow> dum_ptr) \<Rightarrow> int \<Rightarrow> mod_action list \<Rightarrow> init_result" where
  "err_add_udc n dum rc acts =
     err_add_hcd n dum rc (acts @ map (\<lambda>i. Put (Hcd_Added i)) [0..<n])"

definition err_probe_udc ::
  "nat \<Rightarrow> (nat \<Rightarrow> dum_ptr) \<Rightarrow> int \<Rightarrow> mod_action list \<Rightarrow> init_result" where
  "err_probe_udc n dum rc acts =
     err_add_udc n dum rc (acts @ map (\<lambda>i. Put (Udc_Added i)) [0..<n])"

text \<open>
  A loop that acquires one resource for each device, and gives the acquired ones back from the
  last to the first when one fails. The result is the failing device, if any.
\<close>

definition acquire_all ::
  "(nat \<Rightarrow> bool) \<Rightarrow> (nat \<Rightarrow> resource) \<Rightarrow> nat \<Rightarrow> nat option \<times> mod_action list" where
  "acquire_all ok res n =
     (case List.find (\<lambda>i. \<not> ok i) [0..<n] of
        None \<Rightarrow> (None, map (\<lambda>i. Get (res i)) [0..<n])
      | Some i \<Rightarrow> (Some i, map (\<lambda>j. Get (res j)) [0..<i] @ map (\<lambda>j. Put (res j)) (rev [0..<i])))"

text \<open>The loop that allocates the controllers and hands them to their devices.\<close>

fun alloc_dums ::
  "platform \<Rightarrow> nat list \<Rightarrow> (nat \<Rightarrow> dum_ptr) \<Rightarrow> mod_action list
     \<Rightarrow> int option \<times> (nat \<Rightarrow> dum_ptr) \<times> mod_action list" where
  "alloc_dums pf [] dum acts = (None, dum, acts)"
| "alloc_dums pf (i # is) dum acts =
     (if \<not> kzalloc_dum pf i then (Some (- ENOMEM), dum(i := Null), acts)
      else let dum = dum(i := Allocated); acts = acts @ [Get (Dum i)] in
        if add_data_hcd pf i \<noteq> 0 then (Some (add_data_hcd pf i), dum, acts)
        else if add_data_udc pf i \<noteq> 0 then (Some (add_data_udc pf i), dum, acts)
        else alloc_dums pf is dum acts)"

text \<open>From the registration of the drivers on.\<close>

definition init_devices ::
  "dummy_hcd_module_parameters \<Rightarrow> platform \<Rightarrow> nat \<Rightarrow> (nat \<Rightarrow> dum_ptr) \<Rightarrow> mod_action list
     \<Rightarrow> init_result" where
  "init_devices mod_data pf n dum acts =
     (case acquire_all (\<lambda>i. \<not> device_add_hcd pf i < 0) Hcd_Added n of
        (Some i, new) \<Rightarrow> err_add_hcd n dum (device_add_hcd pf i) (acts @ new)
      | (None, new) \<Rightarrow>
          (let acts = acts @ new in
           if list_ex (\<lambda>i. \<not> has_hs_hcd pf i \<or> \<not> has_ss_hcd pf i \<and> is_super_speed mod_data) [0..<n]
           then err_add_udc n dum (- EINVAL) acts
           else (case acquire_all (\<lambda>i. \<not> device_add_udc pf i < 0) Udc_Added n of
                   (Some i, new) \<Rightarrow> err_add_udc n dum (device_add_udc pf i) (acts @ new)
                 | (None, new) \<Rightarrow>
                     (let acts = acts @ new in
                      if list_ex (\<lambda>i. \<not> has_drvdata pf i) [0..<n]
                      then err_probe_udc n dum (- EINVAL) acts
                      else Some (device_add_udc pf (n - 1), acts)))))"

definition init_drivers ::
  "dummy_hcd_module_parameters \<Rightarrow> platform \<Rightarrow> nat \<Rightarrow> (nat \<Rightarrow> dum_ptr) \<Rightarrow> mod_action list
     \<Rightarrow> init_result" where
  "init_drivers mod_data pf n dum acts =
     (if register_hcd_driver pf < 0 then err_add_pdata n dum (register_hcd_driver pf) acts
      else let acts = acts @ [Get Hcd_Driver] in
        if register_udc_driver pf < 0
        then err_register_udc_driver n dum (register_udc_driver pf) acts
        else init_devices mod_data pf n dum (acts @ [Get Udc_Driver]))"

definition init :: "dummy_hcd_module_parameters \<Rightarrow> platform \<Rightarrow> init_result" where
  "init mod_data pf =
     (if usb_disabled pf then Some (- ENODEV, [])
      else if \<not> is_high_speed mod_data \<and> is_super_speed mod_data then Some (- EINVAL, [])
      else if num mod_data < 1 \<or> unat (num mod_data) > MAX_NUM_UDC then Some (- EINVAL, [])
      else let n = unat (num mod_data) in
        case acquire_all (alloc_hcd_pdev pf) Hcd_Pdev n of
          (Some _, acts) \<Rightarrow> Some (- ENOMEM, acts)
        | (None, acts) \<Rightarrow>
            (case acquire_all (alloc_udc_pdev pf) Udc_Pdev n of
               (Some _, new) \<Rightarrow> err_alloc_udc n (- ENOMEM) (acts @ new)
             | (None, new) \<Rightarrow>
                 (case alloc_dums pf [0..<n] (\<lambda>_. Garbage) (acts @ new) of
                    (Some rc, dum, acts) \<Rightarrow> err_add_pdata n dum rc acts
                  | (None, dum, acts) \<Rightarrow> init_drivers mod_data pf n dum acts)))"

definition cleanup :: "dummy_hcd_module_parameters \<Rightarrow> mod_action list" where
  "cleanup mod_data =
     concat (map (\<lambda>i. [Put (Udc_Added i), Put (Udc_Pdev i), Put (Hcd_Added i), Put (Hcd_Pdev i),
                       Put (Dum i)]) [0..<unat (num mod_data)])
     @ [Put Udc_Driver, Put Hcd_Driver]"

section \<open>What loading and unloading hold\<close>

text \<open>
  Replaying the actions on the set of resources held: acquiring what is held already, or giving
  back what is not held, has no result.
\<close>

primrec replay :: "mod_action list \<Rightarrow> resource set \<Rightarrow> resource set option" where
  "replay [] s = Some s"
| "replay (a # as) s =
     (case a of
        Get r \<Rightarrow> if r \<in> s then None else replay as (insert r s)
      | Put r \<Rightarrow> if r \<in> s then replay as (s - {r}) else None)"

lemma replay_append [simp]: "replay (as @ bs) s = Option.bind (replay as s) (replay bs)"
  by (induction as arbitrary: s) (auto split: mod_action.splits)

lemma replay_gets:
  "inj f \<Longrightarrow> distinct xs \<Longrightarrow> f ` set xs \<inter> s = {} \<Longrightarrow>
     replay (map (\<lambda>i. Get (f i)) xs) s = Some (s \<union> f ` set xs)"
proof (induction xs arbitrary: s)
  case (Cons x xs)
  then have "f ` set xs \<inter> insert (f x) s = {}" by (auto simp: inj_eq)
  with Cons show ?case by simp
qed simp

lemma replay_puts:
  "inj f \<Longrightarrow> distinct xs \<Longrightarrow> f ` set xs \<subseteq> s \<Longrightarrow>
     replay (map (\<lambda>i. Put (f i)) xs) s = Some (s - f ` set xs)"
proof (induction xs arbitrary: s)
  case (Cons x xs)
  then have "f ` set xs \<subseteq> s - {f x}" by (auto simp: inj_eq)
  with Cons show ?case by (simp add: Diff_insert2 [symmetric])
qed simp

text \<open>The resources of the first devices, by kind.\<close>

definition all_of :: "(nat \<Rightarrow> resource) \<Rightarrow> nat \<Rightarrow> resource set" where
  "all_of f n = f ` {0..<n}"

lemma inj_resources: "inj Hcd_Pdev" "inj Udc_Pdev" "inj Dum" "inj Hcd_Added" "inj Udc_Added"
  by (auto intro: injI)

lemma acquire_all_None:
  assumes "acquire_all ok f n = (None, as)" and "inj f" and "all_of f n \<inter> s = {}"
  shows "replay as s = Some (s \<union> all_of f n)" "\<forall>i < n. ok i"
proof -
  have "as = map (\<lambda>i. Get (f i)) [0..<n]" and f: "List.find (\<lambda>i. \<not> ok i) [0..<n] = None"
    using assms(1) by (auto simp: acquire_all_def split: option.splits)
  then show "replay as s = Some (s \<union> all_of f n)"
    using replay_gets [of f "[0..<n]" s] assms(2,3) by (simp add: all_of_def)
  show "\<forall>i < n. ok i" using f by (auto simp: find_None_iff)
qed

lemma acquire_all_Some:
  assumes "acquire_all ok f n = (Some i, as)" and "inj f" and "all_of f n \<inter> s = {}"
  shows "replay as s = Some s" "i < n" "\<not> ok i"
proof -
  have as: "as = map (\<lambda>j. Get (f j)) [0..<i] @ map (\<lambda>j. Put (f j)) (rev [0..<i])"
    and f: "List.find (\<lambda>i. \<not> ok i) [0..<n] = Some i"
    using assms(1) by (auto simp: acquire_all_def split: option.splits)
  show i: "i < n" "\<not> ok i" using f by (auto simp: find_Some_iff)
  then have "all_of f i \<subseteq> all_of f n" by (auto simp: all_of_def)
  then have d: "all_of f i \<inter> s = {}" using assms(3) by blast
  have "replay (map (\<lambda>j. Get (f j)) [0..<i]) s = Some (s \<union> all_of f i)"
    using replay_gets [of f "[0..<i]" s] assms(2) d by (simp add: all_of_def)
  moreover have "replay (map (\<lambda>j. Put (f j)) (rev [0..<i])) (s \<union> all_of f i) = Some s"
    using replay_puts [of f "rev [0..<i]" "s \<union> all_of f i"] assms(2) d
    by (simp add: all_of_def Un_Diff Diff_triv Int_commute)
  ultimately show "replay as s = Some s" by (simp add: as)
qed

lemma kfree_dums_eq:
  "kfree_dums dum xs =
     (if \<exists>i \<in> set xs. dum i = Garbage then None
      else Some (map (\<lambda>i. Put (Dum i)) (filter (\<lambda>i. dum i = Allocated) xs)))"
  by (induction xs) (auto split: dum_ptr.splits)

definition dum_fails :: "platform \<Rightarrow> nat \<Rightarrow> bool" where
  "dum_fails pf i \<longleftrightarrow> \<not> kzalloc_dum pf i \<or> add_data_hcd pf i \<noteq> 0 \<or> add_data_udc pf i \<noteq> 0"

lemma alloc_dums_result:
  assumes "alloc_dums pf xs dum acts = (res, dum', acts')" and "distinct xs"
    and "\<forall>i \<in> set xs. dum i = Garbage"
  shows "acts' = acts @ map (\<lambda>i. Get (Dum i)) (filter (\<lambda>i. dum' i = Allocated) xs)"
    "i \<notin> set xs \<Longrightarrow> dum' i = dum i"
    "res = None \<longleftrightarrow> (\<forall>i \<in> set xs. \<not> dum_fails pf i)"
    "res = None \<Longrightarrow> \<forall>i \<in> set xs. dum' i = Allocated"
    "(\<exists>i \<in> set xs. dum' i = Garbage) \<longleftrightarrow> (\<exists>i \<in> set (butlast xs). dum_fails pf i)"
proof -
  have "acts' = acts @ map (\<lambda>i. Get (Dum i)) (filter (\<lambda>i. dum' i = Allocated) xs)
    \<and> (\<forall>i. i \<notin> set xs \<longrightarrow> dum' i = dum i)
    \<and> (res = None \<longleftrightarrow> (\<forall>i \<in> set xs. \<not> dum_fails pf i))
    \<and> (res = None \<longrightarrow> (\<forall>i \<in> set xs. dum' i = Allocated))
    \<and> ((\<exists>i \<in> set xs. dum' i = Garbage) \<longleftrightarrow> (\<exists>i \<in> set (butlast xs). dum_fails pf i))"
    using assms
  proof (induction xs arbitrary: dum acts)
    case Nil
    then show ?case by simp
  next
    case (Cons x xs)
    show ?case
    proof (cases "dum_fails pf x")
      case True
      then have "(\<forall>i. i \<noteq> x \<longrightarrow> dum' i = dum i) \<and> res \<noteq> None
         \<and> (dum' x = Null \<and> acts' = acts \<or> dum' x = Allocated \<and> acts' = acts @ [Get (Dum x)])"
        using Cons.prems(1) by (auto simp: dum_fails_def Let_def split: if_splits)
      moreover from this have "filter (\<lambda>i. dum' i = Allocated) xs = []"
        using Cons.prems(2,3) by (auto simp: filter_empty_conv)
      moreover have "\<forall>i \<in> set xs. i \<noteq> x \<and> dum i = Garbage" using Cons.prems(2,3) by auto
      ultimately show ?thesis using True Cons.prems(2,3) by (cases xs) auto
    next
      case False
      then have "alloc_dums pf xs (dum(x := Allocated)) (acts @ [Get (Dum x)]) = (res, dum', acts')"
        using Cons.prems(1) by (simp add: dum_fails_def Let_def)
      moreover have "\<forall>i \<in> set xs. (dum(x := Allocated)) i = Garbage" "distinct xs" "x \<notin> set xs"
        using Cons.prems(2,3) by auto
      ultimately have IH: "acts' = (acts @ [Get (Dum x)])
            @ map (\<lambda>i. Get (Dum i)) (filter (\<lambda>i. dum' i = Allocated) xs)"
          "\<forall>i. i \<notin> set xs \<longrightarrow> dum' i = (dum(x := Allocated)) i"
          "res = None \<longleftrightarrow> (\<forall>i \<in> set xs. \<not> dum_fails pf i)"
          "res = None \<longrightarrow> (\<forall>i \<in> set xs. dum' i = Allocated)"
          "(\<exists>i \<in> set xs. dum' i = Garbage) \<longleftrightarrow> (\<exists>i \<in> set (butlast xs). dum_fails pf i)"
        using Cons.IH by blast+
      have x: "dum' x = Allocated" using IH(2) \<open>x \<notin> set xs\<close> by simp
      have "(\<exists>i \<in> set (x # xs). dum' i = Garbage) \<longleftrightarrow> (\<exists>i \<in> set (butlast (x # xs)). dum_fails pf i)"
        using IH(5) x False by simp
      then show ?thesis using IH(1-4) x False by simp
    qed
  qed
  then show "acts' = acts @ map (\<lambda>i. Get (Dum i)) (filter (\<lambda>i. dum' i = Allocated) xs)"
    "i \<notin> set xs \<Longrightarrow> dum' i = dum i"
    "res = None \<longleftrightarrow> (\<forall>i \<in> set xs. \<not> dum_fails pf i)"
    "res = None \<Longrightarrow> \<forall>i \<in> set xs. dum' i = Allocated"
    "(\<exists>i \<in> set xs. dum' i = Garbage) \<longleftrightarrow> (\<exists>i \<in> set (butlast xs). dum_fails pf i)"
    by blast+
qed


text \<open>What is held at each error exit, and that the exit gives all of it back.\<close>

definition held_pdevs :: "nat \<Rightarrow> (nat \<Rightarrow> dum_ptr) \<Rightarrow> resource set" where
  "held_pdevs n dum =
     all_of Hcd_Pdev n \<union> all_of Udc_Pdev n \<union> Dum ` {i \<in> {0..<n}. dum i = Allocated}"

definition held_drivers :: "nat \<Rightarrow> (nat \<Rightarrow> dum_ptr) \<Rightarrow> resource set" where
  "held_drivers n dum = insert Udc_Driver (insert Hcd_Driver (held_pdevs n dum))"

definition loaded :: "nat \<Rightarrow> resource set" where
  "loaded n = all_of Hcd_Pdev n \<union> all_of Udc_Pdev n \<union> all_of Dum n \<union> {Hcd_Driver, Udc_Driver}
     \<union> all_of Hcd_Added n \<union> all_of Udc_Added n"

lemmas held_defs = held_pdevs_def held_drivers_def loaded_def all_of_def

definition released :: "int \<Rightarrow> init_result \<Rightarrow> bool" where
  "released rc res \<longleftrightarrow> (\<exists>acts. res = Some (rc, acts) \<and> replay acts {} = Some {})"

lemma err_alloc_udc_released:
  assumes "replay acts {} = Some (all_of Hcd_Pdev n)"
  shows "released rc (err_alloc_udc n rc acts)"
  using assms replay_puts [OF inj_resources(1), of "[0..<n]"]
  by (simp add: released_def err_alloc_udc_def all_of_def)

lemma err_add_pdata_released:
  assumes "replay acts {} = Some (held_pdevs n dum)" and "\<forall>i < n. dum i \<noteq> Garbage"
  shows "released rc (err_add_pdata n dum rc acts)"
proof -
  let ?f = "filter (\<lambda>i. dum i = Allocated) [0..<n]"
  have k: "kfree_dums dum [0..<n] = Some (map (\<lambda>i. Put (Dum i)) ?f)"
    using assms(2) by (auto simp: kfree_dums_eq)
  have "replay (map (\<lambda>i. Put (Dum i)) ?f) (held_pdevs n dum)
      = Some (held_pdevs n dum - Dum ` set ?f)"
    by (rule replay_puts [OF inj_resources(3)]) (auto simp: held_pdevs_def)
  moreover have "held_pdevs n dum - Dum ` set ?f = all_of Hcd_Pdev n \<union> all_of Udc_Pdev n"
    by (auto simp: held_defs)
  moreover have "replay (map (\<lambda>i. Put (Udc_Pdev i)) [0..<n]) (all_of Hcd_Pdev n \<union> all_of Udc_Pdev n)
      = Some (all_of Hcd_Pdev n \<union> all_of Udc_Pdev n - all_of Udc_Pdev n)"
    using replay_puts [OF inj_resources(2), of "[0..<n]"] by (simp add: all_of_def)
  moreover have "all_of Hcd_Pdev n \<union> all_of Udc_Pdev n - all_of Udc_Pdev n = all_of Hcd_Pdev n"
    by (auto simp: all_of_def)
  ultimately show ?thesis
    using assms(1) by (simp add: err_add_pdata_def k err_alloc_udc_released)
qed

lemma drivers_not_held [simp]:
  "Hcd_Driver \<notin> held_pdevs n dum" "Udc_Driver \<notin> held_pdevs n dum"
  by (auto simp: held_pdevs_def all_of_def)

lemma err_register_udc_driver_released:
  assumes "replay acts {} = Some (insert Hcd_Driver (held_pdevs n dum))"
    and "\<forall>i < n. dum i \<noteq> Garbage"
  shows "released rc (err_register_udc_driver n dum rc acts)"
  unfolding err_register_udc_driver_def
  by (rule err_add_pdata_released [OF _ assms(2)]) (simp add: assms(1))

lemma err_add_hcd_released:
  assumes "replay acts {} = Some (held_drivers n dum)" and "\<forall>i < n. dum i \<noteq> Garbage"
  shows "released rc (err_add_hcd n dum rc acts)"
  unfolding err_add_hcd_def
  by (rule err_register_udc_driver_released [OF _ assms(2)]) (simp add: assms(1) held_drivers_def)

lemma err_add_udc_released:
  assumes "replay acts {} = Some (held_drivers n dum \<union> all_of Hcd_Added n)"
    and "\<forall>i < n. dum i \<noteq> Garbage"
  shows "released rc (err_add_udc n dum rc acts)"
proof -
  have "held_drivers n dum \<union> all_of Hcd_Added n - all_of Hcd_Added n = held_drivers n dum"
    by (auto simp: held_defs)
  then show ?thesis
    unfolding err_add_udc_def
    using replay_puts [OF inj_resources(4), of "[0..<n]"]
    by (intro err_add_hcd_released [OF _ assms(2)]) (simp add: assms(1) all_of_def)
qed

lemma err_probe_udc_released:
  assumes "replay acts {} = Some (held_drivers n dum \<union> all_of Hcd_Added n \<union> all_of Udc_Added n)"
    and "\<forall>i < n. dum i \<noteq> Garbage"
  shows "released rc (err_probe_udc n dum rc acts)"
proof -
  have "held_drivers n dum \<union> all_of Hcd_Added n \<union> all_of Udc_Added n - all_of Udc_Added n
      = held_drivers n dum \<union> all_of Hcd_Added n"
    by (auto simp: held_defs)
  then show ?thesis
    unfolding err_probe_udc_def
    using replay_puts [OF inj_resources(5), of "[0..<n]"]
    by (intro err_add_udc_released [OF _ assms(2)]) (simp add: assms(1) all_of_def)
qed

text \<open>The two ways to load from the registration of the drivers on.\<close>

definition settled :: "nat \<Rightarrow> init_result \<Rightarrow> bool" where
  "settled n res \<longleftrightarrow> (\<exists>rc. rc < 0 \<and> released rc res)
     \<or> (\<exists>rc acts. 0 \<le> rc \<and> res = Some (rc, acts) \<and> replay acts {} = Some (loaded n))"

lemma settled_released: "rc < 0 \<Longrightarrow> released rc res \<Longrightarrow> settled n res"
  by (auto simp: settled_def)

lemma init_devices_settled:
  assumes acts: "replay acts {} = Some (held_drivers n dum)" and dum: "\<forall>i < n. dum i = Allocated"
    and n: "0 < n"
  shows "settled n (init_devices mod_data pf n dum acts)"
proof -
  have g: "\<forall>i < n. dum i \<noteq> Garbage" using dum by simp
  obtain r1 new1 where a1: "acquire_all (\<lambda>i. \<not> device_add_hcd pf i < 0) Hcd_Added n = (r1, new1)"
    by fastforce
  obtain r2 new2 where a2: "acquire_all (\<lambda>i. \<not> device_add_udc pf i < 0) Udc_Added n = (r2, new2)"
    by fastforce
  have d1: "all_of Hcd_Added n \<inter> held_drivers n dum = {}" by (auto simp: held_defs)
  have d2: "all_of Udc_Added n \<inter> (held_drivers n dum \<union> all_of Hcd_Added n) = {}"
    by (auto simp: held_defs)
  show ?thesis
  proof (cases r1)
    case (Some i)
    note f = acquire_all_Some [OF a1 [unfolded Some] inj_resources(4) d1]
    then show ?thesis
      using err_add_hcd_released [OF _ g, of "acts @ new1"] acts a1 Some
      by (intro settled_released) (auto simp: init_devices_def)
  next
    case None
    note ok = acquire_all_None [OF a1 [unfolded None] inj_resources(4) d1]
    have h1: "replay (acts @ new1) {} = Some (held_drivers n dum \<union> all_of Hcd_Added n)"
      using acts ok(1) by simp
    note e1 = err_add_udc_released [OF h1 g]
    show ?thesis
    proof (cases r2)
      case (Some i)
      note f = acquire_all_Some [OF a2 [unfolded Some] inj_resources(5) d2]
      have "replay ((acts @ new1) @ new2) {} = Some (held_drivers n dum \<union> all_of Hcd_Added n)"
        by (simp only: replay_append [of "acts @ new1"] h1 f(1) Option.bind.simps)
      note e2 = err_add_udc_released [OF this g, of "device_add_udc pf i"]
      show ?thesis
        using e1 [of "- EINVAL"] e2 f(3) a1 a2 None Some settled_released [of "- EINVAL"]
          settled_released [of "device_add_udc pf i"]
        by (simp add: init_devices_def Let_def)
    next
      case N2: None
      note ok2 = acquire_all_None [OF a2 [unfolded N2] inj_resources(5) d2]
      have h2: "replay ((acts @ new1) @ new2) {}
          = Some (held_drivers n dum \<union> all_of Hcd_Added n \<union> all_of Udc_Added n)"
        by (simp only: replay_append [of "acts @ new1"] h1 ok2(1) Option.bind.simps)
      have l: "held_drivers n dum \<union> all_of Hcd_Added n \<union> all_of Udc_Added n = loaded n"
        using dum by (auto simp: held_defs)
      have "0 \<le> device_add_udc pf (n - 1)" using ok2(2) n by (simp add: not_less)
      then have "settled n (Some (device_add_udc pf (n - 1), (acts @ new1) @ new2))"
        using h2 l by (auto simp: settled_def)
      then show ?thesis
        using e1 [of "- EINVAL"] err_probe_udc_released [OF h2 g, of "- EINVAL"] a1 a2 None N2
          settled_released [of "- EINVAL"]
        by (simp add: init_devices_def Let_def)
    qed
  qed
qed

lemma init_drivers_settled:
  assumes acts: "replay acts {} = Some (held_pdevs n dum)" and dum: "\<forall>i < n. dum i = Allocated"
    and n: "0 < n"
  shows "settled n (init_drivers mod_data pf n dum acts)"
proof -
  have g: "\<forall>i < n. dum i \<noteq> Garbage" using dum by simp
  have h: "replay (acts @ [Get Hcd_Driver]) {} = Some (insert Hcd_Driver (held_pdevs n dum))"
    using acts by simp
  have h2: "replay ((acts @ [Get Hcd_Driver]) @ [Get Udc_Driver]) {} = Some (held_drivers n dum)"
    using acts by (simp add: held_drivers_def)
  show ?thesis
    using settled_released [OF _ err_add_pdata_released [OF acts g]]
      settled_released [OF _ err_register_udc_driver_released [OF h g]]
      init_devices_settled [OF h2 dum n]
    by (simp add: init_drivers_def Let_def)
qed


text \<open>The module from its start, where the parameters are sound and the devices are there.\<close>

definition sound_parameters :: "dummy_hcd_module_parameters \<Rightarrow> bool" where
  "sound_parameters mod_data \<longleftrightarrow> (is_high_speed mod_data \<or> \<not> is_super_speed mod_data)
     \<and> num mod_data \<noteq> 0 \<and> unat (num mod_data) \<le> MAX_NUM_UDC"

text \<open>The platform core documents that adding data returns zero or an error number.\<close>

definition core_errors :: "platform \<Rightarrow> bool" where
  "core_errors pf \<longleftrightarrow> (\<forall>i. add_data_hcd pf i \<le> 0 \<and> add_data_udc pf i \<le> 0)"

lemma alloc_dums_error:
  "alloc_dums pf xs dum acts = (Some rc, dum', acts') \<Longrightarrow> core_errors pf \<Longrightarrow> rc < 0"
  by (induction xs arbitrary: dum acts)
    (auto simp: Let_def core_errors_def order.strict_iff_order split: if_splits)

lemma set_butlast_upt: "set (butlast [0..<n]) = {0..<n - 1}"
  by (cases n) simp_all

lemma init_cases:
  assumes "core_errors pf"
  shows "settled (unat (num mod_data)) (init mod_data pf)
    \<or> init mod_data pf = None \<and> (\<exists>i < unat (num mod_data) - 1. dum_fails pf i)"
    and "\<not> usb_disabled pf \<Longrightarrow> sound_parameters mod_data \<Longrightarrow>
      \<forall>i < unat (num mod_data). alloc_hcd_pdev pf i \<and> alloc_udc_pdev pf i \<Longrightarrow>
      \<exists>i < unat (num mod_data) - 1. dum_fails pf i \<Longrightarrow> init mod_data pf = None"
proof -
  let ?n = "unat (num mod_data)"
  define ok where "ok \<longleftrightarrow> \<not> usb_disabled pf \<and> sound_parameters mod_data"
  obtain r1 a1 where a1: "acquire_all (alloc_hcd_pdev pf) Hcd_Pdev ?n = (r1, a1)" by fastforce
  obtain r2 a2 where a2: "acquire_all (alloc_udc_pdev pf) Udc_Pdev ?n = (r2, a2)" by fastforce
  obtain r3 dum acts where a3: "alloc_dums pf [0..<?n] (\<lambda>_. Garbage) (a1 @ a2) = (r3, dum, acts)"
    by (cases "alloc_dums pf [0..<?n] (\<lambda>_. Garbage) (a1 @ a2)")
  have early: "settled ?n (init mod_data pf)" if "\<not> ok"
  proof -
    have "init mod_data pf = Some (- ENODEV, []) \<or> init mod_data pf = Some (- EINVAL, [])"
      using that by (auto simp: init_def ok_def sound_parameters_def)
    then show ?thesis
      using settled_released [of "- ENODEV"] settled_released [of "- EINVAL"]
      by (auto simp: released_def)
  qed
  have init: "init mod_data pf =
      (case r1 of Some _ \<Rightarrow> Some (- ENOMEM, a1)
       | None \<Rightarrow> (case r2 of Some _ \<Rightarrow> err_alloc_udc ?n (- ENOMEM) (a1 @ a2)
         | None \<Rightarrow> (case r3 of Some rc \<Rightarrow> err_add_pdata ?n dum rc acts
           | None \<Rightarrow> init_drivers mod_data pf ?n dum acts)))" if ok
    using that a1 a2 a3
    by (auto simp: init_def ok_def sound_parameters_def Let_def split: option.splits)
  note dums = alloc_dums_result [OF a3]
  have pdevs: "all_of Udc_Pdev ?n \<inter> all_of Hcd_Pdev ?n = {}" by (auto simp: all_of_def)
  have fail: "(\<exists>i < ?n. dum i = Garbage) \<longleftrightarrow> (\<exists>i < ?n - 1. dum_fails pf i)"
    using dums(5) by (simp add: set_butlast_upt Bex_def)
  have core: "settled ?n (init mod_data pf)
      \<or> init mod_data pf = None \<and> (\<exists>i < ?n - 1. dum_fails pf i)" if ok
  proof (cases "r1 = None \<and> r2 = None")
    case False
    then consider i where "r1 = Some i" | i where "r1 = None" "r2 = Some i" by auto
    then show ?thesis
    proof cases
      case 1
      then have "released (- ENOMEM) (init mod_data pf)"
        using init [OF that] acquire_all_Some(1) [OF a1 [unfolded 1] inj_resources(1), of "{}"]
        by (simp add: released_def)
      then show ?thesis using settled_released [of "- ENOMEM"] by simp
    next
      case 2
      have "released (- ENOMEM) (init mod_data pf)"
        using init [OF that] 2 acquire_all_None(1) [OF a1 [unfolded 2(1)] inj_resources(1), of "{}"]
          acquire_all_Some(1) [OF a2 [unfolded 2(2)] inj_resources(2) pdevs]
        by (simp add: err_alloc_udc_released)
      then show ?thesis using settled_released [of "- ENOMEM"] by simp
    qed
  next
    case True
    have "replay (a1 @ a2) {} = Some (all_of Hcd_Pdev ?n \<union> all_of Udc_Pdev ?n)"
      using acquire_all_None(1) [OF _ inj_resources(1), of "alloc_hcd_pdev pf" ?n a1 "{}"]
        acquire_all_None(1) [OF _ inj_resources(2) pdevs, of "alloc_udc_pdev pf" a2] a1 a2 True
      by simp
    moreover have "replay (map (\<lambda>i. Get (Dum i)) (filter (\<lambda>i. dum i = Allocated) [0..<?n]))
        (all_of Hcd_Pdev ?n \<union> all_of Udc_Pdev ?n) = Some (held_pdevs ?n dum)"
      by (subst replay_gets [OF inj_resources(3)]) (auto simp: held_pdevs_def all_of_def)
    moreover have "acts = (a1 @ a2) @ map (\<lambda>i. Get (Dum i)) (filter (\<lambda>i. dum i = Allocated) [0..<?n])"
      by (rule dums(1)) simp_all
    ultimately have held: "replay acts {} = Some (held_pdevs ?n dum)"
      by (simp only: replay_append [of "a1 @ a2"] Option.bind.simps)
    show ?thesis
    proof (cases r3)
      case (Some rc)
      then have "rc < 0" using alloc_dums_error a3 assms by blast
      show ?thesis
      proof (cases "\<exists>i < ?n. dum i = Garbage")
        case True
        then have "init mod_data pf = None"
          using init [OF that] Some \<open>r1 = None \<and> r2 = None\<close>
          by (auto simp: err_add_pdata_def kfree_dums_eq)
        then show ?thesis using True fail by simp
      next
        case False
        then have "released rc (init mod_data pf)"
          using init [OF that] Some \<open>r1 = None \<and> r2 = None\<close> err_add_pdata_released [OF held] by simp
        then show ?thesis using settled_released \<open>rc < 0\<close> by blast
      qed
    next
      case None
      have "0 < ?n" using that by (simp add: ok_def sound_parameters_def unat_gt_0)
      moreover have "\<forall>i < ?n. dum i = Allocated" using dums(4) None by simp
      ultimately show ?thesis using init [OF that] init_drivers_settled [OF held] None True by simp
    qed
  qed
  show "settled ?n (init mod_data pf)
    \<or> init mod_data pf = None \<and> (\<exists>i < ?n - 1. dum_fails pf i)"
    using early core by blast
  assume sound: "\<not> usb_disabled pf" "sound_parameters mod_data"
    and devs: "\<forall>i < ?n. alloc_hcd_pdev pf i \<and> alloc_udc_pdev pf i"
    and bad: "\<exists>i < ?n - 1. dum_fails pf i"
  have "r1 = None"
    using acquire_all_Some(2,3) [OF _ inj_resources(1) Int_empty_right, of "alloc_hcd_pdev pf" ?n] a1 devs
    by (cases r1) blast+
  moreover have "r2 = None"
    using acquire_all_Some(2,3) [OF _ inj_resources(2) Int_empty_right, of "alloc_udc_pdev pf" ?n] a2 devs
    by (cases r2) blast+
  moreover have "\<exists>i < ?n. dum_fails pf i" using bad by (meson diff_le_self order_less_le_trans)
  then obtain rc where "r3 = Some rc" using dums(3) by (cases r3) auto
  ultimately show "init mod_data pf = None"
    using init fail bad sound by (auto simp: ok_def err_add_pdata_def kfree_dums_eq)
qed


text \<open>Unloading gives back one device after the other.\<close>

lemma cleanup_step:
  "{Udc_Added i, Udc_Pdev i, Hcd_Added i, Hcd_Pdev i, Dum i} \<subseteq> s \<Longrightarrow>
     replay [Put (Udc_Added i), Put (Udc_Pdev i), Put (Hcd_Added i), Put (Hcd_Pdev i), Put (Dum i)] s
       = Some (s - {Udc_Added i, Udc_Pdev i, Hcd_Added i, Hcd_Pdev i, Dum i})"
  by (auto simp: insert_Diff_if)

definition of_devices :: "nat set \<Rightarrow> resource set" where
  "of_devices xs = Udc_Added ` xs \<union> Udc_Pdev ` xs \<union> Hcd_Added ` xs \<union> Hcd_Pdev ` xs \<union> Dum ` xs"

lemma cleanup_devices:
  assumes "distinct xs" and "of_devices (set xs) \<inter> s = {}"
  shows "replay (concat (map (\<lambda>i. [Put (Udc_Added i), Put (Udc_Pdev i), Put (Hcd_Added i),
      Put (Hcd_Pdev i), Put (Dum i)]) xs)) (of_devices (set xs) \<union> s) = Some s"
  using assms
proof (induction xs)
  case Nil
  then show ?case by (simp add: of_devices_def)
next
  case (Cons x xs)
  have "of_devices (set (x # xs)) \<union> s - {Udc_Added x, Udc_Pdev x, Hcd_Added x, Hcd_Pdev x, Dum x}
      = of_devices (set xs) \<union> s"
    using Cons.prems by (auto simp: of_devices_def)
  then have "replay [Put (Udc_Added x), Put (Udc_Pdev x), Put (Hcd_Added x), Put (Hcd_Pdev x), Put (Dum x)]
      (of_devices (set (x # xs)) \<union> s) = Some (of_devices (set xs) \<union> s)"
    by (subst cleanup_step) (auto simp: of_devices_def)
  moreover have "of_devices (set xs) \<inter> s = {}" using Cons.prems by (auto simp: of_devices_def)
  ultimately show ?case
    using Cons by (simp only: list.map concat.simps replay_append Option.bind.simps distinct.simps)
qed

lemma cleanup_releases: "replay (cleanup mod_data) (loaded (unat (num mod_data))) = Some {}"
proof -
  let ?n = "unat (num mod_data)"
  have "loaded ?n = of_devices (set [0..<?n]) \<union> {Udc_Driver, Hcd_Driver}"
    by (auto simp: loaded_def all_of_def of_devices_def)
  moreover have "of_devices (set [0..<?n]) \<inter> {Udc_Driver, Hcd_Driver} = {}"
    by (auto simp: of_devices_def)
  moreover have "replay [Put Udc_Driver, Put Hcd_Driver] {Udc_Driver, Hcd_Driver} = Some {}"
    by (auto simp: insert_Diff_if)
  ultimately show ?thesis
    using cleanup_devices [OF distinct_upt, of 0 ?n "{Udc_Driver, Hcd_Driver}"]
    by (simp only: cleanup_def replay_append Option.bind.simps)
qed

section \<open>Properties\<close>

text \<open>
  The one way loading can go wrong for good: the parameters are sound, all devices are allocated,
  and setting up a controller other than the last fails. The error exit then frees elements of an
  array on the stack that were never assigned.
\<close>

definition frees_unassigned :: "dummy_hcd_module_parameters \<Rightarrow> platform \<Rightarrow> bool" where
  "frees_unassigned mod_data pf \<longleftrightarrow> \<not> usb_disabled pf \<and> sound_parameters mod_data
     \<and> (\<forall>i < unat (num mod_data). alloc_hcd_pdev pf i \<and> alloc_udc_pdev pf i)
     \<and> (\<exists>i < unat (num mod_data) - 1. dum_fails pf i)"

lemma init_undefined:
  assumes "core_errors pf"
  shows "init mod_data pf = None \<longleftrightarrow> frees_unassigned mod_data pf"
proof
  assume none: "init mod_data pf = None"
  let ?n = "unat (num mod_data)"
  have "\<not> settled ?n (init mod_data pf)" using none by (simp add: settled_def released_def)
  then have bad: "\<exists>i < ?n - 1. dum_fails pf i" using init_cases(1) [OF assms, of mod_data] by blast
  have ok: "\<not> usb_disabled pf" "sound_parameters mod_data"
    using none by (auto simp: init_def sound_parameters_def split: if_splits)
  obtain r1 a1 where a1: "acquire_all (alloc_hcd_pdev pf) Hcd_Pdev ?n = (r1, a1)" by fastforce
  obtain r2 a2 where a2: "acquire_all (alloc_udc_pdev pf) Udc_Pdev ?n = (r2, a2)" by fastforce
  have r: "r1 = None" "r2 = None"
    using none ok a1 a2 by (auto simp: init_def sound_parameters_def err_alloc_udc_def Let_def split: if_splits option.splits)
  have "\<forall>i < ?n. alloc_hcd_pdev pf i" "\<forall>i < ?n. alloc_udc_pdev pf i"
    using acquire_all_None(2) [OF a1 [unfolded r] inj_resources(1) Int_empty_right]
      acquire_all_None(2) [OF a2 [unfolded r] inj_resources(2) Int_empty_right] by blast+
  then show "frees_unassigned mod_data pf" using ok bad by (simp add: frees_unassigned_def)
next
  assume "frees_unassigned mod_data pf"
  then show "init mod_data pf = None" using init_cases(2) [of pf mod_data] assms by (simp add: frees_unassigned_def)
qed


text \<open>
  Loading the module has an undefined outcome exactly when its parameters are sound, all
  devices are allocated, and setting up a controller other than the last fails: the error exit
  then frees the elements of the array on the stack that were never assigned.
\<close>

theorem init_frees_garbage:
  assumes "core_errors pf" and "\<not> usb_disabled pf" and "sound_parameters mod_data"
    and "\<forall>i < unat (num mod_data). alloc_hcd_pdev pf i \<and> alloc_udc_pdev pf i"
  shows "init mod_data pf = None \<longleftrightarrow> (\<exists>i < unat (num mod_data) - 1. dum_fails pf i)"
  using init_cases(1) [OF assms(1), of mod_data] init_cases(2) [OF assms(1-4)]
  by (auto simp: settled_def released_def)

text \<open>
  The listing of the queued transfers is the texts of all of them in the order of the
  queue, cut to what leaves room for the terminator in the one page it is given; the number
  returned is its length.
\<close>

theorem urbs_show_fits:
  "urbs_show ptr h =
     (let txt = take (PAGE_SIZE - 1)
        (concat (map (\<lambda>p. urb_text (ptr (urbp_id p)) (urbp_urb p)) (urbp_list h)))
      in (length txt, txt))"
proof -
  have "show_urbs ptr ps buf = take (PAGE_SIZE - 1)
      (buf @ concat (map (\<lambda>p. urb_text (ptr (urbp_id p)) (urbp_urb p)) ps))"
    if "length buf \<le> PAGE_SIZE - 1" for ps buf
    using that
  proof (induction ps arbitrary: buf)
    case Nil
    then show ?case by simp
  next
    case (Cons p ps)
    let ?t = "urb_text (ptr (urbp_id p)) (urbp_urb p)"
    have "take (PAGE_SIZE - length buf - 1) ?t = take (PAGE_SIZE - 1 - length buf) ?t" by simp
    moreover have "length (buf @ take (PAGE_SIZE - 1 - length buf) ?t) \<le> PAGE_SIZE - 1"
      using Cons.prems by simp
    moreover have "take (PAGE_SIZE - 1) ((buf @ take (PAGE_SIZE - 1 - length buf) ?t) @ rest)
        = take (PAGE_SIZE - 1) (buf @ ?t @ rest)" for rest
      using Cons.prems by (simp add: min_def)
    ultimately show ?case using Cons.IH by (simp add: show_urb_def scnprintf_def)
  qed
  then show ?thesis by (simp add: urbs_show_def Let_def)
qed

section \<open>Examples\<close>

definition good_platform :: platform where
  "good_platform = \<lparr>usb_disabled = False, alloc_hcd_pdev = (\<lambda>_. True), alloc_udc_pdev = (\<lambda>_. True),
     kzalloc_dum = (\<lambda>_. True), add_data_hcd = (\<lambda>_. 0), add_data_udc = (\<lambda>_. 0),
     register_hcd_driver = 0, register_udc_driver = 0, device_add_hcd = (\<lambda>_. 0),
     has_hs_hcd = (\<lambda>_. True), has_ss_hcd = (\<lambda>_. True), device_add_udc = (\<lambda>_. 0),
     has_drvdata = (\<lambda>_. True)\<rparr>"

definition two_controllers :: dummy_hcd_module_parameters where
  "two_controllers = \<lparr>is_super_speed = True, is_high_speed = True, num = 2\<rparr>"

lemma good_platform_errors: "core_errors good_platform"
  "core_errors (good_platform\<lparr>kzalloc_dum := k\<rparr>)"
  "core_errors (good_platform\<lparr>has_drvdata := g\<rparr>)"
  by (simp_all add: core_errors_def good_platform_def)


theorem init_frees_garbage_witness:
  "init two_controllers (good_platform\<lparr>kzalloc_dum := (\<lambda>i. i = 1)\<rparr>) = None
   \<and> init two_controllers (good_platform\<lparr>kzalloc_dum := (\<lambda>i. i = 0)\<rparr>) \<noteq> None"
  using init_frees_garbage [OF good_platform_errors(2), of "\<lambda>i. i = 1" two_controllers]
    init_frees_garbage [OF good_platform_errors(2), of "\<lambda>i. i = 0" two_controllers]
  by (simp add: good_platform_def two_controllers_def sound_parameters_def MAX_NUM_UDC_def dum_fails_def)

end
