(* ===== verification/Dummy_Controller.thy ===== *)
theory Dummy_Controller
  imports Dummy_Module
begin

text \<open>
  The controller as one component: every operation the gadget driver, the host side and the
  timer perform on it, in any order, and the invariant that all of them keep. The operations are
  those of the driver's operation tables (dummy\_ep\_ops, dummy\_ops, dummy\_hcd).
\<close>

section \<open>Operations\<close>

datatype dummy_op =
    Op_Enable nat usb_endpoint_descriptor
  | Op_Disable nat
  | Op_Alloc_Request nat nat
  | Op_Free_Request nat nat
  | Op_Fill nat usb_request
  | Op_Queue nat nat
  | Op_Dequeue nat nat
  | Op_Set_Halt nat int
  | Op_Set_Wedge nat
  | Op_Wakeup
  | Op_Set_Selfpowered int
  | Op_Pullup int
  | Op_Set_Speed usb_device_speed
  | Op_Start usb_gadget_driver
  | Op_Stop
  | Op_Udc_Suspend
  | Op_Udc_Resume
  | Op_Urb_Enqueue hcd_sel urbp urb
  | Op_Timer hcd_sel
  | Op_Tick
  | Op_Hub_Status hcd_sel "u8 list"
  | Op_Hub_Control hcd_sel u16 u16 u16 "u8 list" u16
  | Op_Bus_Suspend hcd_sel
  | Op_Bus_Resume hcd_sel
  | Op_Hcd_Suspend hcd_sel
  | Op_Hcd_Resume hcd_sel

text \<open>
  What the callers respect: endpoints are those of the table, a new request is not in use, the
  fields of a request change only while its driver owns it, and a request is queued with a
  buffer as long as it says and is not the controller's own.
\<close>

definition op_ok :: "dummy_op \<Rightarrow> dummy_t \<Rightarrow> bool" where
  "op_ok x d =
     (case x of
        Op_Disable i \<Rightarrow> i < DUMMY_ENDPOINTS
      | Op_Alloc_Request i r \<Rightarrow> \<not> queued r d
      | Op_Fill r q \<Rightarrow> \<not> queued r d
      | Op_Queue i r \<Rightarrow> driver_request r d
      | Op_Dequeue i r \<Rightarrow> i < DUMMY_ENDPOINTS
      | _ \<Rightarrow> True)"

definition do_op :: "env \<Rightarrow> dummy_op \<Rightarrow> dummy_t \<Rightarrow> dummy_t option" where
  "do_op env x d =
     (case x of
        Op_Enable i ds \<Rightarrow> map_option snd (dummy_enable (Some i) (Some ds) d)
      | Op_Disable i \<Rightarrow> map_option snd (dummy_disable env (Some i) d)
      | Op_Alloc_Request i r \<Rightarrow> Some (snd (dummy_alloc_request (Some r) (Some i) d))
      | Op_Free_Request i r \<Rightarrow> Some (snd (dummy_free_request (Some i) (Some r) d))
      | Op_Fill r q \<Rightarrow> Some (upd_req r (\<lambda>_. q) d)
      | Op_Queue i r \<Rightarrow> map_option snd (dummy_queue env (Some i) (Some r) d)
      | Op_Dequeue i r \<Rightarrow> Some (snd (dummy_dequeue env (Some i) (Some r) d))
      | Op_Set_Halt i v \<Rightarrow> Some (snd (dummy_set_halt (Some i) v d))
      | Op_Set_Wedge i \<Rightarrow> Some (snd (dummy_set_wedge (Some i) d))
      | Op_Wakeup \<Rightarrow> map_option snd (dummy_wakeup d)
      | Op_Set_Selfpowered v \<Rightarrow> map_option snd (dummy_set_selfpowered v d)
      | Op_Pullup v \<Rightarrow> map_option snd (dummy_pullup env v d)
      | Op_Set_Speed s \<Rightarrow> Some (dummy_udc_set_speed s d)
      | Op_Start drv \<Rightarrow> map_option snd (dummy_udc_start drv d)
      | Op_Stop \<Rightarrow> map_option snd (dummy_udc_stop env d)
      | Op_Udc_Suspend \<Rightarrow> map_option snd (dummy_udc_suspend env d)
      | Op_Udc_Resume \<Rightarrow> map_option snd (dummy_udc_resume env d)
      | Op_Urb_Enqueue w p u \<Rightarrow> map_option snd (dummy_urb_enqueue (Some p) 0 w u d)
      | Op_Timer w \<Rightarrow> dummy_timer env w d
      | Op_Tick \<Rightarrow> Some (d\<lparr>jiffies := jiffies d + 1\<rparr>)
      | Op_Hub_Status w buf \<Rightarrow> map_option (\<lambda>(rc, b, d). d) (dummy_hub_status env w buf d)
      | Op_Hub_Control w t v i buf n \<Rightarrow>
          map_option (\<lambda>(rc, b, d). d) (dummy_hub_control env w t v i buf n d)
      | Op_Bus_Suspend w \<Rightarrow> map_option snd (dummy_bus_suspend env w d)
      | Op_Bus_Resume w \<Rightarrow> map_option snd (dummy_bus_resume env w d)
      | Op_Hcd_Suspend w \<Rightarrow> map_option snd (dummy_hcd_suspend w d)
      | Op_Hcd_Resume w \<Rightarrow> map_option snd (dummy_hcd_resume env w d))"

definition dummy_step :: "env \<Rightarrow> dummy_op \<Rightarrow> dummy_t \<Rightarrow> dummy_t option" where
  "dummy_step env x d = (if op_ok x d then do_op env x d else None)"

section \<open>The invariant\<close>

lemma dummy_hcd_suspend_wf: "wf_dummy d \<Longrightarrow> dummy_hcd_suspend w d = Some (rc, d') \<Longrightarrow> wf_dummy d'"
  by (auto simp: dummy_hcd_suspend_def bind_eq_Some_conv split: if_splits)

lemma dummy_hcd_resume_wf:
  "env_ok env \<Longrightarrow> wf_dummy d \<Longrightarrow> dummy_hcd_resume env w d = Some (rc, d') \<Longrightarrow> wf_dummy d'"
  by (auto simp: dummy_hcd_resume_def bind_eq_Some_conv intro!: poll_root_hub_wf)

lemma tick_wf: "wf_dummy (d\<lparr>jiffies := t\<rparr>) = wf_dummy d"
  by (simp add: wf_dummy_def wf_queues_def queued_def)

lemmas operations_wf =
  dummy_enable_wf dummy_wakeup_wf dummy_set_selfpowered_wf dummy_udc_set_speed_wf
  dummy_udc_start_wf dummy_urb_enqueue_wf dummy_hcd_suspend_wf
  dummy_set_halt_wf dummy_set_wedge_wf dummy_free_request_wf

lemmas operations_env_wf =
  dummy_pullup_wf dummy_udc_stop_wf dummy_udc_suspend_wf dummy_udc_resume_wf dummy_timer_wf
  dummy_hub_status_wf dummy_hub_control_wf dummy_bus_suspend_wf dummy_bus_resume_wf
  dummy_hcd_resume_wf

lemma dummy_step_wf:
  assumes env: "env_ok env" and wf: "wf_dummy d" and step: "dummy_step env x d = Some d'"
  shows "wf_dummy d'"
  using step wf
  by (cases x; clarsimp simp: dummy_step_def do_op_def op_ok_def tick_wf wf_upd_req
        operations_wf(8-10) split: if_splits;
      blast intro: operations_wf operations_env_wf env dummy_disable_wf dummy_queue_wf
        dummy_dequeue_wf dummy_alloc_request_wf)

text \<open>A controller whose environment keeps its promises is a component.\<close>

locale controller =
  fixes env :: env
  assumes env: "env_ok env"
begin

lemma step_wf: "wf_dummy d \<Longrightarrow> dummy_step env x d = Some d' \<Longrightarrow> wf_dummy d'"
  by (rule dummy_step_wf [OF env])

end

sublocale controller \<subseteq> component "dummy_step env" wf_dummy
  by unfold_locales (rule step_wf)

interpretation idle_controller: controller idle_env
  by unfold_locales simp

lemma controller_component: "env_ok env \<Longrightarrow> component (dummy_step env) wf_dummy"
  by unfold_locales (rule dummy_step_wf)

text \<open>
  What the invariant means for the queues, in terms of the endpoints.
\<close>

lemma wf_dummy_queues:
  assumes "wf_dummy d" and "i < DUMMY_ENDPOINTS" and "j < DUMMY_ENDPOINTS"
    and "r \<in> set (queue (ep d ! i))" and "r \<in> set (queue (ep d ! j))"
  shows "i = j"
proof (rule ccontr)
  assume "i \<noteq> j"
  have len: "length (ep d) = DUMMY_ENDPOINTS" and dist: "distinct (concat (map queue (ep d)))"
    using assms(1) by (simp_all add: wf_dummy_def wf_queues_def)
  have "r \<notin> set (concat ((map queue (ep d))[i := remove1 r (queue (ep d ! i))]))"
  proof -
    obtain xs ys where "queue (ep d ! i) = xs @ r # ys" "remove1 r (queue (ep d ! i)) = xs @ ys"
      using remove1_split [OF assms(4)] by blast
    then show ?thesis
      using distinct_concat_remove [OF dist, of i xs r ys] assms(2) len by simp
  qed
  moreover have "queue (ep d ! j) \<in> set ((map queue (ep d))[i := remove1 r (queue (ep d ! i))])"
    using \<open>i \<noteq> j\<close> assms(3) len by (auto simp: in_set_conv_nth intro!: exI [of _ j])
  ultimately show False using assms(5) by auto
qed

section \<open>Properties\<close>



end
