(* ===== verification/Dummy_Frame.thy ===== *)
theory Dummy_Frame
  imports Dummy_Timer
begin

text \<open>
  A tick of the scheduler ends (dummy\_hcd.c, lines 1756 to 1981). Its loop starts over whenever it
  has given a transfer back, and completion handlers may queue new transfers meanwhile; what ends
  it is the mark of the first transfer of the next frame.
\<close>

section \<open>What the callbacks leave alone\<close>

text \<open>The transfers of this frame: those before the mark.\<close>

definition frame :: "dummy_hcd \<Rightarrow> urbp list" where
  "frame h = takeWhile (\<lambda>p. next_frame_urbp h \<noteq> Some (urbp_id p)) (urbp_list h)"

definition frame_cfg :: "dummy_t \<Rightarrow> usb_device_speed \<times> (nat \<times> usb_endpoint_descriptor option) list" where
  "frame_cfg d = (speed (gadget d), map (\<lambda>e. (maxpacket e, desc e)) (ep d))"

text \<open>
  The stale requests a setup packet may still find on endpoint 0: none once the endpoint was seen
  in this frame.
\<close>

definition stale :: "dummy_t \<Rightarrow> nat" where
  "stale d = (if already_seen (ep d ! 0) then 0 else Suc (length (queue (ep d ! 0))))"

definition leaves :: "dummy_t \<Rightarrow> dummy_t \<Rightarrow> bool" where
  "leaves d d' \<longleftrightarrow> (\<forall>w. hcd_of w d' = hcd_of w d) \<and> frame_cfg d' = frame_cfg d
     \<and> already_seen (ep d' ! 0) = already_seen (ep d ! 0)"

text \<open>
  The handlers of the gadget driver do not touch the hubs, the endpoints' settings or the scheduler's
  flags; the one of a completed request does not queue on endpoint 0, the one of a setup packet may.
\<close>

definition gadget_leaves :: "env \<Rightarrow> bool" where
  "gadget_leaves env \<longleftrightarrow>
     (\<forall>i r d. leaves d (giveback_request env i r d)
        \<and> length (queue (ep (giveback_request env i r d) ! 0)) \<le> length (queue (ep d ! 0)))
     \<and> (\<forall>c d. leaves d (snd (drv_setup env c d)))"

text \<open>
  The completion handlers of the host queue transfers at the end of the list, the first of which
  marks the next frame.
\<close>

definition extended :: "dummy_hcd \<Rightarrow> dummy_hcd \<Rightarrow> bool" where
  "extended h h' \<longleftrightarrow> (\<exists>new. urbp_list h' = urbp_list h @ new
     \<and> distinct (map urbp_id new) \<and> urbp_id ` set new \<inter> urbp_id ` set (urbp_list h) = {}
     \<and> next_frame_urbp h' = (if next_frame_urbp h = None \<and> new \<noteq> [] then Some (urbp_id (hd new))
                             else next_frame_urbp h))"

definition host_appends :: "env \<Rightarrow> bool" where
  "host_appends env \<longleftrightarrow> (\<forall>w u st d. frame_cfg (giveback_urb env w u st d) = frame_cfg d
     \<and> (\<forall>w'. (hcd_of w' (giveback_urb env w u st d) = None) = (hcd_of w' d = None))
     \<and> (\<forall>h h'. hcd_of w d = Some h \<longrightarrow> hcd_of w (giveback_urb env w u st d) = Some h' \<longrightarrow> extended h h'))"

section \<open>The state between two visits\<close>

text \<open>Control transfers are not scattered and are queued as control transfers.\<close>

definition entry_ready :: "urbp \<Rightarrow> bool" where
  "entry_ready p \<longleftrightarrow> urb_ready p \<and> (usb_pipeendpoint (urb_pipe (urbp_urb p)) = 0 \<longrightarrow>
     num_sgs (urbp_urb p) = 0 \<and> usb_pipetype (urb_pipe (urbp_urb p)) \<notin> {PIPE_ISOCHRONOUS, PIPE_INTERRUPT})"

definition hub_ok :: "nat set \<Rightarrow> dummy_hcd \<Rightarrow> bool" where
  "hub_ok X h \<longleftrightarrow> distinct (map urbp_id (urbp_list h))
     \<and> (\<forall>k. next_frame_urbp h = Some k \<longrightarrow> k \<in> urbp_id ` set (urbp_list h))
     \<and> (\<forall>p \<in> set (frame h). urbp_id p \<notin> X \<longrightarrow> entry_ready p)"

definition good_eps :: "(nat \<times> usb_endpoint_descriptor option) list \<Rightarrow> bool" where
  "good_eps cs \<longleftrightarrow> (\<forall>i < length cs. i = 0 \<or> snd (cs ! i) \<noteq> None \<longrightarrow> 0 < fst (cs ! i) \<and> fst (cs ! i) < 2 ^ 16)"

definition frame_ok :: "hcd_sel \<Rightarrow> nat set \<Rightarrow> dummy_t \<Rightarrow> bool" where
  "frame_ok w X d \<longleftrightarrow> wf_dummy d \<and> hcd_of (gadget_to_dummy_hcd d) d \<noteq> None
     \<and> good_eps (snd (frame_cfg d)) \<and> (\<exists>h. hcd_of w d = Some h \<and> hub_ok X h)"

lemma frame_okD:
  assumes "frame_ok w X d"
  shows "wf_dummy d" "hcd_of (gadget_to_dummy_hcd d) d \<noteq> None" "good_eps (snd (frame_cfg d))"
    "hcd_of w d = Some h \<Longrightarrow> hub_ok X h" "\<exists>h. hcd_of w d = Some h"
  using assms by (auto simp: frame_ok_def)

lemma takeWhile_filter:
  "\<forall>x \<in> set xs. \<not> Q x \<longrightarrow> P x \<Longrightarrow> takeWhile P (filter Q xs) = filter Q (takeWhile P xs)"
  by (induction xs) auto

lemma extended_ok:
  assumes "hub_ok X h" and "extended h h'"
  shows "frame h' = frame h" and "hub_ok X h'"
proof -
  obtain new where new: "urbp_list h' = urbp_list h @ new" "distinct (map urbp_id new)"
      "urbp_id ` set new \<inter> urbp_id ` set (urbp_list h) = {}"
      "next_frame_urbp h' = (if next_frame_urbp h = None \<and> new \<noteq> [] then Some (urbp_id (hd new)) else next_frame_urbp h)"
    using assms(2) by (auto simp: extended_def)
  show fr: "frame h' = frame h"
  proof (cases "next_frame_urbp h")
    case None
    then have old: "frame h = urbp_list h" by (simp add: frame_def)
    show ?thesis
    proof (cases new)
      case Nil
      then show ?thesis using new None by (simp add: frame_def)
    next
      case (Cons n ns)
      have "urbp_id n \<noteq> urbp_id p" if "p \<in> set (urbp_list h)" for p
        using new(3) imageI [OF that, of urbp_id] Cons by auto
      then show ?thesis using new(1,4) None Cons old by (simp add: frame_def takeWhile_append2 takeWhile_eq_all_conv [THEN iffD2])
    qed
  next
    case (Some k)
    then obtain p where "p \<in> set (urbp_list h)" "urbp_id p = k"
      using assms(1) by (auto simp: hub_ok_def)
    then show ?thesis using new(1,4) Some takeWhile_append1 [of p] by (simp add: frame_def)
  qed
  have "distinct (map urbp_id (urbp_list h'))" using assms(1) new(1-3) by (auto simp: hub_ok_def)
  moreover have "k \<in> urbp_id ` set (urbp_list h')" if "next_frame_urbp h' = Some k" for k
    using that assms(1) new(1,4) by (cases new) (auto simp: hub_ok_def split: if_splits)
  ultimately show "hub_ok X h'" using assms(1) fr by (simp add: hub_ok_def)
qed

section \<open>What a visit changes before it ends\<close>

text \<open>
  The entry visited may have moved bytes; the others, the settings of the endpoints and the other
  hub stay, and endpoint 0 has no more stale requests.
\<close>

definition same_role :: "nat \<Rightarrow> urbp \<Rightarrow> urbp \<Rightarrow> bool" where
  "same_role k p q \<longleftrightarrow> urbp_id q = urbp_id p \<and> urb_pipe (urbp_urb q) = urb_pipe (urbp_urb p)
     \<and> num_sgs (urbp_urb q) = num_sgs (urbp_urb p) \<and> unlinked (urbp_urb q) = unlinked (urbp_urb p)
     \<and> (urbp_id p \<noteq> k \<longrightarrow> q = p)"

definition touched :: "hcd_sel \<Rightarrow> nat \<Rightarrow> dummy_t \<Rightarrow> dummy_t \<Rightarrow> bool" where
  "touched w k d d' \<longleftrightarrow> frame_cfg d' = frame_cfg d \<and> stale d' \<le> stale d
     \<and> (\<forall>w'. w' \<noteq> w \<longrightarrow> hcd_of w' d' = hcd_of w' d)
     \<and> (hcd_of w d = None \<longrightarrow> hcd_of w d' = None)
     \<and> (\<forall>h. hcd_of w d = Some h \<longrightarrow> distinct (map urbp_id (urbp_list h)) \<longrightarrow>
          (\<exists>ps. hcd_of w d' = Some (h\<lparr>urbp_list := ps\<rparr>) \<and> list_all2 (same_role k) (urbp_list h) ps))"

lemma same_role_refl [simp]: "same_role k p p"
  by (simp add: same_role_def)

lemma same_role_trans: "same_role k p q \<Longrightarrow> same_role k q r \<Longrightarrow> same_role k p r"
  by (simp add: same_role_def)

lemma same_role_ids: "list_all2 (same_role k) ps qs \<Longrightarrow> map urbp_id qs = map urbp_id ps"
  by (induction rule: list_all2_induct) (simp_all add: same_role_def)

lemma touched_refl [simp]: "touched w k d d"
  unfolding touched_def by (auto intro!: exI [of _ "urbp_list _"] list_all2_refl)

lemma touched_trans:
  assumes "touched w k a b" and "touched w k b c"
  shows "touched w k a c"
proof -
  have "\<exists>ps. hcd_of w c = Some (h\<lparr>urbp_list := ps\<rparr>) \<and> list_all2 (same_role k) (urbp_list h) ps"
    if h: "hcd_of w a = Some h" "distinct (map urbp_id (urbp_list h))" for h
  proof -
    obtain ps where ps: "hcd_of w b = Some (h\<lparr>urbp_list := ps\<rparr>)" "list_all2 (same_role k) (urbp_list h) ps"
      using assms(1) h by (auto simp: touched_def)
    then obtain qs where qs: "hcd_of w c = Some (h\<lparr>urbp_list := qs\<rparr>)" "list_all2 (same_role k) ps qs"
      using assms(2) h same_role_ids [OF ps(2)] by (force simp: touched_def)
    have "list_all2 (same_role k) (urbp_list h) qs"
      by (rule list_all2_trans [OF _ ps(2) qs(2)]) (rule same_role_trans)
    then show ?thesis using qs(1) by blast
  qed
  moreover have "hcd_of w c = None" if "hcd_of w a = None" using that assms by (simp add: touched_def)
  ultimately show ?thesis using assms by (auto simp: touched_def)
qed

lemma touched_upd_ep:
  assumes "\<And>e. maxpacket (f e) = maxpacket e" "\<And>e. desc (f e) = desc e"
    "\<And>e. length (queue (f e)) \<le> length (queue e)" "\<And>e. already_seen e \<Longrightarrow> already_seen (f e)"
  shows "touched w k d (upd_ep i f d)"
proof -
  have "map (\<lambda>e. (maxpacket e, desc e)) (ep (upd_ep i f d)) = map (\<lambda>e. (maxpacket e, desc e)) (ep d)"
    by (cases "i < length (ep d)") (simp_all add: map_update assms(1,2) list_update_same_conv list_update_beyond)
  moreover have "stale (upd_ep i f d) \<le> stale d"
    by (cases i; cases "ep d") (use assms(3,4) in \<open>auto simp: stale_def nth_list_update\<close>)
  ultimately show ?thesis
    by (auto simp: touched_def frame_cfg_def intro!: exI [of _ "urbp_list _"] list_all2_refl)
qed

lemma touched_upd_req [simp]: "touched w k d (upd_req r f d')= touched w k d d'"
  by (simp add: touched_def frame_cfg_def stale_def)

lemma touched_fields [simp]:
  "touched w k d (log_event e d') = touched w k d d'"
  "touched w k d (d'\<lparr>address := a\<rparr>) = touched w k d d'"
  "touched w k d (d'\<lparr>devstatus := s\<rparr>) = touched w k d d'"
  "touched w k d (d'\<lparr>callback_usage := c\<rparr>) = touched w k d d'"
  by (simp_all add: touched_def frame_cfg_def stale_def)

lemma touched_put:
  assumes "get_urbp w k d = Some p" and "same_role k p p'"
  shows "touched w k d (put_urbp w p' d)"
proof -
  have id: "urbp_id p = k" by (rule get_urbp_id [OF assms(1)])
  have "list_all2 (same_role k) ps (map (\<lambda>q. if urbp_id q = urbp_id p' then p' else q) ps)"
    if "distinct (map urbp_id ps)" "List.find (\<lambda>q. urbp_id q = k) ps = Some p" for ps
    unfolding list_all2_map2
  proof (rule list_all2_same [THEN iffD2], intro ballI)
    fix q assume q: "q \<in> set ps"
    have "q = p" if "urbp_id q = k"
      using that q id \<open>distinct (map urbp_id ps)\<close> \<open>List.find _ ps = Some p\<close>
      by (auto simp: find_Some_iff in_set_conv_nth distinct_conv_nth)
    then show "same_role k q (if urbp_id q = urbp_id p' then p' else q)"
      using assms(2) id by (simp add: same_role_def)
  qed
  then show ?thesis
    using assms(1)
    by (auto simp: touched_def frame_cfg_def stale_def put_urbp_def get_urbp_def upd_hcd_def set_hcd_def hcd_of_def
        split: option.splits hcd_sel.splits)
qed

lemma touched_giveback:
  assumes "gadget_leaves env"
  shows "touched w k d (giveback env i r d)"
proof -
  let ?d = "log_event (Giveback i r (rq_status (reqs d r)) (rq_actual (reqs d r))) d"
  have "leaves ?d (giveback env i r d)"
    "length (queue (ep (giveback env i r d) ! 0)) \<le> length (queue (ep ?d ! 0))"
    using assms unfolding gadget_leaves_def giveback_def by blast+
  then have "touched w k ?d (giveback env i r d)"
    by (auto simp: touched_def leaves_def stale_def intro!: exI [of _ "urbp_list _"] list_all2_refl)
  then show ?thesis by (rule touched_trans [rotated]) simp
qed

lemma giveback_queue0:
  "gadget_leaves env \<Longrightarrow> length (queue (ep (giveback env i r d) ! 0)) \<le> length (queue (ep d ! 0))"
  unfolding gadget_leaves_def giveback_def by (metis log_event_simps(2))

lemma move_data_role:
  assumes "move_data env maxp len x = Some (Data_Moved b mv y)" and "urbp_id (x_urbp x) = k"
  shows "same_role k (x_urbp x) (x_urbp y)"
  using move_data_result [OF assms(1)] assms(2)
  by (auto simp: moved_by_def failed_by_def same_urbp_def same_urb_def same_role_def)

lemma transfer_one_touched:
  assumes env: "gadget_leaves env" and "transfer_one env w k i r limit sent st d = Some (f, limit', sent', st', d')"
  shows "touched w k d d'"
  using assms(2)
proof (cases rule: transfer_one_cases)
  case skip
  then show ?thesis by simp
next
  case (pass h p x b mv y g)
  let ?z = "settle b (transfer_buffer_length (urbp_urb p) - actual_length (urbp_urb p))
      (rq_length (reqs d r) - rq_actual (reqs d r)) y"
  let ?d0 = "put_urbp w (x_urbp y) (upd_ep i g d)"
  let ?d1 = "upd_req r (\<lambda>_. x_req ?z) ?d0"
  let ?d2 = "upd_ep i (\<lambda>e. e\<lparr>queue := remove1 r (queue e)\<rparr>) ?d1"
  have "same_role k p (x_urbp y)"
    using move_data_role [OF pass(4)] get_urbp_id [OF pass(2)] pass(3) by simp
  then have "touched w k (upd_ep i g d) ?d0" by (intro touched_put) (use pass(2) in simp_all)
  moreover have "touched w k d (upd_ep i g d)" by (rule touched_upd_ep) (use pass(5,7) in simp_all)
  ultimately have 1: "touched w k d ?d1" by (auto intro: touched_trans)
  moreover have "touched w k ?d1 ?d2" by (rule touched_upd_ep) (auto simp: length_remove1)
  ultimately have "touched w k d (giveback env i r ?d2)"
    using touched_giveback [OF env] touched_trans by blast
  then show ?thesis using 1 pass(6) by (auto simp: Let_def)
qed

lemma transfer_loop_touched:
  assumes "gadget_leaves env" and "transfer_loop env w k i rs limit sent st d = Some res"
  shows "touched w k d (snd (snd res))"
proof -
  have "env0 = env \<longrightarrow> touched w k d (snd (snd res))"
    if "transfer_loop env0 w k i rs limit sent st d = Some res" for env0
  proof (rule transfer_loop.raw_induct [where P = "\<lambda>env0 w k i rs limit sent st d res.
      env0 = env \<longrightarrow> touched w k d (snd (snd res))", OF _ that])
    fix loop env0 w k i rs limit sent st d res
    assume IH: "\<And>env0 w k i rs limit sent st d res. loop env0 w k i rs limit sent st d = Some res \<Longrightarrow>
        env0 = env \<longrightarrow> touched w k d (snd (snd res))"
      and eq: "(case rs of [] \<Rightarrow> Some (sent, st, d)
          | r # rs \<Rightarrow> transfer_one env0 w k i r limit sent st d \<bind>
              (\<lambda>(f, limit, sent, st, d).
                 case f of Stop \<Rightarrow> Some (sent, st, d)
                 | Rescan \<Rightarrow> loop env0 w k i (queue (ep d ! i)) limit sent st d
                 | Advance \<Rightarrow> loop env0 w k i rs limit sent st d)) = Some res"
    show "env0 = env \<longrightarrow> touched w k d (snd (snd res))"
    proof
      assume e: "env0 = env"
      show "touched w k d (snd (snd res))"
      proof (cases rs)
        case Nil
        with eq show ?thesis by auto
      next
        case (Cons r rs')
        then obtain f l s t d1 where one: "transfer_one env w k i r limit sent st d = Some (f, l, s, t, d1)"
          using eq e by (auto simp: bind_eq_Some_conv)
        note step = transfer_one_touched [OF assms(1) one]
        have "f \<noteq> Stop \<longrightarrow> touched w k d1 (snd (snd res))"
          using eq e Cons one IH by (cases f) auto
        then show ?thesis
          using step eq e Cons one touched_trans by (cases f) auto
      qed
    qed
  qed
  with assms(2) show ?thesis by blast
qed

lemma frame_cfg_maxpackets: "map maxpacket (ep d) = map fst (snd (frame_cfg d))"
  by (simp add: frame_cfg_def)

lemma gadget_leaves_wire: "gadget_leaves env \<Longrightarrow> leaves_wire env"
  by (simp add: gadget_leaves_def leaves_wire_def leaves_def frame_cfg_maxpackets)

lemma transfer_ready:
  assumes "sg_iterator env" and "env_ok env" and "gadget_leaves env" and "i < DUMMY_ENDPOINTS"
    and "on_wire w k i p d" and "0 \<le> limit" and "limit < 2 ^ 31"
  obtains sent st' d' p' where "transfer env w k i limit st d = Some (sent, st', d')" "0 \<le> sent"
    "touched w k d d'" "on_wire w k i p' d'"
proof -
  note wire = gadget_leaves_wire [OF assms(3)]
  obtain sent st' d' where t: "transfer env w k i limit st d = Some (sent, st', d')" "0 \<le> sent"
    using transfer_returns [OF assms(1,2) wire assms(4-7)] by blast
  then obtain s where loop: "transfer_loop env w k i (queue (ep d ! i)) (word_of_int limit) 0 st d = Some (s, st', d')"
    by (auto simp: transfer_def bind_eq_Some_conv)
  then obtain p' where "on_wire w k i p' d'"
    using transfer_loop_ready [OF assms(1,2) wire assms(4) order_refl assms(5), of "word_of_int limit" 0 st] by auto
  then show ?thesis using that t transfer_loop_touched [OF assms(3) loop] by simp
qed

section \<open>Standard requests on the wire\<close>

lemma touched_gadget:
  "speed g = speed (gadget d') \<Longrightarrow> touched w k d (d'\<lparr>gadget := g\<rparr>) = touched w k d d'"
  by (simp add: touched_def frame_cfg_def stale_def)

lemma set_device_feature_touched:
  "set_device_feature h v st d = (rv, st', d') \<Longrightarrow> touched w k d d'"
  by (auto simp: set_device_feature_def Let_def split_def touched_gadget split: if_splits)

lemma clear_device_feature_touched:
  "clear_device_feature h v st d = (rv, st', d') \<Longrightarrow> touched w k d d'"
  by (auto simp: clear_device_feature_def Let_def split_def split: if_splits)

lemma get_status_touched:
  assumes "get_status w k setup st d = Some (rv, st', d')"
  shows "touched w k d d'"
proof -
  obtain p where p: "get_urbp w k d = Some p" using assms by (auto simp: get_status_def bind_eq_Some_conv)
  have "d' = d \<or> (\<exists>b n. d' = put_urbp w (p\<lparr>urbp_urb := (urbp_urb p)\<lparr>transfer_buffer := b, actual_length := n\<rparr>\<rparr>) d)"
    using assms p unfolding get_status_def Let_def bind_eq_Some_conv
    by (elim exE conjE) (auto simp: bind_eq_Some_conv split: option.splits)
  moreover have "same_role k p (p\<lparr>urbp_urb := (urbp_urb p)\<lparr>transfer_buffer := b, actual_length := n\<rparr>\<rparr>)" for b n
    using get_urbp_id [OF p] by (simp add: same_role_def)
  ultimately show ?thesis using touched_put [OF p] by auto
qed

lemma handle_control_touched:
  assumes "handle_control_request w k setup st d = Some (rv, st', d')"
  shows "touched w k d d'"
proof -
  have halt: "touched w k d (upd_ep i (\<lambda>e. e\<lparr>halted := b\<rparr>) d)" for i b by (rule touched_upd_ep) simp_all
  show ?thesis
    using assms halt
    by (auto simp: handle_control_request_def Let_def bind_eq_Some_conv
        dest: set_device_feature_touched clear_device_feature_touched get_status_touched
        split: if_splits option.splits)
qed

lemma handle_control_hands_on:
  assumes "handle_control_request w k setup st d = Some (rv, st', d')" and "0 < rv"
  shows "d' = d \<and> st' = st"
  using assms
  by (auto simp: handle_control_request_def Let_def bind_eq_Some_conv split: if_splits option.splits
      dest!: set_device_feature_result clear_device_feature_result get_status_result)

lemma handle_control_defined:
  assumes "hcd_of (gadget_to_dummy_hcd d) d \<noteq> None" and "get_urbp w k d = Some p" and "urb_ready p"
    and "num_sgs (urbp_urb p) = 0"
  shows "\<exists>rv st' d'. handle_control_request w k setup st d = Some (rv, st', d')"
proof -
  obtain h where h: "hcd_of w d = Some h" using assms(2) by (auto simp: get_urbp_def split: option.splits)
  have find: "\<exists>e. find_endpoint a d = Some e" for a
    using assms(1) by (auto simp: find_endpoint_def)
  have buf: "unat (transfer_buffer_length (urbp_urb p)) \<le> length (transfer_buffer (urbp_urb p))"
    using assms(3,4) by (simp add: urb_ready_def Let_def)
  then have "\<exists>res. get_status w k setup st d = Some res"
    using assms(2) find [of "ucast (wIndex setup)"]
    by (auto simp: get_status_def Let_def store_byte_def word_less_nat_alt split: option.split)
  then show ?thesis
    using h find [of "ucast (wIndex setup)"]
    by (auto simp: handle_control_request_def Let_def set_device_feature_def clear_device_feature_def split_def
        split: option.split)
qed

section \<open>One visit\<close>

lemma frame_same_role:
  assumes "list_all2 (same_role k) ps qs"
  shows "list_all2 (same_role k) (takeWhile (\<lambda>p. n \<noteq> Some (urbp_id p)) ps) (takeWhile (\<lambda>p. n \<noteq> Some (urbp_id p)) qs)"
  using assms by (induction rule: list_all2_induct) (auto simp: same_role_def)

lemma frame_touched:
  assumes "frame_ok w X d" and "touched w k d d'" and "hcd_of w d = Some h"
  obtains h' where "hcd_of w d' = Some h'" "list_all2 (same_role k) (urbp_list h) (urbp_list h')"
    "next_frame_urbp h' = next_frame_urbp h" "list_all2 (same_role k) (frame h) (frame h')"
proof -
  have "distinct (map urbp_id (urbp_list h))" using frame_okD(4) [OF assms(1,3)] by (simp add: hub_ok_def)
  then obtain ps where "hcd_of w d' = Some (h\<lparr>urbp_list := ps\<rparr>)" "list_all2 (same_role k) (urbp_list h) ps"
    using assms(2,3) by (auto simp: touched_def)
  then show ?thesis
    using that [of "h\<lparr>urbp_list := ps\<rparr>"] frame_same_role [of k "urbp_list h" ps "next_frame_urbp h"]
    by (simp add: frame_def)
qed

lemma frame_ok_touched:
  assumes "frame_ok w X d" and "touched w k d d'" and "wf_dummy d'"
  shows "frame_ok w (insert k X) d'"
proof -
  obtain h where h: "hcd_of w d = Some h" using frame_okD(5) [OF assms(1)] by blast
  obtain h' where h': "hcd_of w d' = Some h'" "list_all2 (same_role k) (urbp_list h) (urbp_list h')"
    "next_frame_urbp h' = next_frame_urbp h" "list_all2 (same_role k) (frame h) (frame h')"
    by (rule frame_touched [OF assms(1,2) h])
  have old: "hub_ok X h" by (rule frame_okD(4) [OF assms(1) h])
  have ids: "map urbp_id (urbp_list h') = map urbp_id (urbp_list h)" by (rule same_role_ids [OF h'(2)])
  have "entry_ready q" if q: "q \<in> set (frame h')" "urbp_id q \<notin> insert k X" for q
  proof -
    obtain i where "i < length (frame h')" "frame h' ! i = q" using q(1) unfolding in_set_conv_nth by blast
    then have "frame h ! i \<in> set (frame h)" "same_role k (frame h ! i) q"
      using h'(4) by (auto simp: list_all2_conv_all_nth)
    then obtain p where "p \<in> set (frame h)" "same_role k p q" by blast
    then have "p = q" "q \<in> set (frame h)" using q(2) by (auto simp: same_role_def)
    then show ?thesis using old q(2) by (simp add: hub_ok_def)
  qed
  then have "hub_ok (insert k X) h'"
    using old ids h'(3) unfolding hub_ok_def by (metis list.set_map)
  moreover have "gadget_to_dummy_hcd d' = gadget_to_dummy_hcd d" "frame_cfg d' = frame_cfg d"
    using assms(2) by (simp_all add: touched_def frame_cfg_def gadget_to_dummy_hcd_def)
  moreover have "hcd_of w' d' \<noteq> None" if "hcd_of w' d \<noteq> None" for w'
    using that assms(2) h'(1) by (cases "w' = w") (simp_all add: touched_def)
  ultimately show ?thesis
    using assms(1,3) h'(1) by (auto simp: frame_ok_def)
qed

lemma frame_ok_entry:
  assumes "frame_ok w {k} d" and "get_urbp w k d = Some p" and "entry_ready p"
  shows "frame_ok w {} d"
proof -
  have "entry_ready q" if "hcd_of w d = Some h" "q \<in> set (frame h)" for h q
  proof (cases "urbp_id q = k")
    case True
    have "q \<in> set (urbp_list h)" using that(2) by (auto simp: frame_def dest: set_takeWhileD)
    moreover have "distinct (map urbp_id (urbp_list h))"
      using frame_okD(4) [OF assms(1) that(1)] by (simp add: hub_ok_def)
    ultimately have "q = p"
      using assms(2) True that(1)
      by (auto simp: get_urbp_def find_Some_iff in_set_conv_nth distinct_conv_nth)
    then show ?thesis using assms(3) by simp
  next
    case False
    then show ?thesis using frame_okD(4) [OF assms(1) that(1)] that(2) by (simp add: hub_ok_def)
  qed
  then show ?thesis using assms(1) by (auto simp: frame_ok_def hub_ok_def)
qed

lemma get_urbp_frame:
  assumes "hcd_of w d = Some h" and "k \<in> urbp_id ` set (frame h)"
  shows "\<exists>p. get_urbp w k d = Some p \<and> urbp_id p = k"
proof -
  have "\<exists>q \<in> set (urbp_list h). urbp_id q = k"
    using assms(2) by (auto simp: frame_def dest: set_takeWhileD)
  then have "List.find (\<lambda>q. urbp_id q = k) (urbp_list h) \<noteq> None" unfolding find_None_iff by blast
  then obtain p where "get_urbp w k d = Some p" using assms(1) by (auto simp: get_urbp_def)
  then show ?thesis using get_urbp_id by blast
qed

text \<open>Giving a transfer back takes it off the frame.\<close>

lemma return_urb_step:
  assumes env: "env_ok env" "host_appends env" and ok: "frame_ok w {k} d" and h: "hcd_of w d = Some h"
    and k: "k \<in> urbp_id ` set (frame h)"
  shows "\<exists>d' h'. return_urb env w k e st d = Some d' \<and> frame_ok w {} d' \<and> hcd_of w d' = Some h'
    \<and> length (frame h') < length (frame h)"
proof -
  obtain p where p: "get_urbp w k d = Some p" using get_urbp_frame [OF h k] by blast
  let ?f = "\<lambda>h. h\<lparr>urbp_list := filter (\<lambda>q. urbp_id q \<noteq> k) (urbp_list h)\<rparr>"
  define d1 where "d1 = log_event (Giveback_Urb w k st (actual_length (urbp_urb p)))
    (case e of None \<Rightarrow> upd_hcd w ?f d
     | Some i \<Rightarrow> upd_ep i (\<lambda>e. e\<lparr>already_seen := False, setup_stage := False\<rparr>) (upd_hcd w ?f d))"
  have ret: "return_urb env w k e st d = Some (giveback_urb env w (urbp_urb p) st d1)" (is "_ = Some ?d'")
    using p by (simp add: return_urb_def d1_def Let_def)
  have wf: "wf_dummy ?d'" using return_urb_steady [OF env(1) ret] frame_okD(1) [OF ok] by (rule wf_steady)
  have cfg1: "frame_cfg d1 = frame_cfg d"
  proof -
    have "map (\<lambda>e. (maxpacket e, desc e)) (ep (upd_ep i (\<lambda>e. e\<lparr>already_seen := a, setup_stage := b\<rparr>) d))
      = map (\<lambda>e. (maxpacket e, desc e)) (ep d)" for i a b d
      by (cases "i < length (ep d)") (simp_all add: map_update list_update_same_conv list_update_beyond)
    from this [of _ _ _ "upd_hcd w ?f d"] show ?thesis by (simp add: d1_def frame_cfg_def split: option.split)
  qed
  have hubs1: "hcd_of w d1 = Some (?f h)" "(hcd_of w' d1 = None) = (hcd_of w' d = None)" for w'
  proof -
    have "hcd_of w'' d1 = hcd_of w'' (upd_hcd w ?f d)" for w'' by (simp add: d1_def split: option.split)
    moreover have "hcd_of w (upd_hcd w ?f d) = Some (?f h)" using h by simp
    moreover have "(hcd_of w' (set_hcd w x d) = None) = (hcd_of w' d = None)" if "hcd_of w d \<noteq> None" for x w'
      using that by (cases w; cases w') (simp_all add: set_hcd_def hcd_of_def)
    ultimately show "hcd_of w d1 = Some (?f h)" "(hcd_of w' d1 = None) = (hcd_of w' d = None)" for w'
      using h by (simp_all add: upd_hcd_def)
  qed
  have hub: "hub_ok {k} h" by (rule frame_okD(4) [OF ok h])
  have nk: "next_frame_urbp h \<noteq> Some k"
    using k by (auto simp: frame_def dest: set_takeWhileD)
  have fr: "frame (?f h) = filter (\<lambda>q. urbp_id q \<noteq> k) (frame h)"
    using nk by (simp add: frame_def takeWhile_filter)
  have ok1: "hub_ok {} (?f h)"
  proof -
    have "distinct (map urbp_id (urbp_list (?f h)))"
      using hub by (simp add: hub_ok_def distinct_map_filter)
    moreover have "n \<in> urbp_id ` set (urbp_list (?f h))" if "next_frame_urbp h = Some n" for n
      using hub nk that by (fastforce simp: hub_ok_def)
    ultimately show ?thesis using hub unfolding hub_ok_def fr by simp
  qed
  have cfg: "frame_cfg ?d' = frame_cfg d" and there: "(hcd_of w' ?d' = None) = (hcd_of w' d = None)" for w'
    using env(2) cfg1 hubs1(2) by (simp_all add: host_appends_def)
  obtain h' where h': "hcd_of w ?d' = Some h'" using there [of w] h by auto
  have ext: "extended (?f h) h'" using env(2) hubs1(1) h' unfolding host_appends_def by blast
  note e = extended_ok [OF ok1 ext]
  have "length (filter (\<lambda>q. urbp_id q \<noteq> k) (frame h)) < length (frame h)"
    using k by (auto intro: length_filter_less)
  then have len: "length (frame h') < length (frame h)" using e(1) fr by simp
  have "gadget_to_dummy_hcd ?d' = gadget_to_dummy_hcd d"
    using cfg by (simp add: frame_cfg_def gadget_to_dummy_hcd_def)
  then have "frame_ok w {} ?d'"
    unfolding frame_ok_def cfg there using wf h' e(2) frame_okD(2,3) [OF ok] by simp
  with ret h' len show ?thesis by blast
qed

text \<open>
  How a visit leaves the frame: with the entry still there and the next one to visit, or starting
  over with fewer transfers or fewer stale requests.
\<close>

definition visit_done :: "hcd_sel \<Rightarrow> nat \<Rightarrow> dummy_t \<Rightarrow> visit \<Rightarrow> dummy_t \<Rightarrow> bool" where
  "visit_done w k d v d' \<longleftrightarrow> frame_ok w {} d' \<and> (case v of
       Next \<Rightarrow> touched w k d d'
     | Restart \<Rightarrow> \<exists>h h'. hcd_of w d = Some h \<and> hcd_of w d' = Some h' \<and>
         (length (frame h') < length (frame h) \<or> length (frame h') = length (frame h) \<and> stale d' < stale d))"

definition frame_env :: "env \<Rightarrow> bool" where
  "frame_env env \<longleftrightarrow> sg_iterator env \<and> env_ok env \<and> gadget_leaves env \<and> host_appends env"

definition in_frame :: "hcd_sel \<Rightarrow> nat \<Rightarrow> dummy_t \<Rightarrow> bool" where
  "in_frame w k d \<longleftrightarrow> (\<exists>h. hcd_of w d = Some h \<and> k \<in> urbp_id ` set (frame h))"

lemma visit_return:
  assumes env: "frame_env env" and ok: "frame_ok w {} d" and k: "in_frame w k d"
    and t: "touched w k d d1" and wf: "wf_dummy d1"
  shows "\<exists>d'. return_urb env w k e st d1 = Some d' \<and> visit_done w k d Restart d'"
proof -
  obtain h where h: "hcd_of w d = Some h" "k \<in> urbp_id ` set (frame h)" using k by (auto simp: in_frame_def)
  obtain h1 where h1: "hcd_of w d1 = Some h1" "list_all2 (same_role k) (frame h) (frame h1)"
    by (rule frame_touched [OF ok t h(1)])
  have "k \<in> urbp_id ` set (frame h1)"
    using h(2) same_role_ids [OF h1(2)] by (metis list.set_map)
  from return_urb_step [OF _ _ frame_ok_touched [OF ok t wf] h1(1) this, of env e st] env
  obtain d' h' where "return_urb env w k e st d1 = Some d'" "frame_ok w {} d'" "hcd_of w d' = Some h'"
    "length (frame h') < length (frame h1)"
    by (auto simp: frame_env_def)
  moreover have "length (frame h1) = length (frame h)" using h1(2) by (simp add: list_all2_lengthD)
  ultimately show ?thesis using h(1) by (auto simp: visit_done_def)
qed

lemma same_role_ready: "same_role k p q \<Longrightarrow> urb_ready q \<Longrightarrow> entry_ready p \<Longrightarrow> entry_ready q"
  by (simp add: same_role_def entry_ready_def)

text \<open>The entry keeps its role while it is touched.\<close>

lemma touched_entry:
  assumes "frame_ok w X d" and "touched w k d d'" and "get_urbp w k d = Some p" and "get_urbp w k d' = Some p'"
  shows "same_role k p p'"
proof -
  obtain h where h: "hcd_of w d = Some h" using frame_okD(5) [OF assms(1)] by blast
  obtain h' where h': "hcd_of w d' = Some h'" "list_all2 (same_role k) (urbp_list h) (urbp_list h')"
    by (rule frame_touched [OF assms(1,2) h])
  have ids: "map urbp_id (urbp_list h') = map urbp_id (urbp_list h)" by (rule same_role_ids [OF h'(2)])
  have dist: "distinct (map urbp_id (urbp_list h))" using frame_okD(4) [OF assms(1) h] by (simp add: hub_ok_def)
  obtain i where i: "i < length (urbp_list h)" "urbp_list h ! i = p" "urbp_id p = k"
    using assms(3) h by (auto simp: get_urbp_def find_Some_iff)
  obtain j where j: "j < length (urbp_list h')" "urbp_list h' ! j = p'" "urbp_id p' = k"
    using assms(4) h'(1) by (auto simp: get_urbp_def find_Some_iff)
  have len: "length (urbp_list h') = length (urbp_list h)" using ids by (metis length_map)
  have "map urbp_id (urbp_list h) ! j = k" unfolding ids [symmetric] using j by simp
  then have "j = i" using dist i j(1) len by (auto simp: distinct_conv_nth)
  then show ?thesis using h'(2) i j by (auto simp: list_all2_conv_all_nth)
qed

lemma visit_data:
  assumes env: "frame_env env" and ok: "frame_ok w {} d" and k: "in_frame w k d"
    and t: "touched w k d d1" and wf: "wf_dummy d1" and p: "get_urbp w k d1 = Some p" "entry_ready p"
    and i: "i < DUMMY_ENDPOINTS" "i = 0 \<or> desc (ep d1 ! i) \<noteq> None"
    and l: "0 \<le> limit" "limit < 2 ^ 31"
  shows "\<exists>v b d'. data_stage env w k i limit budget st d1 = Some (v, b, d') \<and> b \<le> budget \<and> visit_done w k d v d'"
proof -
  let ?d1 = "upd_ep i (\<lambda>e. e\<lparr>last_io := jiffies d1\<rparr>) d1"
  have t1: "touched w k d1 ?d1" by (rule touched_upd_ep) simp_all
  have wf1: "wf_dummy ?d1" by (simp add: wf_upd_ep_fields wf)
  have "frame_cfg d1 = frame_cfg d" using t by (simp add: touched_def)
  then have "good_eps (map (\<lambda>e. (maxpacket e, desc e)) (ep d1))"
    using frame_okD(3) [OF ok] by (simp add: frame_cfg_def)
  then have "0 < maxpacket (ep d1 ! i) \<and> maxpacket (ep d1 ! i) < 2 ^ 16"
    using i wf_dummyD(4) [OF wf] by (auto simp: good_eps_def)
  then have on: "on_wire w k i p ?d1"
    using wf1 p i wf_dummyD(4) [OF wf] by (simp add: on_wire_def entry_ready_def)
  obtain sent st' d2 p2 where tr: "transfer env w k i limit st ?d1 = Some (sent, st', d2)" "0 \<le> sent"
    "touched w k ?d1 d2" "on_wire w k i p2 d2"
    using transfer_ready [OF _ _ _ i(1) on l, of env st] env unfolding frame_env_def by blast
  have t2: "touched w k d d2" using t t1 tr(3) touched_trans by blast
  have wf2: "wf_dummy d2" using tr(4) by (simp add: on_wire_def)
  show ?thesis
  proof (cases "st' = - EINPROGRESS")
    case True
    have get2: "get_urbp w k d2 = Some p2" using tr(4) by (simp add: on_wire_def)
    obtain h where h: "hcd_of w d = Some h" "k \<in> urbp_id ` set (frame h)" using k by (auto simp: in_frame_def)
    obtain p0 where p0: "get_urbp w k d = Some p0" using get_urbp_frame [OF h] by blast
    have "same_role k p0 p" by (rule touched_entry [OF ok t p0 p(1)])
    moreover have "same_role k p0 p2" by (rule touched_entry [OF ok t2 p0 get2])
    ultimately have "entry_ready p2" using p(2) tr(4) by (simp add: same_role_def entry_ready_def on_wire_def)
    then have "frame_ok w {} d2" by (rule frame_ok_entry [OF frame_ok_touched [OF ok t2 wf2] get2])
    then show ?thesis using tr(1,2) True t2 by (auto simp: data_stage_def visit_done_def)
  next
    case False
    then show ?thesis
      using tr(1,2) visit_return [OF env ok k t2 wf2, of "Some i" st'] by (auto simp: data_stage_def)
  qed
qed

lemma periodic_bound:
  assumes "desc (ep d ! i) \<noteq> None" and "maxpacket (ep d ! i) < 2 ^ 16"
  shows "\<exists>l. periodic_bytes i d = Some l \<and> l < 2 ^ 31"
proof -
  obtain ds where ds: "desc (ep d ! i) = Some ds" using assms(1) by blast
  have mp: "int (maxpacket (ep d ! i)) < 65536" using assms(2) by simp
  have "drop_bit 11 (wMaxPacketSize ds) AND 3 \<le> 3" by (rule word_and_le1)
  then have "usb_endpoint_maxp_mult ds \<le> 4" by (simp add: usb_endpoint_maxp_mult_def word_le_nat_alt)
  then have "int (maxpacket (ep d ! i)) * (int (usb_endpoint_maxp_mult ds) * 8) \<le> 65536 * 32"
    using assms(2) by (intro mult_mono) simp_all
  then have "int (maxpacket (ep d ! i)) + int (maxpacket (ep d ! i)) * (int (usb_endpoint_maxp_mult ds) * 8) < 2147483648"
    using mp by linarith
  moreover have "int (maxpacket (ep d ! i)) < 2147483648" using mp by simp
  ultimately show ?thesis
    using ds by (cases "speed (gadget d)"; cases "usb_endpoint_type ds") (simp_all add: periodic_bytes_def Let_def)
qed

lemma mark_seen_touched:
  assumes "frame_ok w {} d" and "get_urbp w k d = Some p"
  obtains p' where "touched w k d (mark_seen w p i d)" "get_urbp w k (mark_seen w p i d) = Some p'"
    "setup_packet (urbp_urb p') = setup_packet (urbp_urb p)" "urb_ready p \<longrightarrow> urb_ready p'"
proof -
  let ?p = "p\<lparr>urbp_urb := (urbp_urb p)\<lparr>error_count := 0\<rparr>\<rparr>"
  let ?d1 = "upd_ep i (\<lambda>e. e\<lparr>already_seen := True\<rparr>) d"
  let ?d2 = "upd_ep i (\<lambda>e. e\<lparr>setup_stage := True\<rparr>) ?d1"
  have 1: "touched w k d ?d1" by (rule touched_upd_ep) simp_all
  have "touched w k ?d1 ?d2" by (rule touched_upd_ep) simp_all
  with 1 have 2: "touched w k d ?d2" by (rule touched_trans)
  have id: "urbp_id p = k" by (rule get_urbp_id [OF assms(2)])
  have get: "get_urbp w k ?d2 = Some p" using assms(2) by simp
  have "touched w k ?d2 (put_urbp w ?p ?d2)"
    by (rule touched_put [OF get]) (simp add: same_role_def id)
  with 2 have 3: "touched w k d (put_urbp w ?p ?d2)" by (rule touched_trans)
  have get3: "get_urbp w k (put_urbp w ?p ?d2) = Some ?p" by (rule get_put_urbp [OF get]) (simp add: id)
  have "urb_ready p \<Longrightarrow> urb_ready ?p" by (simp add: urb_ready_def sg_shape_def sg_at_def sg_bytes_def sg_offset_def Let_def cong: conj_cong if_cong)
  show ?thesis
  proof (cases "i = 0 \<and> error_count (urbp_urb p) \<noteq> 0")
    case True
    then have m: "mark_seen w p i d = put_urbp w ?p ?d2" by (simp add: mark_seen_def Let_def)
    show ?thesis by (rule that [of ?p]) (use m 3 get3 \<open>urb_ready p \<Longrightarrow> urb_ready ?p\<close> in simp_all)
  next
    case False
    then have m: "mark_seen w p i d = ?d1" by (auto simp: mark_seen_def Let_def)
    show ?thesis by (rule that [of p]) (use m 1 assms(2) in simp_all)
  qed
qed

lemma mark_seen_seen: "i < length (ep d) \<Longrightarrow> already_seen (ep (mark_seen w p i d) ! i)"
  by (auto simp: mark_seen_def Let_def nth_list_update)

lemma gadget_touched:
  assumes "gadget_leaves env" and "stale d = 0"
  shows "touched w k d (snd (drv_setup env c d))"
  using assms
  by (auto simp: gadget_leaves_def touched_def leaves_def stale_def split: if_splits
      intro!: exI [of _ "urbp_list _"] list_all2_refl)

lemma find_endpoint_drop:
  assumes "find_endpoint a d = Some (Some i)"
  shows "i = 0 \<longleftrightarrow> a AND NOT USB_DIR_IN = 0" and "i \<noteq> 0 \<Longrightarrow> desc (ep d ! i) \<noteq> None"
  using assms find_endpoint_active [OF assms]
  by (auto simp: find_endpoint_def bind_eq_Some_conv find_Some_iff split: if_splits)

lemma visit_answer:
  assumes env: "frame_env env" and ok: "frame_ok w {} d" and k: "in_frame w k d"
    and t: "touched w k d d1" and wf: "wf_dummy d1" and p: "get_urbp w k d1 = Some p" "entry_ready p"
    and sg: "num_sgs (urbp_urb p) = 0" and seen: "stale d1 = 0" and ints: "ints_enabled d1"
  shows "\<exists>v b d'. answer_setup env w k setup budget d1 = Some (v, b, d') \<and> b \<le> budget \<and> visit_done w k d v d'"
proof -
  have hub: "hcd_of (gadget_to_dummy_hcd d1) d1 \<noteq> None"
    using frame_okD(2) [OF frame_ok_touched [OF ok t wf]] .
  obtain val st d2 where h: "handle_control_request w k setup (- EINPROGRESS) d1 = Some (val, st, d2)"
    using handle_control_defined [OF hub p(1) _ sg, of "setup" "- EINPROGRESS"] p(2) unfolding entry_ready_def by blast
  have t2: "touched w k d d2" using t handle_control_touched [OF h] by (rule touched_trans)
  have wf2: "wf_dummy d2" using handle_control_request_wf(1) [OF wf h] .
  show ?thesis
  proof (cases "0 < val")
    case False
    show ?thesis
    proof (cases "val < 0")
      case True
      obtain h2 where "hcd_of w d2 = Some h2" using frame_okD(5) [OF frame_ok_touched [OF ok t2 wf2]] by blast
      obtain h0 where h0: "hcd_of w d = Some h0" "k \<in> urbp_id ` set (frame h0)" using k by (auto simp: in_frame_def)
      obtain h2 where h2: "hcd_of w d2 = Some h2" "list_all2 (same_role k) (frame h0) (frame h2)"
        by (rule frame_touched [OF ok t2 h0(1)])
      have "k \<in> urbp_id ` set (frame h2)" using h0(2) same_role_ids [OF h2(2)] by (metis list.set_map)
      then obtain p2 where p2: "get_urbp w k d2 = Some p2" "urbp_id p2 = k"
        using get_urbp_frame [OF h2(1)] by blast
      let ?d3 = "put_urbp w (p2\<lparr>urbp_urb := (urbp_urb p2)\<lparr>actual_length := 0\<rparr>\<rparr>) d2"
      have "touched w k d2 ?d3" by (rule touched_put [OF p2(1)]) (simp add: same_role_def p2(2))
      with t2 have "touched w k d ?d3" by (rule touched_trans)
      from visit_return [OF env ok k this, of "Some 0" "- EPIPE"] wf2 obtain d' where
        "return_urb env w k (Some 0) (- EPIPE) ?d3 = Some d'" "visit_done w k d Restart d'" by auto
      then show ?thesis using h True p2(1) by (auto simp: answer_setup_def stall_urb_def)
    next
      case zero: False
      then show ?thesis
        using h False visit_return [OF env ok k t2 wf2, of "Some 0" st] by (auto simp: answer_setup_def)
    qed
  next
    case True
    then have d2: "d2 = d1" "st = - EINPROGRESS" using handle_control_hands_on [OF h] by auto
    let ?d3 = "log_event (Setup setup) (d1\<lparr>callback_usage := callback_usage d1 + 1\<rparr>)"
    obtain val2 d4 where d4: "drv_setup env setup ?d3 = (val2, d4)" by fastforce
    let ?d5 = "d4\<lparr>callback_usage := callback_usage d4 - 1\<rparr>"
    obtain dr where dr: "driver d1 = Some dr" using wf_dummyD(3) [OF wf ints] by blast
    have call: "call_setup env setup d1 = Some (val2, ?d5)" using dr d4 by (simp add: call_setup_def Let_def)
    have "touched w k ?d3 (snd (drv_setup env setup ?d3))"
      using env seen by (intro gadget_touched) (simp_all add: frame_env_def stale_def split: if_splits)
    then have "touched w k ?d3 d4" using d4 by simp
    moreover have "touched w k d ?d3" using t by simp
    ultimately have "touched w k d d4" by (rule touched_trans [rotated])
    then have t5: "touched w k d ?d5" by simp
    have wf5: "wf_dummy ?d5" using call_setup_wf [OF _ wf call] env by (simp add: frame_env_def)
    have hubs: "hcd_of w ?d5 = hcd_of w d1"
      using env d4 by (auto simp: frame_env_def gadget_leaves_def leaves_def dest!: spec [of _ "setup"] spec [of _ ?d3])
    then have p5: "get_urbp w k ?d5 = Some p" using p(1) by (simp add: get_urbp_def)
    have z: "0 < DUMMY_ENDPOINTS" by (simp add: DUMMY_ENDPOINTS_eq)
    show ?thesis
    proof (cases "0 \<le> val2")
      case ok2: True
      then show ?thesis
        using h True d2 call visit_data [OF env ok k t5 wf5 p5 p(2) z, of "64 * 1024" budget]
        by (auto simp: answer_setup_def)
    next
      case bad: False
      let ?d6 = "put_urbp w (p\<lparr>urbp_urb := (urbp_urb p)\<lparr>actual_length := 0\<rparr>\<rparr>) ?d5"
      have "touched w k ?d5 ?d6"
        by (rule touched_put [OF p5]) (simp add: same_role_def get_urbp_id [OF p(1)])
      with t5 have "touched w k d ?d6" by (rule touched_trans)
      from visit_return [OF env ok k this, of "Some 0" "- EPIPE"] wf5 obtain d' where
        "return_urb env w k (Some 0) (- EPIPE) ?d6 = Some d'" "visit_done w k d Restart d'" by auto
      then show ?thesis using h True d2 call bad p5 by (auto simp: answer_setup_def stall_urb_def)
    qed
  qed
qed

lemma seen_undone:
  "upd_ep i (\<lambda>e. e\<lparr>already_seen := already_seen (ep d ! i)\<rparr>) (upd_ep i (\<lambda>e. e\<lparr>already_seen := b\<rparr>) d) = d"
  unfolding upd_ep_twice by (simp add: upd_ep_def)

text \<open>A stale request is given back, and the list visited again; then the setup packet is answered.\<close>

lemma visit_control:
  assumes env: "frame_env env" and ok: "frame_ok w {} d" and k: "in_frame w k d"
    and t: "touched w k d d1" and wf: "wf_dummy d1" and p: "get_urbp w k d1 = Some p" "entry_ready p"
    and sg: "num_sgs (urbp_urb p) = 0" and seen: "already_seen (ep d1 ! 0)" and ints: "ints_enabled d1"
    and fresh: "\<not> already_seen (ep d ! 0)" "queue (ep d1 ! 0) = queue (ep d ! 0)"
  shows "\<exists>v b d'. control_stage env w k budget d1 = Some (v, b, d') \<and> b \<le> budget \<and> visit_done w k d v d'"
proof (cases "queue (ep d1 ! 0)")
  case Nil
  let ?d = "upd_ep 0 (\<lambda>e. e\<lparr>last_io := jiffies d1, setup_stage := False, halted := False\<rparr>) d1"
  have "touched w k d1 ?d" by (rule touched_upd_ep) simp_all
  with t have t2: "touched w k d ?d" by (rule touched_trans)
  have wf2: "wf_dummy ?d" by (simp add: wf_upd_ep_fields wf)
  have "stale ?d = 0" using seen wf_dummyD(4) [OF wf] by (simp add: stale_def DUMMY_ENDPOINTS_eq)
  from visit_answer [OF env ok k t2 wf2 _ p(2) sg this, of "setup_packet (urbp_urb p)" budget]
  show ?thesis using p(1) ints Nil by (simp add: control_stage_def Let_def)
next
  case (Cons r rest)
  let ?d2 = "upd_req r (\<lambda>q. q\<lparr>rq_status := - EOVERFLOW\<rparr>) (upd_ep 0 (\<lambda>e. e\<lparr>queue := rest\<rparr>) d1)"
  let ?d3 = "giveback env 0 r ?d2"
  let ?d4 = "upd_ep 0 (\<lambda>e. e\<lparr>already_seen := False\<rparr>) ?d3"
  have stage: "control_stage env w k budget d1 = Some (Restart, budget, ?d4)"
    using p(1) Cons by (simp add: control_stage_def Let_def)
  have len: "0 < length (ep d1)" using wf_dummyD(4) [OF wf] by (simp add: DUMMY_ENDPOINTS_eq)
  have "frame_cfg ?d2 = frame_cfg d1" "\<forall>w. hcd_of w ?d2 = hcd_of w d1" "stale ?d2 \<le> stale d1"
    using len seen by (simp_all add: frame_cfg_def map_update stale_def list_update_same_conv)
  then have "touched w k d1 ?d2"
    by (auto simp: touched_def intro!: exI [of _ "urbp_list _"] list_all2_refl)
  with t have "touched w k d ?d2" by (rule touched_trans)
  then have t3: "touched w k d ?d3" using touched_giveback env touched_trans unfolding frame_env_def by blast
  have wf4: "wf_dummy ?d4" using control_stage_wf [OF _ wf stage] env by (simp add: frame_env_def)
  have cfg: "frame_cfg ?d4 = frame_cfg ?d3"
    by (cases "0 < length (ep ?d3)")
      (simp_all add: frame_cfg_def map_update list_update_same_conv)
  have wf3: "wf_dummy ?d3"
  proof -
    have "upd_ep 0 (\<lambda>e. e\<lparr>already_seen := already_seen (ep ?d3 ! 0)\<rparr>) ?d4 = ?d3"
      by (rule seen_undone)
    moreover have "wf_dummy (upd_ep 0 (\<lambda>e. e\<lparr>already_seen := already_seen (ep ?d3 ! 0)\<rparr>) ?d4)"
      by (rule wf_upd_ep_fields [OF wf4]) simp
    ultimately show ?thesis by simp
  qed
  obtain h where h: "hcd_of w d = Some h" "k \<in> urbp_id ` set (frame h)" using k by (auto simp: in_frame_def)
  obtain h3 where h3: "hcd_of w ?d3 = Some h3" "list_all2 (same_role k) (frame h) (frame h3)"
    by (rule frame_touched [OF ok t3 h(1)])
  have p3: "get_urbp w k ?d3 = Some p"
    using giveback_wire(1) [OF gadget_leaves_wire, of env w k 0 r ?d2] env p(1) by (simp add: frame_env_def)
  have "frame_ok w {} ?d3" by (rule frame_ok_entry [OF frame_ok_touched [OF ok t3 wf3] p3 p(2)])
  then have "frame_ok w {} ?d4"
    using wf4 cfg by (simp add: frame_ok_def gadget_to_dummy_hcd_def)
  moreover have "length (queue (ep ?d3 ! 0)) \<le> length rest"
    using giveback_queue0 [of env 0 r ?d2] env len by (simp add: frame_env_def)
  then have "stale ?d4 < stale d"
    using fresh(1) fresh(2) [symmetric] Cons wf_dummyD(4) [OF wf3] by (simp add: stale_def DUMMY_ENDPOINTS_eq)
  ultimately show ?thesis
    using stage h h3 by (auto simp: visit_done_def list_all2_lengthD)
qed

lemma pipe_endpoint_control: "urb_address u AND NOT USB_DIR_IN = 0 \<longleftrightarrow> usb_pipeendpoint (urb_pipe u) = 0"
proof -
  have "(of_nat n :: u8) AND NOT USB_DIR_IN = 0 \<longleftrightarrow> n = 0" if "n < 16" for n
    using that by (simp add: less_Suc_eq numeral_eq_Suc) (elim disjE; simp)
  from this [OF usb_pipeendpoint_bound] show ?thesis
    by (simp add: urb_address_def Let_def bit.conj_disj_distrib2)
qed

lemma timer_visit_step:
  assumes env: "frame_env env" and ok: "frame_ok w {} d" and k: "in_frame w k d" and b: "budget < 2 ^ 31"
  shows "\<exists>v b d'. timer_visit env w k budget d = Some (v, b, d') \<and> b \<le> budget \<and> visit_done w k d v d'
    \<and> (v = Next \<longrightarrow> (\<forall>p. get_urbp w k d = Some p \<longrightarrow> unlinked (urbp_urb p) = 0))"
proof -
  obtain h where h: "hcd_of w d = Some h" "k \<in> urbp_id ` set (frame h)" using k by (auto simp: in_frame_def)
  obtain p where p: "get_urbp w k d = Some p" "urbp_id p = k" using get_urbp_frame [OF h] by blast
  let ?u = "urbp_urb p"
  have wf: "wf_dummy d" by (rule frame_okD(1) [OF ok])
  have stay: "visit_done w k d Next d" using ok by (simp add: visit_done_def)
  have pok: "entry_ready p"
  proof -
    have "p \<in> set (frame h)"
    proof -
      obtain q where q: "q \<in> set (frame h)" "urbp_id q = k" using h(2) by auto
      have "distinct (map urbp_id (urbp_list h))" using frame_okD(4) [OF ok h(1)] by (simp add: hub_ok_def)
      moreover have "q \<in> set (urbp_list h)" "p \<in> set (urbp_list h)"
        using q(1) p(1) h(1) by (auto simp: frame_def get_urbp_def find_Some_iff dest: set_takeWhileD)
      ultimately have "q = p" using q(2) p(2) by (simp add: distinct_map inj_on_def)
      then show ?thesis using q(1) by simp
    qed
    then show ?thesis using frame_okD(4) [OF ok h(1)] by (simp add: hub_ok_def)
  qed
  show ?thesis
  proof (cases "unlinked ?u \<noteq> 0")
    case True
    then show ?thesis
      using h p visit_return [OF env ok k touched_refl wf, of None "- EINPROGRESS"]
      by (auto simp: timer_visit_def)
  next
    case linked: False
    show ?thesis
    proof (cases "rh_state h \<noteq> DUMMY_RH_RUNNING \<or> budget \<le> 0")
      case True
      then show ?thesis using h(1) p linked stay by (auto simp: timer_visit_def Let_def)
    next
      case go: False
      have "\<exists>e. find_endpoint (urb_address ?u) d = Some e"
        using frame_okD(2) [OF ok] by (auto simp: find_endpoint_def)
      then obtain e where e: "find_endpoint (urb_address ?u) d = Some e" by blast
      show ?thesis
      proof (cases e)
        case None
        then show ?thesis
          using h p linked go e visit_return [OF env ok k touched_refl wf, of None "- EPROTO"]
          by (auto simp: timer_visit_def)
      next
        case (Some i)
        note e = e [unfolded Some]
        have i: "i < DUMMY_ENDPOINTS" by (rule find_endpoint_bound [OF e])
        have i0: "i = 0 \<longleftrightarrow> usb_pipeendpoint (urb_pipe ?u) = 0"
          using find_endpoint_drop(1) [OF e] pipe_endpoint_control by simp
        show ?thesis
        proof (cases "already_seen (ep d ! i)")
          case True
          then show ?thesis using h p linked go e stay by (auto simp: timer_visit_def)
        next
          case new: False
          let ?d = "mark_seen w p i d"
          obtain p' where m: "touched w k d ?d" "get_urbp w k ?d = Some p'"
            "setup_packet (urbp_urb p') = setup_packet ?u" "urb_ready p \<longrightarrow> urb_ready p'"
            by (rule mark_seen_touched [OF ok p(1), of i])
          have "same_role k p p'" by (rule touched_entry [OF ok m(1) p(1) m(2)])
          then have p': "entry_ready p'" "num_sgs (urbp_urb p') = num_sgs ?u"
            using pok m(4) by (simp_all add: same_role_def entry_ready_def)
          have wfm: "wf_dummy ?d" by (rule mark_seen_wf [OF wf])
          have len: "i < length (ep d)" using i wf_dummyD(4) [OF wf] by simp
          have desc: "i = 0 \<or> desc (ep ?d ! i) \<noteq> None"
            using find_endpoint_active [OF e] len by (auto simp: mark_seen_def Let_def nth_list_update)
          have visit: "timer_visit env w k budget d =
             (if halted (ep ?d ! i) \<and> \<not> setup_stage (ep ?d ! i)
              then do { d \<leftarrow> return_urb env w k (Some i) (- EPIPE) ?d; Some (Restart, budget, d) }
              else if i = 0 \<and> setup_stage (ep ?d ! i) then control_stage env w k budget ?d
              else do {
                limit \<leftarrow> (if usb_pipetype (urb_pipe ?u) \<in> {PIPE_ISOCHRONOUS, PIPE_INTERRUPT}
                          then map_option (max budget) (periodic_bytes i ?d) else Some budget);
                data_stage env w k i limit budget (- EINPROGRESS) ?d
              })"
            using h p linked go e new by (simp add: timer_visit_def Let_def)
          consider (halt) "halted (ep ?d ! i) \<and> \<not> setup_stage (ep ?d ! i)"
            | (ctl) "\<not> (halted (ep ?d ! i) \<and> \<not> setup_stage (ep ?d ! i))" "i = 0" "setup_stage (ep ?d ! i)"
            | (data) "\<not> (halted (ep ?d ! i) \<and> \<not> setup_stage (ep ?d ! i))" "\<not> (i = 0 \<and> setup_stage (ep ?d ! i))"
            by blast
          then have "\<exists>v b d'. timer_visit env w k budget d = Some (v, b, d') \<and> b \<le> budget \<and> visit_done w k d v d'"
          proof cases
            case halt
            then show ?thesis
              using visit visit_return [OF env ok k m(1) wfm, of "Some i" "- EPIPE"] by auto
          next
            case ctl
            have seen: "already_seen (ep ?d ! 0)" using mark_seen_seen [OF len] ctl(2) by simp
            have "ints_enabled ?d" using find_endpoint_active [OF e] by (simp add: mark_seen_def Let_def)
            moreover have "num_sgs (urbp_urb p') = 0" using pok i0 ctl(2) p'(2) by (simp add: entry_ready_def)
            moreover have "queue (ep ?d ! 0) = queue (ep d ! 0)"
              using len ctl(2) by (auto simp: mark_seen_def Let_def)
            ultimately show ?thesis
              using visit ctl visit_control [OF env ok k m(1) wfm m(2) p'(1) _ seen, of budget] new by simp
          next
            case data
            have lim: "\<exists>l. (if usb_pipetype (urb_pipe ?u) \<in> {PIPE_ISOCHRONOUS, PIPE_INTERRUPT}
                          then map_option (max budget) (periodic_bytes i ?d) else Some budget) = Some l
                \<and> 0 \<le> l \<and> l < 2 ^ 31"
            proof (cases "usb_pipetype (urb_pipe ?u) \<in> {PIPE_ISOCHRONOUS, PIPE_INTERRUPT}")
              case True
              then have "i \<noteq> 0" using pok i0 by (auto simp: entry_ready_def)
              then have some: "desc (ep ?d ! i) \<noteq> None" using desc by simp
              have "good_eps (map (\<lambda>e. (maxpacket e, desc e)) (ep ?d))"
                using frame_okD(3) [OF ok] m(1) by (simp add: touched_def frame_cfg_def)
              then have "maxpacket (ep ?d ! i) < 2 ^ 16"
                using some i wf_dummyD(4) [OF wfm] by (simp add: good_eps_def)
              from periodic_bound [OF some this] show ?thesis using True go b by auto
            next
              case False
              then show ?thesis using go b by auto
            qed
            then obtain l where l: "(if usb_pipetype (urb_pipe ?u) \<in> {PIPE_ISOCHRONOUS, PIPE_INTERRUPT}
                          then map_option (max budget) (periodic_bytes i ?d) else Some budget) = Some l"
              "0 \<le> l" "l < 2 ^ 31" by blast
            then show ?thesis
              using visit data visit_data [OF env ok k m(1) wfm m(2) p'(1) i desc l(2,3), of budget] by simp
          qed
          then show ?thesis using linked p by auto
        qed
      qed
    qed
  qed
qed

section \<open>The loop\<close>

text \<open>The position of the iteration: the entry number \<open>n\<close> of the list, or its end.\<close>

definition position :: "dummy_hcd \<Rightarrow> nat \<Rightarrow> nat option" where
  "position h n = (if n < length (urbp_list h) then Some (urbp_id (urbp_list h ! n)) else None)"

lemma first_position: "first_urbp h = position h 0"
  by (simp add: first_urbp_def position_def hd_conv_nth split: list.split)

lemma urbp_after_nth:
  "distinct (map urbp_id ps) \<Longrightarrow> n < length ps \<Longrightarrow>
     urbp_after (urbp_id (ps ! n)) ps = Some (if Suc n < length ps then Some (urbp_id (ps ! Suc n)) else None)"
proof (induction ps arbitrary: n)
  case (Cons p ps)
  show ?case
  proof (cases n)
    case 0
    then show ?thesis by (cases ps) simp_all
  next
    case (Suc m)
    then have "urbp_id p \<noteq> urbp_id (ps ! m)" using Cons.prems by auto
    then show ?thesis using Suc Cons by simp
  qed
qed simp

lemma frame_nth: "n < length (frame h) \<Longrightarrow> frame h ! n = urbp_list h ! n \<and> n < length (urbp_list h)
    \<and> next_frame_urbp h \<noteq> Some (urbp_id (urbp_list h ! n))"
  using nth_mem [of n "frame h"]
  by (auto simp: frame_def takeWhile_nth dest: set_takeWhileD intro: less_le_trans [OF _ length_takeWhile_le])

lemma frame_end:
  "position h (length (frame h)) = None \<or> position h (length (frame h)) = next_frame_urbp h"
  using nth_length_takeWhile [of "\<lambda>p. next_frame_urbp h \<noteq> Some (urbp_id p)" "urbp_list h"]
  by (auto simp: position_def frame_def)

definition linked_frame :: "dummy_hcd \<Rightarrow> bool" where
  "linked_frame h \<longleftrightarrow> (\<forall>p \<in> set (frame h). unlinked (urbp_urb p) = 0)"

lemma scan_returns:
  assumes env: "frame_env env"
  shows "\<lbrakk>frame_ok w {} d; hcd_of w d = Some h; budget < 2 ^ 31; n \<le> length (frame h);
      \<forall>i < n. unlinked (urbp_urb (frame h ! i)) = 0\<rbrakk> \<Longrightarrow>
    \<exists>d' h'. timer_scan env w (position h n) budget d = Some d' \<and> frame_ok w {} d'
      \<and> hcd_of w d' = Some h' \<and> linked_frame h' \<and> length (frame h') \<le> length (frame h)"
proof (induction "(length (frame h), stale d, length (frame h) - n)" arbitrary: d h budget n
    rule: wf_induct_rule [OF wf_lex_prod [OF wf_less_than wf_lex_prod [OF wf_less_than wf_less_than]]])
  case (1 d h n budget)
  note IH = 1(1) and ok = 1(2) and h = 1(3) and b = 1(4) and n = 1(5) and pre = 1(6)
  have dist: "distinct (map urbp_id (urbp_list h))" using frame_okD(4) [OF ok h] by (simp add: hub_ok_def)
  have fin: ?case if "timer_scan env w (position h n) budget d = Some d" "n = length (frame h)"
    using that ok h pre by (auto simp: linked_frame_def in_set_conv_nth)
  show ?case
  proof (cases "n < length (frame h)")
    case False
    then have end_: "n = length (frame h)" using n by simp
    show ?thesis
    proof (cases "position h n")
      case None
      then show ?thesis using fin end_ by (simp add: timer_scan.simps)
    next
      case (Some k)
      then have "next_frame_urbp h = Some k" using frame_end [of h] end_ by simp
      moreover have "\<exists>x. urbp_after k (urbp_list h) = Some x"
        using Some urbp_after_nth [OF dist, of n] by (auto simp: position_def split: if_splits)
      ultimately have "timer_scan env w (position h n) budget d = Some d"
        using h Some by (auto simp: timer_scan.simps [of env w "Some k"])
      then show ?thesis using fin end_ by blast
    qed
  next
    case True
    note nth = frame_nth [OF True]
    let ?k = "urbp_id (urbp_list h ! n)"
    have pos: "position h n = Some ?k" using nth by (simp add: position_def)
    have after: "urbp_after ?k (urbp_list h) = Some (position h (Suc n))"
      using urbp_after_nth [OF dist, of n] nth by (simp add: position_def)
    have "urbp_list h ! n \<in> set (frame h)" using True nth nth_mem by metis
    then have k: "in_frame w ?k d" using h by (auto simp: in_frame_def)
    from timer_visit_step [OF env ok k b] obtain v b' d' where
      visit: "timer_visit env w ?k budget d = Some (v, b', d')" "b' \<le> budget" "visit_done w ?k d v d'"
        "v = Next \<longrightarrow> (\<forall>p. get_urbp w ?k d = Some p \<longrightarrow> unlinked (urbp_urb p) = 0)"
      by blast
    have b': "b' < 2 ^ 31" using visit(2) b by simp
    have ok': "frame_ok w {} d'" using visit(3) by (simp add: visit_done_def)
    obtain h' where h': "hcd_of w d' = Some h'" using frame_okD(5) [OF ok'] by blast
    show ?thesis
    proof (cases v)
      case Next
      then have t: "touched w ?k d d'" using visit(3) by (simp add: visit_done_def)
      obtain h1 where h1: "hcd_of w d' = Some h1" "list_all2 (same_role ?k) (urbp_list h) (urbp_list h1)"
        "next_frame_urbp h1 = next_frame_urbp h" "list_all2 (same_role ?k) (frame h) (frame h1)"
        by (rule frame_touched [OF ok t h])
      have eq: "h1 = h'" using h1(1) h' by simp
      have len: "length (frame h') = length (frame h)" using h1(4) eq by (simp add: list_all2_lengthD)
      have "position h (Suc n) = position h' (Suc n)"
        using h1(2) eq by (auto simp: position_def list_all2_conv_all_nth same_role_def)
      then have scan: "timer_scan env w (position h n) budget d = timer_scan env w (position h' (Suc n)) b' d'"
        using h pos after nth visit(1) Next by (simp add: timer_scan.simps [of env w "Some ?k"])
      have "get_urbp w ?k d = Some (urbp_list h ! n)"
        using h nth dist by (auto simp: get_urbp_def find_Some_iff distinct_conv_nth intro!: exI [of _ n])
      then have "unlinked (urbp_urb (frame h ! n)) = 0" using visit(4) Next nth by simp
      moreover have "unlinked (urbp_urb (frame h' ! i)) = unlinked (urbp_urb (frame h ! i))"
        if "i < length (frame h)" for i
        using h1(4) eq that by (simp add: list_all2_conv_all_nth same_role_def)
      ultimately have "\<forall>i < Suc n. unlinked (urbp_urb (frame h' ! i)) = 0"
        using pre True by (simp add: less_Suc_eq)
      moreover have "stale d' \<le> stale d" using t by (simp add: touched_def)
      then have "((length (frame h'), stale d', length (frame h') - Suc n),
          length (frame h), stale d, length (frame h) - n) \<in> less_than <*lex*> less_than <*lex*> less_than"
        using len True by auto
      ultimately show ?thesis
        using IH [OF _ ok' h' b', of "Suc n"] True by (simp only: scan len [symmetric] Suc_leI)
    next
      case Restart
      then have "((length (frame h'), stale d', length (frame h') - 0),
          length (frame h), stale d, length (frame h) - n) \<in> less_than <*lex*> less_than <*lex*> less_than"
        using visit(3) h h' by (auto simp: visit_done_def)
      moreover have "timer_scan env w (position h n) budget d = timer_scan env w (position h' 0) b' d'"
        using h pos after nth visit(1) Restart h'
        by (simp add: timer_scan.simps [of env w "Some ?k"] first_position)
      moreover have "length (frame h') \<le> length (frame h)"
        using visit(3) Restart h h' by (auto simp: visit_done_def)
      moreover have "0 \<le> length (frame h')" "\<forall>i < (0 :: nat). unlinked (urbp_urb (frame h' ! i)) = 0" by simp_all
      ultimately show ?thesis using IH [OF _ ok' h' b', of 0] order_trans by metis
    qed
  qed
qed

section \<open>Queueing from a completion handler\<close>

text \<open>The controller's own enqueue operation appends, and marks the next frame.\<close>

lemma enqueue_extends:
  assumes "dummy_urb_enqueue (Some p) rc0 w u d = Some (rc, d')" and "hcd_of w d = Some h"
    and "urbp_id p \<notin> urbp_id ` set (urbp_list h)"
  shows "\<exists>h'. hcd_of w d' = Some h' \<and> extended h h'"
proof -
  have refl: "extended h h" by (simp add: extended_def)
  have "extended h h'" if "urbp_list h' = urbp_list h @ [q]" "urbp_id q = urbp_id p"
    "next_frame_urbp h' = (if next_frame_urbp h = None then Some (urbp_id p) else next_frame_urbp h)" for h' q
    using that assms(3) unfolding extended_def by (intro exI [of _ "[q]"]) auto
  then show ?thesis
    using assms(1,2) refl
    by (auto simp: dummy_urb_enqueue_def Let_def bind_eq_Some_conv split: if_splits)
qed

lemma enqueue_keeps:
  assumes "dummy_urb_enqueue mem rc0 w u d = Some (rc, d')"
  shows "frame_cfg d' = frame_cfg d" "ints_enabled d' = ints_enabled d"
    "(hcd_of w' d' = None) = (hcd_of w' d = None)"
proof -
  have set: "(hcd_of w' (set_hcd w h d) = None) = (hcd_of w' d = None)" if "hcd_of w d \<noteq> None" for h
    using that by (cases w; cases w') (simp_all add: set_hcd_def hcd_of_def)
  show "frame_cfg d' = frame_cfg d" "ints_enabled d' = ints_enabled d"
    "(hcd_of w' d' = None) = (hcd_of w' d = None)"
    using assms set
    by (auto simp: dummy_urb_enqueue_def Let_def bind_eq_Some_conv frame_cfg_def
        split: option.splits if_splits)
qed

text \<open>A host that queues every transfer again when it comes back, under a new name.\<close>

definition resubmit :: "hcd_sel \<Rightarrow> urb \<Rightarrow> dummy_t \<Rightarrow> dummy_t" where
  "resubmit w u d =
     (case hcd_of w d of None \<Rightarrow> d
      | Some h \<Rightarrow>
          (case dummy_urb_enqueue (Some (zero_urbp\<lparr>urbp_id := Suc (sum_list (map urbp_id (urbp_list h)))\<rparr>)) 0 w
             (u\<lparr>actual_length := 0, unlinked := 0\<rparr>) d of
             None \<Rightarrow> d | Some (rc, d) \<Rightarrow> d))"

definition resubmit_env :: env where
  "resubmit_env = idle_env\<lparr>giveback_urb := (\<lambda>w u st d. resubmit w u d)\<rparr>"

lemma resubmit_steady: "steady d (resubmit w u d)"
  using dummy_urb_enqueue_wf enqueue_keeps(2)
  by (fastforce simp: resubmit_def steady_def split: option.splits prod.splits)

lemma resubmit_frame_env: "frame_env resubmit_env"
proof -
  have new: "Suc (sum_list (map urbp_id ps)) \<notin> urbp_id ` set ps" for ps
    using member_le_sum_list [of _ "map urbp_id ps"] by fastforce
  have "sg_iterator resubmit_env"
    using idle_sg.sg_iterator_axioms by (simp add: sg_iterator_def resubmit_env_def)
  moreover have "env_ok resubmit_env" using idle_env_ok resubmit_steady by (simp add: env_ok_def resubmit_env_def)
  moreover have "gadget_leaves resubmit_env"
    by (simp add: gadget_leaves_def leaves_def resubmit_env_def)
  moreover have "host_appends resubmit_env"
  proof -
    have "extended h h'" if "hcd_of w d = Some h" "hcd_of w (resubmit w u d) = Some h'" for w u d h h'
      using that enqueue_extends [OF _ that(1)] new [of "urbp_list h"]
      by (fastforce simp: resubmit_def extended_def split: option.splits prod.splits)
    moreover have "frame_cfg (resubmit w u d) = frame_cfg d"
      "(hcd_of w' (resubmit w u d) = None) = (hcd_of w' d = None)" for w w' u d
      using enqueue_keeps by (auto simp: resubmit_def split: option.splits prod.splits)
    ultimately show ?thesis unfolding host_appends_def resubmit_env_def by simp
  qed
  ultimately show ?thesis by (simp add: frame_env_def)
qed

section \<open>The tick\<close>

lemma frame_ok_begin:
  assumes "wf_dummy d" and "hcd_of (gadget_to_dummy_hcd d) d \<noteq> None" and "good_eps (snd (frame_cfg d))"
    and "hcd_of w d = Some h" and "distinct (map urbp_id (urbp_list h))" and "\<forall>p \<in> set (urbp_list h). entry_ready p"
  shows "frame_ok w {} (timer_begin w (set_hcd w (h\<lparr>timer := t\<rparr>) d))"
    and "hcd_of w (timer_begin w (set_hcd w (h\<lparr>timer := t\<rparr>) d)) = Some (h\<lparr>timer := t, next_frame_urbp := None\<rparr>)"
proof -
  let ?d = "timer_begin w (set_hcd w (h\<lparr>timer := t\<rparr>) d)"
  have keep: "hcd_of w' (d\<lparr>ep := es\<rparr>) = hcd_of w' d" for w' es d by (simp add: hcd_of_def split: hcd_sel.split)
  show hub: "hcd_of w ?d = Some (h\<lparr>timer := t, next_frame_urbp := None\<rparr>)"
    by (simp add: timer_begin_def Let_def keep)
  have "hcd_of w' ?d = hcd_of w' d" if "w' \<noteq> w" for w'
    using that by (cases w; cases w') (simp_all add: timer_begin_def Let_def keep upd_hcd_def set_hcd_def hcd_of_def)
  then have "hcd_of w' ?d \<noteq> None" if "hcd_of w' d \<noteq> None" for w' using that hub by (cases "w' = w") simp_all
  moreover have "frame_cfg ?d = frame_cfg d" "gadget_to_dummy_hcd ?d = gadget_to_dummy_hcd d"
    by (simp_all add: frame_cfg_def timer_begin_def Let_def upd_hcd_def o_def gadget_to_dummy_hcd_def)
  ultimately show "frame_ok w {} ?d"
    using assms hub by (auto simp: frame_ok_def hub_ok_def frame_def dest: set_takeWhileD)
qed


text \<open>The example: a cancelled transfer behind one that finds a request of the gadget.\<close>

definition frame_demo :: dummy_t where
  "frame_demo = set_hcd HS (demo_hcd\<lparr>udev := Some 1,
     urbp_list := map (\<lambda>(k, c). in_urbp\<lparr>urbp_id := k,
       urbp_urb := (urbp_urb in_urbp)\<lparr>urb_pipe := 0xC0008080, unlinked := c\<rparr>\<rparr>) [(1, 0), (2, - ECONNRESET)]\<rparr>) demo"

lemma frame_demo_hub:
  "hcd_of HS frame_demo = Some (demo_hcd\<lparr>udev := Some 1,
     urbp_list := map (\<lambda>(k, c). in_urbp\<lparr>urbp_id := k,
       urbp_urb := (urbp_urb in_urbp)\<lparr>urb_pipe := 0xC0008080, unlinked := c\<rparr>\<rparr>) [(1, 0), (2, - ECONNRESET)]\<rparr>)"
  by (simp add: frame_demo_def)

lemma frame_demo_endpoints: "good_eps (snd (frame_cfg frame_demo))"
proof -
  have "good_eps (snd (frame_cfg demo))"
    by (auto simp: good_eps_def frame_cfg_def demo_def zero_dummy_def zero_ep_def DUMMY_ENDPOINTS_eq
        nth_list_update split: if_splits)
  then show ?thesis by (simp add: frame_demo_def frame_cfg_def)
qed


end
