(* ===== verification/Dummy_Data.thy ===== *)
theory Dummy_Data
  imports Dummy_Wire
begin

text \<open>
  What the wire carries (dummy\_hcd.c, lines 1341 to 1497): the bytes the two sides of a transfer
  gain are the same, and in the order of the requests.
\<close>

section \<open>The bytes of both sides\<close>

definition urb_data :: "urb \<Rightarrow> u8 list" where
  "urb_data u = (if num_sgs u = 0 then transfer_buffer u else sg_bytes u)"

text \<open>What the host's transfer, and what the gadget's request, has already moved.\<close>

definition host_bytes :: "urb \<Rightarrow> u8 list" where
  "host_bytes u = take (unat (actual_length u)) (urb_data u)"

definition req_bytes :: "usb_request \<Rightarrow> u8 list" where
  "req_bytes q = take (unat (rq_actual q)) (rq_buf q)"

text \<open>
  The bytes \<open>bs\<close> have crossed the wire: both sides have moved them after those moved before, and
  the side they come from is unchanged.
\<close>

definition carried :: "u8 list \<Rightarrow> urbp \<Rightarrow> usb_request \<Rightarrow> urbp \<Rightarrow> usb_request \<Rightarrow> bool" where
  "carried bs p q p' q' \<longleftrightarrow>
     host_bytes (urbp_urb p') = host_bytes (urbp_urb p) @ bs \<and> req_bytes q' = req_bytes q @ bs
     \<and> (if usb_urb_dir_in (urbp_urb p) then rq_buf q' = rq_buf q
        else urb_data (urbp_urb p') = urb_data (urbp_urb p))"

lemma memcpy_takes:
  assumes "memcpy dst a src s n = Some b"
  shows "take (a + n) b = take a dst @ take n (drop s src)" "take (s + n) src = take s src @ take n (drop s src)"
    "take a b = take a dst"
  using assms by (auto simp: memcpy_def take_add split: if_splits)

lemma perform_carried:
  assumes sg: "sg_iterator env" and ready: "urb_ready p" and pos: "0 < len"
    and len: "len \<le> transfer_buffer_length (urbp_urb p) - actual_length (urbp_urb p)"
    and req: "unat (rq_actual q) + unat len \<le> length (rq_buf q)" "unat (rq_actual q) + unat len < 2 ^ 32"
  shows "\<exists>p' q' bs. dummy_perform_transfer env len p q = Some (sint len, p', q')
    \<and> carried bs p q (count_urbp len p') (q'\<lparr>rq_actual := rq_actual q' + len\<rparr>)"
proof -
  let ?u = "urbp_urb p"
  let ?a = "actual_length ?u" and ?t = "transfer_buffer_length ?u" and ?r = "unat (rq_actual q)"
  have at: "?a \<le> ?t" using ready by (simp add: urb_ready_def Let_def)
  note room = room_unat [OF at len]
  have r: "unat (rq_actual q + len) = ?r + unat len" using req(2) by (simp add: unat_word_ariths)
  obtain p' q' where ret: "dummy_perform_transfer env len p q = Some (sint len, p', q')"
    and same: "same_urbp p p'" "same_request q q'"
    by (rule perform_transfer_ready [OF sg ready pos len req(1)])
  have acts: "actual_length (urbp_urb p') = ?a" "num_sgs (urbp_urb p') = num_sgs ?u" "rq_actual q' = rq_actual q"
    using same same_urb_actual [of ?u "urbp_urb p'"] by (auto simp: same_urbp_def same_request_def)
  have "if usb_urb_dir_in ?u
      then memcpy (urb_data ?u) (unat ?a) (rq_buf q) ?r (unat len) = Some (urb_data (urbp_urb p')) \<and> q' = q
      else memcpy (rq_buf q) ?r (urb_data ?u) (unat ?a) (unat len) = Some (rq_buf q') \<and> urbp_urb p' = ?u"
  proof (cases "num_sgs ?u = 0")
    case True
    then show ?thesis
      using ret acts by (auto simp: dummy_perform_transfer_def urb_data_def Let_def bind_eq_Some_conv split: if_splits)
  next
    case False
    then have shape: "sg_shape ?u" "unat ?a + unat len \<le> length (sg_bytes ?u)"
      and at': "if miter_started p then sg_at ?u (miter p) (unat ?a) else unat ?a = 0"
      using ready room(1) by (auto simp: urb_ready_def Let_def split: if_splits)
    show ?thesis
      using sg_iterator.sg_transfer [OF sg False shape(1) at' pos shape(2) req(1)] ret False acts(2)
      by (auto simp: urb_data_def sg_copied_def split: if_splits)
  qed
  then have "carried (if usb_urb_dir_in ?u then take (unat len) (drop ?r (rq_buf q))
      else take (unat len) (drop (unat ?a) (urb_data ?u))) p q (count_urbp len p') (q'\<lparr>rq_actual := rq_actual q' + len\<rparr>)"
    using memcpy_takes acts room(2) r
    by (auto simp: carried_def host_bytes_def req_bytes_def count_urbp_def urb_data_def split: if_splits)
  with ret show ?thesis by blast
qed

lemma carried_refl: "carried [] p q p q"
  by (simp add: carried_def)

lemma move_packets_carried:
  assumes sg: "sg_iterator env" and ready: "urb_ready (x_urbp x)" and pos: "0 < n"
    and len: "n \<le> transfer_buffer_length (urbp_urb (x_urbp x)) - actual_length (urbp_urb (x_urbp x))"
    and req: "unat (rq_actual (x_req x)) + unat n \<le> length (rq_buf (x_req x))"
      "unat (rq_actual (x_req x)) + unat n < 2 ^ 32"
    and ret: "move_packets env b n x = Some (Data_Moved b' mv y)"
  shows "\<exists>bs. carried bs (x_urbp x) (x_req x) (x_urbp y) (x_req y)"
proof -
  let ?u = "urbp_urb (x_urbp x)"
  have at: "actual_length ?u \<le> transfer_buffer_length ?u"
    and small: "unat (transfer_buffer_length ?u) < 2 ^ 31"
    using ready by (simp_all add: urb_ready_def Let_def)
  note room = room_unat [OF at len]
  have n: "sint n = int (unat n)" by (rule sint_small) (use room(1) small in simp)
  obtain p' q' bs where pt: "dummy_perform_transfer env n (x_urbp x) (x_req x) = Some (sint n, p', q')"
    and c: "carried bs (x_urbp x) (x_req x) (count_urbp n p') (q'\<lparr>rq_actual := rq_actual q' + n\<rparr>)"
    using perform_carried [OF sg ready pos len req] by blast
  have "y = count_moved (sint n) p' q' x" using ret pt by (simp add: move_packets_def)
  then show ?thesis using n c by (auto simp: count_moved_def count_urbp_def Let_def)
qed

text \<open>Unless it stops, a pass over a request moves what \<open>pass_len\<close> says.\<close>

definition pass_xfer :: "nat \<Rightarrow> u32 \<Rightarrow> xfer \<Rightarrow> xfer" where
  "pass_xfer maxp len x =
     (let l = min len (x_limit x) in
      if of_nat maxp \<le> l \<and> l mod of_nat maxp \<noteq> 0 then x\<lparr>x_rescan := True\<rparr> else x)"

lemma pass_xfer_simps [simp]:
  "x_urbp (pass_xfer maxp len x) = x_urbp x" "x_req (pass_xfer maxp len x) = x_req x"
  "x_limit (pass_xfer maxp len x) = x_limit x" "x_sent (pass_xfer maxp len x) = x_sent x"
  "x_status (pass_xfer maxp len x) = x_status x"
  by (simp_all add: pass_xfer_def Let_def)

lemma move_data_go:
  assumes "0 < maxp" and "len \<noteq> 0" and "\<not> (sint (x_limit x) < int maxp \<and> x_limit x < len)"
    and "min len (x_limit x) \<noteq> 0"
  shows "move_data env maxp len x = move_packets env (\<not> of_nat maxp \<le> min len (x_limit x))
    (pass_len maxp len x) (pass_xfer maxp len x)"
  unfolding move_data_def if_not_P [OF assms(2)] if_not_P [OF assms(3)] Let_def if_not_P [OF assms(4)]
  using assms(1)
  by (cases "of_nat maxp \<le> min len (x_limit x)") (simp_all add: pass_len_def pass_xfer_def Let_def del: min.bounded_iff)

lemma move_data_carried:
  assumes sg: "sg_iterator env" and ready: "urb_ready (x_urbp x)"
    and maxp: "0 < maxp" "maxp < 2 ^ 16"
    and len: "len \<le> transfer_buffer_length (urbp_urb (x_urbp x)) - actual_length (urbp_urb (x_urbp x))"
    and req: "unat (rq_actual (x_req x)) + unat len \<le> length (rq_buf (x_req x))"
      "unat (rq_actual (x_req x)) + unat len < 2 ^ 32"
    and ret: "move_data env maxp len x = Some (Data_Moved b mv y)"
  shows "\<exists>bs. carried bs (x_urbp x) (x_req x) (x_urbp y) (x_req y) \<and> (x_limit x = 0 \<longrightarrow> bs = [] \<and> b)"
proof -
  let ?l = "min len (x_limit x)" and ?n = "pass_len maxp len x" and ?x = "pass_xfer maxp len x"
  show ?thesis
  proof (cases "len = 0")
    case True
    then show ?thesis using ret carried_refl by (auto simp: move_data_def)
  next
    case False
    have go: "\<not> (sint (x_limit x) < int maxp \<and> x_limit x < len)" "?l \<noteq> 0"
      using ret False by (auto simp: move_data_def simp del: min.bounded_iff split: if_splits)
    have ret': "move_packets env (\<not> of_nat maxp \<le> ?l) ?n ?x = Some (Data_Moved b mv y)"
      using ret move_data_go [OF maxp(1) False go] by simp
    have "0 < ?l" using go(2) by (rule word_neq_0_conv [THEN iffD1])
    then have pos: "0 < ?n" by (rule pass_len_pos [OF maxp])
    have n: "unat ?n \<le> unat len" using pass_len_le(1) by (simp add: word_le_nat_alt)
    have "x_limit x \<noteq> 0" using go(2) by auto
    moreover have "\<exists>bs. carried bs (x_urbp ?x) (x_req ?x) (x_urbp y) (x_req y)"
      by (rule move_packets_carried [OF sg _ pos _ _ _ ret'])
        (use ready order_trans [OF pass_len_le(1) len] req n in simp_all)
    ultimately show ?thesis by simp
  qed
qed

text \<open>The loop goes on to the next request only when the limit is used up.\<close>

lemma settle_advance:
  assumes ret: "move_data env maxp (min hl dl) x = Some (Data_Moved b mv y)"
    and st: "x_status (settle b hl dl y) = - EINPROGRESS" "rq_status (x_req (settle b hl dl y)) = - EINPROGRESS"
      "\<not> x_rescan (settle b hl dl y)"
    and moved: "\<not> b \<Longrightarrow> x_limit y \<noteq> x_limit x"
    and room: "hl = transfer_buffer_length (urbp_urb (x_urbp x)) - actual_length (urbp_urb (x_urbp x))"
      "dl = rq_length (x_req x) - rq_actual (x_req x)"
  shows "x_limit y = 0"
proof -
  have b: "\<not> b"
    using settle_short [of hl dl y] st(1) by (cases b) auto
  let ?l = "min (min hl dl) (x_limit x)"
  have m: "moved_by (pass_len maxp (min hl dl) x) x y" "\<not> ?l < of_nat maxp" "x_rescan y = (x_rescan x \<or> ?l mod of_nat maxp \<noteq> 0)"
    using move_data_result [OF ret] b moved by (auto simp: failed_by_def)
  have resc: "?l mod of_nat maxp = 0"
    using m(3) st(3) b by (auto simp: settle_def Let_def split: if_splits)
  then have n: "pass_len maxp (min hl dl) x = ?l" using m(2) by (simp add: pass_len_def Let_def)
  let ?u = "urbp_urb (x_urbp x)"
  have u: "same_urb (?u\<lparr>actual_length := actual_length ?u + ?l\<rparr>) (urbp_urb (x_urbp y))"
    and q: "same_request ((x_req x)\<lparr>rq_actual := rq_actual (x_req x) + ?l\<rparr>) (x_req y)"
    and lim: "x_limit y = x_limit x - ?l"
    using m(1) n by (simp_all add: moved_by_def)
  have "?l \<noteq> hl"
    using st(1,3) b same_urb_actual(2,3) [OF u] room(1)
    by (auto simp: settle_def Let_def split: if_splits)
  moreover have "?l \<noteq> dl"
    using st(2,3) b same_request_actual(3,4) [OF q] room(2)
    by (auto simp: settle_def Let_def split: if_splits)
  ultimately have "?l = x_limit x" by (auto simp: min_def split: if_splits)
  then show ?thesis using lim by simp
qed

section \<open>One request\<close>

text \<open>
  The endpoint of the transfer has streams and the request is of another stream: the loop passes over
  it (dummy\_hcd.c, lines 1390 to 1393).
\<close>

definition skips :: "hcd_sel \<Rightarrow> nat \<Rightarrow> dummy_t \<Rightarrow> nat \<Rightarrow> bool" where
  "skips w k d r \<longleftrightarrow> (\<exists>h p. hcd_of w d = Some h \<and> get_urbp w k d = Some p \<and> dummy_ep_stream_en h (urbp_urb p)
     \<and> urb_stream_id (urbp_urb p) \<noteq> rq_stream_id (reqs d r))"

lemma skips_advances:
  assumes "skips w k d r"
  shows "transfer_one env w k i r limit sent st d = Some (Advance, limit, sent, st, d)"
  using assms by (auto simp: skips_def transfer_one_def)

lemma move_data_streams:
  assumes "move_data env maxp len x = Some (Data_Moved b mv y)"
  shows "dummy_ep_stream_en h (urbp_urb (x_urbp y)) = dummy_ep_stream_en h (urbp_urb (x_urbp x))"
    "urb_stream_id (urbp_urb (x_urbp y)) = urb_stream_id (urbp_urb (x_urbp x))"
    "usb_urb_dir_in (urbp_urb (x_urbp y)) = usb_urb_dir_in (urbp_urb (x_urbp x))"
    "urbp_id (x_urbp y) = urbp_id (x_urbp x)"
    "rq_stream_id (x_req y) = rq_stream_id (x_req x)"
  using move_data_result [OF assms]
  by (auto simp: moved_by_def failed_by_def same_urbp_def same_urb_def same_request_def
      dummy_ep_stream_en_def usb_urb_dir_in_def)

lemma settle_stream [simp]: "rq_stream_id (x_req (settle b hl dl x)) = rq_stream_id (x_req x)"
  by (simp add: settle_def Let_def)

lemma plain_leaves_wire: "plain_env env \<Longrightarrow> leaves_wire env"
  by (simp add: plain_env_def leaves_wire_def)

lemma carried_settle [simp]: "carried bs p q p' (x_req (settle b hl dl y)) = carried bs p q p' (x_req y)"
  by (simp add: carried_def req_bytes_def)

lemma giveback_plain:
  "plain_env env \<Longrightarrow> giveback env i r d = log_event (Giveback i r (rq_status (reqs d r)) (rq_actual (reqs d r))) d"
  by (simp add: plain_env_def giveback_def)

lemma put_urbp_hub:
  assumes "hcd_of w d = Some h"
  shows "\<exists>ps. hcd_of w (put_urbp w p d) = Some (h\<lparr>urbp_list := ps\<rparr>)"
  using assms by (auto simp: put_urbp_def)

lemma dummy_ep_stream_en_list [simp]: "dummy_ep_stream_en (h\<lparr>urbp_list := ps\<rparr>) u = dummy_ep_stream_en h u"
  by (simp add: dummy_ep_stream_en_def)

text \<open>
  What the loop's body does for one request: the bytes it carries, the other requests untouched,
  and the queue without the request if it is finished.
\<close>

definition carries_one :: "hcd_sel \<Rightarrow> nat \<Rightarrow> nat \<Rightarrow> nat \<Rightarrow> u8 list \<Rightarrow> dummy_t \<Rightarrow> dummy_t \<Rightarrow> bool" where
  "carries_one w k i r bs d d' \<longleftrightarrow> (\<exists>p p'. get_urbp w k d = Some p \<and> get_urbp w k d' = Some p'
     \<and> usb_urb_dir_in (urbp_urb p') = usb_urb_dir_in (urbp_urb p)
     \<and> carried bs p (reqs d r) p' (reqs d' r)
     \<and> (\<forall>r'. r' \<noteq> r \<longrightarrow> reqs d' r' = reqs d r')
     \<and> (queue (ep d' ! i) = queue (ep d ! i) \<or> queue (ep d' ! i) = remove1 r (queue (ep d ! i))))"

lemma transfer_one_carries:
  assumes sg: "sg_iterator env" and plain: "plain_env env" and i: "i < DUMMY_ENDPOINTS"
    and r: "r \<in> set (queue (ep d ! i))" and on: "on_wire w k i p d" and str: "\<not> skips w k d r"
    and one: "transfer_one env w k i r limit sent st d = Some (f, l', s', st', d')"
  shows "\<exists>bs. carries_one w k i r bs d d' \<and> skips w k d' = skips w k d \<and> (limit = 0 \<longrightarrow> bs = [] \<and> f = Stop)
    \<and> (f = Advance \<longrightarrow> l' = 0)"
proof -
  have wf: "wf_dummy d" and p: "get_urbp w k d = Some p" and ready: "urb_ready p"
    and maxp: "0 < maxpacket (ep d ! i)" "maxpacket (ep d ! i) < 2 ^ 16"
    using on by (simp_all add: on_wire_def)
  have len: "i < length (ep d)" using i wf_dummyD(4) [OF wf] by simp
  obtain h where h: "hcd_of w d = Some h" using p by (auto simp: get_urbp_def split: option.splits)
  let ?u = "urbp_urb p" and ?q = "reqs d r"
  let ?hl = "transfer_buffer_length ?u - actual_length ?u" and ?dl = "rq_length ?q - rq_actual ?q"
  let ?x = "\<lparr>x_urbp = p, x_req = ?q, x_limit = limit, x_sent = sent, x_status = st, x_rescan = False\<rparr>"
  have match: "\<not> (dummy_ep_stream_en h ?u \<and> urb_stream_id ?u \<noteq> rq_stream_id ?q)"
    using str h p by (auto simp: skips_def)
  have q: "wf_request ?q" using wf_dummyD(2) [OF wf queued_queue [OF len r]] .
  then have "unat (rq_actual ?q) + unat ?dl = unat (rq_length ?q)" "unat (rq_length ?q) \<le> length (rq_buf ?q)"
    using unat_sub [of "rq_actual ?q" "rq_length ?q"] by (simp_all add: wf_request_def word_le_nat_alt)
  moreover have "unat (min ?hl ?dl) \<le> unat ?dl" by (simp add: word_le_nat_alt [symmetric])
  moreover have "unat (rq_length ?q) < 2 ^ 32" using unsigned_less [of "rq_length ?q", where 'a = nat] by simp
  ultimately have req: "unat (rq_actual ?q) + unat (min ?hl ?dl) \<le> length (rq_buf ?q)"
    "unat (rq_actual ?q) + unat (min ?hl ?dl) < 2 ^ 32" by linarith+
  obtain res where res: "move_data env (maxpacket (ep d ! i)) (min ?hl ?dl) ?x = Some res"
    using one h p match by (auto simp: transfer_one_def Let_def bind_eq_Some_conv)
  show ?thesis
  proof (cases res)
    case Data_Stop
    then have "d' = d \<and> f = Stop" using one h p match res by (simp add: transfer_one_def Let_def)
    then show ?thesis using p carried_refl by (auto simp: carries_one_def)
  next
    case (Data_Moved b mv y)
    note res = res [unfolded Data_Moved]
    let ?z = "settle b ?hl ?dl y"
    let ?d0 = "if mv then upd_ep i (\<lambda>e. e\<lparr>last_io := jiffies d\<rparr>) d else d"
    let ?d1 = "upd_req r (\<lambda>_. x_req ?z) (put_urbp w (x_urbp y) ?d0)"
    let ?fin = "rq_status (x_req ?z) \<noteq> - EINPROGRESS"
    let ?d2 = "upd_ep i (\<lambda>e. e\<lparr>queue := remove1 r (queue e)\<rparr>) ?d1"
    let ?f = "if x_status ?z \<noteq> - EINPROGRESS then Stop else if ?fin \<or> x_rescan ?z then Rescan else Advance"
    have "transfer_one env w k i r limit sent st d
        = Some (?f, x_limit y, x_sent y, x_status ?z, if ?fin then giveback env i r ?d2 else ?d1)"
      using h p res by (simp add: transfer_one_def Let_def match)
    from trans [OF one [symmetric] this]
    have d': "d' = (if ?fin then giveback env i r ?d2 else ?d1)" and l': "l' = x_limit y" and f: "f = ?f"
      by (simp_all only: option.inject prod.inject)
    obtain bs where bs: "carried bs p ?q (x_urbp y) (x_req y)" "limit = 0 \<longrightarrow> bs = [] \<and> b"
      using move_data_carried [OF sg _ maxp _ _ _ res] ready req by auto
    note keep = move_data_streams [OF res]
    have id: "urbp_id (x_urbp y) = k" using keep(4) get_urbp_id [OF p] by simp
    have "get_urbp w k ?d0 = Some p" using p by simp
    from get_put_urbp [OF this id] have get: "get_urbp w k d' = Some (x_urbp y)"
      by (simp add: d' giveback_plain [OF plain] get_urbp_def)
    have reqs: "reqs d' = (reqs d)(r := x_req ?z)" by (simp add: d' giveback_plain [OF plain])
    have queue: "queue (ep d' ! i) = (if ?fin then remove1 r (queue (ep d ! i)) else queue (ep d ! i))"
      using len by (simp add: d' giveback_plain [OF plain])
    have "carries_one w k i r bs d d'"
      using p get bs(1) keep(3) reqs queue by (auto simp: carries_one_def)
    moreover have "skips w k d' = skips w k d"
    proof -
      have "hcd_of w ?d0 = Some h" using h by simp
      then obtain ps where "hcd_of w (put_urbp w (x_urbp y) ?d0) = Some (h\<lparr>urbp_list := ps\<rparr>)"
        using put_urbp_hub by blast
      then have hub: "hcd_of w d' = Some (h\<lparr>urbp_list := ps\<rparr>)" by (simp add: d' giveback_plain [OF plain])
      have "rq_stream_id (reqs d' x) = rq_stream_id (reqs d x)" for x using reqs keep by simp
      moreover have "dummy_ep_stream_en (h\<lparr>urbp_list := ps\<rparr>) (urbp_urb (x_urbp y)) = dummy_ep_stream_en h ?u"
        using keep by simp
      ultimately show ?thesis
        unfolding skips_def fun_eq_iff hub get h p using keep(2) by simp
    qed
    moreover have "f = Stop" if "limit = 0" using bs(2) that f settle_short [of ?hl ?dl y] by auto
    moreover have "l' = 0" if adv: "f = Advance"
    proof -
      have "x_status ?z = - EINPROGRESS" "rq_status (x_req ?z) = - EINPROGRESS" "\<not> x_rescan ?z"
        using f adv by (auto split: if_splits)
      moreover have "x_limit y \<noteq> limit" if "\<not> b"
        using move_data_ready [OF sg, of ?x "maxpacket (ep d ! i)" "min ?hl ?dl"] ready maxp req res that by auto
      ultimately have "x_limit y = 0" by (intro settle_advance [OF res]) simp_all
      then show ?thesis using l' by simp
    qed
    ultimately show ?thesis using bs(2) by blast
  qed
qed

section \<open>All requests of an endpoint\<close>

text \<open>
  The bytes \<open>bs r\<close> of each request \<open>r\<close> cross the wire: the host's transfer gets, or gives, those
  of the first request of the queue, then those of the second, and so on.
\<close>

definition carries :: "hcd_sel \<Rightarrow> nat \<Rightarrow> nat list \<Rightarrow> (nat \<Rightarrow> u8 list) \<Rightarrow> dummy_t \<Rightarrow> dummy_t \<Rightarrow> bool" where
  "carries w k rs bs d d' \<longleftrightarrow> (\<exists>p p'. get_urbp w k d = Some p \<and> get_urbp w k d' = Some p'
     \<and> usb_urb_dir_in (urbp_urb p') = usb_urb_dir_in (urbp_urb p)
     \<and> host_bytes (urbp_urb p') = host_bytes (urbp_urb p) @ concat (map bs rs)
     \<and> (\<forall>r. req_bytes (reqs d' r) = req_bytes (reqs d r) @ bs r)
     \<and> (\<forall>r. r \<notin> set rs \<longrightarrow> reqs d' r = reqs d r)
     \<and> (if usb_urb_dir_in (urbp_urb p) then \<forall>r. rq_buf (reqs d' r) = rq_buf (reqs d r)
        else urb_data (urbp_urb p') = urb_data (urbp_urb p)))"

lemma carries_refl: "get_urbp w k d = Some p \<Longrightarrow> carries w k rs (\<lambda>_. []) d d"
  by (auto simp: carries_def concat_eq_Nil_conv)

lemma concat_single: "distinct xs \<Longrightarrow> x \<in> set xs \<Longrightarrow> concat (map (\<lambda>y. if y = x then b else []) xs) = b"
  by (induction xs) (auto simp: concat_eq_Nil_conv)

lemma carries_single:
  assumes "carries_one w k i r bs d d'" and "distinct rs" and "r \<in> set rs"
  shows "carries w k rs (\<lambda>y. if y = r then bs else []) d d'"
proof -
  obtain p p' where p: "get_urbp w k d = Some p" "get_urbp w k d' = Some p'"
    "usb_urb_dir_in (urbp_urb p') = usb_urb_dir_in (urbp_urb p)" "carried bs p (reqs d r) p' (reqs d' r)"
    "\<forall>r'. r' \<noteq> r \<longrightarrow> reqs d' r' = reqs d r'"
    using assms(1) by (auto simp: carries_one_def)
  have "req_bytes (reqs d' x) = req_bytes (reqs d x) @ (if x = r then bs else [])" for x
    using p(4,5) by (simp add: carried_def)
  moreover have "rq_buf (reqs d' x) = rq_buf (reqs d x)" if "usb_urb_dir_in (urbp_urb p)" for x
    using p(4,5) that by (cases "x = r") (simp_all add: carried_def)
  moreover have "reqs d' x = reqs d x" if "x \<notin> set rs" for x using p(5) that assms(3) by (cases "x = r") simp_all
  ultimately show ?thesis
    unfolding carries_def concat_single [OF assms(2,3)]
    using p assms(3) by - (rule exI [of _ p], rule exI [of _ p'], auto simp: carried_def)
qed

lemma carries_more:
  assumes one: "carries_one w k i r bs d d1" and q: "queue (ep d ! i) = pre @ r # rs" "distinct (pre @ r # rs)"
    and more: "carries w k (queue (ep d1 ! i)) bs' d1 d'" and skip: "\<forall>x \<in> set pre. bs' x = []"
  shows "carries w k (pre @ r # rs) (\<lambda>x. if x = r then bs @ bs' r else bs' x) d d'"
proof -
  obtain p p1 where p: "get_urbp w k d = Some p" "get_urbp w k d1 = Some p1"
    "usb_urb_dir_in (urbp_urb p1) = usb_urb_dir_in (urbp_urb p)" "carried bs p (reqs d r) p1 (reqs d1 r)"
    "\<forall>r'. r' \<noteq> r \<longrightarrow> reqs d1 r' = reqs d r'"
    and queue: "queue (ep d1 ! i) = pre @ r # rs \<or> queue (ep d1 ! i) = pre @ rs"
    using one q by (auto simp: carries_one_def remove1_append)
  obtain p' where p': "get_urbp w k d' = Some p'"
    "usb_urb_dir_in (urbp_urb p') = usb_urb_dir_in (urbp_urb p1)"
    "host_bytes (urbp_urb p') = host_bytes (urbp_urb p1) @ concat (map bs' (queue (ep d1 ! i)))"
    "\<And>r. req_bytes (reqs d' r) = req_bytes (reqs d1 r) @ bs' r"
    "\<And>r. r \<notin> set (queue (ep d1 ! i)) \<Longrightarrow> reqs d' r = reqs d1 r"
    "if usb_urb_dir_in (urbp_urb p1) then \<forall>r. rq_buf (reqs d' r) = rq_buf (reqs d1 r)
     else urb_data (urbp_urb p') = urb_data (urbp_urb p1)"
    using more p(2) by (auto simp: carries_def)
  let ?bs = "\<lambda>x. if x = r then bs @ bs' r else bs' x"
  have rest: "concat (map ?bs rs) = concat (map bs' rs)"
    using q(2) by (intro arg_cong [where f = concat] map_cong) auto
  have pre: "concat (map ?bs pre) = []" "concat (map bs' pre) = []"
    using skip q(2) by (auto simp: concat_eq_Nil_conv)
  have "bs' r = []" if "r \<notin> set (queue (ep d1 ! i))" using p'(4) [of r] p'(5) [OF that] by simp
  then have "concat (map bs' (queue (ep d1 ! i))) = bs' r @ concat (map bs' rs)"
    using queue q(2) pre(2) by auto
  moreover have "concat (map ?bs (pre @ r # rs)) = (bs @ bs' r) @ concat (map bs' rs)"
    using rest pre(1) by simp
  ultimately have "host_bytes (urbp_urb p') = host_bytes (urbp_urb p) @ concat (map ?bs (pre @ r # rs))"
    using p'(3) p(4) by (simp only: carried_def append_assoc)
  moreover have "req_bytes (reqs d' x) = req_bytes (reqs d x) @ ?bs x" for x
    using p'(4) [of x] p(4,5) by (simp add: carried_def)
  moreover have "reqs d' x = reqs d x" if "x \<notin> set (pre @ r # rs)" for x
    using that queue p'(5) [of x] p(5) by auto
  moreover have "rq_buf (reqs d' x) = rq_buf (reqs d x)" if "usb_urb_dir_in (urbp_urb p)" for x
    using p(3-5) p'(6) that by (cases "x = r") (simp_all add: carried_def)
  moreover have "urb_data (urbp_urb p') = urb_data (urbp_urb p)" if "\<not> usb_urb_dir_in (urbp_urb p)"
    using p(3,4) p'(6) that by (simp add: carried_def)
  ultimately show ?thesis
    using p(1,3) p'(1,2) unfolding carries_def by - (rule exI [of _ p], rule exI [of _ p'], simp)
qed

lemma queue_distinct: "wf_dummy d \<Longrightarrow> i < length (ep d) \<Longrightarrow> distinct (queue (ep d ! i))"
  by (auto simp: wf_dummy_def wf_queues_def distinct_concat_iff)

text \<open>
  The loop stands after the requests \<open>pre\<close>, which are of other streams; or the limit is used up, and
  nothing moves any more. The requests of other streams stay as they are.
\<close>

lemma transfer_loop_carries:
  assumes sg: "sg_iterator env" and env: "env_ok env" and plain: "plain_env env" and i: "i < DUMMY_ENDPOINTS"
  shows "\<lbrakk>(\<exists>pre. queue (ep d ! i) = pre @ rs \<and> (\<forall>x \<in> set pre. skips w k d x))
        \<or> limit = 0 \<and> set rs \<subseteq> set (queue (ep d ! i)); on_wire w k i p d;
      transfer_loop env w k i rs limit sent st d = Some (s', st', d')\<rbrakk> \<Longrightarrow>
    \<exists>bs. carries w k (queue (ep d ! i)) bs d d' \<and> (\<forall>x. skips w k d x \<longrightarrow> bs x = [] \<and> reqs d' x = reqs d x)"
proof (induction "(unat limit, length rs)" arbitrary: limit rs sent st d p
    rule: wf_induct_rule [OF wf_lex_prod [OF wf_less_than wf_less_than]])
  case (1 limit rs sent st d p)
  note IH = 1(1) and rs = 1(2) and on = 1(3) and loop = 1(4)
  have wf: "wf_dummy d" using on by (simp add: on_wire_def)
  have dist: "distinct (queue (ep d ! i))" using queue_distinct [OF wf] i wf_dummyD(4) [OF wf] by simp
  show ?case
  proof (cases rs)
    case Nil
    then have "d' = d" using loop by (simp add: transfer_loop.simps)
    moreover have "carries w k (queue (ep d ! i)) (\<lambda>_. []) d d" using on carries_refl by (auto simp: on_wire_def)
    ultimately show ?thesis by (intro exI [of _ "\<lambda>_. []"]) simp
  next
    case (Cons r rs')
    then have "r \<in> set rs" by simp
    then have r: "r \<in> set (queue (ep d ! i))" using rs by auto
    show ?thesis
    proof (cases "skips w k d r")
      case True
      have "transfer_loop env w k i rs' limit sent st d = Some (s', st', d')"
        using loop skips_advances [OF True] Cons by (simp add: transfer_loop.simps [of env w k i "r # rs'"])
      moreover have "(\<exists>pre. queue (ep d ! i) = pre @ rs' \<and> (\<forall>x \<in> set pre. skips w k d x))
          \<or> limit = 0 \<and> set rs' \<subseteq> set (queue (ep d ! i))"
      proof (cases "limit = 0 \<and> set rs \<subseteq> set (queue (ep d ! i))")
        case False
        then obtain pre where "queue (ep d ! i) = pre @ rs" "\<forall>x \<in> set pre. skips w k d x" using rs by blast
        then show ?thesis using True Cons by (intro disjI1 exI [of _ "pre @ [r]"]) simp
      qed (use Cons in simp)
      moreover have "((unat limit, length rs'), unat limit, length rs) \<in> less_than <*lex*> less_than" using Cons by simp
      ultimately show ?thesis by (intro IH [OF _ _ on]) simp_all
    next
      case go: False
      obtain f l' st1 d1 p1 n where one: "transfer_one env w k i r limit sent st d
          = Some (f, l', sent + of_nat n, st1, d1)"
        and on1: "on_wire w k i p1 d1" and n: "n \<le> unat limit" "unat l' = unat limit - n" "f = Rescan \<longrightarrow> 0 < n"
        and same: "f = Advance \<longrightarrow> queue (ep d1 ! i) = queue (ep d ! i)"
        using transfer_one_ready [OF sg env plain_leaves_wire [OF plain] i r on] by blast
      obtain bs where c: "carries_one w k i r bs d d1" and skip1: "skips w k d1 = skips w k d"
        and zero: "limit = 0 \<longrightarrow> f = Stop" and adv: "f = Advance \<longrightarrow> l' = 0"
        using transfer_one_carries [OF sg plain i r on go one] by blast
      have other: "x \<noteq> r" "reqs d1 x = reqs d x" if "skips w k d x" for x
        using go that c by (auto simp: carries_one_def)
      have next_: "transfer_loop env w k i (case f of Advance \<Rightarrow> rs' | _ \<Rightarrow> queue (ep d1 ! i)) l' (sent + of_nat n) st1 d1
          = Some (s', st', d')" if "f \<noteq> Stop"
        using loop one Cons that by (simp add: transfer_loop.simps [of env w k i "r # rs'"] split: flow.splits)
      show ?thesis
      proof (cases "f = Stop")
        case True
        then have "d' = d1" using loop one Cons by (simp add: transfer_loop.simps [of env w k i "r # rs'"])
        moreover have "\<forall>x. skips w k d x \<longrightarrow> (if x = r then bs else []) = [] \<and> reqs d1 x = reqs d x"
          using other by (metis (full_types))
        ultimately show ?thesis using carries_single [OF c dist r] by (intro exI [of _ "\<lambda>x. if x = r then bs else []"]) (simp only: simp_thms)
      next
        case False
        then obtain pre where q: "queue (ep d ! i) = pre @ r # rs'" and pre: "\<forall>x \<in> set pre. skips w k d x"
          using rs zero False unfolding Cons by (elim disjE exE conjE) simp_all
        let ?rs = "case f of Advance \<Rightarrow> rs' | _ \<Rightarrow> queue (ep d1 ! i)"
        have "((unat l', length ?rs), unat limit, length rs) \<in> less_than <*lex*> less_than"
          using n Cons False by (cases f) auto
        moreover have "(\<exists>pre. queue (ep d1 ! i) = pre @ ?rs \<and> (\<forall>x \<in> set pre. skips w k d1 x))
            \<or> l' = 0 \<and> set ?rs \<subseteq> set (queue (ep d1 ! i))"
          using adv same q False by (cases f) (simp_all add: subset_insertI2)
        ultimately have "\<exists>bs. carries w k (queue (ep d1 ! i)) bs d1 d'
            \<and> (\<forall>x. skips w k d1 x \<longrightarrow> bs x = [] \<and> reqs d' x = reqs d1 x)"
          by (rule IH [OF _ _ on1 next_ [OF False]])
        then obtain bs' where more: "carries w k (queue (ep d1 ! i)) bs' d1 d'"
          and skip: "skips w k d x \<Longrightarrow> bs' x = []" "skips w k d x \<Longrightarrow> reqs d' x = reqs d1 x" for x
          unfolding skip1 by (elim exE conjE) simp
        have "carries w k (pre @ r # rs') (\<lambda>x. if x = r then bs @ bs' r else bs' x) d d'"
          by (rule carries_more [OF c q _ more]) (use dist q pre skip(1) in simp_all)
        moreover have "(if x = r then bs @ bs' r else bs' x) = [] \<and> reqs d' x = reqs d x" if "skips w k d x" for x
          using skip [OF that] other [OF that] by simp
        ultimately show ?thesis unfolding q by (intro exI [of _ "\<lambda>x. if x = r then bs @ bs' r else bs' x"] conjI) blast+
      qed
    qed
  qed
qed

lemma transfer_carried:
  assumes "sg_iterator env" and "env_ok env" and "plain_env env" and "i < DUMMY_ENDPOINTS"
    and "on_wire w k i p d" and "0 \<le> limit" and "limit < 2 ^ 31"
  shows "\<exists>sent st' d' bs. transfer env w k i limit st d = Some (sent, st', d')
    \<and> carries w k (queue (ep d ! i)) bs d d' \<and> sent = int (length (concat (map bs (queue (ep d ! i)))))
    \<and> (\<forall>r. skips w k d r \<longrightarrow> bs r = [] \<and> reqs d' r = reqs d r)"
proof -
  note wire = plain_leaves_wire [OF assms(3)]
  have lim: "unat (word_of_int limit :: u32) = nat limit"
    using assms(6,7) by (simp add: unat_eq_nat_uint uint_word_of_int)
  obtain st' d' p' n where
      loop: "transfer_loop env w k i (queue (ep d ! i)) (word_of_int limit) 0 st d = Some (0 + of_nat n, st', d')"
      and on: "on_wire w k i p' d'" and adv: "advanced n p p'" and n: "n \<le> nat limit"
    using transfer_loop_ready [OF assms(1,2) wire assms(4) order_refl assms(5), of "word_of_int limit" 0 st] lim by auto
  have "(\<exists>pre. queue (ep d ! i) = pre @ queue (ep d ! i) \<and> (\<forall>x \<in> set pre. skips w k d x)) \<or> P" for P by simp
  from transfer_loop_carries [OF assms(1-4) this assms(5) loop] obtain bs where
      c: "carries w k (queue (ep d ! i)) bs d d'"
    and skip: "\<forall>x. skips w k d x \<longrightarrow> bs x = [] \<and> reqs d' x = reqs d x" by blast
  have un: "unat (of_nat n :: u32) = n" using n assms(7) by (simp add: unat_of_nat)
  then have t: "transfer env w k i limit st d = Some (int n, st', d')"
    using loop n assms(7) sint_small [of "of_nat n"] by (simp add: transfer_def)
  have get: "get_urbp w k d = Some p" "get_urbp w k d' = Some p'" using assms(5) on by (simp_all add: on_wire_def)
  have len: "length (host_bytes (urbp_urb q)) = unat (actual_length (urbp_urb q))" if "urb_ready q" for q
    using that by (auto simp: host_bytes_def urb_data_def urb_ready_def Let_def word_le_nat_alt)
  have "n = length (concat (map bs (queue (ep d ! i))))"
    using c get len [of p] len [of p'] assms(5) on adv by (auto simp: carries_def on_wire_def advanced_def)
  then show ?thesis using t c skip by blast
qed

text \<open>
  C4. A transfer loses, duplicates and reorders nothing: what the host's transfer gains is, in the
  order of the queue, what each request gains, in the right place of both buffers, in either
  direction and also with scatter-gather lists, short packets, overflows and limits that end in the
  middle of a request; its length is what is reported as sent, and the buffers the data comes from do
  not change. Where the endpoint has streams, the requests of another stream than the transfer's
  gain nothing and stay as they are. This is the call of \<open>transfer\<close> on a well-formed state, for an
  endpoint with a packet size and a transfer whose buffers match its lengths (\<open>on_wire\<close>), a limit
  below two gigabytes and a gadget driver whose completion handler does nothing (\<open>plain_env\<close>).
\<close>

theorem transfer_carries:
  assumes "sg_iterator env" and "env_ok env" and "plain_env env" and "i < DUMMY_ENDPOINTS"
    and "on_wire w k i p d" and "0 \<le> limit" and "limit < 2 ^ 31"
  shows "\<exists>sent st' d' p' bs. transfer env w k i limit st d = Some (sent, st', d') \<and> get_urbp w k d' = Some p'
    \<and> host_bytes (urbp_urb p') = host_bytes (urbp_urb p) @ concat (map bs (queue (ep d ! i)))
    \<and> (\<forall>r. req_bytes (reqs d' r) = req_bytes (reqs d r) @ bs r)
    \<and> sent = int (length (concat (map bs (queue (ep d ! i)))))
    \<and> (if usb_urb_dir_in (urbp_urb p) then \<forall>r. rq_buf (reqs d' r) = rq_buf (reqs d r)
       else urb_data (urbp_urb p') = urb_data (urbp_urb p))
    \<and> (\<forall>r. skips w k d r \<longrightarrow> bs r = [] \<and> reqs d' r = reqs d r)"
  using transfer_carried [OF assms, of st] assms(5) by (fastforce simp: carries_def on_wire_def)

text \<open>
  The example: two requests on an endpoint with streams, for a transfer of the first stream; the
  request at the head of the queue is of the second stream and is passed over.
\<close>

definition stream_demo :: dummy_t where
  "stream_demo = upd_req 1 (\<lambda>q. q\<lparr>rq_stream_id := 1\<rparr>) (upd_req 0 (\<lambda>q. q\<lparr>rq_stream_id := 2\<rparr>)
     (set_hcd HS (demo_hcd\<lparr>stream_en_ep := 0xFF, urbp_list := [in_urbp\<lparr>urbp_urb := (urbp_urb in_urbp)\<lparr>
       urb_ep_desc := bulk_desc 0x81, urb_stream_id := 1\<rparr>\<rparr>]\<rparr>)
       (wire_demo [[9, 10], [1, 2, 3, 4, 5, 6, 7, 8]])))"

theorem transfer_carries_witness:
  "\<exists>sent st d p bs. transfer idle_env HS 7 1 1000 (- EINPROGRESS) stream_demo = Some (sent, st, d)
    \<and> get_urbp HS 7 d = Some p \<and> host_bytes (urbp_urb p) = bs 1
    \<and> (\<forall>r. req_bytes (reqs d r) = req_bytes (reqs stream_demo r) @ bs r) \<and> bs 0 = []"
proof -
  let ?p = "in_urbp\<lparr>urbp_urb := (urbp_urb in_urbp)\<lparr>urb_ep_desc := bulk_desc 0x81, urb_stream_id := 1\<rparr>\<rparr>"
  have p: "get_urbp HS 7 stream_demo = Some ?p"
    by (simp add: stream_demo_def get_urbp_def in_urbp_def)
  have h: "hcd_of HS stream_demo = Some (demo_hcd\<lparr>stream_en_ep := 0xFF, urbp_list := [?p]\<rparr>)"
    by (simp add: stream_demo_def)
  have r: "reqs stream_demo 0 = (in_request [9, 10])\<lparr>rq_stream_id := 2\<rparr>"
    by (simp add: stream_demo_def wire_demo_def)
  have "wf_dummy (set_hcd HS (demo_hcd\<lparr>stream_en_ep := 0xFF, urbp_list := [?p]\<rparr>)
      (wire_demo [[9, 10], [1, 2, 3, 4, 5, 6, 7, 8]]))" (is "wf_dummy ?d") by (simp add: wf_wire_demo)
  then have wf: "wf_dummy stream_demo"
    by (auto simp: stream_demo_def wf_dummy_def wf_queues_def wf_request_def queued_def)
  have on: "on_wire HS 7 1 ?p stream_demo"
    using wf p in_urbp_ready by (simp add: on_wire_def stream_demo_def urb_ready_def in_urbp_def zero_urbp_def zero_urb_def
      del: One_nat_def)
  have "queue (ep (wire_demo [[9, 10], [1, 2, 3, 4, 5, 6, 7, 8]]) ! 1) = [0, 1]"
    by (simp only: wire_demo_simps) (simp add: upt_rec)
  then have q: "queue (ep stream_demo ! 1) = [0, 1]" by (simp only: stream_demo_def upd_req_simps set_hcd_simps)
  have "ep_idx_bit (bulk_desc 0x81) AND 0xFF \<noteq> 0" "usb_endpoint_xfer_bulk (bulk_desc 0x81)" by code_simp+
  then have "skips HS 7 stream_demo 0"
    using p h r by (simp add: skips_def dummy_ep_stream_en_def)
  moreover have "host_bytes (urbp_urb ?p) = []" by (simp add: host_bytes_def in_urbp_def zero_urbp_def zero_urb_def)
  ultimately show ?thesis
    using transfer_carries [OF idle_sg.sg_iterator_axioms idle_env_ok idle_env_plain _ on, of 1000 "- EINPROGRESS"] q
    by (fastforce simp: DUMMY_ENDPOINTS_eq)
qed

end
