(* ===== verification/Dummy_Exchange.thy ===== *)
theory Dummy_Exchange
  imports Dummy_Data Dummy_Timer
begin

text \<open>
  The wire end to end (dummy\_hcd.c, lines 669 to 741, 1341 to 1497 and 1811 to 1972): a visit of the scheduler to
  a bulk transfer, with the request the gadget queued for it.
\<close>

section \<open>When a transfer and a request complete each other\<close>

text \<open>
  The sender has something left and no more than the receiver; and the end can be seen: by a short
  packet, or because both have the same length, with no empty packet asked for after it.
\<close>

definition left_urb :: "urb \<Rightarrow> u32" where
  "left_urb u = transfer_buffer_length u - actual_length u"

definition left_req :: "usb_request \<Rightarrow> u32" where
  "left_req q = rq_length q - rq_actual q"

definition completes :: "nat \<Rightarrow> urb \<Rightarrow> usb_request \<Rightarrow> bool" where
  "completes maxp u q \<longleftrightarrow>
     0 < min (left_urb u) (left_req q)
     \<and> (if usb_urb_dir_in u then left_req q \<le> left_urb u else left_urb u \<le> left_req q)
     \<and> (min (left_urb u) (left_req q) mod of_nat maxp \<noteq> 0
        \<or> left_urb u = left_req q \<and> \<not> rq_zero q \<and> transfer_flags u AND URB_ZERO_PACKET = 0)"

lemma move_data_moves:
  assumes sg: "sg_iterator env" and ready: "urb_ready (x_urbp x)"
    and maxp: "0 < maxp" "maxp < 2 ^ 16"
    and len: "len \<le> left_urb (urbp_urb (x_urbp x))" "0 < len" "len \<le> x_limit x"
    and req: "unat (rq_actual (x_req x)) + unat len \<le> length (rq_buf (x_req x))"
  shows "\<exists>y. move_data env maxp len x = Some (Data_Moved (len < of_nat maxp) True y)
    \<and> moved_by (pass_len maxp len x) x y
    \<and> x_rescan y = (x_rescan x \<or> of_nat maxp \<le> len \<and> len mod of_nat maxp \<noteq> 0)"
proof -
  let ?n = "pass_len maxp len x" and ?x = "pass_xfer maxp len x"
  have l: "min len (x_limit x) = len" using len(3) by (rule min_absorb1)
  have go: "\<not> (sint (x_limit x) < int maxp \<and> x_limit x < len)" "min len (x_limit x) \<noteq> 0"
    using len(2,3) l by auto
  have move: "move_data env maxp len x = move_packets env (\<not> of_nat maxp \<le> len) ?n ?x"
    using move_data_go [OF maxp(1) _ go] go(2) l by simp
  have "0 < min len (x_limit x)" using len(2) by (simp only: l)
  then have pos: "0 < ?n" by (rule pass_len_pos [OF maxp])
  have n: "unat ?n \<le> unat len" using pass_len_le(1) by (simp add: word_le_nat_alt)
  have room: "?n \<le> transfer_buffer_length (urbp_urb (x_urbp x)) - actual_length (urbp_urb (x_urbp x))"
    using order_trans [OF pass_len_le(1) len(1)] by (simp add: left_urb_def)
  obtain y where y: "move_packets env (\<not> of_nat maxp \<le> len) ?n ?x = Some (Data_Moved (\<not> of_nat maxp \<le> len) True y)"
    "x_limit y = x_limit ?x - ?n"
    by (rule move_packets_ready [OF sg, of ?x ?n "\<not> of_nat maxp \<le> len"]) (use ready pos req n room in simp_all)
  have "?n \<le> x_limit ?x" using pass_len_le(2) by simp
  from move_packets_result [OF y(1) this] obtain rc where
    r: "x_rescan y = x_rescan ?x" "moved_by ?n ?x y \<or> failed_by rc ?x y" by auto
  have "x_limit y \<noteq> x_limit x" using y(2) pos by simp
  then have "moved_by ?n x y" using r(2) by (auto simp: failed_by_def moved_by_def)
  then show ?thesis
    using move y(1) r(1) l by (auto simp: pass_xfer_def Let_def not_le simp del: min.bounded_iff)
qed

text \<open>The loop's body when data moves, for a driver whose completion handler does nothing.\<close>

lemma transfer_one_moved:
  assumes "plain_env env" and "get_urbp w k d = Some p" and "\<not> skips w k d r" and "r \<in> set (queue (ep d ! i))"
    and "i < length (ep d)"
    and "move_data env (maxpacket (ep d ! i)) (min (left_urb (urbp_urb p)) (left_req (reqs d r)))
      \<lparr>x_urbp = p, x_req = reqs d r, x_limit = limit, x_sent = sent, x_status = st, x_rescan = False\<rparr>
      = Some (Data_Moved b mv y)"
    and z: "z = settle b (left_urb (urbp_urb p)) (left_req (reqs d r)) y"
  shows "\<exists>d'. transfer_one env w k i r limit sent st d = Some
      (if x_status z \<noteq> - EINPROGRESS then Stop
       else if rq_status (x_req z) \<noteq> - EINPROGRESS \<or> x_rescan z then Rescan else Advance,
       x_limit y, x_sent y, x_status z, d')
    \<and> reqs d' = (reqs d)(r := x_req z) \<and> get_urbp w k d' = Some (x_urbp y)
    \<and> (if rq_status (x_req z) = - EINPROGRESS
       then trace d' = trace d \<and> queue (ep d' ! i) = queue (ep d ! i)
       else trace d' = trace d @ [Giveback i r (rq_status (x_req z)) (rq_actual (x_req y))]
         \<and> queue (ep d' ! i) = remove1 r (queue (ep d ! i)))
    \<and> maxpacket (ep d' ! i) = maxpacket (ep d ! i)"
proof -
  obtain h where h: "hcd_of w d = Some h" using assms(2) by (auto simp: get_urbp_def split: option.splits)
  let ?u = "urbp_urb p" and ?q = "reqs d r"
  let ?hl = "transfer_buffer_length ?u - actual_length ?u" and ?dl = "rq_length ?q - rq_actual ?q"
  let ?x = "\<lparr>x_urbp = p, x_req = ?q, x_limit = limit, x_sent = sent, x_status = st, x_rescan = False\<rparr>"
  have match: "\<not> (dummy_ep_stream_en h ?u \<and> urb_stream_id ?u \<noteq> rq_stream_id ?q)"
    using assms(2,3) h by (auto simp: skips_def)
  have res: "move_data env (maxpacket (ep d ! i)) (min ?hl ?dl) ?x = Some (Data_Moved b mv y)"
    using assms(6) by (simp add: left_urb_def left_req_def)
  let ?d0 = "if mv then upd_ep i (\<lambda>e. e\<lparr>last_io := jiffies d\<rparr>) d else d"
  let ?d1 = "upd_req r (\<lambda>_. x_req z) (put_urbp w (x_urbp y) ?d0)"
  let ?fin = "rq_status (x_req z) \<noteq> - EINPROGRESS"
  let ?d2 = "upd_ep i (\<lambda>e. e\<lparr>queue := remove1 r (queue e)\<rparr>) ?d1"
  let ?d' = "if ?fin then giveback env i r ?d2 else ?d1"
  have z': "settle b ?hl ?dl y = z" using z by (simp add: left_urb_def left_req_def)
  have zu: "x_urbp z = x_urbp y" "x_limit z = x_limit y" "x_sent z = x_sent y" "rq_actual (x_req z) = rq_actual (x_req y)"
    using z by simp_all
  have one: "transfer_one env w k i r limit sent st d = Some
      (if x_status z \<noteq> - EINPROGRESS then Stop else if ?fin \<or> x_rescan z then Rescan else Advance,
       x_limit y, x_sent y, x_status z, ?d')"
    using h assms(2) res by (simp add: transfer_one_def Let_def match z' zu)
  have id: "urbp_id (x_urbp y) = k"
    using move_data_streams(4) [OF res] get_urbp_id [OF assms(2)] by simp
  have "get_urbp w k ?d0 = Some p" using assms(2) by simp
  from get_put_urbp [OF this id] have get: "get_urbp w k ?d' = Some (x_urbp y)"
    by (simp add: giveback_plain [OF assms(1)] get_urbp_def)
  show ?thesis
    using one get assms(5)
    by (intro exI [of _ ?d']) (auto simp: giveback_plain [OF assms(1)] zu(4))
qed

text \<open>What a pass moves when the limit does not cut it.\<close>

lemma pass_moves:
  assumes sg: "sg_iterator env" and i: "i < DUMMY_ENDPOINTS" and r: "r \<in> set (queue (ep d ! i))"
    and on: "on_wire w k i p d" and n: "n \<le> left_urb (urbp_urb p)" "n \<le> left_req (reqs d r)" "0 < n" "n \<le> limit"
    and m: "m = (if of_nat (maxpacket (ep d ! i)) \<le> n then n - n mod of_nat (maxpacket (ep d ! i)) else n)"
  obtains y where "move_data env (maxpacket (ep d ! i)) n
      \<lparr>x_urbp = p, x_req = reqs d r, x_limit = limit, x_sent = sent, x_status = st, x_rescan = False\<rparr>
      = Some (Data_Moved (n < of_nat (maxpacket (ep d ! i))) True y)"
    "x_limit y = limit - m" "x_sent y = sent + m" "x_status y = st"
    "x_rescan y \<longleftrightarrow> of_nat (maxpacket (ep d ! i)) \<le> n \<and> n mod of_nat (maxpacket (ep d ! i)) \<noteq> 0"
    "same_urb ((urbp_urb p)\<lparr>actual_length := actual_length (urbp_urb p) + m\<rparr>) (urbp_urb (x_urbp y))"
    "same_request ((reqs d r)\<lparr>rq_actual := rq_actual (reqs d r) + m\<rparr>) (x_req y)"
    "usb_urb_dir_in (urbp_urb (x_urbp y)) = usb_urb_dir_in (urbp_urb p)"
proof -
  have wf: "wf_dummy d" and ready: "urb_ready p"
    and maxp: "0 < maxpacket (ep d ! i)" "maxpacket (ep d ! i) < 2 ^ 16"
    using on by (simp_all add: on_wire_def)
  have len: "i < length (ep d)" using i wf_dummyD(4) [OF wf] by simp
  let ?x = "\<lparr>x_urbp = p, x_req = reqs d r, x_limit = limit, x_sent = sent, x_status = st, x_rescan = False\<rparr>"
  have "wf_request (reqs d r)" using wf_dummyD(2) [OF wf queued_queue [OF len r]] .
  then have "unat (rq_actual (reqs d r)) + unat (left_req (reqs d r)) \<le> length (rq_buf (reqs d r))"
    using unat_sub [of "rq_actual (reqs d r)" "rq_length (reqs d r)"]
    by (simp add: wf_request_def word_le_nat_alt left_req_def)
  then have room: "unat (rq_actual (reqs d r)) + unat n \<le> length (rq_buf (reqs d r))"
    using n(2) unfolding word_le_nat_alt by linarith
  have "\<exists>y. move_data env (maxpacket (ep d ! i)) n ?x = Some (Data_Moved (n < of_nat (maxpacket (ep d ! i))) True y)
      \<and> moved_by (pass_len (maxpacket (ep d ! i)) n ?x) ?x y
      \<and> x_rescan y = (x_rescan ?x \<or> of_nat (maxpacket (ep d ! i)) \<le> n \<and> n mod of_nat (maxpacket (ep d ! i)) \<noteq> 0)"
    by (rule move_data_moves [OF sg]) (use ready maxp n room in simp_all)
  then obtain y where y: "move_data env (maxpacket (ep d ! i)) n ?x = Some (Data_Moved (n < of_nat (maxpacket (ep d ! i))) True y)"
      "moved_by (pass_len (maxpacket (ep d ! i)) n ?x) ?x y"
      "x_rescan y = (x_rescan ?x \<or> of_nat (maxpacket (ep d ! i)) \<le> n \<and> n mod of_nat (maxpacket (ep d ! i)) \<noteq> 0)"
    by (elim exE conjE)
  have "min n limit = n" using n(4) by (rule min_absorb1)
  then have "pass_len (maxpacket (ep d ! i)) n ?x = m" unfolding m by (simp only: pass_len_def Let_def xfer.simps)
  then have moved: "moved_by m ?x y" using y(2) by (simp only:)
  show ?thesis
  proof (rule that [OF y(1)])
    show "x_rescan y \<longleftrightarrow> of_nat (maxpacket (ep d ! i)) \<le> n \<and> n mod of_nat (maxpacket (ep d ! i)) \<noteq> 0"
      using y(3) by (simp only: xfer.simps simp_thms)
    show "usb_urb_dir_in (urbp_urb (x_urbp y)) = usb_urb_dir_in (urbp_urb p)"
      using move_data_streams(3) [OF y(1)] by (simp only: xfer.simps)
  qed (use moved in \<open>simp_all add: moved_by_def\<close>)
qed

text \<open>The last pass: a short packet, or whole packets to the end of both.\<close>

lemma last_pass:
  assumes sg: "sg_iterator env" and plain: "plain_env env" and i: "i < DUMMY_ENDPOINTS"
    and r: "r \<in> set (queue (ep d ! i))" and on: "on_wire w k i p d" and str: "\<not> skips w k d r"
    and fits: "completes (maxpacket (ep d ! i)) (urbp_urb p) (reqs d r)"
    and n: "n = min (left_urb (urbp_urb p)) (left_req (reqs d r))" "n \<le> limit"
    and last_: "n < of_nat (maxpacket (ep d ! i)) \<or> n mod of_nat (maxpacket (ep d ! i)) = 0"
  shows "\<exists>d'. transfer_one env w k i r limit sent (- EINPROGRESS) d = Some (Stop, limit - n, sent + n, 0, d')
    \<and> trace d' = trace d @ [Giveback i r 0 (rq_actual (reqs d r) + n)]
    \<and> queue (ep d' ! i) = remove1 r (queue (ep d ! i)) \<and> (\<forall>r'. r' \<noteq> r \<longrightarrow> reqs d' r' = reqs d r')"
proof -
  have wf: "wf_dummy d" and p: "get_urbp w k d = Some p" and ready: "urb_ready p"
    and maxp: "0 < maxpacket (ep d ! i)" "maxpacket (ep d ! i) < 2 ^ 16"
    using on by (simp_all add: on_wire_def)
  have len: "i < length (ep d)" using i wf_dummyD(4) [OF wf] by simp
  let ?u = "urbp_urb p" and ?q = "reqs d r" and ?m = "of_nat (maxpacket (ep d ! i)) :: u32"
  let ?x = "\<lparr>x_urbp = p, x_req = ?q, x_limit = limit, x_sent = sent, x_status = - EINPROGRESS, x_rescan = False\<rparr>"
  have pos: "0 < n" using fits n(1) by (simp add: completes_def)
  have "n = (if ?m \<le> n then n - n mod ?m else n)" using last_ by auto
  from pass_moves [OF sg i r on _ _ pos n(2) this, of sent "- EINPROGRESS"] n(1) obtain y where
      y: "move_data env (maxpacket (ep d ! i)) n ?x = Some (Data_Moved (n < ?m) True y)"
    and lim: "x_limit y = limit - n" "x_sent y = sent + n" "x_status y = - EINPROGRESS"
    and u: "same_urb (?u\<lparr>actual_length := actual_length ?u + n\<rparr>) (urbp_urb (x_urbp y))"
    and rq: "same_request (?q\<lparr>rq_actual := rq_actual ?q + n\<rparr>) (x_req y)"
    and dir: "usb_urb_dir_in (urbp_urb (x_urbp y)) = usb_urb_dir_in ?u"
    by (auto simp del: min.bounded_iff)
  have act: "rq_actual (x_req y) = rq_actual ?q + n" using same_request_actual(3) [OF rq] by simp
  define z where "z = settle (n < ?m) (left_urb ?u) (left_req ?q) y"
  have z: "rq_status (x_req z) = 0 \<and> x_status z = 0"
  proof (cases "n < ?m")
    case True
    then show ?thesis
      using fits dir by (auto simp: z_def settle_def Let_def completes_def not_le)
  next
    case False
    then have "n mod ?m = 0" using last_ by simp
    then have full: "left_urb ?u = left_req ?q" "\<not> rq_zero ?q" "transfer_flags ?u AND URB_ZERO_PACKET = 0"
      using fits n(1) by (auto simp: completes_def)
    then have "n = left_urb ?u" "n = left_req ?q" using n(1) by simp_all
    moreover have "actual_length ?u + left_urb ?u = transfer_buffer_length ?u" "rq_actual ?q + left_req ?q = rq_length ?q"
      by (simp_all add: left_urb_def left_req_def)
    ultimately have "actual_length ?u + n = transfer_buffer_length ?u" "rq_actual ?q + n = rq_length ?q"
      by (simp_all only:)
    then have "rq_length (x_req y) = rq_actual (x_req y)" "\<not> rq_zero (x_req y)"
      "transfer_buffer_length (urbp_urb (x_urbp y)) = actual_length (urbp_urb (x_urbp y))"
      "transfer_flags (urbp_urb (x_urbp y)) AND URB_ZERO_PACKET = 0"
      using same_request_actual(3,4,7) [OF rq] same_urb_actual(2-4) [OF u] full(2,3) by simp_all
    then show ?thesis using False by (simp add: z_def settle_def Let_def)
  qed
  show ?thesis
    using transfer_one_moved [OF plain p str r len y [unfolded n(1)], folded n(1), OF z_def] z lim act
    by (auto simp: z_def)
qed

text \<open>The passes before it: whole packets, and the rest of both is what was left less those.\<close>

lemma first_pass:
  assumes sg: "sg_iterator env" and plain: "plain_env env" and i: "i < DUMMY_ENDPOINTS"
    and r: "r \<in> set (queue (ep d ! i))" and on: "on_wire w k i p d" and str: "\<not> skips w k d r"
    and fits: "completes (maxpacket (ep d ! i)) (urbp_urb p) (reqs d r)"
    and n: "n = min (left_urb (urbp_urb p)) (left_req (reqs d r))" "n \<le> limit"
    and rest: "of_nat (maxpacket (ep d ! i)) \<le> n" "n mod of_nat (maxpacket (ep d ! i)) \<noteq> 0"
    and m: "m = n - n mod of_nat (maxpacket (ep d ! i))"
  shows "\<exists>d' p'. transfer_one env w k i r limit sent (- EINPROGRESS) d
      = Some (Rescan, limit - m, sent + m, - EINPROGRESS, d')
    \<and> trace d' = trace d \<and> queue (ep d' ! i) = queue (ep d ! i) \<and> get_urbp w k d' = Some p'
    \<and> left_urb (urbp_urb p') = left_urb (urbp_urb p) - m \<and> left_req (reqs d' r) = left_req (reqs d r) - m
    \<and> usb_urb_dir_in (urbp_urb p') = usb_urb_dir_in (urbp_urb p) \<and> rq_actual (reqs d' r) = rq_actual (reqs d r) + m
    \<and> maxpacket (ep d' ! i) = maxpacket (ep d ! i) \<and> (\<forall>r'. r' \<noteq> r \<longrightarrow> reqs d' r' = reqs d r')"
proof -
  have wf: "wf_dummy d" and p: "get_urbp w k d = Some p" and ready: "urb_ready p"
    and maxp: "0 < maxpacket (ep d ! i)" "maxpacket (ep d ! i) < 2 ^ 16"
    using on by (simp_all add: on_wire_def)
  have len: "i < length (ep d)" using i wf_dummyD(4) [OF wf] by simp
  let ?u = "urbp_urb p" and ?q = "reqs d r" and ?m = "of_nat (maxpacket (ep d ! i)) :: u32"
  let ?x = "\<lparr>x_urbp = p, x_req = ?q, x_limit = limit, x_sent = sent, x_status = - EINPROGRESS, x_rescan = False\<rparr>"
  have q: "wf_request ?q" using wf_dummyD(2) [OF wf queued_queue [OF len r]] .
  have pos: "0 < n" using fits n(1) by (simp add: completes_def)
  have "m = (if ?m \<le> n then n - n mod ?m else n)" using rest m by simp
  from pass_moves [OF sg i r on _ _ pos n(2) this, of sent "- EINPROGRESS"] n(1) obtain y where
      y: "move_data env (maxpacket (ep d ! i)) n ?x = Some (Data_Moved (n < ?m) True y)" "x_rescan y"
    and lim: "x_limit y = limit - m" "x_sent y = sent + m" "x_status y = - EINPROGRESS"
    and u: "same_urb (?u\<lparr>actual_length := actual_length ?u + m\<rparr>) (urbp_urb (x_urbp y))"
    and rq: "same_request (?q\<lparr>rq_actual := rq_actual ?q + m\<rparr>) (x_req y)"
    and dir: "usb_urb_dir_in (urbp_urb (x_urbp y)) = usb_urb_dir_in ?u"
    using rest by (auto simp del: min.bounded_iff)
  have "m \<noteq> n" using rest(2) m by (metis add.right_neutral diff_add_cancel add_left_cancel)
  moreover have "m \<le> n" unfolding m by (rule mod_sub_le)
  moreover have "n \<le> left_urb ?u" "n \<le> left_req ?q" using n(1) by simp_all
  ultimately have more: "left_urb ?u \<noteq> m" "left_req ?q \<noteq> m" by auto
  have left: "left_urb (urbp_urb (x_urbp y)) = left_urb ?u - m" "left_req (x_req y) = left_req ?q - m"
    using same_request_actual(3,4) [OF rq] same_urb_actual(2,3) [OF u]
    by (simp_all add: left_urb_def left_req_def)
  have go: "rq_length (x_req y) \<noteq> rq_actual (x_req y)"
    "transfer_buffer_length (urbp_urb (x_urbp y)) \<noteq> actual_length (urbp_urb (x_urbp y))"
    using left more by (auto simp: left_urb_def left_req_def)
  define z where "z = settle (n < ?m) (left_urb ?u) (left_req ?q) y"
  have "rq_status (x_req y) = - EINPROGRESS" using same_request_actual(5) [OF rq] q by (simp add: wf_request_def)
  then have z: "rq_status (x_req z) = - EINPROGRESS" "x_status z = - EINPROGRESS" "x_rescan z" "x_req z = x_req y"
    using rest y(2) go lim(3) by (simp_all add: z_def settle_def Let_def not_less)
  show ?thesis
    using transfer_one_moved [OF plain p str r len y(1) [unfolded n(1)], folded n(1), OF z_def] z lim left dir
      same_request_actual(3) [OF rq]
    by auto
qed

lemma min_left:
  fixes a b m :: u32
  assumes "m \<le> min a b"
  shows "min (a - m) (b - m) = min a b - m" "a - m \<le> b - m \<longleftrightarrow> a \<le> b"
proof -
  have ab: "m \<le> a" "m \<le> b" using assms by simp_all
  have le: "x - m \<le> y - m \<longleftrightarrow> x \<le> y" if "m \<le> x" "m \<le> y" for x y
    using that unat_sub [OF that(1)] unat_sub [OF that(2)] by (simp add: word_le_nat_alt) linarith
  show "a - m \<le> b - m \<longleftrightarrow> a \<le> b" by (rule le [OF ab])
  then show "min (a - m) (b - m) = min a b - m" by (simp add: min_def)
qed

text \<open>The loop passes over the requests of other streams.\<close>

lemma loop_skips:
  "\<forall>x \<in> set pre. skips w k d x \<Longrightarrow>
     transfer_loop env w k i (pre @ rs) limit sent st d = transfer_loop env w k i rs limit sent st d"
proof (induction pre)
  case (Cons x pre)
  then show ?case
    using skips_advances [of w k d x env i limit sent st]
    by (simp add: transfer_loop.simps [of env w k i "x # pre @ rs"])
qed simp

lemma exchange_loop:
  assumes sg: "sg_iterator env" and env: "env_ok env" and plain: "plain_env env" and i: "i < DUMMY_ENDPOINTS"
    and q: "queue (ep d ! i) = pre @ r # rest" "\<forall>x \<in> set pre. skips w k d x" and on: "on_wire w k i p d" and str: "\<not> skips w k d r"
    and fits: "completes (maxpacket (ep d ! i)) (urbp_urb p) (reqs d r)"
    and n: "n = min (left_urb (urbp_urb p)) (left_req (reqs d r))" "n \<le> limit"
  shows "\<exists>d'. transfer_loop env w k i (pre @ r # rest) limit sent (- EINPROGRESS) d = Some (sent + n, 0, d')
    \<and> trace d' = trace d @ [Giveback i r 0 (rq_actual (reqs d r) + n)] \<and> queue (ep d' ! i) = pre @ rest
    \<and> (\<forall>r'. r' \<noteq> r \<longrightarrow> reqs d' r' = reqs d r')"
proof -
  let ?m = "of_nat (maxpacket (ep d ! i)) :: u32"
  have r: "r \<in> set (queue (ep d ! i))" using q(1) by simp
  have wf: "wf_dummy d" using on by (simp add: on_wire_def)
  have "distinct (queue (ep d ! i))" using queue_distinct [OF wf] i wf_dummyD(4) [OF wf] by simp
  then have rem: "remove1 r (queue (ep d ! i)) = pre @ rest" unfolding q(1) by (simp add: remove1_append)
  have loop: "transfer_loop env w k i (pre @ r # rest) limit sent (- EINPROGRESS) d
      = transfer_loop env w k i (r # rest) limit sent (- EINPROGRESS) d"
    by (rule loop_skips [OF q(2)])
  show ?thesis
  proof (cases "n < ?m \<or> n mod ?m = 0")
    case True
    obtain d' where "transfer_one env w k i r limit sent (- EINPROGRESS) d = Some (Stop, limit - n, sent + n, 0, d')"
      "trace d' = trace d @ [Giveback i r 0 (rq_actual (reqs d r) + n)]"
      "queue (ep d' ! i) = remove1 r (queue (ep d ! i))" "\<forall>r'. r' \<noteq> r \<longrightarrow> reqs d' r' = reqs d r'"
      using last_pass [OF sg plain i r on str fits n True] by blast
    then show ?thesis unfolding loop using rem by (auto simp: transfer_loop.simps [of env w k i "r # rest"])
  next
    case False
    then have rest: "?m \<le> n" "n mod ?m \<noteq> 0" by (simp_all only: not_less de_Morgan_disj) (simp_all only: simp_thms)
    define m where "m = n - n mod ?m"
    obtain d1 p1 where one: "transfer_one env w k i r limit sent (- EINPROGRESS) d
        = Some (Rescan, limit - m, sent + m, - EINPROGRESS, d1)"
      and d1: "trace d1 = trace d" "queue (ep d1 ! i) = queue (ep d ! i)" "get_urbp w k d1 = Some p1"
        "left_urb (urbp_urb p1) = left_urb (urbp_urb p) - m" "left_req (reqs d1 r) = left_req (reqs d r) - m"
        "usb_urb_dir_in (urbp_urb p1) = usb_urb_dir_in (urbp_urb p)" "rq_actual (reqs d1 r) = rq_actual (reqs d r) + m"
        "maxpacket (ep d1 ! i) = maxpacket (ep d ! i)" "\<forall>r'. r' \<noteq> r \<longrightarrow> reqs d1 r' = reqs d r'"
      using first_pass [OF sg plain i r on str fits n rest m_def] by blast
    have on1: "on_wire w k i p1 d1"
      using transfer_one_ready [OF sg env plain_leaves_wire [OF plain] i r on, of limit sent "- EINPROGRESS"] one d1(3)
      by (auto simp: on_wire_def)
    have skip1: "skips w k d1 = skips w k d" using transfer_one_carries [OF sg plain i r on str one] by blast
    then have str1: "\<not> skips w k d1 r" using str by simp
    have loop1: "transfer_loop env w k i (pre @ r # rest) l s (- EINPROGRESS) d1
        = transfer_loop env w k i (r # rest) l s (- EINPROGRESS) d1" for l s
      by (rule loop_skips) (use q(2) skip1 in simp)
    have mn: "m \<le> n" unfolding m_def by (rule mod_sub_le)
    then have n1: "n - m = min (left_urb (urbp_urb p1)) (left_req (reqs d1 r))"
      unfolding d1(4,5) using min_left(1) n(1) by simp
    have over: "n - m = n mod ?m" by (simp add: m_def)
    have "0 < unat ?m" using on by (simp add: on_wire_def unat_of_nat)
    then have small: "n - m < ?m" unfolding over by (simp add: word_less_nat_alt unat_mod)
    have "(n - m) mod ?m = n - m" by (rule mod_word_less [OF small])
    then have "(n - m) mod ?m \<noteq> 0" unfolding over using rest(2) by (simp only:) simp
    moreover have "0 < n - m" unfolding over using rest(2) by (rule word_neq_0_conv [THEN iffD1])
    moreover have "if usb_urb_dir_in (urbp_urb p1) then left_req (reqs d1 r) \<le> left_urb (urbp_urb p1)
        else left_urb (urbp_urb p1) \<le> left_req (reqs d1 r)"
      unfolding d1(4-6) using fits mn n(1) min_left(2) [of m "left_req (reqs d r)" "left_urb (urbp_urb p)"]
        min_left(2) [of m "left_urb (urbp_urb p)" "left_req (reqs d r)"]
      by (simp add: completes_def min.commute)
    ultimately have fits1: "completes (maxpacket (ep d1 ! i)) (urbp_urb p1) (reqs d1 r)"
      unfolding completes_def n1 [symmetric] d1(8) by blast
    have r1: "r \<in> set (queue (ep d1 ! i))" using r d1(2) by simp
    have lim: "n - m \<le> limit - m" using min_left(2) [of m n limit] n(2) mn by simp
    have small1: "n - m < of_nat (maxpacket (ep d1 ! i))" using small d1(8) by simp
    obtain d' where "transfer_one env w k i r (limit - m) (sent + m) (- EINPROGRESS) d1
        = Some (Stop, limit - m - (n - m), sent + m + (n - m), 0, d')"
      "trace d' = trace d1 @ [Giveback i r 0 (rq_actual (reqs d1 r) + (n - m))]"
      "queue (ep d' ! i) = remove1 r (queue (ep d1 ! i))" "\<forall>r'. r' \<noteq> r \<longrightarrow> reqs d' r' = reqs d1 r'"
      using last_pass [OF sg plain i r1 on1 str1 fits1 n1 lim disjI1 [OF small1], of "sent + m"] by blast
    then show ?thesis
      unfolding loop using q(1) one d1 rem
      by (simp add: transfer_loop.simps [of env w k i "r # rest"] loop1)
  qed
qed

lemma transfer_exchanges:
  assumes sg: "sg_iterator env" and env: "env_ok env" and plain: "plain_env env" and i: "i < DUMMY_ENDPOINTS"
    and q: "queue (ep d ! i) = pre @ r # rest" "\<forall>x \<in> set pre. skips w k d x" and on: "on_wire w k i p d" and str: "\<not> skips w k d r"
    and fits: "completes (maxpacket (ep d ! i)) (urbp_urb p) (reqs d r)"
    and n: "n = min (left_urb (urbp_urb p)) (left_req (reqs d r))"
    and limit: "int (unat n) \<le> limit" "limit < 2 ^ 31"
  shows "\<exists>d' p' bs. transfer env w k i limit (- EINPROGRESS) d = Some (int (unat n), 0, d')
    \<and> get_urbp w k d' = Some p' \<and> length bs = unat n
    \<and> host_bytes (urbp_urb p') = host_bytes (urbp_urb p) @ bs \<and> req_bytes (reqs d' r) = req_bytes (reqs d r) @ bs
    \<and> (if usb_urb_dir_in (urbp_urb p) then rq_buf (reqs d' r) = rq_buf (reqs d r)
       else urb_data (urbp_urb p') = urb_data (urbp_urb p))
    \<and> trace d' = trace d @ [Giveback i r 0 (rq_actual (reqs d r) + n)] \<and> queue (ep d' ! i) = pre @ rest"
proof -
  have lim: "0 \<le> limit" using limit(1) by linarith
  have wf: "wf_dummy d" using on by (simp add: on_wire_def)
  have "distinct (queue (ep d ! i))" using queue_distinct [OF wf] i wf_dummyD(4) [OF wf] by simp
  then have r: "r \<notin> set pre" "r \<notin> set rest" using q(1) by simp_all
  have "unat (word_of_int limit :: u32) = nat limit"
    using lim limit(2) by (simp add: unat_eq_nat_uint uint_word_of_int)
  moreover have "unat n \<le> nat limit" using limit(1) le_nat_iff [OF lim] by blast
  ultimately have "n \<le> word_of_int limit" by (simp only: word_le_nat_alt)
  from exchange_loop [OF sg env plain i q on str fits n this, of 0] obtain d' where
    loop: "transfer_loop env w k i (pre @ r # rest) (word_of_int limit) 0 (- EINPROGRESS) d = Some (0 + n, 0, d')"
    and d': "trace d' = trace d @ [Giveback i r 0 (rq_actual (reqs d r) + n)]" "queue (ep d' ! i) = pre @ rest"
      "\<forall>r'. r' \<noteq> r \<longrightarrow> reqs d' r' = reqs d r'"
    by blast
  have "int (unat n) < int (2 ^ 31)" using le_less_trans [OF limit] by (simp only: of_nat_power of_nat_numeral)
  then have "sint n = int (unat n)" by (intro sint_small) (simp only: of_nat_less_iff)
  then have t: "transfer env w k i limit (- EINPROGRESS) d = Some (int (unat n), 0, d')"
    using loop q(1) by (simp add: transfer_def)
  obtain sent st bs where tc: "transfer env w k i limit (- EINPROGRESS) d = Some (sent, st, d')"
    "carries w k (queue (ep d ! i)) bs d d'" "sent = int (length (concat (map bs (queue (ep d ! i)))))"
    using transfer_carried [OF sg env plain i on lim limit(2), of "- EINPROGRESS"] t by auto
  have n_eq: "unat n = length (concat (map bs (queue (ep d ! i))))"
    using trans [OF t [symmetric] tc(1)] tc(3) by (simp only: option.inject prod.inject of_nat_eq_iff)
  obtain p' where c: "get_urbp w k d' = Some p'"
    "host_bytes (urbp_urb p') = host_bytes (urbp_urb p) @ concat (map bs (queue (ep d ! i)))"
    "\<And>r. req_bytes (reqs d' r) = req_bytes (reqs d r) @ bs r"
    "if usb_urb_dir_in (urbp_urb p) then \<forall>r. rq_buf (reqs d' r) = rq_buf (reqs d r)
       else urb_data (urbp_urb p') = urb_data (urbp_urb p)"
    using tc(2) on by (auto simp: carries_def on_wire_def)
  have "bs r' = []" if "r' \<in> set pre \<union> set rest" for r'
  proof -
    have "r' \<noteq> r" using r that by blast
    then show ?thesis using c(3) [of r'] d'(3) by simp
  qed
  then have "concat (map bs pre) = []" "concat (map bs rest) = []" by (simp_all add: concat_eq_Nil_conv)
  then have "concat (map bs (queue (ep d ! i))) = bs r" using q(1) by (simp del: concat_eq_Nil_conv)
  then show ?thesis using t c n_eq d'(1,2) by (intro exI [of _ d'] exI [of _ p'] exI [of _ "bs r"]) auto
qed

lemma visit_carries:
  assumes "sg_iterator env" and "env_ok env" and "plain_env env"
    and "hcd_of w d = Some h" and "rh_state h = DUMMY_RH_RUNNING" and "unlinked (urbp_urb p) = 0"
    and "find_endpoint (urb_address (urbp_urb p)) d = Some (Some i)" and "i \<noteq> 0"
    and "usb_pipetype (urb_pipe (urbp_urb p)) = PIPE_BULK"
    and "\<not> already_seen (ep d ! i)" and "\<not> halted (ep d ! i)" and "queue (ep d ! i) = pre @ r # rest"
    and "on_wire w k i p d" and "\<forall>x \<in> set pre. skips w k d x" and "\<not> skips w k d r"
    and "completes (maxpacket (ep d ! i)) (urbp_urb p) (reqs d r)"
    and "n = unat (min (left_urb (urbp_urb p)) (left_req (reqs d r)))" and "int n \<le> budget" and "budget < 2 ^ 31"
  shows "\<exists>d' u bs. timer_visit env w k budget d = Some (Restart, budget - int n, giveback_urb env w u 0 d')
    \<and> host_bytes u = host_bytes (urbp_urb p) @ bs \<and> req_bytes (reqs d' r) = req_bytes (reqs d r) @ bs
    \<and> length bs = n
    \<and> (if usb_urb_dir_in (urbp_urb p) then rq_buf (reqs d' r) = rq_buf (reqs d r)
       else urb_data u = urb_data (urbp_urb p))
    \<and> trace d' = trace d @ [Giveback i r 0 (rq_actual (reqs d r) + of_nat n), Giveback_Urb w k 0 (actual_length u)]
    \<and> queue (ep d' ! i) = pre @ rest \<and> get_urbp w k d' = None"
proof -
  let ?u = "urbp_urb p" and ?n = "min (left_urb (urbp_urb p)) (left_req (reqs d r))"
  have wf: "wf_dummy d" and p: "get_urbp w k d = Some p" using assms(13) by (simp_all add: on_wire_def)
  have i: "i < DUMMY_ENDPOINTS" by (rule find_endpoint_bound [OF assms(7)])
  have len: "i < length (ep d)" using i wf_dummyD(4) [OF wf] by simp
  let ?d1 = "upd_ep i (\<lambda>e. e\<lparr>already_seen := True\<rparr>) d"
  let ?d = "upd_ep i (\<lambda>e. e\<lparr>last_io := jiffies ?d1\<rparr>) ?d1"
  have mark: "mark_seen w p i d = ?d1" using assms(8) by (simp add: mark_seen_def)
  have ep: "ep ?d ! i = (ep d ! i)\<lparr>already_seen := True, last_io := jiffies ?d1\<rparr>" using len by simp
  have on: "on_wire w k i p ?d" using assms(13) wf ep by (simp add: on_wire_def wf_upd_ep_fields)
  have skip: "skips w k ?d = skips w k d" by (simp add: skips_def fun_eq_iff get_urbp_def)
  then have str: "\<not> skips w k ?d r" "\<forall>x \<in> set pre. skips w k ?d x" using assms(14,15) by simp_all
  have pos: "0 < ?n" using assms(16) by (simp add: completes_def)
  then have "0 < unat ?n" by (simp only: unat_gt_0 word_neq_0_conv)
  then have b: "\<not> budget \<le> 0" using assms(17,18) by linarith
  obtain d2 p2 bs where t: "transfer env w k i budget (- EINPROGRESS) ?d = Some (int (unat ?n), 0, d2)"
    and d2: "get_urbp w k d2 = Some p2" "length bs = unat ?n" "host_bytes (urbp_urb p2) = host_bytes ?u @ bs"
      "req_bytes (reqs d2 r) = req_bytes (reqs ?d r) @ bs"
      "if usb_urb_dir_in ?u then rq_buf (reqs d2 r) = rq_buf (reqs ?d r) else urb_data (urbp_urb p2) = urb_data ?u"
      "trace d2 = trace ?d @ [Giveback i r 0 (rq_actual (reqs ?d r) + ?n)]" "queue (ep d2 ! i) = pre @ rest"
    using transfer_exchanges [OF assms(1-3) i _ str(2) on str(1), of rest ?n budget] assms(12,16-19) ep by auto
  let ?d3 = "upd_hcd w (\<lambda>h. h\<lparr>urbp_list := filter (\<lambda>q. urbp_id q \<noteq> k) (urbp_list h)\<rparr>) d2"
  let ?d4 = "log_event (Giveback_Urb w k 0 (actual_length (urbp_urb p2)))
      (upd_ep i (\<lambda>e. e\<lparr>already_seen := False, setup_stage := False\<rparr>) ?d3)"
  have ret: "return_urb env w k (Some i) 0 d2 = Some (giveback_urb env w (urbp_urb p2) 0 ?d4)"
    using d2(1) by (simp add: return_urb_def Let_def)
  have "data_stage env w k i budget budget (- EINPROGRESS) ?d1
      = Some (Restart, budget - int n, giveback_urb env w (urbp_urb p2) 0 ?d4)"
    using t ret assms(17) by (simp add: data_stage_def Let_def)
  then have visit: "timer_visit env w k budget d = Some (Restart, budget - int n, giveback_urb env w (urbp_urb p2) 0 ?d4)"
    using assms(4-11) p b mark len by (simp add: timer_visit_def Let_def)
  have "get_urbp w k ?d4 = None"
    by (auto simp: get_urbp_def find_None_iff split: option.split)
  moreover have "queue (ep ?d4 ! i) = pre @ rest"
    using d2(7) by (cases "i < length (ep d2)") (simp_all add: list_update_beyond)
  ultimately show ?thesis
    using visit d2(2-6) assms(17)
    by (intro exI [of _ ?d4] exI [of _ "urbp_urb p2"] exI [of _ bs]) auto
qed


text \<open>The example: a request of ten bytes, a whole packet and a short one, for a transfer of sixteen.\<close>

definition exchange_urbp :: urbp where
  "exchange_urbp = in_urbp\<lparr>urbp_urb := (urbp_urb in_urbp)\<lparr>urb_pipe := 0xC0008080\<rparr>\<rparr>"

definition exchange_demo :: dummy_t where
  "exchange_demo = set_hcd HS (demo_hcd\<lparr>urbp_list := [exchange_urbp]\<rparr>) (wire_demo [[1, 2, 3, 4, 5, 6, 7, 8, 9, 10]])"

lemma exchange_demo_simps [simp]:
  "hcd_of HS exchange_demo = Some (demo_hcd\<lparr>urbp_list := [exchange_urbp]\<rparr>)"
  "get_urbp HS 7 exchange_demo = Some exchange_urbp"
  "ep exchange_demo ! 1 = zero_ep\<lparr>desc := Some (bulk_desc 0x81), maxpacket := 8, queue := [0]\<rparr>"
  "reqs exchange_demo 0 = in_request [1, 2, 3, 4, 5, 6, 7, 8, 9, 10]"
  "trace exchange_demo = []"
proof -
  show "ep exchange_demo ! 1 = zero_ep\<lparr>desc := Some (bulk_desc 0x81), maxpacket := 8, queue := [0]\<rparr>"
    unfolding exchange_demo_def set_hcd_simps wire_demo_simps by simp
qed (simp_all add: exchange_demo_def get_urbp_def exchange_urbp_def in_urbp_def wire_demo_def zero_dummy_def)

lemma exchange_demo_endpoint: "find_endpoint 0x81 exchange_demo = Some (Some 1)"
proof -
  have "is_active (demo_hcd\<lparr>urbp_list := us\<rparr>)" for us by (simp add: is_active_def)
  moreover have "has_address 0x81 (ep exchange_demo ! 1)"
    by (simp only: exchange_demo_simps) (simp add: has_address_def bulk_desc_def)
  moreover have "ints_enabled exchange_demo" "gadget_to_dummy_hcd exchange_demo = HS"
    by (simp_all add: exchange_demo_def wire_demo_def zero_dummy_def gadget_to_dummy_hcd_def zero_gadget_def)
  ultimately show ?thesis
    by (simp add: find_endpoint_def DUMMY_ENDPOINTS_eq upt_conv_Cons)
qed

lemma exchange_demo_fits:
  "left_urb (urbp_urb exchange_urbp) = 16" "left_req (in_request [1, 2, 3, 4, 5, 6, 7, 8, 9, 10]) = 10"
  "usb_urb_dir_in (urbp_urb exchange_urbp)" "urb_address (urbp_urb exchange_urbp) = 0x81"
  "usb_pipetype (urb_pipe (urbp_urb exchange_urbp)) = PIPE_BULK" "unlinked (urbp_urb exchange_urbp) = 0"
  "host_bytes (urbp_urb exchange_urbp) = []"
  by (simp_all add: left_urb_def left_req_def exchange_urbp_def in_urbp_def in_request_def zero_urb_def zero_urbp_def
      zero_request_def usb_urb_dir_in_def urb_address_def usb_pipeendpoint_def usb_pipetype_def host_bytes_def)


section \<open>From the gadget driver to the host\<close>

text \<open>
  A request queued on an idle endpoint is presented to the host under its own number, or has
  completed at once and is presented as the controller's own request with a copy of its bytes.
\<close>

definition presents :: "nat \<Rightarrow> nat \<Rightarrow> nat \<Rightarrow> dummy_t \<Rightarrow> dummy_t \<Rightarrow> bool" where
  "presents i r f d d' \<longleftrightarrow>
     ep d' = (ep d)[i := (ep d ! i)\<lparr>queue := [f]\<rparr>] \<and> (\<forall>w. hcd_of w d' = hcd_of w d)
     \<and> gadget d' = gadget d \<and> ints_enabled d' = ints_enabled d
     \<and> rq_length (reqs d' f) = rq_length (reqs d r) \<and> rq_actual (reqs d' f) = 0
     \<and> rq_zero (reqs d' f) = rq_zero (reqs d r) \<and> rq_stream_id (reqs d' f) = rq_stream_id (reqs d r)
     \<and> take (unat (rq_length (reqs d r))) (rq_buf (reqs d' f)) = take (unat (rq_length (reqs d r))) (rq_buf (reqs d r))
     \<and> (f = r \<and> trace d' = trace d
        \<or> f = fifo_req \<and> trace d' = trace d @ [Giveback i r 0 (rq_length (reqs d r))])"

lemma hcd_of_fifo_buf [simp]: "hcd_of w (d\<lparr>fifo_buf := b\<rparr>) = hcd_of w d"
  by (simp add: hcd_of_def split: hcd_sel.split)

lemma dummy_queue_presents:
  assumes "plain_env env" and "driver_request r d" and "queue (ep d ! i) = []"
    and "dummy_queue env (Some i) (Some r) d = Some (0, d')"
  shows "\<exists>f. presents i r f d d'"
proof -
  let ?s = "upd_req r (\<lambda>q. q\<lparr>rq_status := - EINPROGRESS, rq_actual := 0\<rparr>) d"
  have ret: "(if fifo_takes i r ?s then do {
        d \<leftarrow> fifo_copy i r ?s;
        let d = upd_req r (\<lambda>q. q\<lparr>rq_actual := rq_length q, rq_status := 0\<rparr>) d;
        Some (0, giveback env i r d) }
      else Some (0, upd_ep i (\<lambda>e. e\<lparr>queue := queue e @ [r]\<rparr>) ?s)) = Some (0 :: int, d')"
    using assms(4) by (auto simp: dummy_queue_def Let_def bind_eq_Some_conv split: if_splits)
  show ?thesis
  proof (cases "fifo_takes i r ?s")
    case False
    then have "d' = upd_ep i (\<lambda>e. e\<lparr>queue := queue e @ [r]\<rparr>) ?s" using ret by simp
    then have "presents i r r d d'" using assms(3) by (simp add: presents_def)
    then show ?thesis by blast
  next
    case True
    then obtain d1 where d1: "fifo_copy i r ?s = Some d1"
      and d': "d' = giveback env i r (upd_req r (\<lambda>q. q\<lparr>rq_actual := rq_length q, rq_status := 0\<rparr>) d1)"
      using ret by (auto simp: bind_eq_Some_conv Let_def)
    have "r \<noteq> fifo_req" using assms(2) by (simp add: driver_request_def)
    moreover obtain buf where buf: "memcpy (fifo_buf d) 0 (rq_buf (reqs d r)) 0 (unat (rq_length (reqs d r))) = Some buf"
      and d1': "d1 = upd_ep i (\<lambda>e. e\<lparr>queue := queue e @ [fifo_req]\<rparr>)
        (upd_req fifo_req (\<lambda>_. (reqs ?s r)\<lparr>rq_buf := buf, rq_context := Dummy_Context, rq_complete := Fifo_Complete\<rparr>)
          (?s\<lparr>fifo_buf := buf\<rparr>))"
      using d1 by (auto simp: fifo_copy_def Let_def bind_eq_Some_conv upd_req_def)
    ultimately have "presents i r fifo_req d d'"
      using assms(1,3) memcpy_takes(1) [OF buf]
      by (simp add: presents_def d' d1' giveback_plain)
    then show ?thesis by blast
  qed
qed

lemma presents_endpoint:
  assumes "presents i r f d d'"
  shows "find_endpoint a d' = find_endpoint a d"
proof -
  have "has_address a (ep d' ! j) = has_address a (ep d ! j)" for j
    using assms by (cases "i < length (ep d)"; cases "j = i")
      (simp_all add: presents_def has_address_def list_update_beyond)
  then have eq: "(\<lambda>j. has_address a (ep d' ! j)) = (\<lambda>j. has_address a (ep d ! j))" by (rule ext)
  show ?thesis
    unfolding find_endpoint_def eq using assms by (simp add: presents_def gadget_to_dummy_hcd_def)
qed

lemma take_prefix: "bs = take a xs \<Longrightarrow> bs = take (length bs) xs"
  by (simp add: min_def)


text \<open>
  The example: the endpoint of ten bytes above with its request not yet queued; the request of the driver
  has three bytes, which the FIFO takes.
\<close>

definition arrival_demo :: dummy_t where
  "arrival_demo = upd_req 7 (\<lambda>_. (in_request [1, 2, 3])\<lparr>rq_complete := Driver_Complete\<rparr>)
     (set_hcd HS (demo_hcd\<lparr>urbp_list := [exchange_urbp]\<rparr>) demo)"

lemma arrival_demo_simps [simp]:
  "hcd_of HS arrival_demo = Some (demo_hcd\<lparr>urbp_list := [exchange_urbp]\<rparr>)"
  "get_urbp HS 7 arrival_demo = Some exchange_urbp" "ep arrival_demo = ep demo"
  "reqs arrival_demo 7 = (in_request [1, 2, 3])\<lparr>rq_complete := Driver_Complete\<rparr>"
  "driver arrival_demo = driver demo" "gadget arrival_demo = gadget demo" "ints_enabled arrival_demo"
  "gadget_to_dummy_hcd arrival_demo = HS" "fifo_buf arrival_demo = replicate FIFO_SIZE 0"
  by (simp_all add: arrival_demo_def get_urbp_def exchange_urbp_def in_urbp_def gadget_to_dummy_hcd_def
      upd_req_def set_hcd_def hcd_of_def)

lemma arrival_demo_idle: "\<not> queued r arrival_demo"
  using demo_queues(2) by (simp add: queued_def)

lemma arrival_demo_endpoint: "find_endpoint 0x81 arrival_demo = Some (Some 1)"
proof -
  have "is_active (demo_hcd\<lparr>urbp_list := us\<rparr>)" for us by (simp add: is_active_def)
  moreover have "has_address 0x81 (ep arrival_demo ! 1)" by (simp add: has_address_def bulk_desc_def)
  ultimately show ?thesis
    by (simp add: find_endpoint_def DUMMY_ENDPOINTS_eq upt_conv_Cons)
qed


end
