(* ===== verification/Vusb_Index.thy ===== *)
theory Vusb_Index
  imports Usb_Defs
begin

text \<open>
  The index the fuzzer's executor keeps of the devices it emulates (common\_usb.h, lines 11 to
  315): parsing the descriptors of a device, the table of devices, and switching interfaces
  through the raw gadget interface of the kernel.
\<close>

section \<open>Calls to the kernel\<close>

text \<open>
  The raw gadget calls, and the kernel as a parameter: what it answers to a call may depend on
  all calls before. An answer carries the return value and, for the calls that read, the event
  or the bytes.
\<close>

datatype raw_call =
    Raw_Open
  | Raw_Close int
  | Raw_Init int "64 word" string string
  | Raw_Run int
  | Raw_Event_Fetch int nat
  | Raw_Ep0_Write int "u8 list"
  | Raw_Ep0_Read int nat
  | Raw_Ep_Enable int "u8 list"
  | Raw_Ep_Disable int nat
  | Raw_Configure int
  | Raw_Vbus_Draw int u8
  | Raw_Ep_Write int u16 "u8 list"
  | Raw_Ep_Read int u16 nat
  | Sleep_Ms nat

record reply =
  rv :: int
  event_type :: u32
  event_ctrl :: usb_ctrlrequest
  read_data :: "u8 list"

type_synonym kernel = "raw_call list \<Rightarrow> raw_call \<Rightarrow> reply"

section \<open>The index of a device\<close>

abbreviation (input) USB_MAX_IFACE_NUM :: nat where "USB_MAX_IFACE_NUM \<equiv> 4"
abbreviation (input) USB_MAX_EP_NUM :: nat where "USB_MAX_EP_NUM \<equiv> 32"

text \<open>
  A pointer into memory is what lies there from its target on. An array and the number of its
  elements in use are a list; an endpoint descriptor is the nine bytes of its C structure.
\<close>

record usb_iface_index =
  iface :: "u8 list"
  bInterfaceNumber :: u8
  bAlternateSetting :: u8
  eps :: "u8 list list"

record usb_device_index =
  dev :: "u8 list"
  config :: "u8 list"
  idx_bMaxPower :: u8
  config_length :: int
  ifaces :: "usb_iface_index list"
  iface_cur :: int

definition zero_index :: usb_device_index where
  "zero_index = \<lparr>dev = [], config = [], idx_bMaxPower = 0, config_length = 0, ifaces = [],
     iface_cur = 0\<rparr>"

section \<open>Parsing descriptors\<close>

text \<open>Reading memory; a read outside of it is a fault.\<close>

definition byte_at :: "u8 list \<Rightarrow> nat \<Rightarrow> u8 option" where
  "byte_at mem i = (if i < length mem then Some (mem ! i) else None)"

definition bytes_at :: "u8 list \<Rightarrow> nat \<Rightarrow> nat \<Rightarrow> u8 list option" where
  "bytes_at mem i n = (if i + n \<le> length mem then Some (take n (drop i mem)) else None)"

abbreviation (input) sizeof_device :: nat where "sizeof_device \<equiv> 18"
abbreviation (input) sizeof_config :: nat where "sizeof_config \<equiv> 9"
abbreviation (input) sizeof_endpoint :: nat where "sizeof_endpoint \<equiv> 9"

definition add_interface :: "u8 list \<Rightarrow> nat \<Rightarrow> usb_device_index \<Rightarrow> usb_device_index option" where
  "add_interface buffer off idx =
     do {
       n \<leftarrow> byte_at buffer (off + 2);
       a \<leftarrow> byte_at buffer (off + 3);
       Some (idx\<lparr>ifaces := ifaces idx @ [\<lparr>iface = drop off buffer, bInterfaceNumber = n,
               bAlternateSetting = a, eps = []\<rparr>]\<rparr>)
     }"

definition add_endpoint :: "u8 list \<Rightarrow> nat \<Rightarrow> usb_device_index \<Rightarrow> usb_device_index option" where
  "add_endpoint buffer off idx =
     (let i = last (ifaces idx) in
      if length (eps i) < USB_MAX_EP_NUM then do {
        e \<leftarrow> bytes_at buffer off sizeof_endpoint;
        Some (idx\<lparr>ifaces := butlast (ifaces idx) @ [i\<lparr>eps := eps i @ [e]\<rparr>]\<rparr>)
      } else Some idx)"

definition take_descriptor ::
  "u8 list \<Rightarrow> nat \<Rightarrow> u8 \<Rightarrow> usb_device_index \<Rightarrow> usb_device_index option" where
  "take_descriptor buffer off desc_type idx =
     do {
       idx \<leftarrow> (if desc_type = USB_DT_INTERFACE \<and> length (ifaces idx) < USB_MAX_IFACE_NUM
              then add_interface buffer off idx else Some idx);
       if desc_type = USB_DT_ENDPOINT \<and> length (ifaces idx) > 0
       then add_endpoint buffer off idx else Some idx
     }"

text \<open>
  The loop over the descriptors; the flag of the result is false after a fault, which leaves the
  index as it was before the descriptor at fault.
\<close>

function parse_loop :: "u8 list \<Rightarrow> nat \<Rightarrow> nat \<Rightarrow> usb_device_index \<Rightarrow> bool \<times> usb_device_index" where
  "parse_loop buffer len off idx =
     (if off + 1 \<ge> len then (True, idx)
      else case byte_at buffer off of None \<Rightarrow> (False, idx)
      | Some desc_length \<Rightarrow> (case byte_at buffer (off + 1) of None \<Rightarrow> (False, idx)
        | Some desc_type \<Rightarrow>
            if unat desc_length \<le> 2 then (True, idx)
            else if off + unat desc_length > len then (True, idx)
            else (case take_descriptor buffer off desc_type idx of
                    None \<Rightarrow> (False, idx)
                  | Some idx \<Rightarrow> parse_loop buffer len (off + unat desc_length) idx)))"
  by auto
termination by (relation "measure (\<lambda>(buffer, len, off, idx). len - off)") auto

declare parse_loop.simps [simp del]

datatype parse_result = Parsed bool | Segv

definition parse_usb_descriptor ::
  "u8 list \<Rightarrow> nat \<Rightarrow> usb_device_index \<Rightarrow> parse_result \<times> usb_device_index" where
  "parse_usb_descriptor buffer len idx =
     (if len < sizeof_device + sizeof_config then (Parsed False, idx)
      else let idx = zero_index\<lparr>dev := buffer, config := drop sizeof_device buffer\<rparr> in
        case byte_at buffer (sizeof_device + 8) of
          None \<Rightarrow> (Segv, idx)
        | Some p \<Rightarrow>
            (let (ok, idx) = parse_loop buffer len 0
               (idx\<lparr>idx_bMaxPower := p,
                 config_length := sint (of_nat (len - sizeof_device) :: u32), iface_cur := - 1\<rparr>)
             in (if ok then Parsed True else Segv, idx)))"

section \<open>The table of devices\<close>

abbreviation (input) MAX_USB_FDS :: nat where "MAX_USB_FDS \<equiv> 6"

record usb_info =
  fd :: int
  index :: usb_device_index

record vusb =
  usb_devices :: "usb_info list"
  usb_devices_num :: nat
  calls :: "raw_call list"

definition vusb_start :: vusb where
  "vusb_start = \<lparr>usb_devices = replicate MAX_USB_FDS \<lparr>fd = 0, index = zero_index\<rparr>,
     usb_devices_num = 0, calls = []\<rparr>"

definition syscall :: "kernel \<Rightarrow> raw_call \<Rightarrow> vusb \<Rightarrow> reply \<times> vusb" where
  "syscall k c s = (k (calls s) c, s\<lparr>calls := calls s @ [c]\<rparr>)"

definition upd_device :: "nat \<Rightarrow> (usb_info \<Rightarrow> usb_info) \<Rightarrow> vusb \<Rightarrow> vusb" where
  "upd_device i f s = s\<lparr>usb_devices := (usb_devices s)[i := f (usb_devices s ! i)]\<rparr>"

text \<open>
  The parse runs under \<open>NONFAILING\<close>: a fault abandons it, and the result stays that of a failed
  parse. A pointer to the index of a device is its position in the table.
\<close>

definition add_usb_index :: "int \<Rightarrow> u8 list \<Rightarrow> nat \<Rightarrow> vusb \<Rightarrow> nat option \<times> vusb" where
  "add_usb_index f dv dev_len s =
     (let i = usb_devices_num s; s = s\<lparr>usb_devices_num := i + 1\<rparr> in
      if i \<ge> MAX_USB_FDS then (None, s)
      else let (r, idx) = parse_usb_descriptor dv dev_len (index (usb_devices s ! i));
               s = upd_device i (\<lambda>u. u\<lparr>index := idx\<rparr>) s
           in if r \<noteq> Parsed True then (None, s)
              else (Some i, upd_device i (\<lambda>u. u\<lparr>fd := f\<rparr>) s))"

definition lookup_usb_index :: "int \<Rightarrow> vusb \<Rightarrow> nat option" where
  "lookup_usb_index f s = List.find (\<lambda>i. fd (usb_devices s ! i) = f) [0..<MAX_USB_FDS]"

definition index_at :: "nat \<Rightarrow> vusb \<Rightarrow> usb_device_index" where
  "index_at i s = index (usb_devices s ! i)"

definition lookup_interface :: "int \<Rightarrow> u8 \<Rightarrow> u8 \<Rightarrow> vusb \<Rightarrow> int" where
  "lookup_interface f n a s =
     (case lookup_usb_index f s of
        None \<Rightarrow> - 1
      | Some i \<Rightarrow>
          (let xs = ifaces (index_at i s) in
           case List.find (\<lambda>j. bInterfaceNumber (xs ! j) = n \<and> bAlternateSetting (xs ! j) = a)
                  [0..<length xs] of
             None \<Rightarrow> - 1
           | Some j \<Rightarrow> int j))"

section \<open>Switching interfaces\<close>

text \<open>The results of enabling and disabling endpoints are only logged.\<close>

primrec disable_endpoints :: "kernel \<Rightarrow> int \<Rightarrow> nat list \<Rightarrow> vusb \<Rightarrow> vusb" where
  "disable_endpoints k f [] s = s"
| "disable_endpoints k f (e # es) s =
     disable_endpoints k f es (snd (syscall k (Raw_Ep_Disable f e) s))"

primrec enable_endpoints :: "kernel \<Rightarrow> int \<Rightarrow> u8 list list \<Rightarrow> vusb \<Rightarrow> vusb" where
  "enable_endpoints k f [] s = s"
| "enable_endpoints k f (e # es) s =
     enable_endpoints k f es (snd (syscall k (Raw_Ep_Enable f e) s))"

definition set_interface :: "kernel \<Rightarrow> int \<Rightarrow> int \<Rightarrow> vusb \<Rightarrow> vusb" where
  "set_interface k f n s =
     (case lookup_usb_index f s of
        None \<Rightarrow> s
      | Some i \<Rightarrow>
          (let idx = index_at i s; c = iface_cur idx; num = int (length (ifaces idx));
               s = (if 0 \<le> c \<and> c < num
                    then disable_endpoints k f [0..<length (eps (ifaces idx ! nat c))] s else s)
           in if 0 \<le> n \<and> n < num
              then upd_device i (\<lambda>u. u\<lparr>index := idx\<lparr>iface_cur := n\<rparr>\<rparr>)
                     (enable_endpoints k f (eps (ifaces idx ! nat n)) s)
              else s))"

definition configure_device :: "kernel \<Rightarrow> int \<Rightarrow> vusb \<Rightarrow> int \<times> vusb" where
  "configure_device k f s =
     (case lookup_usb_index f s of
        None \<Rightarrow> (- 1, s)
      | Some i \<Rightarrow>
          (let (r, s) = syscall k (Raw_Vbus_Draw f (idx_bMaxPower (index_at i s))) s in
           if rv r < 0 then (rv r, s)
           else let (r, s) = syscall k (Raw_Configure f) s in
             if rv r < 0 then (rv r, s)
             else (0, set_interface k f 0 s)))"

section \<open>Parsing what was written\<close>

text \<open>
  An abstract device: its interfaces with their numbers, alternate settings and endpoint
  descriptors of seven bytes; and the bytes of its descriptors, in the order of the USB
  specification.
\<close>

record interface_spec =
  spec_number :: u8
  spec_alternate :: u8
  spec_class :: "u8 list"
  spec_endpoints :: "u8 list list"

definition endpoint_spec :: "u8 list \<Rightarrow> bool" where
  "endpoint_spec e \<longleftrightarrow> length e = 7 \<and> e ! 0 = 7 \<and> e ! 1 = USB_DT_ENDPOINT"

definition interface_spec_ok :: "interface_spec \<Rightarrow> bool" where
  "interface_spec_ok x \<longleftrightarrow> length (spec_class x) = 5 \<and> (\<forall>e \<in> set (spec_endpoints x). endpoint_spec e)"

definition interface_head :: "interface_spec \<Rightarrow> u8 list" where
  "interface_head x = [9, USB_DT_INTERFACE, spec_number x, spec_alternate x] @ spec_class x"

definition write_interface :: "interface_spec \<Rightarrow> u8 list" where
  "write_interface x = interface_head x @ concat (spec_endpoints x)"

text \<open>What the index shows of an interface: endpoint descriptors without their two audio bytes.\<close>

definition shown :: "usb_iface_index \<Rightarrow> u8 \<times> u8 \<times> u8 list list" where
  "shown i = (bInterfaceNumber i, bAlternateSetting i, map (take 7) (eps i))"

definition shown_spec :: "interface_spec \<Rightarrow> u8 \<times> u8 \<times> u8 list list" where
  "shown_spec x = (spec_number x, spec_alternate x, spec_endpoints x)"

text \<open>One descriptor after the other.\<close>

lemma byte_at_append [simp]:
  "byte_at (pre @ ys) (length pre + i) = byte_at ys i"
  by (simp add: byte_at_def nth_append)

lemma byte_at_append_0 [simp]: "byte_at (pre @ ys) (length pre) = byte_at ys 0"
  using byte_at_append [of pre ys 0] by simp

lemma byte_at_prefix: "i < length xs \<Longrightarrow> byte_at (xs @ ys) i = Some (xs ! i)"
  by (simp add: byte_at_def nth_append)

lemma parse_descriptor:
  assumes "2 < unat (d ! 0)" and "unat (d ! 0) = length d" and "length pre + length d \<le> len"
  shows "parse_loop (pre @ d @ post) len (length pre) idx =
    (case take_descriptor (pre @ d @ post) (length pre) (d ! 1) idx of
       None \<Rightarrow> (False, idx)
     | Some idx' \<Rightarrow> parse_loop ((pre @ d) @ post) len (length (pre @ d)) idx')"
proof -
  have "0 < length d" "1 < length d" using assms(1,2) by linarith+
  then have "byte_at (pre @ d @ post) (length pre) = Some (d ! 0)"
    "byte_at (pre @ d @ post) (Suc (length pre)) = Some (d ! 1)"
    using byte_at_append [of pre "d @ post" 1]
    by (simp_all add: byte_at_prefix del: byte_at_append length_greater_0_conv)
  then show ?thesis
    using assms by (subst parse_loop.simps) (simp split: option.split)
qed

lemma parse_interface_head:
  assumes "interface_spec_ok x" and "length pre + 9 \<le> len" and "length (ifaces idx) < USB_MAX_IFACE_NUM"
  obtains i where "shown i = (spec_number x, spec_alternate x, [])"
    and "parse_loop (pre @ interface_head x @ post) len (length pre) idx
      = parse_loop ((pre @ interface_head x) @ post) len (length (pre @ interface_head x))
          (idx\<lparr>ifaces := ifaces idx @ [i]\<rparr>)"
proof -
  let ?d = "interface_head x"
  let ?b = "pre @ ?d @ post"
  have len: "length ?d = 9" using assms(1) by (simp add: interface_head_def interface_spec_ok_def)
  have "byte_at ?b (length pre + 2) = Some (spec_number x)"
    "byte_at ?b (length pre + 3) = Some (spec_alternate x)"
    using len by (simp_all only: byte_at_append) (simp_all add: byte_at_def interface_head_def)
  then have "take_descriptor ?b (length pre) (?d ! 1) idx = Some (idx\<lparr>ifaces := ifaces idx @
      [\<lparr>iface = drop (length pre) ?b, bInterfaceNumber = spec_number x,
        bAlternateSetting = spec_alternate x, eps = []\<rparr>]\<rparr>)"
    using assms(3) by (simp add: take_descriptor_def add_interface_def interface_head_def)
  moreover have "2 < unat (?d ! 0)" "unat (?d ! 0) = length ?d"
    using len by (simp_all add: interface_head_def)
  ultimately show ?thesis
    using parse_descriptor [of ?d pre len post idx] assms(2) len
    by (intro that [of "\<lparr>iface = drop (length pre) ?b, bInterfaceNumber = spec_number x,
        bAlternateSetting = spec_alternate x, eps = []\<rparr>"]) (simp_all add: shown_def)
qed

lemma parse_endpoints:
  assumes "\<forall>e \<in> set es. endpoint_spec e" and "length pre + length (concat es) \<le> len"
    and "2 \<le> length post" and "ifaces idx = is @ [i]" and "length (eps i) + length es \<le> USB_MAX_EP_NUM"
  obtains j where "shown j = (bInterfaceNumber i, bAlternateSetting i, map (take 7) (eps i) @ es)"
    and "parse_loop (pre @ concat es @ post) len (length pre) idx
      = parse_loop ((pre @ concat es) @ post) len (length (pre @ concat es)) (idx\<lparr>ifaces := is @ [j]\<rparr>)"
  using assms
proof (induction es arbitrary: pre i idx thesis)
  case Nil
  have "idx\<lparr>ifaces := is @ [i]\<rparr> = idx" by (simp flip: Nil.prems(5))
  then show ?case by (intro Nil.prems(1) [of i]) (simp_all add: shown_def)
next
  case (Cons e es)
  let ?b = "pre @ e @ concat es @ post"
  have e: "length e = 7" "e ! 0 = 7" "e ! 1 = USB_DT_ENDPOINT"
    using Cons.prems(2) by (simp_all add: endpoint_spec_def)
  let ?raw = "take 9 (e @ concat es @ post)"
  let ?i = "i\<lparr>eps := eps i @ [?raw]\<rparr>"
  have "bytes_at ?b (length pre) 9 = Some ?raw" using e(1) Cons.prems(4) by (simp add: bytes_at_def)
  then have "take_descriptor ?b (length pre) (e ! 1) idx = Some (idx\<lparr>ifaces := is @ [?i]\<rparr>)"
    using e(3) Cons.prems(5,6) by (simp add: take_descriptor_def add_endpoint_def Let_def)
  then have step: "parse_loop ?b len (length pre) idx
      = parse_loop ((pre @ e) @ concat es @ post) len (length (pre @ e)) (idx\<lparr>ifaces := is @ [?i]\<rparr>)"
    using parse_descriptor [of e pre len "concat es @ post" idx] e Cons.prems(3) by simp
  have raw: "take 7 ?raw = e" using e(1) by simp
  obtain j where j: "shown j = (bInterfaceNumber ?i, bAlternateSetting ?i, map (take 7) (eps ?i) @ es)"
    and rest: "parse_loop ((pre @ e) @ concat es @ post) len (length (pre @ e)) (idx\<lparr>ifaces := is @ [?i]\<rparr>)
      = parse_loop (((pre @ e) @ concat es) @ post) len (length ((pre @ e) @ concat es))
          (idx\<lparr>ifaces := is @ [?i]\<rparr>\<lparr>ifaces := is @ [j]\<rparr>)"
    by (rule Cons.IH [of ?i "pre @ e" "idx\<lparr>ifaces := is @ [?i]\<rparr>"])
      (use Cons.prems(2-6) in simp_all)
  show ?case
    by (rule Cons.prems(1) [of j]) (use j raw step rest in simp_all)
qed

lemma parse_interfaces:
  assumes "\<forall>x \<in> set xs. interface_spec_ok x \<and> length (spec_endpoints x) \<le> USB_MAX_EP_NUM"
    and "length pre + length (concat (map write_interface xs)) \<le> len" and "2 \<le> length post"
    and "length (ifaces idx) + length xs \<le> USB_MAX_IFACE_NUM"
  obtains js where "map shown js = map shown_spec xs"
    and "parse_loop (pre @ concat (map write_interface xs) @ post) len (length pre) idx
      = parse_loop ((pre @ concat (map write_interface xs)) @ post) len
          (length (pre @ concat (map write_interface xs))) (idx\<lparr>ifaces := ifaces idx @ js\<rparr>)"
  using assms
proof (induction xs arbitrary: pre idx thesis)
  case Nil
  show ?case by (rule Nil.prems(1) [of "[]"]) simp_all
next
  case (Cons x xs)
  let ?rest = "concat (map write_interface xs) @ post" and ?h = "interface_head x"
    and ?es = "concat (spec_endpoints x)"
  have ok: "interface_spec_ok x" "\<forall>e \<in> set (spec_endpoints x). endpoint_spec e"
    "length (spec_endpoints x) \<le> USB_MAX_EP_NUM"
    using Cons.prems(2) by (simp_all add: interface_spec_ok_def)
  have h: "length ?h = 9" using ok(1) by (simp add: interface_head_def interface_spec_ok_def)
  have fits: "length pre + 9 + length ?es + length (concat (map write_interface xs)) \<le> len"
    using Cons.prems(3) h by (simp add: write_interface_def [of x])
  obtain i where i: "shown i = (spec_number x, spec_alternate x, [])"
    and head: "parse_loop (pre @ ?h @ ?es @ ?rest) len (length pre) idx
      = parse_loop ((pre @ ?h) @ ?es @ ?rest) len (length (pre @ ?h)) (idx\<lparr>ifaces := ifaces idx @ [i]\<rparr>)"
    by (rule parse_interface_head [OF ok(1), of pre len idx "?es @ ?rest"])
      (use fits Cons.prems(5) in simp_all)
  obtain j where j: "shown j = (bInterfaceNumber i, bAlternateSetting i, map (take 7) (eps i) @ spec_endpoints x)"
    and endpoints: "parse_loop ((pre @ ?h) @ ?es @ ?rest) len (length (pre @ ?h)) (idx\<lparr>ifaces := ifaces idx @ [i]\<rparr>)
      = parse_loop (((pre @ ?h) @ ?es) @ ?rest) len (length ((pre @ ?h) @ ?es))
          (idx\<lparr>ifaces := ifaces idx @ [i]\<rparr>\<lparr>ifaces := ifaces idx @ [j]\<rparr>)"
    by (rule parse_endpoints [OF ok(2), of "pre @ ?h" len ?rest "idx\<lparr>ifaces := ifaces idx @ [i]\<rparr>" "ifaces idx" i])
      (use fits h i ok(3) Cons.prems(4) in \<open>simp_all add: shown_def\<close>)
  obtain js where js: "map shown js = map shown_spec xs"
    and rest: "parse_loop ((pre @ ?h @ ?es) @ ?rest) len (length (pre @ ?h @ ?es))
        (idx\<lparr>ifaces := ifaces idx @ [j]\<rparr>)
      = parse_loop (((pre @ ?h @ ?es) @ concat (map write_interface xs)) @ post) len
          (length ((pre @ ?h @ ?es) @ concat (map write_interface xs)))
          (idx\<lparr>ifaces := ifaces idx @ [j]\<rparr>\<lparr>ifaces := (ifaces idx @ [j]) @ js\<rparr>)"
    by (rule Cons.IH [of "pre @ ?h @ ?es" "idx\<lparr>ifaces := ifaces idx @ [j]\<rparr>"])
      (use Cons.prems(2,4,5) fits h in simp_all)
  have "shown j = shown_spec x" using i j by (simp add: shown_def shown_spec_def)
  then show ?case
    by (intro Cons.prems(1) [of "j # js"])
      (use js head endpoints rest in \<open>simp_all add: write_interface_def [of x]\<close>)
qed

text \<open>
  C21. What the executor's parser reads back from the descriptors of a device is the device: for
  at most four interfaces with at most 32 endpoints each, the index has the interfaces in their
  order, with their numbers, alternate settings and endpoint descriptors, and the power and
  length of the configuration.
\<close>

theorem parse_roundtrip:
  assumes "length d = 18" and "d ! 0 = 18" and "d ! 1 = USB_DT_DEVICE"
    and "length c = 9" and "c ! 0 = 9" and "c ! 1 = USB_DT_CONFIG"
    and "\<forall>x \<in> set xs. interface_spec_ok x \<and> length (spec_endpoints x) \<le> USB_MAX_EP_NUM"
    and "length xs \<le> USB_MAX_IFACE_NUM" and "2 \<le> length post"
    and "n = length (d @ c @ concat (map write_interface xs))" and "n < 2 ^ 31"
  shows "\<exists>idx. parse_usb_descriptor (d @ c @ concat (map write_interface xs) @ post) n old
      = (Parsed True, idx)
    \<and> map shown (ifaces idx) = map shown_spec xs \<and> idx_bMaxPower idx = c ! 8
    \<and> config_length idx = int n - 18 \<and> iface_cur idx = - 1"
proof -
  let ?body = "concat (map write_interface xs)"
  let ?b = "d @ c @ ?body @ post"
  let ?i0 = "zero_index\<lparr>dev := ?b, config := drop 18 ?b, idx_bMaxPower := c ! 8,
    config_length := sint (of_nat (n - 18) :: u32), iface_cur := - 1\<rparr>"
  have n: "n = 27 + length ?body" using assms(1,4,10) by simp
  have power: "byte_at ?b 26 = Some (c ! 8)"
    using byte_at_append [of d "c @ ?body @ post" 8] assms(1,4) by (simp add: byte_at_prefix)
  have clen: "sint (of_nat (n - 18) :: u32) = int n - 18"
    using n assms(11) by (subst signed_of_nat) (simp add: signed_take_bit_int_eq_self)
  have "parse_loop ([] @ d @ c @ ?body @ post) n (length []) ?i0
      = parse_loop (([] @ d) @ c @ ?body @ post) n (length ([] @ d)) ?i0"
    using parse_descriptor [of d "[]" n "c @ ?body @ post" ?i0] n assms(1-3)
    by (simp add: take_descriptor_def)
  also have "\<dots> = parse_loop ((d @ c) @ ?body @ post) n (length (d @ c)) ?i0"
    using n assms(1,4-6) parse_descriptor [of c d n "?body @ post" ?i0]
    by (simp add: take_descriptor_def)
  finally have start: "parse_loop ?b n 0 ?i0 = parse_loop ((d @ c) @ ?body @ post) n (length (d @ c)) ?i0"
    by simp
  obtain js where js: "map shown js = map shown_spec xs"
    and loop: "parse_loop ((d @ c) @ ?body @ post) n (length (d @ c)) ?i0
      = parse_loop (((d @ c) @ ?body) @ post) n (length ((d @ c) @ ?body)) (?i0\<lparr>ifaces := ifaces ?i0 @ js\<rparr>)"
    by (rule parse_interfaces [OF assms(7), of "d @ c" n post ?i0])
      (use n assms(1,4,8,9) in \<open>simp_all add: zero_index_def\<close>)
  have "parse_loop (((d @ c) @ ?body) @ post) n (length ((d @ c) @ ?body)) idx = (True, idx)" for idx
    using assms(1,4) n by (subst parse_loop.simps) simp
  then have "parse_loop ?b n 0 ?i0 = (True, ?i0\<lparr>ifaces := js\<rparr>)"
    using start loop by (simp add: zero_index_def)
  then have "parse_usb_descriptor ?b n old = (Parsed True, ?i0\<lparr>ifaces := js\<rparr>)"
    using n power by (simp add: parse_usb_descriptor_def Let_def)
  then show ?thesis using js clen by simp
qed


text \<open>The start of a device: its device and configuration descriptors are passed over.\<close>

definition headers_ok :: "u8 list \<Rightarrow> u8 list \<Rightarrow> bool" where
  "headers_ok d c \<longleftrightarrow> length d = 18 \<and> d ! 0 = 18 \<and> d ! 1 = USB_DT_DEVICE
     \<and> length c = 9 \<and> c ! 0 = 9 \<and> c ! 1 = USB_DT_CONFIG"

lemma parse_start:
  assumes "headers_ok d c" and "27 \<le> n"
  obtains idx where "ifaces idx = []" and "parse_usb_descriptor (d @ c @ rest) n old
    = (let (ok, idx) = parse_loop ((d @ c) @ rest) n (length (d @ c)) idx
       in (if ok then Parsed True else Segv, idx))"
proof -
  let ?b = "d @ c @ rest"
  let ?i0 = "zero_index\<lparr>dev := ?b, config := drop 18 ?b, idx_bMaxPower := c ! 8,
    config_length := sint (of_nat (n - 18) :: u32), iface_cur := - 1\<rparr>"
  have h: "length d = 18" "d ! 0 = 18" "d ! 1 = USB_DT_DEVICE" "length c = 9" "c ! 0 = 9"
    "c ! 1 = USB_DT_CONFIG" using assms(1) by (simp_all add: headers_ok_def)
  have power: "byte_at ?b 26 = Some (c ! 8)"
    using byte_at_append [of d "c @ rest" 8] h(1,4) by (simp add: byte_at_prefix)
  have "parse_loop ([] @ d @ c @ rest) n (length []) ?i0
      = parse_loop (([] @ d) @ c @ rest) n (length ([] @ d)) ?i0"
    using parse_descriptor [of d "[]" n "c @ rest" ?i0] assms(2) h by (simp add: take_descriptor_def)
  also have "\<dots> = parse_loop ((d @ c) @ rest) n (length (d @ c)) ?i0"
    using parse_descriptor [of c d n rest ?i0] assms(2) h by (simp add: take_descriptor_def)
  finally have "parse_loop ?b n 0 ?i0 = parse_loop ((d @ c) @ rest) n (length (d @ c)) ?i0" by simp
  then show ?thesis
    using assms(2) power by (intro that [of ?i0]) (simp_all add: parse_usb_descriptor_def Let_def zero_index_def)
qed

lemma concat_snoc: "concat (map f (xs @ [x])) = concat (map f xs) @ f x"
  by simp

text \<open>
  C40. The parser copies nine bytes for every endpoint descriptor, though one has seven: when the
  last descriptor of a device is an endpoint of its last interface and the memory ends with it,
  or one byte after it, the parser reads beyond the memory.
\<close>

theorem parse_reads_beyond_end:
  assumes "headers_ok d c" and "\<forall>x \<in> set xs. interface_spec_ok x \<and> length (spec_endpoints x) \<le> USB_MAX_EP_NUM"
    and "length xs \<le> USB_MAX_IFACE_NUM" and "xs \<noteq> []" and "spec_endpoints (last xs) \<noteq> []"
    and "length post < 2" and "n = length (d @ c @ concat (map write_interface xs))"
  shows "fst (parse_usb_descriptor (d @ c @ concat (map write_interface xs) @ post) n old) = Segv"
proof -
  let ?e = "last (spec_endpoints (last xs))"
  let ?x = "(last xs)\<lparr>spec_endpoints := butlast (spec_endpoints (last xs))\<rparr>"
  let ?xs = "butlast xs @ [?x]"
  have e: "endpoint_spec ?e"
    using assms(2,4,5) by (meson interface_spec_ok_def last_in_set)
  then have e': "length ?e = 7" "?e ! 0 = 7" "?e ! 1 = USB_DT_ENDPOINT" by (simp_all add: endpoint_spec_def)
  have w: "concat (map write_interface xs) = concat (map write_interface ?xs) @ ?e"
  proof -
    have "concat (spec_endpoints (last xs)) = concat (butlast (spec_endpoints (last xs))) @ ?e"
      using assms(5) by (metis append_butlast_last_id concat.simps concat_append append_Nil2)
    then have "write_interface (last xs) = write_interface ?x @ ?e"
      by (simp add: write_interface_def interface_head_def)
    moreover have "concat (map write_interface xs) = concat (map write_interface (butlast xs)) @ write_interface (last xs)"
      using assms(4) by (metis append_butlast_last_id concat_snoc)
    ultimately show ?thesis by simp
  qed
  have ok: "\<forall>x \<in> set ?xs. interface_spec_ok x \<and> length (spec_endpoints x) \<le> USB_MAX_EP_NUM"
    "length (butlast (spec_endpoints (last xs))) < USB_MAX_EP_NUM"
  proof -
    have "last xs \<in> set xs" using assms(4) by simp
    then have l: "interface_spec_ok (last xs)" "length (spec_endpoints (last xs)) \<le> USB_MAX_EP_NUM"
      using assms(2) by blast+
    then have "interface_spec_ok ?x" "length (spec_endpoints ?x) \<le> USB_MAX_EP_NUM"
      by (auto simp: interface_spec_ok_def dest: in_set_butlastD)
    then show "\<forall>x \<in> set ?xs. interface_spec_ok x \<and> length (spec_endpoints x) \<le> USB_MAX_EP_NUM"
      using assms(2) by (auto dest: in_set_butlastD)
    show "length (butlast (spec_endpoints (last xs))) < USB_MAX_EP_NUM"
      using l(2) assms(5) by (cases "spec_endpoints (last xs)") auto
  qed
  let ?w = "concat (map write_interface ?xs)"
  have n: "n = 27 + length ?w + 7" using assms(1,7) w e'(1) by (simp add: headers_ok_def)
  obtain idx where empty: "ifaces idx = []"
    and start: "parse_usb_descriptor (d @ c @ ?w @ ?e @ post) n old
      = (let (ok, idx) = parse_loop ((d @ c) @ ?w @ ?e @ post) n (length (d @ c)) idx
         in (if ok then Parsed True else Segv, idx))"
    by (rule parse_start [OF assms(1), of n "?w @ ?e @ post" old]) (use n in simp_all)
  obtain js where js: "map shown js = map shown_spec ?xs"
    and loop: "parse_loop ((d @ c) @ ?w @ ?e @ post) n (length (d @ c)) idx
      = parse_loop (((d @ c) @ ?w) @ ?e @ post) n (length ((d @ c) @ ?w)) (idx\<lparr>ifaces := ifaces idx @ js\<rparr>)"
    by (rule parse_interfaces [OF ok(1), of "d @ c" n "?e @ post" idx])
      (use n e'(1) assms(1,3,4) empty in \<open>simp_all add: headers_ok_def\<close>)
  have "js \<noteq> []" using js by auto
  have "last (map shown js) = shown_spec ?x" using js by simp
  then have "map (take 7) (eps (last js)) = spec_endpoints ?x"
    using \<open>js \<noteq> []\<close> by (simp add: last_map shown_def shown_spec_def)
  from arg_cong [OF this, of length] have "length (eps (last js)) = length (spec_endpoints ?x)" by simp
  then have "take_descriptor (((d @ c) @ ?w) @ ?e @ post) (length ((d @ c) @ ?w)) (?e ! 1)
      (idx\<lparr>ifaces := ifaces idx @ js\<rparr>) = None"
    using e'(1,3) ok(2) assms(6) \<open>js \<noteq> []\<close>
    by (simp add: take_descriptor_def add_endpoint_def bytes_at_def Let_def empty)
  then have "fst (parse_loop (((d @ c) @ ?w) @ ?e @ post) n (length ((d @ c) @ ?w))
      (idx\<lparr>ifaces := ifaces idx @ js\<rparr>)) = False"
    using parse_descriptor [of ?e "(d @ c) @ ?w" n post "idx\<lparr>ifaces := ifaces idx @ js\<rparr>"] e' n assms(1)
    by (simp add: headers_ok_def)
  then show ?thesis using start loop w by (simp add: split_def Let_def)
qed

text \<open>
  Of a device with a fifth interface the index keeps the first four, and it files the
  endpoints of the fifth under the fourth.
\<close>

theorem fifth_interface_misfiled:
  assumes "headers_ok d c" and "\<forall>x \<in> set (xs @ [x, y]). interface_spec_ok x"
    and "\<forall>x \<in> set xs. length (spec_endpoints x) \<le> USB_MAX_EP_NUM" and "length xs = 3"
    and "length (spec_endpoints x) + length (spec_endpoints y) \<le> USB_MAX_EP_NUM" and "2 \<le> length post"
    and "n = length (d @ c @ concat (map write_interface (xs @ [x, y])))"
  shows "\<exists>idx. parse_usb_descriptor (d @ c @ concat (map write_interface (xs @ [x, y])) @ post) n old
      = (Parsed True, idx)
    \<and> map shown (ifaces idx) = map shown_spec xs
        @ [(spec_number x, spec_alternate x, spec_endpoints x @ spec_endpoints y)]"
proof -
  let ?w = "concat (map write_interface (xs @ [x]))" and ?h = "interface_head y"
    and ?es = "concat (spec_endpoints y)"
  have split: "concat (map write_interface (xs @ [x, y])) = ?w @ ?h @ ?es"
    by (simp add: write_interface_def [of y])
  have h: "length ?h = 9" "?h ! 0 = 9" "?h ! 1 = USB_DT_INTERFACE"
    using assms(2) by (simp_all add: interface_head_def interface_spec_ok_def)
  have n: "n = 27 + length ?w + 9 + length ?es"
    using assms(1,7) h(1) unfolding split by (simp add: headers_ok_def)
  have dc: "length (d @ c) = 27" using assms(1) by (simp add: headers_ok_def)
  obtain idx where empty: "ifaces idx = []"
    and start: "parse_usb_descriptor (d @ c @ ?w @ ?h @ ?es @ post) n old
      = (let (ok, idx) = parse_loop ((d @ c) @ ?w @ ?h @ ?es @ post) n (length (d @ c)) idx
         in (if ok then Parsed True else Segv, idx))"
    by (rule parse_start [OF assms(1), of n "?w @ ?h @ ?es @ post" old]) (use n in simp_all)
  obtain js where js: "map shown js = map shown_spec (xs @ [x])"
    and loop: "parse_loop ((d @ c) @ ?w @ ?h @ ?es @ post) n (length (d @ c)) idx
      = parse_loop (((d @ c) @ ?w) @ ?h @ ?es @ post) n (length ((d @ c) @ ?w)) (idx\<lparr>ifaces := ifaces idx @ js\<rparr>)"
    by (rule parse_interfaces [of "xs @ [x]" "d @ c" n "?h @ ?es @ post" idx])
      (use n dc h(1) assms(2-5) empty in auto)
  have len: "length js = 4" using arg_cong [OF js, of length] assms(4) by simp
  have head: "parse_loop (((d @ c) @ ?w) @ ?h @ ?es @ post) n (length ((d @ c) @ ?w)) (idx\<lparr>ifaces := js\<rparr>)
      = parse_loop ((((d @ c) @ ?w) @ ?h) @ ?es @ post) n (length (((d @ c) @ ?w) @ ?h)) (idx\<lparr>ifaces := js\<rparr>)"
    using parse_descriptor [of ?h "(d @ c) @ ?w" n "?es @ post" "idx\<lparr>ifaces := js\<rparr>"] h n dc len
    by (simp add: take_descriptor_def)
  obtain i "is" where ij: "js = is @ [i]" using len by (cases js rule: rev_cases) auto
  have i: "shown i = shown_spec x" "map shown is = map shown_spec xs" using js ij by simp_all
  then have ei: "length (eps i) = length (spec_endpoints x)"
    by (metis length_map shown_def shown_spec_def snd_conv)
  obtain j where j: "shown j = (bInterfaceNumber i, bAlternateSetting i, map (take 7) (eps i) @ spec_endpoints y)"
    and endpoints: "parse_loop ((((d @ c) @ ?w) @ ?h) @ ?es @ post) n (length (((d @ c) @ ?w) @ ?h)) (idx\<lparr>ifaces := js\<rparr>)
      = parse_loop (((((d @ c) @ ?w) @ ?h) @ ?es) @ post) n (length ((((d @ c) @ ?w) @ ?h) @ ?es))
          (idx\<lparr>ifaces := js\<rparr>\<lparr>ifaces := is @ [j]\<rparr>)"
    by (rule parse_endpoints [of "spec_endpoints y" "((d @ c) @ ?w) @ ?h" n post "idx\<lparr>ifaces := js\<rparr>" "is" i])
      (use assms(2,5,6) n dc h(1) ij ei in \<open>simp_all add: interface_spec_ok_def\<close>)
  have "parse_loop (((((d @ c) @ ?w) @ ?h) @ ?es) @ post) n (length ((((d @ c) @ ?w) @ ?h) @ ?es)) idx'
      = (True, idx')" for idx'
    using n dc h(1) by (subst parse_loop.simps) simp
  then have "parse_usb_descriptor (d @ c @ ?w @ ?h @ ?es @ post) n old
      = (Parsed True, idx\<lparr>ifaces := is @ [j]\<rparr>)"
    using start loop head endpoints by (simp add: empty Let_def)
  moreover have "shown j = (spec_number x, spec_alternate x, spec_endpoints x @ spec_endpoints y)"
    using i(1) j by (simp add: shown_def shown_spec_def)
  ultimately show ?thesis using i(2) unfolding split by simp
qed


text \<open>What every parse keeps: the arrays of the index are never written beyond their ends.\<close>

definition index_ok :: "usb_device_index \<Rightarrow> bool" where
  "index_ok idx \<longleftrightarrow> length (ifaces idx) \<le> USB_MAX_IFACE_NUM
     \<and> (\<forall>i \<in> set (ifaces idx). length (eps i) \<le> USB_MAX_EP_NUM \<and> (\<forall>e \<in> set (eps i). length e = 9))"

lemma add_interface_ok:
  "index_ok idx \<Longrightarrow> length (ifaces idx) < USB_MAX_IFACE_NUM \<Longrightarrow> add_interface b off idx = Some idx'
     \<Longrightarrow> index_ok idx'"
  by (auto simp: add_interface_def index_ok_def bind_eq_Some_conv)

lemma add_endpoint_ok:
  assumes "index_ok idx" and "ifaces idx \<noteq> []" and "add_endpoint b off idx = Some idx'"
  shows "index_ok idx'"
proof -
  let ?P = "\<lambda>i. length (eps i) \<le> USB_MAX_EP_NUM \<and> (\<forall>e \<in> set (eps i). length e = 9)"
  have "?P (last (ifaces idx))" "\<forall>i \<in> set (butlast (ifaces idx)). ?P i"
    using assms(1,2) by (auto simp: index_ok_def dest: in_set_butlastD)
  moreover have "length (butlast (ifaces idx)) < 4" using assms(1,2) by (cases "ifaces idx") (auto simp: index_ok_def)
  ultimately show ?thesis
    using assms by (auto simp: add_endpoint_def index_ok_def Let_def bytes_at_def split: if_splits)
qed

lemma take_descriptor_ok:
  assumes "index_ok idx" and "take_descriptor b off t idx = Some idx'"
  shows "index_ok idx'"
proof -
  obtain idx1 where i1: "(if t = USB_DT_INTERFACE \<and> length (ifaces idx) < USB_MAX_IFACE_NUM
      then add_interface b off idx else Some idx) = Some idx1"
    and i2: "(if t = USB_DT_ENDPOINT \<and> length (ifaces idx1) > 0
      then add_endpoint b off idx1 else Some idx1) = Some idx'"
    using assms(2) by (auto simp: take_descriptor_def bind_eq_Some_conv simp del: length_greater_0_conv)
  have "index_ok idx1" using add_interface_ok [OF assms(1)] assms(1) i1 by (auto split: if_splits)
  then show ?thesis using add_endpoint_ok i2 by (auto split: if_splits)
qed

lemma take_descriptor_safe:
  "off + 9 \<le> length b \<Longrightarrow> take_descriptor b off t idx \<noteq> None"
  by (auto simp: take_descriptor_def add_interface_def add_endpoint_def byte_at_def bytes_at_def Let_def)

lemma parse_loop_ok:
  "index_ok idx \<Longrightarrow> index_ok (snd (parse_loop b len off idx))
     \<and> (len + 6 \<le> length b \<longrightarrow> fst (parse_loop b len off idx))"
proof (induction b len off idx rule: parse_loop.induct)
  case (1 b len off idx)
  show ?case
  proof (cases "off + 1 \<ge> len \<or> byte_at b off = None \<or> byte_at b (off + 1) = None")
    case True
    then show ?thesis
      using "1.prems"
      by (auto simp: parse_loop.simps [of b len off idx] byte_at_def split: option.splits if_splits)
  next
    case False
    then obtain l t where lt: "\<not> off + 1 \<ge> len" "byte_at b off = Some l" "byte_at b (off + 1) = Some t"
      by auto
    show ?thesis
    proof (cases "unat l \<le> 2 \<or> off + unat l > len")
      case True
      then show ?thesis
        using lt "1.prems" by (auto simp: parse_loop.simps [of b len off idx])
    next
      case l: False
      show ?thesis
      proof (cases "take_descriptor b off t idx")
        case None
        have "length b < off + 9" using None take_descriptor_safe [of off b t idx] by fastforce
        then have "\<not> len + 6 \<le> length b" using l by linarith
        then show ?thesis
          using lt l None "1.prems" by (simp add: parse_loop.simps [of b len off idx])
      next
        case (Some idx')
        from take_descriptor_ok [OF "1.prems" this] have "index_ok idx'" .
        then show ?thesis
          using "1.IH" [OF lt _ _ Some] lt l Some
          by (simp add: parse_loop.simps [of b len off idx])
      qed
    qed
  qed
qed

lemma parse_usb_descriptor_ok:
  assumes "parse_usb_descriptor b len old = (r, idx)" and "index_ok old"
  shows "index_ok idx \<and> (r = Segv \<longrightarrow> length b < len + 6)"
proof -
  have z: "index_ok (zero_index\<lparr>dev := x, config := y\<rparr>)"
    "index_ok (zero_index\<lparr>dev := x, config := y, idx_bMaxPower := p, config_length := c, iface_cur := q\<rparr>)"
    for x y p c q by (simp_all add: index_ok_def zero_index_def)
  show ?thesis
  proof (cases "byte_at b 26")
    case None
    then show ?thesis
      using assms z(1) by (auto simp: parse_usb_descriptor_def Let_def byte_at_def split: if_splits)
  next
    case (Some p)
    let ?i = "zero_index\<lparr>dev := b, config := drop 18 b, idx_bMaxPower := p,
      config_length := sint (of_nat (len - 18) :: u32), iface_cur := - 1\<rparr>"
    obtain ok idx1 where l: "parse_loop b len 0 ?i = (ok, idx1)" by fastforce
    then have "index_ok idx1 \<and> (len + 6 \<le> length b \<longrightarrow> ok)"
      using parse_loop_ok [OF z(2) [where x = b and y = "drop 18 b" and p = p and c = "sint (of_nat (len - 18) :: u32)"
          and q = "- 1"], of b len 0]
      by simp
    then show ?thesis
      using assms Some l by (auto simp: parse_usb_descriptor_def Let_def split: if_splits)
  qed
qed

text \<open>
  C22. Whatever bytes the fuzzer passes, the parser never fills its arrays beyond their ends, and
  it never reads more than six bytes beyond the length it is given.
\<close>

theorem parse_bounds:
  assumes "parse_usb_descriptor b len old = (r, idx)" and "index_ok old"
  shows "index_ok idx \<and> (r = Segv \<longrightarrow> length b < len + 6)"
  by (rule parse_usb_descriptor_ok [OF assms])

section \<open>The table\<close>

text \<open>The entries not handed out yet have the descriptor 0 of the zeroed table.\<close>

definition table_ok :: "vusb \<Rightarrow> bool" where
  "table_ok s \<longleftrightarrow> length (usb_devices s) = MAX_USB_FDS
     \<and> (\<forall>i < MAX_USB_FDS. usb_devices_num s \<le> i \<longrightarrow> fd (usb_devices s ! i) = 0)"

lemma vusb_start_ok [simp]: "table_ok vusb_start"
  by (simp add: table_ok_def vusb_start_def)

lemma lookup_usb_index_Some:
  "lookup_usb_index f s = Some i \<Longrightarrow> i < MAX_USB_FDS \<and> fd (usb_devices s ! i) = f
     \<and> (\<forall>j < i. fd (usb_devices s ! j) \<noteq> f)"
  by (auto simp: lookup_usb_index_def find_Some_iff)

lemma lookup_usb_index_None: "lookup_usb_index f s = None \<longleftrightarrow> (\<forall>j < MAX_USB_FDS. fd (usb_devices s ! j) \<noteq> f)"
  by (auto simp: lookup_usb_index_def find_None_iff)

lemma lookup_usb_index_first:
  assumes "i < MAX_USB_FDS" and "fd (usb_devices s ! i) = f" and "\<forall>j < i. fd (usb_devices s ! j) \<noteq> f"
  shows "lookup_usb_index f s = Some i"
proof (cases "lookup_usb_index f s")
  case None
  then show ?thesis using assms(1,2) by (simp add: lookup_usb_index_None)
next
  case (Some j)
  from lookup_usb_index_Some [OF this] assms have "\<not> j < i" "\<not> i < j" by blast+
  then show ?thesis using Some by simp
qed

text \<open>
  C28. A device added under a descriptor number that no entry has is found under it. One added
  under a number that an earlier entry has, as after closing a device and getting its number
  again, is not: entries are never given back, the lookup finds the earlier entry first, and
  every later operation on the new device works on the descriptors of the old one.
\<close>

theorem added_index_found_unless_stale:
  assumes "table_ok s" and "f \<noteq> 0" and "add_usb_index f dv n s = (Some i, s')"
  shows "table_ok s'
    \<and> (case lookup_usb_index f s of
        None \<Rightarrow> lookup_usb_index f s' = Some i
          \<and> parse_usb_descriptor dv n (index_at i s) = (Parsed True, index_at i s')
      | Some j \<Rightarrow> lookup_usb_index f s' = Some j \<and> j < i \<and> index_at j s' = index_at j s)"
proof -
  have len: "length (usb_devices s) = MAX_USB_FDS" using assms(1) by (simp add: table_ok_def)
  obtain r idx where p: "parse_usb_descriptor dv n (index (usb_devices s ! usb_devices_num s)) = (r, idx)"
    by fastforce
  then have i: "i = usb_devices_num s" "i < MAX_USB_FDS" and r: "r = Parsed True"
    and s': "s' = upd_device i (\<lambda>u. u\<lparr>fd := f\<rparr>)
        (upd_device i (\<lambda>u. u\<lparr>index := idx\<rparr>) (s\<lparr>usb_devices_num := i + 1\<rparr>))"
    using assms(3) by (auto simp: add_usb_index_def Let_def split: if_splits)
  have dev: "usb_devices s' ! i = \<lparr>fd = f, index = idx\<rparr>" "usb_devices_num s' = Suc i"
      "length (usb_devices s') = MAX_USB_FDS"
    and other: "j \<noteq> i \<Longrightarrow> usb_devices s' ! j = usb_devices s ! j" for j
    using i(2) len by (simp_all add: s' upd_device_def)
  have ok: "table_ok s'"
    using assms(1) i(1) dev other by (auto simp: table_ok_def)
  show ?thesis
  proof (cases "lookup_usb_index f s")
    case None
    then have "\<forall>j < i. fd (usb_devices s' ! j) \<noteq> f"
      using i(2) other by (simp add: lookup_usb_index_None)
    then have "lookup_usb_index f s' = Some i" using i(2) dev(1) by (intro lookup_usb_index_first) simp_all
    then show ?thesis using None ok p i(1) r dev(1) by (simp add: index_at_def)
  next
    case (Some j)
    note j = lookup_usb_index_Some [OF this]
    have "j < i"
    proof (rule ccontr)
      assume "\<not> j < i"
      then have "fd (usb_devices s ! j) = 0" using assms(1) j i(1) by (auto simp: table_ok_def not_less)
      then show False using j assms(2) by simp
    qed
    then have "lookup_usb_index f s' = Some j" using j other by (intro lookup_usb_index_first) auto
    then show ?thesis using Some ok \<open>j < i\<close> other [of j] by (simp add: index_at_def)
  qed
qed

section \<open>Interfaces\<close>

lemma syscall_simps [simp]:
  "calls (snd (syscall k c s)) = calls s @ [c]" "usb_devices (snd (syscall k c s)) = usb_devices s"
  "usb_devices_num (snd (syscall k c s)) = usb_devices_num s" "fst (syscall k c s) = k (calls s) c"
  "lookup_usb_index f (snd (syscall k c s)) = lookup_usb_index f s"
  "index_at i (snd (syscall k c s)) = index_at i s"
  by (simp_all add: syscall_def lookup_usb_index_def index_at_def)

lemma disable_endpoints_calls [simp]:
  "disable_endpoints k f es s = s\<lparr>calls := calls s @ map (Raw_Ep_Disable f) es\<rparr>"
  by (induction es arbitrary: s) (simp_all add: syscall_def)

lemma enable_endpoints_calls [simp]:
  "enable_endpoints k f es s = s\<lparr>calls := calls s @ map (Raw_Ep_Enable f) es\<rparr>"
  by (induction es arbitrary: s) (simp_all add: syscall_def)

text \<open>The endpoints of the current interface, by their positions.\<close>

definition current_endpoints :: "usb_device_index \<Rightarrow> nat list" where
  "current_endpoints idx =
     (if 0 \<le> iface_cur idx \<and> iface_cur idx < int (length (ifaces idx))
      then [0..<length (eps (ifaces idx ! nat (iface_cur idx)))] else [])"

text \<open>
  Switching to an interface of a device disables every endpoint of the current interface, if
  there is one, then enables every endpoint of the new one in the order of the descriptors,
  whatever the kernel answers, and makes it the current one; a number out of range only disables
  the endpoints, and leaves the disabled interface the current one.
\<close>

theorem set_interface_switches:
  assumes "lookup_usb_index f s = Some i" and "i < length (usb_devices s)"
  shows "let idx = index_at i s; s' = set_interface k f n s in
     if 0 \<le> n \<and> n < int (length (ifaces idx))
     then calls s' = calls s @ map (Raw_Ep_Disable f) (current_endpoints idx)
            @ map (Raw_Ep_Enable f) (eps (ifaces idx ! nat n))
       \<and> index_at i s' = idx\<lparr>iface_cur := n\<rparr>
     else calls s' = calls s @ map (Raw_Ep_Disable f) (current_endpoints idx)
       \<and> index_at i s' = idx"
  using assms
  by (simp add: set_interface_def Let_def current_endpoints_def index_at_def upd_device_def)

text \<open>
  Configuring a device whose descriptors have just been parsed draws the power its
  configuration asks for, configures the gadget and enables the endpoints of its first
  interface; when one of the first two calls fails it returns the error and stops there.
\<close>

theorem configure_device_spec:
  assumes "lookup_usb_index f s = Some i" and "i < length (usb_devices s)"
    and "ifaces (index_at i s) \<noteq> []" and "iface_cur (index_at i s) = - 1"
  shows "let draw = Raw_Vbus_Draw f (idx_bMaxPower (index_at i s)); r1 = rv (k (calls s) draw);
       r2 = rv (k (calls s @ [draw]) (Raw_Configure f)); (ret, s') = configure_device k f s in
     if r1 < 0 then ret = r1 \<and> calls s' = calls s @ [draw]
     else if r2 < 0 then ret = r2 \<and> calls s' = calls s @ [draw, Raw_Configure f]
     else ret = 0 \<and> iface_cur (index_at i s') = 0
       \<and> calls s' = calls s @ [draw, Raw_Configure f]
           @ map (Raw_Ep_Enable f) (eps (hd (ifaces (index_at i s))))"
proof -
  let ?draw = "Raw_Vbus_Draw f (idx_bMaxPower (index_at i s))"
  let ?s2 = "snd (syscall k (Raw_Configure f) (snd (syscall k ?draw s)))"
  have "let s' = set_interface k f 0 ?s2 in
      calls s' = calls ?s2 @ map (Raw_Ep_Enable f) (eps (ifaces (index_at i ?s2) ! 0))
      \<and> index_at i s' = (index_at i ?s2)\<lparr>iface_cur := 0\<rparr>"
    using assms
    by (simp add: set_interface_def Let_def index_at_def upd_device_def)
  then show ?thesis
    using assms by (auto simp: configure_device_def Let_def split_def hd_conv_nth)
qed

section \<open>Examples\<close>

definition demo_device :: "u8 list" where
  "demo_device = [18, 1, 0, 2, 0, 0, 0, 64, 1, 2, 3, 4, 0, 1, 0, 0, 0, 1]"

definition demo_config :: "u8 list" where
  "demo_config = [9, 2, 0, 0, 1, 1, 0, 0x80, 50]"

definition demo_interface :: "u8 \<Rightarrow> interface_spec" where
  "demo_interface n = \<lparr>spec_number = n, spec_alternate = 0, spec_class = [1, 3, 0, 0, 0],
     spec_endpoints = [[7, 5, 0x81, 3, 8, 0, 10]]\<rparr>"

lemma demo_headers [simp]: "headers_ok demo_device demo_config"
  by (simp add: headers_ok_def demo_device_def demo_config_def)

lemma demo_interface_ok [simp]: "interface_spec_ok (demo_interface n)"
  "length (spec_endpoints (demo_interface n)) = 1" "spec_endpoints (demo_interface n) \<noteq> []"
  by (simp_all add: interface_spec_ok_def demo_interface_def endpoint_spec_def)

lemma demo_write [simp]: "length (write_interface (demo_interface n)) = 16"
  by (simp add: write_interface_def interface_head_def demo_interface_def)

theorem parse_roundtrip_witness:
  "\<exists>idx. parse_usb_descriptor (demo_device @ demo_config @ write_interface (demo_interface 0) @ [0, 0]) 43
      zero_index = (Parsed True, idx) \<and> idx_bMaxPower idx = 50"
  using parse_roundtrip [of demo_device demo_config "[demo_interface 0]" "[0, 0]" 43 zero_index]
  by (auto simp: demo_device_def demo_config_def)

theorem parse_reads_beyond_end_witness:
  "fst (parse_usb_descriptor (demo_device @ demo_config @ write_interface (demo_interface 0)) 43 zero_index)
     = Segv"
  using parse_reads_beyond_end [OF demo_headers, of "[demo_interface 0]" "[]" 43 zero_index]
  by (simp add: demo_device_def demo_config_def)

theorem fifth_interface_misfiled_witness:
  "\<exists>idx. parse_usb_descriptor (demo_device @ demo_config
        @ concat (map write_interface (map demo_interface [0, 1, 2] @ [demo_interface 3, demo_interface 4]))
        @ [0, 0]) 107 zero_index = (Parsed True, idx)
     \<and> snd (snd (last (map shown (ifaces idx)))) = [[7, 5, 0x81, 3, 8, 0, 10], [7, 5, 0x81, 3, 8, 0, 10]]"
proof -
  have n: "107 = length (demo_device @ demo_config @ concat (map write_interface
      (map demo_interface [0, 1, 2] @ [demo_interface 3, demo_interface 4])))"
    by (simp add: demo_device_def demo_config_def)
  have "spec_endpoints (demo_interface k) = [[7, 5, 0x81, 3, 8, 0, 10]]" for k
    by (simp add: demo_interface_def)
  then show ?thesis
    using fifth_interface_misfiled [OF demo_headers _ _ _ _ _ n, of "[0, 0]" zero_index] by fastforce
qed

theorem parse_bounds_witness:
  "\<exists>r idx. parse_usb_descriptor (replicate 40 3) 34 zero_index = (r, idx) \<and> r \<noteq> Segv \<and> index_ok idx"
proof -
  obtain r idx where p: "parse_usb_descriptor (replicate 40 3) 34 zero_index = (r, idx)" by fastforce
  moreover have "index_ok zero_index" by (simp add: index_ok_def zero_index_def)
  ultimately show ?thesis using parse_bounds [OF p] by auto
qed

definition one_device :: vusb where
  "one_device = snd (add_usb_index 5
     (demo_device @ demo_config @ write_interface (demo_interface 0) @ [0, 0]) 43 vusb_start)"

lemma one_device_added:
  "add_usb_index 5 (demo_device @ demo_config @ write_interface (demo_interface 0) @ [0, 0]) 43 vusb_start
     = (Some 0, one_device)"
  by code_simp

lemma one_device_simps:
  "lookup_usb_index 5 one_device = Some 0" "length (usb_devices one_device) = 6"
  "iface_cur (index_at 0 one_device) = - 1" "length (ifaces (index_at 0 one_device)) = 1"
  "table_ok one_device"
  by code_simp+

theorem added_index_found_unless_stale_witness:
  "\<exists>s. add_usb_index 5 (demo_device @ demo_config @ write_interface (demo_interface 1) @ [0, 0]) 43 one_device
      = (Some 1, s) \<and> lookup_usb_index 5 s = Some 0"
proof -
  have "fst (add_usb_index 5 (demo_device @ demo_config @ write_interface (demo_interface 1) @ [0, 0])
      43 one_device) = Some 1"
    by code_simp
  then obtain s where s: "add_usb_index 5 (demo_device @ demo_config @ write_interface (demo_interface 1)
      @ [0, 0]) 43 one_device = (Some 1, s)"
    by (metis prod.collapse)
  have "lookup_usb_index 5 s = Some 0"
    using added_index_found_unless_stale [OF one_device_simps(5) _ s] by (simp add: one_device_simps(1))
  with s show ?thesis by blast
qed

definition silent_kernel :: kernel where
  "silent_kernel h c = \<lparr>rv = 0, event_type = 0,
     event_ctrl = \<lparr>bRequestType = 0, bRequest = 0, wValue = 0, wIndex = 0, wLength = 0\<rparr>, read_data = []\<rparr>"

theorem set_interface_switches_witness:
  "\<exists>s. set_interface silent_kernel 5 0 one_device = s \<and> iface_cur (index_at 0 s) = 0"
  using set_interface_switches [OF one_device_simps(1), of silent_kernel 0] one_device_simps(2,4)
  by (auto simp: Let_def split: if_splits)

theorem configure_device_spec_witness:
  "\<exists>s. configure_device silent_kernel 5 one_device = (0, s) \<and> iface_cur (index_at 0 s) = 0"
proof -
  have "ifaces (index_at 0 one_device) \<noteq> []" using one_device_simps(4) by auto
  then show ?thesis
    using configure_device_spec [OF one_device_simps(1), of silent_kernel] one_device_simps(2,3)
    by (auto simp: Let_def silent_kernel_def split: prod.splits)
qed

end
