(* ===== verification/Vusb_Connect.thy ===== *)
theory Vusb_Connect
  imports Vusb_Index
begin

text \<open>
  The pseudo-calls of the fuzzer that emulate a device (common\_usb.h, lines 301 to 418 and 969 to
  1428): connecting it, which answers the host's enumeration until it is configured, answering
  one control request, and reading and writing endpoints.
\<close>

section \<open>Answers to the enumeration\<close>

abbreviation (input) USB_MAX_PACKET_SIZE :: nat where "USB_MAX_PACKET_SIZE \<equiv> 1024"

text \<open>
  The descriptors the program passes along; a null pointer is \<open>None\<close>, and the array of strings is
  as long as its memory, whatever its length field says.
\<close>

record connect_descriptors =
  qual_len :: u32
  qual :: "u8 list option"
  bos_len :: u32
  bos :: "u8 list option"
  strs_len :: u32
  strs :: "(u32 \<times> u8 list option) list"

definition default_string :: "u8 list" where
  "default_string = [8, USB_DT_STRING, 0x73, 0, 0x79, 0, 0x7a, 0]"

definition default_lang_id :: "u8 list" where
  "default_lang_id = [4, USB_DT_STRING, 0x09, 0x04]"

text \<open>
  The outcome of looking up a response: data and length, none, a fault that ends the lookup, or
  the call of \<open>fail\<close>, which ends the program. Building a qualifier descriptor writes ten bytes
  over a pointer variable of the caller, which is undefined (\<open>None\<close>).
\<close>

datatype lookup_result = Found "u8 list option" u32 | Not_Found | Fault | Fail

definition usb_type :: "usb_ctrlrequest \<Rightarrow> u8" where
  "usb_type c = bRequestType c AND USB_TYPE_MASK"

definition is_in_request :: "usb_ctrlrequest \<Rightarrow> bool" where
  "is_in_request c \<longleftrightarrow> bRequestType c AND USB_DIR_IN \<noteq> 0"

definition string_response :: "connect_descriptors option \<Rightarrow> u8 \<Rightarrow> lookup_result" where
  "string_response descs str_idx =
     (case descs of
        Some ds \<Rightarrow>
          if ucast str_idx < strs_len ds
          then (if unat str_idx < length (strs ds)
                then (let (n, p) = strs ds ! unat str_idx in Found p n) else Fault)
          else if str_idx = 0 then Found (Some default_lang_id) 4
          else Found (Some default_string) 8
      | None \<Rightarrow>
          if str_idx = 0 then Found (Some default_lang_id) 4
          else Found (Some default_string) 8)"

definition lookup_connect_response ::
  "int \<Rightarrow> connect_descriptors option \<Rightarrow> usb_ctrlrequest \<Rightarrow> vusb \<Rightarrow> lookup_result option" where
  "lookup_connect_response f descs ctrl s =
     (case lookup_usb_index f s of
        None \<Rightarrow> Some Not_Found
      | Some i \<Rightarrow>
          (let idx = index_at i s; t = drop_bit 8 (wValue ctrl) in
           if usb_type ctrl = USB_TYPE_STANDARD \<and> bRequest ctrl = USB_REQ_GET_DESCRIPTOR then
             if t = ucast USB_DT_DEVICE then Some (Found (Some (dev idx)) 18)
             else if t = ucast USB_DT_CONFIG
             then Some (Found (Some (config idx)) (word_of_int (config_length idx)))
             else if t = ucast USB_DT_STRING
             then Some (string_response descs (ucast (wValue ctrl)))
             else if t = ucast USB_DT_BOS
             then Some (case descs of None \<Rightarrow> Fault | Some ds \<Rightarrow> Found (bos ds) (bos_len ds))
             else if t = ucast USB_DT_DEVICE_QUALIFIER
             then (case descs of
                     None \<Rightarrow> Some Fault
                   | Some ds \<Rightarrow> (if qual ds = None then None else Some (Found (qual ds) (qual_len ds))))
             else Some Fail
           else Some Fail))"

text \<open>
  The requests the debugging aid knows; it calls \<open>fail\<close> for any other (the result is false). It is
  compiled only in debugging builds, but \<open>syz_usb_connect\<close> calls it always.
\<close>

definition analyze_control_request :: "usb_ctrlrequest \<Rightarrow> bool" where
  "analyze_control_request c =
     (if usb_type c = USB_TYPE_STANDARD then
        bRequest c = USB_REQ_GET_DESCRIPTOR \<and>
        drop_bit 8 (wValue c) \<in> {ucast USB_DT_DEVICE, ucast USB_DT_CONFIG, ucast USB_DT_STRING, 0x22,
          ucast USB_DT_BOS, ucast USB_DT_HUB, ucast USB_DT_SS_HUB}
      else if usb_type c = 0x20 then bRequest c \<in> {0x0A, 0x08, USB_REQ_GET_STATUS, 0x80}
      else False)"

text \<open>
  The response as it is written: a length beyond the buffer becomes zero, the host's length limits
  it, and missing data are zeros. Copying from outside the data's memory is undefined.
\<close>

definition response_length :: "u32 \<Rightarrow> u16 \<Rightarrow> nat" where
  "response_length n len =
     (let n = (if unat n > USB_MAX_PACKET_SIZE then 0 else unat n) in if unat len < n then unat len else n)"

definition response_bytes :: "u8 list option \<Rightarrow> nat \<Rightarrow> u8 list option" where
  "response_bytes data n =
     (case data of None \<Rightarrow> Some (replicate n 0) | Some mem \<Rightarrow> bytes_at mem 0 n)"

section \<open>Connecting\<close>

abbreviation (input) USB_RAW_EVENT_CONTROL :: u32 where "USB_RAW_EVENT_CONTROL \<equiv> 2"

datatype outcome = Ret int | Exited

definition connect_answer ::
  "int \<Rightarrow> connect_descriptors option \<Rightarrow> usb_ctrlrequest \<Rightarrow> vusb \<Rightarrow> lookup_result option" where
  "connect_answer f descs c s =
     (if is_in_request c then lookup_connect_response f descs c s
      else if usb_type c \<noteq> USB_TYPE_STANDARD \<or> bRequest c \<noteq> USB_REQ_SET_CONFIGURATION
      then Some Fail
      else Some (Found None 0))"

text \<open>
  From an answer to the end of the round: the result is the one of the pseudo-call, or \<open>None\<close>
  where the loop goes on.
\<close>

definition connect_respond ::
  "kernel \<Rightarrow> int \<Rightarrow> usb_ctrlrequest \<Rightarrow> u8 list option \<Rightarrow> u32 \<Rightarrow> vusb \<Rightarrow> (outcome option \<times> vusb) option" where
  "connect_respond k f c data n s =
     (let is_in = is_in_request c;
          (rc, s) = (if is_in then (0, s) else configure_device k f s)
      in if rc < 0 then Some (Some (Ret rc), s)
         else do {
           bytes \<leftarrow> response_bytes data (response_length n (wLength c));
           let (r, s) = syscall k (if is_in then Raw_Ep0_Write f bytes else Raw_Ep0_Read f (length bytes)) s;
           Some (if rv r < 0 then Some (Ret (rv r)) else if is_in then None else Some (Ret f), s)
         })"

definition connect_round ::
  "kernel \<Rightarrow> (usb_ctrlrequest \<Rightarrow> bool) \<Rightarrow> int \<Rightarrow> connect_descriptors option \<Rightarrow> vusb
     \<Rightarrow> (outcome option \<times> vusb) option" where
  "connect_round k analyze f descs s =
     (let (r, s) = syscall k (Raw_Event_Fetch f 8) s; c = event_ctrl r in
      if rv r < 0 then Some (Some (Ret (rv r)), s)
      else if event_type r \<noteq> USB_RAW_EVENT_CONTROL then Some (None, s)
      else if \<not> analyze c then Some (Some Exited, s)
      else do {
        answer \<leftarrow> connect_answer f descs c s;
        case answer of
          Found data n \<Rightarrow> connect_respond k f c data n s
        | Fail \<Rightarrow> Some (Some Exited, s)
        | _ \<Rightarrow> Some (Some (Ret (- 1)), s)
      })"

text \<open>The loop runs until a round ends it, which the kernel may never let happen (\<open>None\<close>).\<close>

partial_function (option) connect_loop ::
  "kernel \<Rightarrow> (usb_ctrlrequest \<Rightarrow> bool) \<Rightarrow> int \<Rightarrow> connect_descriptors option \<Rightarrow> vusb
     \<Rightarrow> (outcome \<times> vusb) option" where
  "connect_loop k analyze f descs s =
     do {
       (res, s) \<leftarrow> connect_round k analyze f descs s;
       case res of Some out \<Rightarrow> Some (out, s) | None \<Rightarrow> connect_loop k analyze f descs s
     }"

text \<open>
  The whole call; the number of the process, the most descriptors a program may have and the
  debugging aid are those of the executor, arguments here.
\<close>

definition syz_usb_connect ::
  "kernel \<Rightarrow> (usb_ctrlrequest \<Rightarrow> bool) \<Rightarrow> nat \<Rightarrow> int \<Rightarrow> 64 word \<Rightarrow> nat \<Rightarrow> u8 list option
     \<Rightarrow> connect_descriptors option \<Rightarrow> vusb \<Rightarrow> (outcome \<times> vusb) option" where
  "syz_usb_connect k analyze procid max_fds spd dev_len dv descs s =
     (case dv of
        None \<Rightarrow> Some (Ret (- 1), s)
      | Some mem \<Rightarrow>
          (let (r, s) = syscall k Raw_Open s; f = rv r in
           if f < 0 then Some (Ret f, s)
           else if f \<ge> max_fds then Some (Ret (- 1), snd (syscall k (Raw_Close f) s))
           else (case add_usb_index f mem dev_len s of
                   (None, s) \<Rightarrow> Some (Ret (- 1), s)
                 | (Some _, s) \<Rightarrow>
                     (let (r, s) = syscall k (Raw_Init f (ucast (ucast spd :: u32)) ''dummy_udc''
                        (''dummy_udc.'' @ dec_digits procid)) s in
                      if rv r < 0 then Some (Ret (rv r), s)
                      else let (r, s) = syscall k (Raw_Run f) s in
                        if rv r < 0 then Some (Ret (rv r), s)
                        else do {
                          (out, s) \<leftarrow> connect_loop k analyze f descs s;
                          Some (out, if out = Ret f then snd (syscall k (Sleep_Ms 200) s) else s)
                        }))))"

section \<open>Answering one control request\<close>

text \<open>
  The tables of descriptors and of responses have one layout: a length in bytes of the whole
  structure, a default entry and pointers to entries.
\<close>

record vusb_entry =
  entry_type :: u8
  entry_key :: u8
  entry_len :: u32
  entry_data :: "u8 list"

record vusb_table =
  table_len :: u32
  generic :: "vusb_entry option"
  entries :: "vusb_entry option list"

definition entries_num :: "vusb_table option \<Rightarrow> int" where
  "entries_num t =
     (case t of None \<Rightarrow> 0
      | Some t \<Rightarrow> sint (ucast ((ucast (table_len t) - 12 :: 64 word) div 8) :: u32))"

fun find_entry :: "u8 \<Rightarrow> u8 \<Rightarrow> nat \<Rightarrow> vusb_entry option list \<Rightarrow> lookup_result" where
  "find_entry t key 0 es = Not_Found"
| "find_entry t key (Suc n) [] = Fault"
| "find_entry t key (Suc n) (e # es) =
     (case e of
        None \<Rightarrow> find_entry t key n es
      | Some e \<Rightarrow>
          if entry_type e = t \<and> entry_key e = key
          then Found (if entry_len e \<noteq> 0 then Some (entry_data e) else None) (entry_len e)
          else find_entry t key n es)"

definition lookup_control_response ::
  "vusb_table option \<Rightarrow> vusb_table option \<Rightarrow> usb_ctrlrequest \<Rightarrow> lookup_result" where
  "lookup_control_response descs resps ctrl =
     (let (table, key) = (if bRequest ctrl = USB_REQ_GET_DESCRIPTOR
                          then (descs, ucast (drop_bit 8 (wValue ctrl))) else (resps, bRequest ctrl))
      in case table of
           None \<Rightarrow> Not_Found
         | Some t \<Rightarrow>
             (case find_entry (usb_type ctrl) key (nat (entries_num table)) (entries t) of
                Not_Found \<Rightarrow> (case generic t of
                    None \<Rightarrow> Not_Found
                  | Some g \<Rightarrow> Found (Some (entry_data g)) (entry_len g))
              | r \<Rightarrow> r))"

definition switch_interface :: "kernel \<Rightarrow> int \<Rightarrow> usb_ctrlrequest \<Rightarrow> vusb \<Rightarrow> vusb" where
  "switch_interface k f c s =
     (if usb_type c = USB_TYPE_STANDARD \<or> bRequest c = USB_REQ_SET_INTERFACE
      then (let j = lookup_interface f (ucast (wIndex c)) (ucast (wValue c)) s
            in if j < 0 then s else set_interface k f j s)
      else s)"

definition control_answer ::
  "vusb_table option \<Rightarrow> vusb_table option \<Rightarrow> usb_ctrlrequest \<Rightarrow> lookup_result" where
  "control_answer descs resps c =
     (if is_in_request c \<and> wLength c \<noteq> 0 then lookup_control_response descs resps c
      else Found None (ucast (wLength c)))"

definition control_length :: "usb_ctrlrequest \<Rightarrow> u32 \<Rightarrow> nat" where
  "control_length c n =
     (if is_in_request c \<and> wLength c = 0 then USB_MAX_PACKET_SIZE else response_length n (wLength c))"

definition syz_usb_control_io ::
  "kernel \<Rightarrow> int \<Rightarrow> vusb_table option \<Rightarrow> vusb_table option \<Rightarrow> vusb \<Rightarrow> (outcome \<times> vusb) option" where
  "syz_usb_control_io k f descs resps s =
     (let (r, s) = syscall k (Raw_Event_Fetch f USB_MAX_PACKET_SIZE) s; c = event_ctrl r in
      if rv r < 0 then Some (Ret (rv r), s)
      else if event_type r \<noteq> USB_RAW_EVENT_CONTROL then Some (Ret (- 1), s)
      else let respond = (is_in_request c \<and> wLength c \<noteq> 0) in
        case control_answer descs resps c of
          Found data n \<Rightarrow>
            (let s = (if respond then s else switch_interface k f c s) in
             do {
               bytes \<leftarrow> response_bytes data (control_length c n);
               let (r, s) = syscall k (if respond then Raw_Ep0_Write f bytes
                                       else Raw_Ep0_Read f (length bytes)) s;
               Some (if rv r < 0 then (Ret (rv r), s)
                     else (Ret 0, snd (syscall k (Sleep_Ms 200) s)))
             })
        | _ \<Rightarrow> Some (Ret (- 1), s))"

section \<open>Endpoints\<close>

text \<open>
  The buffer of these calls is on the stack and not cleared: what it held is an argument. After a
  fault while reading the program's data it holds an unknown mix, here its old contents; a fault
  while writing to the program's memory leaves that unknown (\<open>None\<close>).
\<close>

definition syz_usb_ep_write ::
  "kernel \<Rightarrow> u8 list \<Rightarrow> int \<Rightarrow> u16 \<Rightarrow> u32 \<Rightarrow> u8 list \<Rightarrow> vusb \<Rightarrow> int \<times> vusb" where
  "syz_usb_ep_write k stack f e len data s =
     (let n = min (unat len) USB_MAX_PACKET_SIZE;
          bytes = (case bytes_at data 0 n of Some b \<Rightarrow> b | None \<Rightarrow> take n stack);
          (r, s) = syscall k (Raw_Ep_Write f e bytes) s
      in if rv r < 0 then (rv r, s) else (0, snd (syscall k (Sleep_Ms 200) s)))"

definition syz_usb_ep_read ::
  "kernel \<Rightarrow> u8 list \<Rightarrow> int \<Rightarrow> u16 \<Rightarrow> u32 \<Rightarrow> u8 list \<Rightarrow> vusb \<Rightarrow> int \<times> u8 list option \<times> vusb" where
  "syz_usb_ep_read k stack f e len data s =
     (let n = min (unat len) USB_MAX_PACKET_SIZE;
          (r, s) = syscall k (Raw_Ep_Read f e n) s
      in if rv r < 0 then (rv r, Some data, s)
         else let got = take n (read_data r);
                  buf = got @ drop (length got) stack
              in (0, memcpy data 0 buf 0 n, snd (syscall k (Sleep_Ms 200) s)))"

definition syz_usb_disconnect :: "kernel \<Rightarrow> int \<Rightarrow> vusb \<Rightarrow> int \<times> vusb" where
  "syz_usb_disconnect k f s =
     (let (r, s) = syscall k (Raw_Close f) s in (rv r, snd (syscall k (Sleep_Ms 200) s)))"

section \<open>What the host is sent\<close>

text \<open>
  The contract of answering: a write to endpoint 0 follows the fetch of a control request at
  once, and carries no more than that request asked for nor than the buffer holds.
\<close>

definition answers :: "kernel \<Rightarrow> raw_call list \<Rightarrow> raw_call \<Rightarrow> bool" where
  "answers k cs c \<longleftrightarrow> (\<forall>f b. c = Raw_Ep0_Write f b \<longrightarrow>
     cs \<noteq> [] \<and> (\<exists>n. last cs = Raw_Event_Fetch f n) \<and> length b \<le> USB_MAX_PACKET_SIZE
     \<and> length b \<le> unat (wLength (event_ctrl (k (butlast cs) (last cs)))))"

definition answers_fit :: "kernel \<Rightarrow> raw_call list \<Rightarrow> bool" where
  "answers_fit k cs \<longleftrightarrow> (\<forall>j < length cs. answers k (take j cs) (cs ! j))"

lemma answers_fit_Nil [simp]: "answers_fit k []"
  by (simp add: answers_fit_def)

lemma answers_fit_snoc [simp]: "answers_fit k (cs @ [c]) \<longleftrightarrow> answers_fit k cs \<and> answers k cs c"
  by (auto simp: answers_fit_def nth_append less_Suc_eq)

lemma answers_other [simp]:
  "answers k cs Raw_Open" "answers k cs (Raw_Close f)" "answers k cs (Raw_Init f a b c)"
  "answers k cs (Raw_Run f)" "answers k cs (Raw_Event_Fetch f n)" "answers k cs (Raw_Ep0_Read f n)"
  "answers k cs (Raw_Ep_Enable f e)" "answers k cs (Raw_Ep_Disable f n)" "answers k cs (Raw_Configure f)"
  "answers k cs (Raw_Vbus_Draw f p)" "answers k cs (Sleep_Ms n)"
  by (simp_all add: answers_def)

lemma answers_fit_map:
  assumes "answers_fit k cs" and "\<And>x cs. answers k cs (g x)"
  shows "answers_fit k (cs @ map g xs)"
proof (induction xs rule: rev_induct)
  case Nil
  then show ?case by (simp add: assms(1))
next
  case (snoc x xs)
  have "cs @ map g (xs @ [x]) = (cs @ map g xs) @ [g x]" by simp
  then show ?case using snoc assms(2) by (metis answers_fit_snoc)
qed

lemma answers_fit_maps:
  assumes "answers_fit k cs" and "\<And>x cs. answers k cs (g x)" and "\<And>x cs. answers k cs (h x)"
  shows "answers_fit k (cs @ map g xs @ map h ys)"
  using answers_fit_map [OF answers_fit_map [OF assms(1,2)] assms(3)] by (simp only: append_assoc)

lemma syscall_answers:
  "answers_fit k (calls s) \<Longrightarrow> answers k (calls s) c \<Longrightarrow> answers_fit k (calls (snd (syscall k c s)))"
  by simp

lemma set_interface_answers:
  "answers_fit k (calls s) \<Longrightarrow> answers_fit k (calls (set_interface k f n s))"
  by (auto simp: set_interface_def Let_def upd_device_def intro!: answers_fit_map answers_fit_maps
      split: option.split)

lemma configure_device_answers:
  assumes "answers_fit k (calls s)"
  shows "answers_fit k (calls (snd (configure_device k f s)))"
proof -
  let ?s1 = "\<lambda>p. snd (syscall k (Raw_Vbus_Draw f p) s)"
  have s1: "answers_fit k (calls (?s1 p))" for p by (rule syscall_answers [OF assms]) simp
  have s2: "answers_fit k (calls (snd (syscall k (Raw_Configure f) (?s1 p))))" for p
    by (rule syscall_answers [OF s1]) simp
  show ?thesis
    using assms s1 s2 set_interface_answers [OF s2]
    by (simp add: configure_device_def Let_def split_def split: option.split del: syscall_simps(1))
qed

lemma response_length_le: "response_length n len \<le> USB_MAX_PACKET_SIZE" "response_length n len \<le> unat len"
  by (auto simp: response_length_def Let_def)

lemma response_bytes_length: "response_bytes data n = Some b \<Longrightarrow> length b = n"
  by (auto simp: response_bytes_def bytes_at_def split: option.splits if_splits)

lemma connect_respond_answers:
  assumes "connect_respond k f c data n s = Some (res, s')" and "answers_fit k (calls s)"
    and "calls s = cs @ [Raw_Event_Fetch f m]" and "c = event_ctrl (k cs (Raw_Event_Fetch f m))"
  shows "answers_fit k (calls s')"
proof (cases "is_in_request c")
  case True
  then obtain b where b: "response_bytes data (response_length n (wLength c)) = Some b"
    and s': "s' = snd (syscall k (Raw_Ep0_Write f b) s)"
    using assms(1) by (auto simp: connect_respond_def Let_def split_def bind_eq_Some_conv)
  have "answers k (calls s) (Raw_Ep0_Write f b)"
    using response_bytes_length [OF b] response_length_le [of n "wLength c"] assms(3,4)
    by (simp add: answers_def)
  then show ?thesis using assms(2) by (simp add: s')
next
  case False
  let ?s1 = "snd (configure_device k f s)"
  note c = configure_device_answers [OF assms(2), of f]
  from False have "s' = ?s1 \<or> (\<exists>l. s' = snd (syscall k (Raw_Ep0_Read f l) ?s1))"
    using assms(1) by (auto simp: connect_respond_def Let_def split_def bind_eq_Some_conv split: if_splits)
  then show ?thesis using c syscall_answers [OF c] by auto
qed

lemma connect_round_answers:
  assumes "connect_round k analyze f descs s = Some (res, s')" and "answers_fit k (calls s)"
  shows "answers_fit k (calls s')"
proof -
  let ?s1 = "snd (syscall k (Raw_Event_Fetch f 8) s)"
  let ?c = "event_ctrl (k (calls s) (Raw_Event_Fetch f 8))"
  have fit: "answers_fit k (calls ?s1)" using assms(2) by simp
  have "s' = ?s1 \<or> (\<exists>data n. connect_respond k f ?c data n ?s1 = Some (res, s'))"
    using assms(1)
    by (simp add: connect_round_def Let_def split_def bind_eq_Some_conv split: if_splits)
      (fastforce split: lookup_result.splits)
  then show ?thesis
    using fit connect_respond_answers [OF _ fit, of f ?c _ _ res s' "calls s" 8] by auto
qed

lemma connect_loop_induct:
  assumes "connect_loop k analyze f descs s = Some (out, s')" and "P s"
    and "\<And>s res s'. connect_round k analyze f descs s = Some (res, s') \<Longrightarrow> P s \<Longrightarrow> P s'"
    and "\<And>s s'. connect_round k analyze f descs s = Some (Some out, s') \<Longrightarrow> P s \<Longrightarrow> Q s'"
  shows "Q s'"
proof -
  have "k0 = k \<longrightarrow> analyze0 = analyze \<longrightarrow> f0 = f \<longrightarrow> descs0 = descs \<longrightarrow> P s \<longrightarrow> fst res = out \<longrightarrow> Q (snd res)"
    if "connect_loop k0 analyze0 f0 descs0 s = Some res" for k0 analyze0 f0 descs0 res
  proof (rule connect_loop.raw_induct [where P = "\<lambda>k0 analyze0 f0 descs0 s res.
      k0 = k \<longrightarrow> analyze0 = analyze \<longrightarrow> f0 = f \<longrightarrow> descs0 = descs \<longrightarrow> P s \<longrightarrow> fst res = out \<longrightarrow> Q (snd res)", OF _ that])
    fix loop k0 analyze0 f0 descs0 s res
    assume IH: "\<And>k0 analyze0 f0 descs0 s res. loop k0 analyze0 f0 descs0 s = Some res \<Longrightarrow>
        k0 = k \<longrightarrow> analyze0 = analyze \<longrightarrow> f0 = f \<longrightarrow> descs0 = descs \<longrightarrow> P s \<longrightarrow> fst res = out \<longrightarrow> Q (snd res)"
      and eq: "connect_round k0 analyze0 f0 descs0 s \<bind> (\<lambda>(r, s). case r of
          None \<Rightarrow> loop k0 analyze0 f0 descs0 s | Some out \<Rightarrow> Some (out, s)) = Some res"
    obtain r s1 where r: "connect_round k0 analyze0 f0 descs0 s = Some (r, s1)"
      and rest: "(case r of None \<Rightarrow> loop k0 analyze0 f0 descs0 s1 | Some out \<Rightarrow> Some (out, s1)) = Some res"
      using eq by (auto simp: bind_eq_Some_conv)
    show "k0 = k \<longrightarrow> analyze0 = analyze \<longrightarrow> f0 = f \<longrightarrow> descs0 = descs \<longrightarrow> P s \<longrightarrow> fst res = out \<longrightarrow> Q (snd res)"
      using r rest IH [of k0 analyze0 f0 descs0 s1 res] assms(3) [of s r s1] assms(4) [of s s1]
      by (cases r) auto
  qed
  from this [OF assms(1)] assms(2) show ?thesis by simp
qed

lemma connect_loop_answers:
  "connect_loop k analyze f descs s = Some (out, s') \<Longrightarrow> answers_fit k (calls s) \<Longrightarrow> answers_fit k (calls s')"
  by (rule connect_loop_induct [where P = "\<lambda>s. answers_fit k (calls s)"
        and Q = "\<lambda>s. answers_fit k (calls s)"]) (auto dest: connect_round_answers)

lemma add_usb_index_calls [simp]: "calls (snd (add_usb_index f dv n s)) = calls s"
  by (simp add: add_usb_index_def Let_def split_def upd_device_def)

lemma connect_answers_fit:
  assumes "answers_fit k (calls s)"
    and conn: "syz_usb_connect k analyze procid max_fds spd dev_len dv descs s = Some (out, s')"
  shows "answers_fit k (calls s')"
proof -
  let ?f = "rv (k (calls s) Raw_Open)"
  let ?s1 = "snd (syscall k Raw_Open s)"
  have s1: "answers_fit k (calls ?s1)" using assms(1) by simp
  show ?thesis
  proof (cases "dv = None \<or> ?f < 0 \<or> ?f \<ge> max_fds")
    case True
    then have "s' = s \<or> s' = ?s1 \<or> s' = snd (syscall k (Raw_Close ?f) ?s1)"
      using conn by (auto simp: syz_usb_connect_def Let_def split_def split: option.splits if_splits)
    moreover have "answers_fit k (calls (snd (syscall k (Raw_Close ?f) ?s1)))"
      by (rule syscall_answers [OF s1]) simp
    ultimately show ?thesis using assms(1) s1 by (auto simp del: syscall_simps(1))
  next
    case False
    then obtain mem where mem: "dv = Some mem" by auto
    let ?s2 = "snd (add_usb_index ?f mem dev_len ?s1)"
    let ?s3 = "snd (syscall k (Raw_Init ?f (ucast (ucast spd :: u32)) ''dummy_udc'' (''dummy_udc.'' @ dec_digits procid)) ?s2)"
    let ?s4 = "snd (syscall k (Raw_Run ?f) ?s3)"
    have s2: "answers_fit k (calls ?s2)" using s1 by simp
    have s3: "answers_fit k (calls ?s3)" by (rule syscall_answers [OF s2]) simp
    have s4: "answers_fit k (calls ?s4)" by (rule syscall_answers [OF s3]) simp
    from False mem conn have "s' \<in> {?s2, ?s3, ?s4}
      \<or> (\<exists>s5. connect_loop k analyze ?f descs ?s4 = Some (out, s5)
          \<and> s' \<in> {s5, snd (syscall k (Sleep_Ms 200) s5)})"
      by (auto simp: syz_usb_connect_def Let_def split_def bind_eq_Some_conv prod_eq_iff
          split: option.splits if_splits)
    then show ?thesis
      using s2 s3 s4 connect_loop_answers [OF _ s4] syscall_answers answers_other(11)
      by (metis (no_types, lifting) insert_iff singletonD)
  qed
qed

lemma control_io_answers_fit:
  assumes "answers_fit k (calls s)"
    and io: "syz_usb_control_io k f tbl resps s = Some (out, s')"
  shows "answers_fit k (calls s')"
proof -
  let ?s1 = "snd (syscall k (Raw_Event_Fetch f USB_MAX_PACKET_SIZE) s)"
  let ?c = "event_ctrl (k (calls s) (Raw_Event_Fetch f USB_MAX_PACKET_SIZE))"
  have s1: "answers_fit k (calls ?s1)" using assms(1) by simp
  have sw: "answers_fit k (calls (switch_interface k f ?c ?s1))"
    using s1 by (auto simp: switch_interface_def Let_def intro: set_interface_answers)
  show ?thesis
  proof (cases "is_in_request ?c \<and> wLength ?c \<noteq> 0")
    case True
    have w: "answers k (calls ?s1) (Raw_Ep0_Write f b)"
      if "response_bytes data (control_length ?c n) = Some b" for data n b
      using response_bytes_length [OF that] response_length_le [of n "wLength ?c"] True
      by (simp add: answers_def control_length_def)
    from True io consider "s' = ?s1" | data n b where "response_bytes data (control_length ?c n) = Some b"
        "s' \<in> {snd (syscall k (Raw_Ep0_Write f b) ?s1),
            snd (syscall k (Sleep_Ms 200) (snd (syscall k (Raw_Ep0_Write f b) ?s1)))}"
      by (fastforce simp: syz_usb_control_io_def Let_def split_def bind_eq_Some_conv
          split: if_splits lookup_result.splits)
    then show ?thesis
    proof cases
      case 1
      then show ?thesis using s1 by simp
    next
      case 2
      from w [OF 2(1)] have "answers_fit k (calls (snd (syscall k (Raw_Ep0_Write f b) ?s1)))"
        by (rule syscall_answers [OF s1])
      moreover from this have "answers_fit k (calls (snd (syscall k (Sleep_Ms 200) (snd (syscall k (Raw_Ep0_Write f b) ?s1)))))"
        by (rule syscall_answers) simp
      ultimately show ?thesis using 2(2) by (auto simp del: syscall_simps(1))
    qed
  next
    case False
    let ?s2 = "switch_interface k f ?c ?s1"
    from False io consider "s' = ?s1" | l where
        "s' \<in> {snd (syscall k (Raw_Ep0_Read f l) ?s2),
            snd (syscall k (Sleep_Ms 200) (snd (syscall k (Raw_Ep0_Read f l) ?s2)))}"
      by (fastforce simp: syz_usb_control_io_def control_answer_def Let_def split_def bind_eq_Some_conv
          split: if_splits)
    then show ?thesis
    proof cases
      case 1
      then show ?thesis using s1 by simp
    next
      case 2
      have "answers_fit k (calls (snd (syscall k (Raw_Ep0_Read f l) ?s2)))" by (rule syscall_answers [OF sw]) simp
      moreover from this have "answers_fit k (calls (snd (syscall k (Sleep_Ms 200) (snd (syscall k (Raw_Ep0_Read f l) ?s2)))))"
        by (rule syscall_answers) simp
      ultimately show ?thesis using 2 by (auto simp del: syscall_simps(1))
    qed
  qed
qed


section \<open>When connecting succeeds\<close>

text \<open>
  What was done since some calls when a device was configured: the host's control request to set a
  configuration was fetched, the device was configured with success at once, and last the request
  was acknowledged.
\<close>

definition configured_since ::
  "kernel \<Rightarrow> (usb_ctrlrequest \<Rightarrow> bool) \<Rightarrow> int \<Rightarrow> raw_call list \<Rightarrow> raw_call list \<Rightarrow> bool" where
  "configured_since k analyze f cs cs' \<longleftrightarrow> (\<exists>h draw eps l.
     let before = cs @ h; fetch = Raw_Event_Fetch f 8; r = k before fetch; c = event_ctrl r in
       cs' = before @ [fetch, Raw_Vbus_Draw f draw, Raw_Configure f] @ eps @ [Raw_Ep0_Read f l]
       \<and> 0 \<le> rv r \<and> event_type r = USB_RAW_EVENT_CONTROL \<and> analyze c
       \<and> usb_type c = USB_TYPE_STANDARD \<and> bRequest c = USB_REQ_SET_CONFIGURATION
       \<and> 0 \<le> rv (k (before @ [fetch, Raw_Vbus_Draw f draw]) (Raw_Configure f)))"

lemma set_interface_extends: "\<exists>eps. calls (set_interface k f n s) = calls s @ eps"
  by (auto simp: set_interface_def Let_def upd_device_def split: option.split)

lemma configure_device_extends: "\<exists>later. calls (snd (configure_device k f s)) = calls s @ later"
proof -
  have "\<exists>later. calls (set_interface k f 0 (snd (syscall k (Raw_Configure f) (snd (syscall k (Raw_Vbus_Draw f p) s)))))
      = calls s @ later" for p
    using set_interface_extends [of k f 0 "snd (syscall k (Raw_Configure f) (snd (syscall k (Raw_Vbus_Draw f p) s)))"] by auto
  then show ?thesis by (auto simp: configure_device_def Let_def split_def split: option.split)
qed

lemma configure_device_success:
  assumes "configure_device k f s = (rc, s')" and "0 \<le> rc"
  obtains draw eps where "calls s' = calls s @ [Raw_Vbus_Draw f draw, Raw_Configure f] @ eps"
    "0 \<le> rv (k (calls s @ [Raw_Vbus_Draw f draw]) (Raw_Configure f))"
proof -
  obtain i where i: "lookup_usb_index f s = Some i" using assms by (cases "lookup_usb_index f s") (auto simp: configure_device_def)
  let ?s2 = "snd (syscall k (Raw_Configure f) (snd (syscall k (Raw_Vbus_Draw f (idx_bMaxPower (index_at i s))) s)))"
  have "s' = set_interface k f 0 ?s2" "0 \<le> rv (k (calls s @ [Raw_Vbus_Draw f (idx_bMaxPower (index_at i s))]) (Raw_Configure f))"
    using assms i by (auto simp: configure_device_def Let_def split_def split: if_splits)
  then show thesis using set_interface_extends [of k f 0 ?s2] that by auto
qed

lemma connect_round_extends:
  assumes "connect_round k analyze f descs s = Some (res, s')"
  shows "\<exists>later. calls s' = calls s @ later"
proof -
  let ?s1 = "snd (syscall k (Raw_Event_Fetch f 8) s)"
  let ?c = "event_ctrl (k (calls s) (Raw_Event_Fetch f 8))"
  obtain later where c: "calls (snd (configure_device k f ?s1)) = calls ?s1 @ later"
    using configure_device_extends by blast
  have "s' = ?s1 \<or> (\<exists>data n. connect_respond k f ?c data n ?s1 = Some (res, s'))"
    using assms
    by (simp add: connect_round_def Let_def split_def bind_eq_Some_conv split: if_splits)
      (fastforce split: lookup_result.splits)
  then show ?thesis
    using c by (auto simp: connect_respond_def Let_def split_def bind_eq_Some_conv split: if_splits)
qed

lemma connect_round_success:
  assumes "connect_round k analyze f descs s = Some (Some (Ret v), s')" and "0 \<le> v"
    and "calls s = cs @ h"
  shows "v = f \<and> configured_since k analyze f cs (calls s')"
proof -
  let ?s1 = "snd (syscall k (Raw_Event_Fetch f 8) s)"
  let ?r = "k (calls s) (Raw_Event_Fetch f 8)"
  let ?c = "event_ctrl ?r"
  obtain data n where r: "connect_respond k f ?c data n ?s1 = Some (Some (Ret v), s')"
    and a: "analyze ?c" "connect_answer f descs ?c ?s1 = Some (Found data n)"
    and e: "0 \<le> rv ?r" "event_type ?r = USB_RAW_EVENT_CONTROL"
    using assms
    by (simp add: connect_round_def Let_def split_def bind_eq_Some_conv split: if_splits)
      (fastforce split: lookup_result.splits)
  have out: "\<not> is_in_request ?c"
    using r assms(2)
    by (auto simp: connect_respond_def Let_def split_def bind_eq_Some_conv split: if_splits)
  obtain rc s2 where cd: "configure_device k f ?s1 = (rc, s2)" by fastforce
  have rc: "0 \<le> rc"
    using r assms(2) out cd by (auto simp: connect_respond_def Let_def bind_eq_Some_conv split: if_splits)
  then have "v = f \<and> (\<exists>l. s' = snd (syscall k (Raw_Ep0_Read f l) s2))"
    using r assms(2) out cd
    by (auto simp: connect_respond_def Let_def split_def bind_eq_Some_conv split: if_splits)
  then obtain l where v: "v = f" and s': "s' = snd (syscall k (Raw_Ep0_Read f l) s2)" by blast
  obtain draw eps where c: "calls s2 = calls ?s1 @ [Raw_Vbus_Draw f draw, Raw_Configure f] @ eps"
    "0 \<le> rv (k (calls ?s1 @ [Raw_Vbus_Draw f draw]) (Raw_Configure f))"
    by (rule configure_device_success [OF cd rc])
  have req: "usb_type ?c = USB_TYPE_STANDARD" "bRequest ?c = USB_REQ_SET_CONFIGURATION"
    using a(2) out by (auto simp: connect_answer_def split: if_splits)
  have "calls s' = (cs @ h) @ [Raw_Event_Fetch f 8, Raw_Vbus_Draw f draw, Raw_Configure f] @ eps @ [Raw_Ep0_Read f l]"
    using c(1) assms(3) by (simp add: s')
  then have "configured_since k analyze f cs (calls s')"
    unfolding configured_since_def Let_def
    by (intro exI [of _ h] exI [of _ draw] exI [of _ eps] exI [of _ l])
      (use a(1) e req c(2) assms(3) in simp)
  then show ?thesis using v by blast
qed

lemma connect_loop_success:
  assumes "connect_loop k analyze f descs s = Some (Ret v, s')" and "0 \<le> v"
  shows "v = f \<and> configured_since k analyze f (calls s) (calls s')"
proof (rule connect_loop_induct [OF assms(1), where P = "\<lambda>t. \<exists>h. calls t = calls s @ h"])
  show "\<exists>h. calls s = calls s @ h" by simp
next
  fix t res t' assume "connect_round k analyze f descs t = Some (res, t')" "\<exists>h. calls t = calls s @ h"
  then show "\<exists>h. calls t' = calls s @ h" using connect_round_extends by fastforce
next
  fix t t' assume "connect_round k analyze f descs t = Some (Some (Ret v), t')" "\<exists>h. calls t = calls s @ h"
  then show "v = f \<and> configured_since k analyze f (calls s) (calls t')" using connect_round_success assms(2) by blast
qed

lemma connect_success:
  assumes "syz_usb_connect k analyze procid max_fds spd dev_len dv descs s = Some (Ret v, s')"
    and "0 \<le> v"
  shows "v = rv (k (calls s) Raw_Open) \<and> v < max_fds
    \<and> (\<exists>cs. configured_since k analyze v (calls s @ [Raw_Open, Raw_Init v (ucast (ucast spd :: u32)) ''dummy_udc''
           (''dummy_udc.'' @ dec_digits procid), Raw_Run v]) cs \<and> calls s' = cs @ [Sleep_Ms 200])"
proof -
  let ?f = "rv (k (calls s) Raw_Open)"
  let ?cs = "calls s @ [Raw_Open, Raw_Init ?f (ucast (ucast spd :: u32)) ''dummy_udc''
           (''dummy_udc.'' @ dec_digits procid), Raw_Run ?f]"
  obtain mem s5 where loop: "connect_loop k analyze ?f descs (snd (syscall k (Raw_Run ?f) (snd (syscall k
        (Raw_Init ?f (ucast (ucast spd :: u32)) ''dummy_udc'' (''dummy_udc.'' @ dec_digits procid))
        (snd (add_usb_index ?f mem dev_len (snd (syscall k Raw_Open s))))))))
      = Some (Ret v, s5)"
    and s': "s' = (if v = ?f then snd (syscall k (Sleep_Ms 200) s5) else s5)" and lt: "?f < max_fds"
    using assms
    by (auto simp: syz_usb_connect_def Let_def split_def bind_eq_Some_conv
        split: option.splits if_splits)
  have "configured_since k analyze ?f ?cs (calls s5)" "v = ?f"
    using connect_loop_success [OF loop assms(2)] by simp_all
  then show ?thesis using s' lt by simp
qed

text \<open>
  C27. Connecting a device returns a descriptor only when, after this very call had opened the
  controller and started it, the host asked to set a configuration, the device was then configured
  with success, and the request was acknowledged; nothing but the final pause comes after that. The
  descriptor is the one that was opened, within the limit of the program. A failure returns a
  negative number.
\<close>

theorem connect_returns_configured:
  assumes "syz_usb_connect k analyze procid max_fds spd dev_len dv descs s = Some (Ret v, s')"
  shows "v < 0 \<or> v = rv (k (calls s) Raw_Open) \<and> v < max_fds
    \<and> (\<exists>cs. configured_since k analyze v (calls s @ [Raw_Open, Raw_Init v (ucast (ucast spd :: u32)) ''dummy_udc''
           (''dummy_udc.'' @ dec_digits procid), Raw_Run v]) cs \<and> calls s' = cs @ [Sleep_Ms 200])"
  using connect_success [OF assms] by (cases "v < 0") auto

text \<open>
  With the debugging aid of this file connecting never succeeds: the aid, called for every
  control request, ends the program on the request that sets the configuration, because it knows
  only requests for descriptors among the standard ones.
\<close>

theorem debug_connect_never_succeeds:
  assumes "syz_usb_connect k analyze_control_request procid max_fds spd dev_len dv descs s
    = Some (Ret v, s')"
  shows "v < 0"
proof (rule ccontr)
  assume "\<not> v < 0"
  then have "0 \<le> v" by simp
  from connect_success [OF assms this] show False
    by (auto simp: configured_since_def Let_def analyze_control_request_def)
qed

section \<open>Single requests\<close>

lemma lookup_interface_syscall [simp]:
  "lookup_interface f n a (snd (syscall k c s)) = lookup_interface f n a s"
  by (simp add: lookup_interface_def split: option.split)

text \<open>
  Answering any standard request without a data stage to the host switches interfaces, not
  only the request to set one: whenever its index and value happen to name an interface and an
  alternate setting of the device, that interface becomes the current one.
\<close>

theorem standard_request_switches_interface:
  assumes "syz_usb_control_io k f tbl resps s = Some (Ret 0, s')"
    and "c = event_ctrl (k (calls s) (Raw_Event_Fetch f USB_MAX_PACKET_SIZE))"
    and "\<not> is_in_request c" and "usb_type c = USB_TYPE_STANDARD"
    and "lookup_usb_index f s = Some i" and "i < length (usb_devices s)"
    and "lookup_interface f (ucast (wIndex c)) (ucast (wValue c)) s = j" and "0 \<le> j"
    and "j < int (length (ifaces (index_at i s)))"
  shows "iface_cur (index_at i s') = j"
proof -
  let ?s1 = "snd (syscall k (Raw_Event_Fetch f USB_MAX_PACKET_SIZE) s)"
  have "lookup_interface f (ucast (wIndex c)) (ucast (wValue c)) ?s1 = j"
    using assms(7) by simp
  then have sw: "switch_interface k f c ?s1 = set_interface k f j ?s1"
    using assms(4,8) by (simp add: switch_interface_def)
  have "iface_cur (index_at i (set_interface k f j ?s1)) = j"
    using set_interface_switches [of f ?s1 i k j] assms(5,6,8,9) by (simp add: Let_def)
  moreover have "\<exists>l. s' = snd (syscall k (Sleep_Ms 200) (snd (syscall k (Raw_Ep0_Read f l)
      (switch_interface k f c ?s1))))"
    using assms(1-3)
    by (auto simp: syz_usb_control_io_def control_answer_def Let_def split_def bind_eq_Some_conv
        split: if_splits)
  ultimately show ?thesis using sw by auto
qed

text \<open>
  Reading an endpoint hands the program all the bytes it asked for, also when the kernel
  returned fewer: the rest is what the stack of the executor held.
\<close>

theorem ep_read_copies_stack:
  assumes "n = min (unat len) USB_MAX_PACKET_SIZE" and "r = k (calls s) (Raw_Ep_Read f e n)"
    and "0 \<le> rv r" and "length stack = USB_MAX_PACKET_SIZE" and "n \<le> length data"
  shows "\<exists>s'. syz_usb_ep_read k stack f e len data s
    = (0, Some (take n (read_data r) @ take (n - length (read_data r)) (drop (length (read_data r)) stack)
         @ drop n data), s')"
proof -
  let ?m = "length (read_data r)" and ?s1 = "snd (syscall k (Raw_Ep_Read f e n) s)"
  let ?got = "take n (read_data r)"
  let ?buf = "?got @ drop (length ?got) stack"
  have len: "n \<le> length stack" using assms(1,4) by simp
  have buf: "take n ?buf = ?got @ take (n - ?m) (drop ?m stack)"
    by (cases "n \<le> ?m") simp_all
  have fits: "n \<le> length data \<and> n \<le> length ?buf" using assms(5) len by simp
  have copy: "memcpy data 0 ?buf 0 n = Some (?got @ take (n - ?m) (drop ?m stack) @ drop n data)"
    unfolding memcpy_def add_0 if_P [OF fits] drop_0 take_0 append_Nil buf append_assoc by (rule refl)
  have r: "fst (syscall k (Raw_Ep_Read f e n) s) = r" using assms(2) by simp
  have "\<not> rv r < 0" using assms(3) by simp
  then have "syz_usb_ep_read k stack f e len data s
    = (0, memcpy data 0 ?buf 0 n, snd (syscall k (Sleep_Ms 200) ?s1))"
    unfolding syz_usb_ep_read_def Let_def split_def assms(1) [symmetric] r by simp
  then show ?thesis unfolding copy by blast
qed

section \<open>Witnesses\<close>

text \<open>
  A host that asks for the device descriptor and then sets the configuration, and a kernel where
  every call succeeds.
\<close>

definition ctrl_reply :: "int \<Rightarrow> usb_ctrlrequest \<Rightarrow> reply" where
  "ctrl_reply n c = \<lparr>rv = n, event_type = USB_RAW_EVENT_CONTROL, event_ctrl = c, read_data = [7]\<rparr>"

definition get_device :: usb_ctrlrequest where
  "get_device = \<lparr>bRequestType = 0x80, bRequest = 6, wValue = 0x0100, wIndex = 0, wLength = 64\<rparr>"

definition set_config :: usb_ctrlrequest where
  "set_config = \<lparr>bRequestType = 0, bRequest = 9, wValue = 1, wIndex = 0, wLength = 0\<rparr>"

definition host_kernel :: kernel where
  "host_kernel h c =
     (case c of
        Raw_Open \<Rightarrow> ctrl_reply 5 set_config
      | Raw_Event_Fetch f n \<Rightarrow>
          ctrl_reply 0 (if Raw_Event_Fetch f n \<in> set h then set_config else get_device)
      | _ \<Rightarrow> ctrl_reply 0 set_config)"

abbreviation (input) demo_descriptors :: "u8 list" where
  "demo_descriptors \<equiv> demo_device @ demo_config @ write_interface (demo_interface 0) @ [0, 0]"

declare connect_loop.simps [code]

definition host_run :: "(usb_ctrlrequest \<Rightarrow> bool) \<Rightarrow> (outcome \<times> vusb) option" where
  "host_run analyze = syz_usb_connect host_kernel analyze 0 16 3 43 (Some demo_descriptors) None vusb_start"

lemma host_runs:
  "map_option fst (host_run (\<lambda>_. True)) = Some (Ret 5)"
  "map_option fst (host_run (\<lambda>c. is_in_request c)) = Some Exited"
  by code_simp+

lemma answers_fit_start [simp]: "answers_fit k (calls vusb_start)"
  by (simp add: vusb_start_def)

theorem connect_returns_configured_witness:
  "\<exists>s cs. host_run (\<lambda>_. True) = Some (Ret 5, s) \<and> calls s = cs @ [Sleep_Ms 200]
     \<and> configured_since host_kernel (\<lambda>_. True) 5 [Raw_Open, Raw_Init 5 3 ''dummy_udc'' ''dummy_udc.0'', Raw_Run 5] cs"
proof -
  obtain s where run: "host_run (\<lambda>_. True) = Some (Ret 5, s)"
    using host_runs(1) by auto
  have "calls vusb_start = []" by (simp add: vusb_start_def)
  moreover have "''dummy_udc.'' @ dec_digits 0 = ''dummy_udc.0''" by code_simp
  ultimately show ?thesis
    using connect_returns_configured [OF run [unfolded host_run_def]] run by auto
qed

text \<open>A kernel whose opening fails, so that the pseudo-call returns at once.\<close>

definition closed_kernel :: kernel where
  "closed_kernel h c = ctrl_reply (- 2) set_config"

theorem debug_connect_never_succeeds_witness:
  "\<exists>v s. syz_usb_connect closed_kernel analyze_control_request 0 16 3 43 (Some demo_descriptors) None
      vusb_start = Some (Ret v, s) \<and> v < 0"
proof -
  have "map_option fst (syz_usb_connect closed_kernel analyze_control_request 0 16 3 43
      (Some demo_descriptors) None vusb_start) = Some (Ret (- 2))"
    by code_simp
  then obtain s where run: "syz_usb_connect closed_kernel analyze_control_request 0 16 3 43
      (Some demo_descriptors) None vusb_start = Some (Ret (- 2), s)"
    by auto
  from debug_connect_never_succeeds [OF run] run show ?thesis by blast
qed

text \<open>The feature of the device is cleared (request 1), not an interface set (request 11).\<close>

definition clear_kernel :: kernel where
  "clear_kernel h c = ctrl_reply 0
     \<lparr>bRequestType = 0, bRequest = 1, wValue = 0, wIndex = 0, wLength = 0\<rparr>"

theorem standard_request_switches_interface_witness:
  "\<exists>s. syz_usb_control_io clear_kernel 5 None None one_device = Some (Ret 0, s)
    \<and> iface_cur (index_at 0 one_device) = - 1 \<and> iface_cur (index_at 0 s) = 0"
proof -
  let ?c = "event_ctrl (clear_kernel (calls one_device) (Raw_Event_Fetch 5 USB_MAX_PACKET_SIZE))"
  have "map_option fst (syz_usb_control_io clear_kernel 5 None None one_device) = Some (Ret 0)"
    by code_simp
  then obtain s where run: "syz_usb_control_io clear_kernel 5 None None one_device = Some (Ret 0, s)"
    by auto
  have c: "\<not> is_in_request ?c" "usb_type ?c = USB_TYPE_STANDARD"
    "lookup_interface 5 (ucast (wIndex ?c)) (ucast (wValue ?c)) one_device = 0"
    by code_simp+
  have "iface_cur (index_at 0 s) = 0"
    using standard_request_switches_interface [OF run refl c(1,2) one_device_simps(1) _ c(3)]
      one_device_simps(2,4)
    by simp
  with run one_device_simps(3) show ?thesis by blast
qed

theorem ep_read_copies_stack_witness:
  "\<exists>s. syz_usb_ep_read clear_kernel (replicate 1024 3) 5 1 4 [0, 0, 0, 0] vusb_start
    = (0, Some [7, 3, 3, 3], s)"
proof -
  let ?r = "clear_kernel (calls vusb_start) (Raw_Ep_Read 5 1 4)"
  have r: "read_data ?r = [7]" "0 \<le> rv ?r"
    by (simp_all add: clear_kernel_def ctrl_reply_def)
  have "\<exists>s. syz_usb_ep_read clear_kernel (replicate 1024 3) 5 1 4 [0, 0, 0, 0] vusb_start
    = (0, Some (take 4 (read_data ?r) @ take (4 - length (read_data ?r))
        (drop (length (read_data ?r)) (replicate 1024 3)) @ drop 4 [0, 0, 0, 0]), s)"
    by (rule ep_read_copies_stack [where r = ?r and n = 4]) (use r in simp_all)
  then show ?thesis by (simp add: r numeral_3_eq_3)
qed

end
