(* ===== verification/Vusb_Session.thy ===== *)
theory Vusb_Session
  imports Vusb_Connect
begin

text \<open>
  The executor as one component: a program is a sequence of pseudo-calls on its table of devices,
  and what every call keeps holds after every program.
\<close>

section \<open>Programs\<close>

datatype vusb_op =
    Connect "64 word" nat "u8 list option" "connect_descriptors option"
  | Control_Io int "vusb_table option" "vusb_table option"
  | Ep_Write int u16 u32 "u8 list"
  | Ep_Read int u16 u32 "u8 list"
  | Disconnect int

text \<open>
  What the executor brings along: the kernel it runs on, the debugging aid, the number of the
  process, the limit of descriptors, and what the stack holds.
\<close>

record setting =
  on_kernel :: kernel
  debug_aid :: "usb_ctrlrequest \<Rightarrow> bool"
  procid :: nat
  max_fds :: int
  stack :: "u8 list"

definition returned :: "(outcome \<times> vusb) option \<Rightarrow> vusb option" where
  "returned r = (case r of Some (Ret v, s) \<Rightarrow> Some s | _ \<Rightarrow> None)"

fun vusb_step :: "setting \<Rightarrow> vusb_op \<Rightarrow> vusb \<Rightarrow> vusb option" where
  "vusb_step e (Connect spd n dv ds) s =
     returned (syz_usb_connect (on_kernel e) (debug_aid e) (procid e) (max_fds e) spd n dv ds s)"
| "vusb_step e (Control_Io f ds rs) s = returned (syz_usb_control_io (on_kernel e) f ds rs s)"
| "vusb_step e (Ep_Write f ep n d) s = Some (snd (syz_usb_ep_write (on_kernel e) (stack e) f ep n d s))"
| "vusb_step e (Ep_Read f ep n d) s = Some (snd (snd (syz_usb_ep_read (on_kernel e) (stack e) f ep n d s)))"
| "vusb_step e (Disconnect f) s = Some (snd (syz_usb_disconnect (on_kernel e) f s))"

section \<open>What every call keeps\<close>

text \<open>
  The table has its size, its free entries are those of the start, and no index in it is filled
  beyond its arrays.
\<close>

definition devices_ok :: "vusb \<Rightarrow> bool" where
  "devices_ok s \<longleftrightarrow> table_ok s \<and> (\<forall>u \<in> set (usb_devices s). index_ok (index u))"

lemma devices_ok_calls [simp]: "devices_ok (s\<lparr>calls := cs\<rparr>) = devices_ok s"
  by (simp add: devices_ok_def table_ok_def)

lemma devices_ok_syscall [simp]: "devices_ok (snd (syscall k c s)) = devices_ok s"
  by (simp add: syscall_def)

lemma upd_device_ok:
  assumes "devices_ok s" and "i < usb_devices_num s" and "index_ok (index (f (usb_devices s ! i)))"
  shows "devices_ok (upd_device i f s)"
  using assms by (auto simp: devices_ok_def table_ok_def upd_device_def nth_list_update dest!: set_update_subset_insert [THEN subsetD])

lemma add_usb_index_ok:
  assumes "devices_ok s"
  shows "devices_ok (snd (add_usb_index f dv n s))"
proof (cases "usb_devices_num s < MAX_USB_FDS")
  case False
  then show ?thesis using assms by (auto simp: add_usb_index_def Let_def devices_ok_def table_ok_def)
next
  case True
  let ?i = "usb_devices_num s" and ?s = "s\<lparr>usb_devices_num := usb_devices_num s + 1\<rparr>"
  obtain r idx where p: "parse_usb_descriptor dv n (index (usb_devices s ! ?i)) = (r, idx)" by fastforce
  have ok: "devices_ok ?s" using assms by (auto simp: devices_ok_def table_ok_def)
  have "index_ok (index (usb_devices s ! ?i))" using assms True by (auto simp: devices_ok_def table_ok_def)
  then have idx: "index_ok idx" using parse_usb_descriptor_ok [OF p] by simp
  have 1: "devices_ok (upd_device ?i (\<lambda>u. u\<lparr>index := idx\<rparr>) ?s)"
    by (rule upd_device_ok [OF ok]) (simp_all add: idx)
  then have "index_ok (index (usb_devices (upd_device ?i (\<lambda>u. u\<lparr>index := idx\<rparr>) ?s) ! ?i))"
    using True by (auto simp: devices_ok_def table_ok_def)
  then have "devices_ok (upd_device ?i (\<lambda>u. u\<lparr>fd := f\<rparr>) (upd_device ?i (\<lambda>u. u\<lparr>index := idx\<rparr>) ?s))"
    by (intro upd_device_ok [OF 1]) (simp_all add: upd_device_def)
  with 1 ok True show ?thesis by (simp add: add_usb_index_def Let_def p)
qed

lemma set_interface_ok:
  assumes "devices_ok s"
  shows "devices_ok (set_interface k f n s)"
proof (cases "lookup_usb_index f s")
  case None
  then show ?thesis using assms by (simp add: set_interface_def)
next
  case (Some i)
  have "i < length (usb_devices s)"
    using lookup_usb_index_Some [OF Some] assms by (simp add: devices_ok_def table_ok_def)
  then have i: "index_ok (index_at i s)" using assms by (auto simp: devices_ok_def index_at_def)
  have fd: "fd (usb_devices (upd_device i (\<lambda>u. u\<lparr>index := x\<rparr>) t) ! j) = fd (usb_devices t ! j)" for x t j
    by (cases "i < length (usb_devices t)") (auto simp: upd_device_def nth_list_update list_update_beyond)
  have upd: "devices_ok (upd_device i (\<lambda>u. u\<lparr>index := x\<rparr>) t)" if "devices_ok t" "index_ok x" for x t
    using that fd [of x t] by (auto simp: devices_ok_def table_ok_def) (auto simp: upd_device_def
        dest!: set_update_subset_insert [THEN subsetD])
  have "index_ok (index_at i s\<lparr>iface_cur := n\<rparr>)" using i by (simp add: index_ok_def)
  then show ?thesis using assms upd by (auto simp: set_interface_def Some Let_def)
qed

lemma configure_device_ok: "devices_ok s \<Longrightarrow> devices_ok (snd (configure_device k f s))"
  by (auto simp: configure_device_def Let_def split_def intro!: set_interface_ok split: option.split)

lemma connect_respond_ok:
  "connect_respond k f c data n s = Some (res, s') \<Longrightarrow> devices_ok s \<Longrightarrow> devices_ok s'"
  using configure_device_ok [of s k f]
  by (auto simp: connect_respond_def Let_def split_def bind_eq_Some_conv split: if_splits)

lemma connect_round_ok:
  assumes "connect_round k analyze f descs s = Some (res, s')" and "devices_ok s"
  shows "devices_ok s'"
proof -
  let ?s1 = "snd (syscall k (Raw_Event_Fetch f 8) s)"
  let ?c = "event_ctrl (k (calls s) (Raw_Event_Fetch f 8))"
  have "s' = ?s1 \<or> (\<exists>data n. connect_respond k f ?c data n ?s1 = Some (res, s'))"
    using assms(1)
    by (simp add: connect_round_def Let_def split_def bind_eq_Some_conv split: if_splits)
      (fastforce split: lookup_result.splits)
  then show ?thesis using connect_respond_ok [of k f ?c _ _ ?s1] assms(2) by auto
qed

lemma connect_loop_ok:
  "connect_loop k analyze f descs s = Some (out, s') \<Longrightarrow> devices_ok s \<Longrightarrow> devices_ok s'"
  by (rule connect_loop_induct [where P = devices_ok and Q = devices_ok]) (auto dest: connect_round_ok)

lemma syz_usb_connect_ok:
  assumes "syz_usb_connect k analyze pid lim spd n dv descs s = Some (out, s')" and "devices_ok s"
  shows "devices_ok s'"
  using assms add_usb_index_ok [of "snd (syscall k Raw_Open s)" "rv (k (calls s) Raw_Open)" _ n]
  by (auto simp: syz_usb_connect_def Let_def split_def bind_eq_Some_conv dest!: connect_loop_ok
      split: option.splits if_splits)

lemma syz_usb_control_io_ok:
  assumes "syz_usb_control_io k f tbl resps s = Some (out, s')" and "devices_ok s"
  shows "devices_ok s'"
proof -
  have sw: "devices_ok (switch_interface k f c t)" if "devices_ok t" for c t
    using that set_interface_ok by (auto simp: switch_interface_def Let_def)
  show ?thesis
    using assms sw [of "snd (syscall k (Raw_Event_Fetch f USB_MAX_PACKET_SIZE) s)"]
    by (auto simp: syz_usb_control_io_def Let_def split_def bind_eq_Some_conv
        split: lookup_result.splits if_splits)
qed


section \<open>The executor as a component\<close>

definition executor_ok :: "setting \<Rightarrow> vusb \<Rightarrow> bool" where
  "executor_ok e s \<longleftrightarrow> devices_ok s \<and> answers_fit (on_kernel e) (calls s)"

lemma answers_ep [simp]: "answers k cs (Raw_Ep_Write f p b)" "answers k cs (Raw_Ep_Read f p n)"
  by (simp_all add: answers_def)

lemma answers_fit_snoc2 [simp]:
  "answers_fit k (cs @ [c, d]) \<longleftrightarrow> answers_fit k cs \<and> answers k cs c \<and> answers k (cs @ [c]) d"
  using answers_fit_snoc [of k "cs @ [c]" d] by simp

lemma vusb_step_ok:
  assumes "executor_ok e s" and "vusb_step e op s = Some s'"
  shows "executor_ok e s'"
proof -
  have d: "devices_ok s" and a: "answers_fit (on_kernel e) (calls s)"
    using assms(1) by (simp_all add: executor_ok_def)
  show ?thesis
  proof (cases op)
    case (Connect spd n dv ds)
    then obtain v where r: "syz_usb_connect (on_kernel e) (debug_aid e) (procid e) (max_fds e) spd n dv ds s
        = Some (Ret v, s')"
      using assms(2) by (auto simp: returned_def split: option.splits outcome.splits prod.splits)
    show ?thesis
      using syz_usb_connect_ok [OF r d] connect_answers_fit [OF a r] by (simp add: executor_ok_def)
  next
    case (Control_Io f ds rs)
    then obtain v where r: "syz_usb_control_io (on_kernel e) f ds rs s = Some (Ret v, s')"
      using assms(2) by (auto simp: returned_def split: option.splits outcome.splits prod.splits)
    show ?thesis
      using syz_usb_control_io_ok [OF r d] control_io_answers_fit [OF a r] by (simp add: executor_ok_def)
  next
    case (Ep_Write f ep n b)
    then show ?thesis
      using assms(2) d a
      by (auto simp: syz_usb_ep_write_def Let_def split_def executor_ok_def)
  next
    case (Ep_Read f ep n b)
    then show ?thesis
      using assms(2) d a
      by (auto simp: syz_usb_ep_read_def Let_def split_def executor_ok_def)
  next
    case (Disconnect f)
    then show ?thesis
      using assms(2) d a
      by (auto simp: syz_usb_disconnect_def Let_def split_def executor_ok_def)
  qed
qed

interpretation executor: component "vusb_step e" "executor_ok e" for e
  by unfold_locales (rule vusb_step_ok)

lemma executor_ok_start: "executor_ok e vusb_start"
  by (auto simp: executor_ok_def devices_ok_def vusb_start_def table_ok_def index_ok_def zero_index_def)

text \<open>
  C7. After every program of pseudo-calls the table of devices is well formed, no index in it is
  filled beyond its arrays, and everything the emulated devices sent on endpoint 0 was the answer
  to the request fetched just before, no longer than that request asked for nor than the buffer of
  1024 bytes, whatever the descriptors and responses of the program claim to be.
\<close>

theorem executor_invariant:
  assumes "run_ops (vusb_step e) ops vusb_start = Some s"
  shows "table_ok s \<and> (\<forall>u \<in> set (usb_devices s). index_ok (index u))
    \<and> answers_fit (on_kernel e) (calls s)"
  using executor.run_inv [OF executor_ok_start assms] by (simp add: executor_ok_def devices_ok_def)

text \<open>The host of the examples: connecting, answering a request, reading and disconnecting.\<close>

definition demo_setting :: setting where
  "demo_setting = \<lparr>on_kernel = host_kernel, debug_aid = (\<lambda>_. True), procid = 0, max_fds = 16,
     stack = replicate 1024 0\<rparr>"

definition demo_program :: "vusb_op list" where
  "demo_program = [Connect 3 43 (Some demo_descriptors) None, Control_Io 5 None None, Ep_Write 5 1 2 [1, 2],
     Disconnect 5]"

theorem executor_invariant_witness:
  "\<exists>s. run_ops (vusb_step demo_setting) demo_program vusb_start = Some s
    \<and> answers_fit host_kernel (calls s) \<and> length (calls s) = 16"
proof -
  have "map_option (\<lambda>s. length (calls s)) (run_ops (vusb_step demo_setting) demo_program vusb_start) = Some 16"
    by code_simp
  then obtain s where s: "run_ops (vusb_step demo_setting) demo_program vusb_start = Some s"
    "length (calls s) = 16"
    by auto
  from executor_invariant [OF s(1)] s show ?thesis by (simp add: demo_setting_def)
qed

end
