(* ===== verification/Vusb_Configfs.thy ===== *)
theory Vusb_Configfs
  imports Prelude "HOL-Library.Sublist"
begin

unbundle bit_operations_syntax

text \<open>
  The pseudo-calls of the fuzzer that build and take down gadgets through the configuration file
  system (common\_usb.h, lines 31 to 46 and 419 to 955). Their names give the states of a gadget
  they lead from and to: 0 nothing, 1 the gadget, 2 with a configuration, 3 with a function, 4
  with the function linked to the configuration, 5 bound to a controller.
\<close>

section \<open>Calls to the kernel\<close>

text \<open>
  The calls with their paths, and the kernel as a parameter: what it answers may depend on all
  calls before. The state of the executor is that trace. The answer to \<open>stat\<close> says whether the
  mode is a directory's; after a failure the mode is what the stack held, an argument.
\<close>

datatype fs_call =
    Chdir string
  | Stat string
  | Mkdir string
  | Rmdir string
  | Remove string
  | Open_Rdwr string
  | Open_Here
  | Write_Fd int "u8 list"
  | Close_Fd int
  | Symlinkat string int string
  | Sleep_S nat

record fs_reply =
  ret :: int
  is_dir :: bool

type_synonym fs = "fs_call list \<Rightarrow> fs_call \<Rightarrow> fs_reply"

definition sys :: "fs \<Rightarrow> fs_call \<Rightarrow> fs_call list \<Rightarrow> int \<times> fs_call list" where
  "sys k c h = (ret (k h c), h @ [c])"

definition stat_dir :: "fs \<Rightarrow> bool \<Rightarrow> string \<Rightarrow> fs_call list \<Rightarrow> bool \<times> fs_call list" where
  "stat_dir k stack p h =
     (let r = k h (Stat p) in (if ret r < 0 then stack else is_dir r, h @ [Stat p]))"

section \<open>Attributes\<close>

record configfs_attr =
  bcdUSB :: u16
  bDeviceClass :: u8
  idVendor :: u16
  idProduct :: u16
  bcdDevice :: u16

text \<open>The text of a number as \<open>%x\<close> prints it, and printing to a buffer, too long a text being undefined.\<close>

definition hex_digit :: "nat \<Rightarrow> char" where
  "hex_digit d = char_of (if d < 10 then 48 + d else 87 + d)"

fun hex_digits :: "nat \<Rightarrow> string" where
  "hex_digits n = (if n < 16 then [hex_digit n] else hex_digits (n div 16) @ [hex_digit (n mod 16)])"

declare hex_digits.simps [simp del]

definition print_to :: "nat \<Rightarrow> string \<Rightarrow> string option" where
  "print_to cap t = (if length t < cap then Some t else None)"

definition chars :: "string \<Rightarrow> u8 list" where
  "chars t = map of_char t"

definition write_file :: "fs \<Rightarrow> string \<Rightarrow> u8 list \<Rightarrow> fs_call list \<Rightarrow> fs_call list" where
  "write_file k p bytes h =
     (let (fd, h) = sys k (Open_Rdwr p) h; (_, h) = sys k (Write_Fd fd bytes) h
      in snd (sys k (Close_Fd fd) h))"

text \<open>
  One attribute: the file is opened, the text of the number is printed to the buffer of seven
  characters and written without its end.
\<close>

definition write_number :: "fs \<Rightarrow> string \<Rightarrow> nat \<Rightarrow> fs_call list \<Rightarrow> fs_call list option" where
  "write_number k p n h =
     do {
       b \<leftarrow> print_to 7 (''0x'' @ hex_digits n);
       Some (write_file k p (chars b) h)
     }"

definition configfs_set_descs :: "fs \<Rightarrow> configfs_attr \<Rightarrow> fs_call list \<Rightarrow> fs_call list option" where
  "configfs_set_descs k a h =
     do {
       h \<leftarrow> (if bDeviceClass a \<noteq> 0 then write_number k ''bDeviceClass'' (unat (bDeviceClass a)) h
             else Some h);
       h \<leftarrow> write_number k ''idVendor'' (unat (idVendor a)) h;
       h \<leftarrow> write_number k ''idProduct'' (unat (idProduct a)) h;
       h \<leftarrow> write_number k ''bcdUSB'' (unat (bcdUSB a)) h;
       write_number k ''bcdDevice'' (unat (bcdDevice a)) h
     }"

definition syz_usb_idle :: "fs \<Rightarrow> fs_call list \<Rightarrow> fs_call list" where
  "syz_usb_idle k h = snd (sys k (Sleep_S 1) h)"

section \<open>Building a gadget step by step\<close>

definition usb_gadget_dir :: string where
  "usb_gadget_dir = ''/sys/kernel/config/usb_gadget/''"

definition syz_usb_trans0_1 ::
  "fs \<Rightarrow> bool \<Rightarrow> string \<Rightarrow> configfs_attr \<Rightarrow> fs_call list \<Rightarrow> (int \<times> fs_call list) option" where
  "syz_usb_trans0_1 k stack gname attrs h =
     (let (r, h) = sys k (Chdir usb_gadget_dir) h in
      if r < 0 then Some (r, h)
      else let (d, h) = stat_dir k stack gname h in
      if d then Some (- 1, h)
      else let (r, h) = sys k (Mkdir gname) h in
      if r < 0 then Some (r, h)
      else let (r, h) = sys k (Chdir gname) h in
      if r < 0 then Some (r, h)
      else do { h \<leftarrow> configfs_set_descs k attrs h; Some (0, h) })"

text \<open>The path of a gadget, printed to a buffer of fifty characters.\<close>

definition gpath :: "string \<Rightarrow> string option" where
  "gpath g = print_to 50 (usb_gadget_dir @ g)"

definition make_in :: "fs \<Rightarrow> string \<Rightarrow> string \<Rightarrow> fs_call list \<Rightarrow> (int \<times> fs_call list) option" where
  "make_in k g d h =
     do {
       p \<leftarrow> gpath g;
       let (r, h) = sys k (Chdir p) h;
       if r < 0 then Some (r, h)
       else let (r, h) = sys k (Mkdir d) h in
       if r < 0 then Some (r, h) else Some (0, h)
     }"

definition syz_usb_trans1_2 :: "fs \<Rightarrow> string \<Rightarrow> string \<Rightarrow> fs_call list \<Rightarrow> (int \<times> fs_call list) option" where
  "syz_usb_trans1_2 k g config h = make_in k g config h"

definition syz_usb_trans2_3 :: "fs \<Rightarrow> string \<Rightarrow> string \<Rightarrow> fs_call list \<Rightarrow> (int \<times> fs_call list) option" where
  "syz_usb_trans2_3 k g func h = make_in k g func h"

definition syz_usb_trans3_4 ::
  "fs \<Rightarrow> string \<Rightarrow> string \<Rightarrow> string \<Rightarrow> fs_call list \<Rightarrow> (int \<times> fs_call list) option" where
  "syz_usb_trans3_4 k g func config h =
     do {
       p \<leftarrow> gpath g;
       let (r, h) = sys k (Chdir p) h;
       if r < 0 then Some (r, h)
       else let (fd, h) = sys k Open_Here h in
       if fd < 0 then Some (fd, h)
       else let (r, h) = sys k (Symlinkat func fd config) h in
       if r < 0 then Some (r, h)
       else Some (0, snd (sys k (Close_Fd fd) h))
     }"

definition syz_usb_trans4_5 :: "fs \<Rightarrow> string \<Rightarrow> string \<Rightarrow> fs_call list \<Rightarrow> (int \<times> fs_call list) option" where
  "syz_usb_trans4_5 k g dummy h =
     do {
       p \<leftarrow> gpath g;
       let (r, h) = sys k (Chdir p) h;
       if r < 0 then Some (r, h)
       else let (fd, h) = sys k (Open_Rdwr ''UDC'') h in
       if fd < 0 then Some (fd, h)
       else let (r, h) = sys k (Write_Fd fd (chars dummy @ [0])) h in
       if r < 0 then Some (r, h)
       else Some (0, snd (sys k (Close_Fd fd) h))
     }"

section \<open>Taking a gadget down step by step\<close>

text \<open>
  The four steps that start in the gadget's directory: nothing is done where the gadget is not
  there; a failing change of directory is only logged.
\<close>

definition enter_gadget :: "fs \<Rightarrow> bool \<Rightarrow> string \<Rightarrow> (fs_call list \<Rightarrow> fs_call list) \<Rightarrow> fs_call list \<Rightarrow> fs_call list" where
  "enter_gadget k stack g act h =
     (let (_, h) = sys k (Chdir usb_gadget_dir) h; (d, h) = stat_dir k stack g h in
      if \<not> d then h else act (snd (sys k (Chdir g) h)))"

definition syz_usb_trans5_4 :: "fs \<Rightarrow> bool \<Rightarrow> string \<Rightarrow> fs_call list \<Rightarrow> fs_call list" where
  "syz_usb_trans5_4 k stack g = enter_gadget k stack g (write_file k ''UDC'' [0])"

definition link_names :: "(string \<times> string) list" where
  "link_names =
     [(''hid'', ''configs/c.1/hid.0''), (''hid2'', ''configs/c.2/hid.1''),
      (''prt'', ''configs/c.1/printer.0''), (''mass'', ''configs/c.1/mass_storage.0''),
      (''ncm'', ''configs/c.1/ncm.0''), (''ecm'', ''configs/c.1/ecm.0''),
      (''eem'', ''configs/c.1/eem.0''), (''acm'', ''configs/c.1/acm.0''),
      (''rndis'', ''configs/c.1/rndis.0''), (''subset'', ''configs/c.1/geth.0''),
      (''midi'', ''configs/c.1/midi.0''), (''ss'', ''configs/c.1/SourceSink.0''),
      (''serial'', ''configs/c.1/gser.0''), (''lb'', ''configs/c.1/Loopback.0''),
      (''uac1'', ''configs/c.1/uac1.0''), (''uac2'', ''configs/c.1/uac2.0'')]"

definition syz_usb_trans4_3 :: "fs \<Rightarrow> bool \<Rightarrow> string \<Rightarrow> fs_call list \<Rightarrow> fs_call list" where
  "syz_usb_trans4_3 k stack g = enter_gadget k stack g (\<lambda>h.
     case map_of link_names g of None \<Rightarrow> h | Some p \<Rightarrow> snd (sys k (Remove p) h))"

definition function_names :: "(string \<times> string) list" where
  "function_names =
     [(''hid'', ''functions/hid.0''), (''hid2'', ''functions/hid.1''),
      (''prt'', ''functions/printer.0''), (''mass'', ''functions/mass_storage.0''),
      (''ncm'', ''functions/ncm.0''), (''ecm'', ''functions/ecm.0''),
      (''eem'', ''functions/eem.0''), (''acm'', ''functions/acm.0''),
      (''rndis'', ''functions/rndis.0''), (''subset'', ''functions/geth.0''),
      (''midi'', ''functions/midi.0''), (''ss'', ''functions/SourceSink.0''),
      (''serial'', ''functions/gser.0''), (''lb'', ''functions/Loopback.0''),
      (''uac1'', ''functions/uac1.0''), (''uac2'', ''functions/uac2.0'')]"

definition syz_usb_trans3_2 :: "fs \<Rightarrow> bool \<Rightarrow> string \<Rightarrow> fs_call list \<Rightarrow> fs_call list" where
  "syz_usb_trans3_2 k stack g = enter_gadget k stack g (\<lambda>h.
     case map_of function_names g of None \<Rightarrow> h | Some p \<Rightarrow> snd (sys k (Rmdir p) h))"

definition syz_usb_trans2_1 :: "fs \<Rightarrow> bool \<Rightarrow> string \<Rightarrow> fs_call list \<Rightarrow> fs_call list" where
  "syz_usb_trans2_1 k stack g = enter_gadget k stack g (\<lambda>h. snd (sys k (Rmdir ''configs/c.1'') h))"

definition syz_usb_trans1_0 :: "fs \<Rightarrow> bool \<Rightarrow> string \<Rightarrow> fs_call list \<Rightarrow> fs_call list" where
  "syz_usb_trans1_0 k stack g h =
     (let (r, h) = sys k (Chdir usb_gadget_dir) h in
      if r < 0 then h
      else let (d, h) = stat_dir k stack g h in
      if \<not> d then h else snd (sys k (Rmdir g) h))"

section \<open>Building a whole gadget\<close>

definition report_desc_keyboard :: "u8 list" where
  "report_desc_keyboard =
     [0x05, 0x01, 0x09, 0x06, 0xa1, 0x01, 0x05, 0x07, 0x19, 0xe0, 0x29, 0xe7, 0x15, 0x00, 0x25, 0x01,
      0x75, 0x01, 0x95, 0x08, 0x81, 0x02, 0x95, 0x01, 0x75, 0x08, 0x81, 0x03, 0x95, 0x05, 0x75, 0x01,
      0x05, 0x08, 0x19, 0x01, 0x29, 0x05, 0x91, 0x02, 0x95, 0x01, 0x75, 0x03, 0x91, 0x03, 0x95, 0x06,
      0x75, 0x08, 0x15, 0x00, 0x25, 0x65, 0x05, 0x07, 0x19, 0x00, 0x29, 0x65, 0x81, 0x00, 0xc0]"

definition report_desc_mouse :: "u8 list" where
  "report_desc_mouse =
     [0x05, 0x01, 0x09, 0x02, 0xa1, 0x01, 0x09, 0x01, 0xa1, 0x00, 0x05, 0x09, 0x19, 0x01, 0x29, 0x03,
      0x15, 0x00, 0x25, 0x01, 0x95, 0x03, 0x75, 0x01, 0x81, 0x02, 0x95, 0x01, 0x75, 0x05, 0x81, 0x03,
      0x05, 0x01, 0x09, 0x30, 0x09, 0x31, 0x15, 0x81, 0x25, 0x7f, 0x75, 0x08, 0x95, 0x02, 0x81, 0x06,
      0xc0, 0xc0]"

text \<open>
  The two calls that build a keyboard differ only in names; here the name, the configuration, the
  function and the controller are arguments. Every result but the test for the directory is
  ignored.
\<close>

definition configfs_function :: "fs \<Rightarrow> string \<Rightarrow> fs_call list \<Rightarrow> fs_call list" where
  "configfs_function k func h =
     (let h = snd (sys k (Mkdir func) h);
          h = write_file k (func @ ''/subclass'') [49, 0] h;
          h = write_file k (func @ ''/protocol'') [49, 0] h;
          h = write_file k (func @ ''/report_length'') [56, 0] h
      in write_file k (func @ ''/report_desc'') report_desc_keyboard h)"

definition configfs_link :: "fs \<Rightarrow> string \<Rightarrow> string \<Rightarrow> fs_call list \<Rightarrow> fs_call list" where
  "configfs_link k func link h =
     (let (fd, h) = sys k Open_Here h; (_, h) = sys k (Symlinkat func fd link) h
      in snd (sys k (Close_Fd fd) h))"

definition configfs_keyboard ::
  "fs \<Rightarrow> bool \<Rightarrow> string \<Rightarrow> string \<Rightarrow> string \<Rightarrow> string \<Rightarrow> string \<Rightarrow> configfs_attr \<Rightarrow> fs_call list
     \<Rightarrow> fs_call list option" where
  "configfs_keyboard k stack g config func link udc attrs h =
     (let (_, h) = sys k (Chdir usb_gadget_dir) h; (d, h) = stat_dir k stack g h in
      if d then Some h
      else let h = snd (sys k (Mkdir g) h); h = snd (sys k (Chdir g) h) in
        do {
          h \<leftarrow> configfs_set_descs k attrs h;
          let h = snd (sys k (Mkdir config) h);
          let h = configfs_function k func h;
          let h = configfs_link k func link h;
          Some (write_file k ''UDC'' (chars udc @ [0]) h)
        })"

definition syz_usb_configfs_hid :: "fs \<Rightarrow> bool \<Rightarrow> configfs_attr \<Rightarrow> fs_call list \<Rightarrow> fs_call list option" where
  "syz_usb_configfs_hid k stack = configfs_keyboard k stack ''hid'' ''configs/c.1'' ''functions/hid.0''
     ''configs/c.1/hid.0'' ''dummy_udc.0''"

definition syz_usb_configfs_hid2 :: "fs \<Rightarrow> bool \<Rightarrow> configfs_attr \<Rightarrow> fs_call list \<Rightarrow> fs_call list option" where
  "syz_usb_configfs_hid2 k stack = configfs_keyboard k stack ''hid2'' ''configs/c.2'' ''functions/hid.1''
     ''configs/c.2/hid.1'' ''dummy_udc.1''"

section \<open>What successful calls did\<close>

text \<open>
  The world the executor has asked for, read off the trace and the answers: a call that succeeded
  did what its documentation says. Paths are absolute; the working directory ends with a slash,
  a symbolic link goes with its target, and an open descriptor with its path.
\<close>

record world =
  cwd :: string
  tree :: "string list"
  links :: "(string \<times> string) list"
  files :: "(int \<times> string) list"
  content :: "string \<rightharpoonup> u8 list"

definition resolve :: "string \<Rightarrow> string \<Rightarrow> string" where
  "resolve d p = (if p \<noteq> [] \<and> hd p = CHR ''/'' then p else d @ p)"

definition as_dir :: "string \<Rightarrow> string" where
  "as_dir p = (if p \<noteq> [] \<and> last p = CHR ''/'' then p else p @ ''/'')"

fun effect :: "fs_call \<Rightarrow> int \<Rightarrow> world \<Rightarrow> world" where
  "effect (Chdir p) r w = (if r < 0 then w else w\<lparr>cwd := as_dir (resolve (cwd w) p)\<rparr>)"
| "effect (Mkdir p) r w = (if r < 0 then w else w\<lparr>tree := resolve (cwd w) p # tree w\<rparr>)"
| "effect (Rmdir p) r w = (if r < 0 then w else w\<lparr>tree := remove1 (resolve (cwd w) p) (tree w)\<rparr>)"
| "effect (Remove p) r w =
     (if r < 0 then w else w\<lparr>links := filter (\<lambda>l. fst l \<noteq> resolve (cwd w) p) (links w)\<rparr>)"
| "effect (Open_Rdwr p) r w = (if r < 0 then w else w\<lparr>files := (r, resolve (cwd w) p) # files w\<rparr>)"
| "effect Open_Here r w = (if r < 0 then w else w\<lparr>files := (r, cwd w) # files w\<rparr>)"
| "effect (Write_Fd fd b) r w =
     (case map_of (files w) fd of
        Some p \<Rightarrow> if r < 0 then w else w\<lparr>content := (content w)(p \<mapsto> b)\<rparr>
      | None \<Rightarrow> w)"
| "effect (Close_Fd fd) r w = w\<lparr>files := filter (\<lambda>f. fst f \<noteq> fd) (files w)\<rparr>"
| "effect (Symlinkat t fd l) r w =
     (case map_of (files w) fd of
        Some d \<Rightarrow> if r < 0 then w else w\<lparr>links := (resolve d l, resolve (cwd w) t) # links w\<rparr>
      | None \<Rightarrow> w)"
| "effect (Stat p) r w = w"
| "effect (Sleep_S n) r w = w"

definition start_world :: world where
  "start_world = \<lparr>cwd = ''/'', tree = [], links = [], files = [], content = Map.empty\<rparr>"

primrec replay_calls :: "fs \<Rightarrow> fs_call list \<Rightarrow> world \<Rightarrow> fs_call list \<Rightarrow> world" where
  "replay_calls k h w [] = w"
| "replay_calls k h w (c # cs) = replay_calls k (h @ [c]) (effect c (ret (k h c)) w) cs"

definition world_of :: "fs \<Rightarrow> fs_call list \<Rightarrow> world" where
  "world_of k h = replay_calls k [] start_world h"

lemma world_of_append [simp]: "world_of k (h @ cs) = replay_calls k h (world_of k h) cs"
proof -
  have "replay_calls k x w (h @ cs) = replay_calls k (x @ h) (replay_calls k x w h) cs" for x w
    by (induction h arbitrary: x w) simp_all
  then show ?thesis by (simp add: world_of_def)
qed

lemma sys_simps [simp]: "fst (sys k c h) = ret (k h c)" "snd (sys k c h) = h @ [c]"
  by (simp_all add: sys_def)

lemma stat_dir_snd [simp]: "snd (stat_dir k stack p h) = h @ [Stat p]"
  by (simp add: stat_dir_def Let_def)

text \<open>Names as the fuzzer gives them: not empty, without slashes at their ends.\<close>

definition plain :: "string \<Rightarrow> bool" where
  "plain p \<longleftrightarrow> p \<noteq> [] \<and> hd p \<noteq> CHR ''/'' \<and> last p \<noteq> CHR ''/''"

lemma usb_gadget_dir_simps [simp]:
  "usb_gadget_dir \<noteq> []" "hd usb_gadget_dir = CHR ''/''" "last usb_gadget_dir = CHR ''/''" "length usb_gadget_dir = 30"
  by (simp_all add: usb_gadget_dir_def)

lemma resolve_simps [simp]:
  "plain p \<Longrightarrow> resolve d p = d @ p" "resolve d (usb_gadget_dir @ p) = usb_gadget_dir @ p"
  "resolve d usb_gadget_dir = usb_gadget_dir"
  by (simp_all add: resolve_def plain_def)

lemma as_dir_simps [simp]:
  "as_dir usb_gadget_dir = usb_gadget_dir" "plain g \<Longrightarrow> as_dir (usb_gadget_dir @ g) = usb_gadget_dir @ g @ ''/''"
  by (simp_all add: as_dir_def plain_def)

text \<open>Opening, writing and closing a file leaves no descriptor open.\<close>

definition fresh_fds :: "fs \<Rightarrow> bool" where
  "fresh_fds k \<longleftrightarrow> (\<forall>h p. ret (k h Open_Here) \<notin> fst ` set (files (world_of k h))
     \<and> ret (k h (Open_Rdwr p)) \<notin> fst ` set (files (world_of k h)))"

lemma filter_other_fd: "fd \<notin> fst ` set fs \<Longrightarrow> filter (\<lambda>f. fst f \<noteq> fd) fs = fs"
  by (induction fs) auto

section \<open>The attributes fit their buffer\<close>

lemma hex_digits_length: "n < 16 ^ k \<Longrightarrow> 0 < k \<Longrightarrow> length (hex_digits n) \<le> k"
proof (induction n arbitrary: k rule: hex_digits.induct)
  case (1 n)
  show ?case
  proof (cases "n < 16")
    case True
    then show ?thesis using "1.prems" by (simp add: hex_digits.simps [of n])
  next
    case False
    moreover obtain j where "k = Suc j" using "1.prems"(2) by (cases k) simp_all
    ultimately have j: "k = Suc j" "0 < j" using "1.prems"(1) by (cases j; simp)+
    then have "n div 16 < 16 ^ j" using "1.prems"(1) by (simp add: less_mult_imp_div_less mult.commute)
    from "1.IH" [OF False this j(2)] j(1) show ?thesis by (simp add: hex_digits.simps [of n] False)
  qed
qed

lemma write_number_defined:
  assumes "n < 65536"
  shows "write_number k p n h = Some (write_file k p (chars (''0x'' @ hex_digits n)) h)"
  using hex_digits_length [of n 4] assms by (simp add: write_number_def print_to_def)

lemma u16_bound: "unat (x :: u16) < 65536"
  using unsigned_less [of x] by simp

lemma u8_bound: "unat (x :: u8) < 65536"
proof -
  have "unat x < 2 ^ LENGTH(8)" by (rule unsigned_less)
  then show ?thesis by simp
qed

definition attr_writes :: "configfs_attr \<Rightarrow> (string \<times> nat) list" where
  "attr_writes a = (if bDeviceClass a \<noteq> 0 then [(''bDeviceClass'', unat (bDeviceClass a))] else [])
     @ [(''idVendor'', unat (idVendor a)), (''idProduct'', unat (idProduct a)),
        (''bcdUSB'', unat (bcdUSB a)), (''bcdDevice'', unat (bcdDevice a))]"

lemma configfs_set_descs_eq:
  "configfs_set_descs k a h
    = Some (fold (\<lambda>(p, n). write_file k p (chars (''0x'' @ hex_digits n))) (attr_writes a) h)"
  by (simp add: configfs_set_descs_def attr_writes_def write_number_defined u16_bound u8_bound)

text \<open>
  Printing an attribute never overflows its buffer of seven characters, so creating a gadget
  is defined for all attributes; every later step prints the path of the gadget to fifty
  characters and overflows for a name of twenty or more.
\<close>

theorem configfs_buffers:
  "syz_usb_trans0_1 k stack g a h \<noteq> None \<and> syz_usb_configfs_hid k stack a h \<noteq> None
    \<and> (syz_usb_trans1_2 k g config h = None \<longleftrightarrow> 20 \<le> length g)
    \<and> (syz_usb_trans2_3 k g func h = None \<longleftrightarrow> 20 \<le> length g)
    \<and> (syz_usb_trans3_4 k g func config h = None \<longleftrightarrow> 20 \<le> length g)
    \<and> (syz_usb_trans4_5 k g dummy h = None \<longleftrightarrow> 20 \<le> length g)"
  by (auto simp: syz_usb_trans0_1_def syz_usb_configfs_hid_def configfs_keyboard_def syz_usb_trans1_2_def
      syz_usb_trans2_3_def make_in_def syz_usb_trans3_4_def syz_usb_trans4_5_def gpath_def print_to_def
      configfs_set_descs_eq Let_def split_def bind_eq_None_conv)

lemma write_file_world:
  assumes "fresh_fds k"
  shows "world_of k (write_file k p b h) =
    (let w = world_of k h; fd = ret (k h (Open_Rdwr p)) in
     if fd < 0 \<or> ret (k (h @ [Open_Rdwr p]) (Write_Fd fd b)) < 0 then w
     else w\<lparr>content := (content w)(resolve (cwd w) p \<mapsto> b)\<rparr>)"
proof -
  let ?fd = "ret (k h (Open_Rdwr p))" and ?w = "world_of k h"
  have fd: "?fd \<notin> fst ` set (files ?w)" using assms by (simp add: fresh_fds_def)
  then have "map_of (files ?w) ?fd = None" by (simp add: map_of_eq_None_iff)
  moreover have "?w\<lparr>files := files ?w\<rparr> = ?w" by simp
  ultimately show ?thesis
    using filter_other_fd [OF fd] by (simp add: write_file_def Let_def split_def sys_def)
qed

lemma write_file_keeps:
  assumes "fresh_fds k"
  shows "tree (world_of k (write_file k p b h)) = tree (world_of k h)"
    "links (world_of k (write_file k p b h)) = links (world_of k h)"
    "cwd (world_of k (write_file k p b h)) = cwd (world_of k h)"
    "files (world_of k (write_file k p b h)) = files (world_of k h)"
  using assms by (simp_all add: write_file_world Let_def)

section \<open>Building refines adding paths\<close>

text \<open>
  The specification of a gadget under construction: the directories and links there are, and what
  each gadget is bound to.
\<close>

record gadgets =
  dirs :: "string list"
  linked :: "(string \<times> string) list"
  bound :: "string \<rightharpoonup> u8 list"

definition gadgets_of :: "world \<Rightarrow> gadgets" where
  "gadgets_of w = \<lparr>dirs = tree w, linked = links w,
     bound = (\<lambda>g. content w (usb_gadget_dir @ g @ ''/UDC''))\<rparr>"

datatype build =
  Create configfs_attr | Configure string | Add_Function string | Link string string | Bind string

primrec build_call :: "fs \<Rightarrow> bool \<Rightarrow> string \<Rightarrow> build \<Rightarrow> fs_call list \<Rightarrow> (int \<times> fs_call list) option" where
  "build_call k stack g (Create a) = syz_usb_trans0_1 k stack g a"
| "build_call k stack g (Configure c) = syz_usb_trans1_2 k g c"
| "build_call k stack g (Add_Function f) = syz_usb_trans2_3 k g f"
| "build_call k stack g (Link f l) = syz_usb_trans3_4 k g f l"
| "build_call k stack g (Bind u) = syz_usb_trans4_5 k g u"

primrec build_spec :: "string \<Rightarrow> build \<Rightarrow> gadgets \<Rightarrow> gadgets" where
  "build_spec g (Create a) x = x\<lparr>dirs := (usb_gadget_dir @ g) # dirs x\<rparr>"
| "build_spec g (Configure c) x = x\<lparr>dirs := (usb_gadget_dir @ g @ ''/'' @ c) # dirs x\<rparr>"
| "build_spec g (Add_Function f) x = x\<lparr>dirs := (usb_gadget_dir @ g @ ''/'' @ f) # dirs x\<rparr>"
| "build_spec g (Link f l) x =
     x\<lparr>linked := (usb_gadget_dir @ g @ ''/'' @ l, usb_gadget_dir @ g @ ''/'' @ f) # linked x\<rparr>"
| "build_spec g (Bind u) x = x\<lparr>bound := (bound x)(g \<mapsto> chars u @ [0])\<rparr>"

primrec plain_build :: "build \<Rightarrow> bool" where
  "plain_build (Create a) = True"
| "plain_build (Configure c) = plain c"
| "plain_build (Add_Function f) = plain f"
| "plain_build (Link f l) = (plain f \<and> plain l)"
| "plain_build (Bind u) = True"

lemma not_udc_path:
  assumes "plain p" and "last p \<noteq> CHR ''C''"
  shows "d @ p \<noteq> usb_gadget_dir @ g @ ''/UDC''"
proof
  assume eq: "d @ p = usb_gadget_dir @ g @ ''/UDC''"
  have "last (d @ p) = last p" using assms(1) by (simp add: plain_def)
  moreover have "last (usb_gadget_dir @ g @ ''/UDC'') = CHR ''C''" by simp
  ultimately show False using assms(2) eq by metis
qed

lemma write_attr_gadgets:
  assumes "fresh_fds k" and "plain p" and "last p \<noteq> CHR ''C''"
  shows "gadgets_of (world_of k (write_file k p b h)) = gadgets_of (world_of k h)"
  using not_udc_path [OF assms(2,3), symmetric]
  by (simp add: write_file_world [OF assms(1)] gadgets_of_def Let_def resolve_simps(1) [OF assms(2)])

lemma fold_attr_gadgets:
  assumes "fresh_fds k" and "\<forall>(p, n) \<in> set ps. plain p \<and> last p \<noteq> CHR ''C''"
  shows "gadgets_of (world_of k (fold (\<lambda>(p, n). write_file k p (f n)) ps h)) = gadgets_of (world_of k h)"
  using assms(2) by (induction ps arbitrary: h) (auto simp: write_attr_gadgets [OF assms(1)])

lemma attr_writes_plain: "\<forall>(p, n) \<in> set (attr_writes a). plain p \<and> last p \<noteq> CHR ''C''"
  by (auto simp: attr_writes_def plain_def)

lemma set_descs_gadgets:
  assumes "fresh_fds k" and "configfs_set_descs k a h = Some h'"
  shows "gadgets_of (world_of k h') = gadgets_of (world_of k h)"
  using assms(2) fold_attr_gadgets [OF assms(1) attr_writes_plain,
      of "\<lambda>n. chars (''0x'' @ hex_digits n)"]
  by (auto simp: configfs_set_descs_eq)

lemma gadgets_of_simps [simp]:
  "gadgets_of (w\<lparr>cwd := d\<rparr>) = gadgets_of w" "gadgets_of (w\<lparr>files := fs\<rparr>) = gadgets_of w"
  "gadgets_of (w\<lparr>tree := t\<rparr>) = (gadgets_of w)\<lparr>dirs := t\<rparr>"
  "gadgets_of (w\<lparr>links := ls\<rparr>) = (gadgets_of w)\<lparr>linked := ls\<rparr>"
  "dirs (gadgets_of w) = tree w" "linked (gadgets_of w) = links w"
  by (simp_all add: gadgets_of_def)

lemma set_descs_last:
  "configfs_set_descs k a h = Some h' \<Longrightarrow> \<exists>fd. last h' = Close_Fd fd"
  by (auto simp: configfs_set_descs_eq attr_writes_def write_file_def Let_def split_def sys_def)

lemma create_refines:
  assumes "fresh_fds k" and "plain g" and "syz_usb_trans0_1 k stack g a h = Some (r, h')"
  shows "gadgets_of (world_of k h') = (if r = 0 \<or> last h' = Chdir g
    then build_spec g (Create a) (gadgets_of (world_of k h)) else gadgets_of (world_of k h))"
proof -
  let ?h1 = "h @ [Chdir usb_gadget_dir]" and ?h2 = "h @ [Chdir usb_gadget_dir, Stat g]"
    and ?h3 = "h @ [Chdir usb_gadget_dir, Stat g, Mkdir g]"
    and ?h4 = "h @ [Chdir usb_gadget_dir, Stat g, Mkdir g, Chdir g]"
  have g: "g \<noteq> usb_gadget_dir" "usb_gadget_dir \<noteq> g" using assms(2) by (auto simp: plain_def)
  consider "r \<noteq> 0" "h' = ?h1" | "r \<noteq> 0" "h' = ?h2"
    | "r \<noteq> 0" "h' = ?h3" "ret (k ?h2 (Mkdir g)) < 0"
    | "h' = ?h4" "0 \<le> ret (k h (Chdir usb_gadget_dir))" "0 \<le> ret (k ?h2 (Mkdir g))"
    | "r = 0" "configfs_set_descs k a ?h4 = Some h'" "0 \<le> ret (k h (Chdir usb_gadget_dir))"
        "0 \<le> ret (k ?h2 (Mkdir g))"
    using assms(3)
    by (auto simp: syz_usb_trans0_1_def Let_def split_def sys_def bind_eq_Some_conv split: if_splits)
  then show ?thesis
  proof cases
    case 5
    have "gadgets_of (world_of k ?h4) = build_spec g (Create a) (gadgets_of (world_of k h))"
      using 5 assms(2) by simp
    then show ?thesis using 5 set_descs_gadgets [OF assms(1) 5(2)] by simp
  qed (use assms(2) g in simp_all)
qed

lemma gpath_simps [simp]: "gpath g = Some p \<longleftrightarrow> length g < 20 \<and> p = usb_gadget_dir @ g"
  by (auto simp: gpath_def print_to_def)

lemma gpath_not [simp]: "plain g \<Longrightarrow> usb_gadget_dir @ p \<noteq> g" "plain g \<Longrightarrow> g \<noteq> usb_gadget_dir @ p"
  by (auto simp: plain_def)

lemma make_in_refines:
  assumes "plain g" and "plain d" and "make_in k g d h = Some (r, h')"
  shows "gadgets_of (world_of k h') = (if r = 0 \<or> last h' = Chdir g
    then (gadgets_of (world_of k h))\<lparr>dirs := (usb_gadget_dir @ g @ ''/'' @ d) # dirs (gadgets_of (world_of k h))\<rparr>
    else gadgets_of (world_of k h))"
  using assms
  by (auto simp: make_in_def Let_def split_def sys_def bind_eq_Some_conv split: if_splits)

lemma link_refines:
  assumes "plain g" and "plain f" and "plain l" and "syz_usb_trans3_4 k g f l h = Some (r, h')"
  shows "gadgets_of (world_of k h') = (if r = 0 \<or> last h' = Chdir g
    then build_spec g (Link f l) (gadgets_of (world_of k h)) else gadgets_of (world_of k h))"
  using assms
  by (auto simp: syz_usb_trans3_4_def Let_def split_def sys_def bind_eq_Some_conv split: if_splits)

lemma bind_refines:
  assumes "plain g" and "syz_usb_trans4_5 k g u h = Some (r, h')"
  shows "gadgets_of (world_of k h') = (if r = 0 \<or> last h' = Chdir g
    then build_spec g (Bind u) (gadgets_of (world_of k h)) else gadgets_of (world_of k h))"
proof -
  have udc: "plain ''UDC''" by (simp add: plain_def)
  show ?thesis
    using assms
    by (auto simp: syz_usb_trans4_5_def Let_def split_def sys_def bind_eq_Some_conv gadgets_of_def fun_eq_iff
        resolve_simps(1) [OF udc] split: if_splits)
qed

text \<open>
  C8. Each step that builds a gadget does, where it returns zero, what its specification says: it
  adds one directory or one link, or binds the gadget, and nothing else. Where it fails nothing
  was added, except that creating a gadget can fail after its directory was made.
\<close>

theorem build_call_refines:
  assumes "fresh_fds k" and "plain g" and "plain_build b" and "build_call k stack g b h = Some (r, h')"
  shows "gadgets_of (world_of k h') = (if r = 0 \<or> last h' = Chdir g
    then build_spec g b (gadgets_of (world_of k h)) else gadgets_of (world_of k h))"
proof (cases b)
  case (Create a)
  then show ?thesis using assms create_refines [OF assms(1,2)] by simp
next
  case (Configure c)
  then show ?thesis using assms make_in_refines [OF assms(2)] by (simp add: syz_usb_trans1_2_def)
next
  case (Add_Function f)
  then show ?thesis using assms make_in_refines [OF assms(2)] by (simp add: syz_usb_trans2_3_def)
next
  case (Link f l)
  then show ?thesis using assms link_refines [OF assms(2), of f l k h r h'] by simp
next
  case (Bind u)
  then show ?thesis using assms bind_refines [OF assms(2)] by simp
qed

text \<open>
  Linking a function and binding a gadget leave the descriptor they opened open exactly when
  their last call, making the link or writing the controller's name, fails; else no descriptor
  stays open.
\<close>

theorem link_and_bind_leak:
  assumes "fresh_fds k"
    and "syz_usb_trans3_4 k g f l h = Some (r, h') \<or> syz_usb_trans4_5 k g l h = Some (r, h')"
  shows "map fst (files (world_of k h')) = (case last h' of
      Symlinkat t fd p \<Rightarrow> fd # map fst (files (world_of k h))
    | Write_Fd fd b \<Rightarrow> fd # map fst (files (world_of k h))
    | _ \<Rightarrow> map fst (files (world_of k h)))
    \<and> (r = 0 \<longleftrightarrow> (\<exists>fd. last h' = Close_Fd fd))"
proof (rule conjI)
  have fresh: "ret (k x Open_Here) \<notin> fst ` set (files (world_of k x))"
    "ret (k x (Open_Rdwr p)) \<notin> fst ` set (files (world_of k x))" for x p
    using assms(1) by (simp_all add: fresh_fds_def)
  show "map fst (files (world_of k h')) = (case last h' of
      Symlinkat t fd p \<Rightarrow> fd # map fst (files (world_of k h))
    | Write_Fd fd b \<Rightarrow> fd # map fst (files (world_of k h))
    | _ \<Rightarrow> map fst (files (world_of k h)))"
    using assms(2) fresh [of "h @ [Chdir (usb_gadget_dir @ g)]"]
    by (auto simp: syz_usb_trans3_4_def syz_usb_trans4_5_def Let_def split_def sys_def bind_eq_Some_conv
        filter_other_fd split: if_splits)
  show "r = 0 \<longleftrightarrow> (\<exists>fd. last h' = Close_Fd fd)"
    using assms(2)
    by (auto simp: syz_usb_trans3_4_def syz_usb_trans4_5_def Let_def split_def sys_def bind_eq_Some_conv
        split: if_splits)
qed

section \<open>Taking down what was built\<close>

primrec build_all :: "fs \<Rightarrow> bool \<Rightarrow> string \<Rightarrow> build list \<Rightarrow> fs_call list \<Rightarrow> fs_call list option" where
  "build_all k stack g [] h = Some h"
| "build_all k stack g (b # bs) h =
     do { (r, h) \<leftarrow> build_call k stack g b h; if r = 0 then build_all k stack g bs h else None }"

definition take_down :: "fs \<Rightarrow> bool \<Rightarrow> string \<Rightarrow> fs_call list \<Rightarrow> fs_call list" where
  "take_down k stack g h =
     syz_usb_trans1_0 k stack g (syz_usb_trans2_1 k stack g (syz_usb_trans3_2 k stack g
       (syz_usb_trans4_3 k stack g (syz_usb_trans5_4 k stack g h))))"

lemma build_all_refines:
  assumes "fresh_fds k" and "plain g" and "\<forall>b \<in> set bs. plain_build b"
    and "build_all k stack g bs h = Some h'"
  shows "gadgets_of (world_of k h') = fold (build_spec g) bs (gadgets_of (world_of k h))"
  using assms(3,4)
proof (induction bs arbitrary: h)
  case Nil
  then show ?case by simp
next
  case (Cons b bs)
  then obtain h1 where b: "build_call k stack g b h = Some (0, h1)" and bs: "build_all k stack g bs h1 = Some h'"
    by (auto simp: bind_eq_Some_conv split: if_splits)
  from Cons build_call_refines [OF assms(1,2) _ b] bs show ?case by simp
qed

text \<open>
  What the file system promises: it can be entered, what is there is found and can be removed
  unless it is a directory with something in it or the target of a link.
\<close>

definition removal_laws :: "fs \<Rightarrow> bool" where
  "removal_laws k \<longleftrightarrow> (\<forall>h p. let w = world_of k h; q = resolve (cwd w) p in
     0 \<le> ret (k h (Chdir usb_gadget_dir))
     \<and> (q \<in> set (tree w) \<longrightarrow> 0 \<le> ret (k h (Chdir p)) \<and> 0 \<le> ret (k h (Stat p)) \<and> is_dir (k h (Stat p)))
     \<and> (q \<in> fst ` set (links w) \<longrightarrow> 0 \<le> ret (k h (Remove p)))
     \<and> (q \<in> set (tree w) \<and> q \<notin> snd ` set (links w)
          \<and> (\<forall>x \<in> set (tree w) \<union> fst ` set (links w). \<not> prefix (q @ ''/'') x)
        \<longrightarrow> 0 \<le> ret (k h (Rmdir p))))"

definition absent :: "string \<Rightarrow> world \<Rightarrow> bool" where
  "absent g w \<longleftrightarrow> (\<forall>p \<in> set (tree w) \<union> fst ` set (links w) \<union> snd ` set (links w).
     p \<noteq> usb_gadget_dir @ g \<and> \<not> prefix (usb_gadget_dir @ g @ ''/'') p)"

lemma removal_lawsD:
  assumes "removal_laws k"
  shows "\<not> ret (k h (Chdir usb_gadget_dir)) < 0"
    and "resolve (cwd (world_of k h)) p \<in> set (tree (world_of k h)) \<Longrightarrow> \<not> ret (k h (Chdir p)) < 0
      \<and> \<not> ret (k h (Stat p)) < 0 \<and> is_dir (k h (Stat p))"
    and "resolve (cwd (world_of k h)) p \<in> fst ` set (links (world_of k h)) \<Longrightarrow> \<not> ret (k h (Remove p)) < 0"
    and "q = resolve (cwd (world_of k h)) p \<Longrightarrow> q \<in> set (tree (world_of k h))
      \<Longrightarrow> q \<notin> snd ` set (links (world_of k h))
      \<Longrightarrow> \<forall>x \<in> set (tree (world_of k h)) \<union> fst ` set (links (world_of k h)). \<not> prefix (q @ ''/'') x
      \<Longrightarrow> \<not> ret (k h (Rmdir p)) < 0"
  using assms by (simp_all add: removal_laws_def Let_def not_less)

lemma enter_gadget_world:
  assumes "removal_laws k" and "plain g" and "usb_gadget_dir @ g \<in> set (tree (world_of k h))"
  obtains h' where "enter_gadget k stack g act h = act h'"
    and "world_of k h' = (world_of k h)\<lparr>cwd := usb_gadget_dir @ g @ ''/''\<rparr>"
proof (rule that [of "h @ [Chdir usb_gadget_dir, Stat g, Chdir g]"])
  note in_root = removal_lawsD(1) [OF assms(1), of h]
  have st: "\<not> ret (k (h @ [Chdir usb_gadget_dir]) (Stat g)) < 0 \<and> is_dir (k (h @ [Chdir usb_gadget_dir]) (Stat g))"
    using removal_lawsD(2) [OF assms(1), of "h @ [Chdir usb_gadget_dir]" g] assms(2,3) in_root by simp
  have cd: "\<not> ret (k (h @ [Chdir usb_gadget_dir, Stat g]) (Chdir g)) < 0"
    using removal_lawsD(2) [OF assms(1), of "h @ [Chdir usb_gadget_dir, Stat g]" g] assms(2,3) in_root by simp
  show "enter_gadget k stack g act h = act (h @ [Chdir usb_gadget_dir, Stat g, Chdir g])"
    using st by (simp add: enter_gadget_def stat_dir_def sys_def Let_def)
  show "world_of k (h @ [Chdir usb_gadget_dir, Stat g, Chdir g])
      = (world_of k h)\<lparr>cwd := usb_gadget_dir @ g @ ''/''\<rparr>"
    using in_root cd assms(2) by simp
qed

lemma table_names:
  assumes "(g, l) \<in> set link_names" and "g \<noteq> ''hid2''"
  obtains x where "plain x" "l = ''configs/c.1/'' @ x" "plain g" "map_of link_names g = Some l"
    "map_of function_names g = Some (''functions/'' @ x)"
proof -
  have "\<forall>(g, l) \<in> set link_names. g = ''hid2'' \<or> plain g \<and> plain (drop 12 l) \<and> l = ''configs/c.1/'' @ drop 12 l
      \<and> map_of link_names g = Some l \<and> map_of function_names g = Some (''functions/'' @ drop 12 l)"
    by (simp add: link_names_def function_names_def plain_def)
  from bspec [OF this assms(1)] assms(2) have f: "plain g" "plain (drop 12 l)"
    "l = ''configs/c.1/'' @ drop 12 l" "map_of link_names g = Some l"
    "map_of function_names g = Some (''functions/'' @ drop 12 l)"
    by (simp_all only: split_conv, blast+)
  show ?thesis by (rule that [OF f(2,3,1,4,5)])
qed

lemma plain_names: "plain x \<Longrightarrow> plain (''functions/'' @ x)" "plain x \<Longrightarrow> plain (''configs/c.1/'' @ x)"
    "plain ''configs/c.1''"
  by (simp_all add: plain_def)

lemma unbind_keeps:
  assumes "removal_laws k" and "fresh_fds k" and "plain g" and "usb_gadget_dir @ g \<in> set (tree (world_of k h))"
  shows "tree (world_of k (syz_usb_trans5_4 k stack g h)) = tree (world_of k h)"
    "links (world_of k (syz_usb_trans5_4 k stack g h)) = links (world_of k h)"
  by (rule enter_gadget_world [OF assms(1,3,4), of stack "write_file k ''UDC'' [0]"],
      simp add: syz_usb_trans5_4_def write_file_keeps [OF assms(2)])+

lemma unlink_removes:
  assumes "removal_laws k" and "plain g" and "usb_gadget_dir @ g \<in> set (tree (world_of k h))"
    and "map_of link_names g = Some l" and "plain l" 
    and "usb_gadget_dir @ g @ ''/'' @ l \<in> fst ` set (links (world_of k h))"
  shows "tree (world_of k (syz_usb_trans4_3 k stack g h)) = tree (world_of k h)"
    "links (world_of k (syz_usb_trans4_3 k stack g h))
      = filter (\<lambda>x. fst x \<noteq> usb_gadget_dir @ g @ ''/'' @ l) (links (world_of k h))"
proof -
  let ?act = "\<lambda>h. case map_of link_names g of None \<Rightarrow> h | Some p \<Rightarrow> snd (sys k (Remove p) h)"
  obtain h' where h': "enter_gadget k stack g ?act h = ?act h'"
    "world_of k h' = (world_of k h)\<lparr>cwd := usb_gadget_dir @ g @ ''/''\<rparr>"
    by (rule enter_gadget_world [OF assms(1,2,3)])
  have ok: "\<not> ret (k h' (Remove l)) < 0"
    by (rule removal_lawsD(3) [OF assms(1)]) (use h'(2) assms(5,6) in simp)
  show "tree (world_of k (syz_usb_trans4_3 k stack g h)) = tree (world_of k h)"
    "links (world_of k (syz_usb_trans4_3 k stack g h))
      = filter (\<lambda>x. fst x \<noteq> usb_gadget_dir @ g @ ''/'' @ l) (links (world_of k h))"
    unfolding syz_usb_trans4_3_def h'(1) using ok assms(4,5) by (simp_all add: h'(2))
qed

lemma rmdir_removes:
  assumes "removal_laws k" and "plain g" and "usb_gadget_dir @ g \<in> set (tree (world_of k h))" and "plain d"
    and "usb_gadget_dir @ g @ ''/'' @ d \<in> set (tree (world_of k h))"
    and "usb_gadget_dir @ g @ ''/'' @ d \<notin> snd ` set (links (world_of k h))"
    and "\<forall>x \<in> set (tree (world_of k h)) \<union> fst ` set (links (world_of k h)).
      \<not> prefix (usb_gadget_dir @ g @ ''/'' @ d @ ''/'') x"
    and "s = enter_gadget k stack g (\<lambda>h. snd (sys k (Rmdir d) h)) h"
  shows "tree (world_of k s) = remove1 (usb_gadget_dir @ g @ ''/'' @ d) (tree (world_of k h))"
    "links (world_of k s) = links (world_of k h)"
proof -
  let ?act = "\<lambda>h. snd (sys k (Rmdir d) h)"
  obtain h' where h': "enter_gadget k stack g ?act h = ?act h'"
    "world_of k h' = (world_of k h)\<lparr>cwd := usb_gadget_dir @ g @ ''/''\<rparr>"
    by (rule enter_gadget_world [OF assms(1,2,3)])
  have ok: "\<not> ret (k h' (Rmdir d)) < 0"
    by (rule removal_lawsD(4) [OF assms(1) refl]) (use h'(2) assms(4-7) in simp_all)
  show "tree (world_of k s) = remove1 (usb_gadget_dir @ g @ ''/'' @ d) (tree (world_of k h))"
    "links (world_of k s) = links (world_of k h)"
    unfolding assms(8) h'(1) using ok assms(4) by (simp_all add: h'(2))
qed

lemma remove_gadget:
  assumes "removal_laws k" and "plain g" and "usb_gadget_dir @ g \<in> set (tree (world_of k h))"
    and "usb_gadget_dir @ g \<notin> snd ` set (links (world_of k h))"
    and "\<forall>x \<in> set (tree (world_of k h)) \<union> fst ` set (links (world_of k h)). \<not> prefix (usb_gadget_dir @ g @ ''/'') x"
  shows "tree (world_of k (syz_usb_trans1_0 k stack g h)) = remove1 (usb_gadget_dir @ g) (tree (world_of k h))"
    "links (world_of k (syz_usb_trans1_0 k stack g h)) = links (world_of k h)"
proof -
  note in_root = removal_lawsD(1) [OF assms(1), of h]
  have st: "\<not> ret (k (h @ [Chdir usb_gadget_dir]) (Stat g)) < 0 \<and> is_dir (k (h @ [Chdir usb_gadget_dir]) (Stat g))"
    using removal_lawsD(2) [OF assms(1), of "h @ [Chdir usb_gadget_dir]" g] assms(2,3) in_root by simp
  have rm: "\<not> ret (k (h @ [Chdir usb_gadget_dir, Stat g]) (Rmdir g)) < 0"
    by (rule removal_lawsD(4) [OF assms(1) refl]) (use in_root assms(2-5) in simp_all)
  show "tree (world_of k (syz_usb_trans1_0 k stack g h)) = remove1 (usb_gadget_dir @ g) (tree (world_of k h))"
    "links (world_of k (syz_usb_trans1_0 k stack g h)) = links (world_of k h)"
    using in_root st rm assms(2) by (simp_all add: syz_usb_trans1_0_def stat_dir_def sys_def Let_def)
qed


lemma absentD:
  assumes "absent g w" and "y \<in> set (tree w) \<union> fst ` set (links w) \<union> snd ` set (links w)"
  shows "y \<noteq> usb_gadget_dir @ g" "\<not> prefix (usb_gadget_dir @ g @ ''/'' @ p) y" "y \<noteq> usb_gadget_dir @ g @ ''/'' @ p"
proof -
  have y: "y \<noteq> usb_gadget_dir @ g" "\<not> prefix (usb_gadget_dir @ g @ ''/'') y"
    using assms unfolding absent_def by blast+
  then show "y \<noteq> usb_gadget_dir @ g" by blast
  show p: "\<not> prefix (usb_gadget_dir @ g @ ''/'' @ p) y"
  proof
    assume "prefix (usb_gadget_dir @ g @ ''/'' @ p) y"
    then have "prefix ((usb_gadget_dir @ g @ ''/'') @ p) y" by (simp only: append_assoc)
    with y(2) show False by (blast dest: append_prefixD)
  qed
  then show "y \<noteq> usb_gadget_dir @ g @ ''/'' @ p" by (metis prefix_order.refl)
qed

lemma absent_out:
  assumes "absent g w"
  shows "usb_gadget_dir @ g \<notin> snd ` set (links w)" "usb_gadget_dir @ g @ ''/'' @ p \<notin> snd ` set (links w)"
    "usb_gadget_dir @ g @ ''/'' @ p \<notin> fst ` set (links w)"
proof -
  show "usb_gadget_dir @ g \<notin> snd ` set (links w)"
    using absentD(1) [OF assms, of "usb_gadget_dir @ g"] by blast
  show "usb_gadget_dir @ g @ ''/'' @ p \<notin> snd ` set (links w)" "usb_gadget_dir @ g @ ''/'' @ p \<notin> fst ` set (links w)"
    using absentD(3) [OF assms, of "usb_gadget_dir @ g @ ''/'' @ p" p] by (simp_all only: Un_iff, metis+)
qed

lemma filter_fst_absent: "p \<notin> fst ` set xs \<Longrightarrow> filter (\<lambda>x. fst x \<noteq> p) xs = xs"
  by (induction xs) auto

lemma take_down_world:
  assumes "removal_laws k" and "fresh_fds k" and "plain g" and "plain f" and "plain l" and "plain c"
    and "map_of link_names g = Some l" and "map_of function_names g = Some f" and "c = ''configs/c.1''"
    and "\<not> prefix (f @ ''/'') c" and "absent g w"
    and "tree (world_of k h) = [usb_gadget_dir @ g @ ''/'' @ f, usb_gadget_dir @ g @ ''/'' @ c, usb_gadget_dir @ g] @ tree w"
    and "links (world_of k h) = (usb_gadget_dir @ g @ ''/'' @ l, usb_gadget_dir @ g @ ''/'' @ f) # links w"
  shows "tree (world_of k (take_down k stack g h)) = tree w
    \<and> links (world_of k (take_down k stack g h)) = links w"
proof -
  let ?h1 = "syz_usb_trans5_4 k stack g h"
  let ?h2 = "syz_usb_trans4_3 k stack g ?h1"
  let ?h3 = "syz_usb_trans3_2 k stack g ?h2"
  let ?h4 = "syz_usb_trans2_1 k stack g ?h3"
  have not_below: "\<not> prefix (usb_gadget_dir @ g @ ''/'' @ p) y" if "y \<in> set (tree w) \<union> fst ` set (links w)" for y p
    by (rule absentD(2) [OF assms(11)]) (rule UnI1 [OF that])
  have in_t: "usb_gadget_dir @ g \<in> set (tree (world_of k h))" unfolding assms(12) by simp
  have w1: "tree (world_of k ?h1) = tree (world_of k h)" "links (world_of k ?h1) = links (world_of k h)"
    by (rule unbind_keeps [OF assms(1,2,3) in_t])+
  have l_in: "usb_gadget_dir @ g @ ''/'' @ l \<in> fst ` set (links (world_of k ?h1))" unfolding w1 assms(13) by simp
  have in1: "usb_gadget_dir @ g \<in> set (tree (world_of k ?h1))" unfolding w1 by (rule in_t)
  have w2: "tree (world_of k ?h2) = tree (world_of k h)" "links (world_of k ?h2) = links w"
    unfolding unlink_removes [OF assms(1,3) in1 assms(7,5) l_in] w1 assms(13)
    using filter_fst_absent [OF absent_out(3) [OF assms(11)], of l] by simp_all
  have s3: "?h3 = enter_gadget k stack g (\<lambda>h. snd (sys k (Rmdir f) h)) ?h2"
    unfolding syz_usb_trans3_2_def assms(8) option.case by (rule refl)
  have w3: "tree (world_of k ?h3) = [usb_gadget_dir @ g @ ''/'' @ c, usb_gadget_dir @ g] @ tree w" "links (world_of k ?h3) = links w"
    using rmdir_removes [OF assms(1,3) _ assms(4) _ _ _ s3] absent_out(2) [OF assms(11)]
      not_below assms(10)
    by (simp_all add: w2 assms(12))
  have s4: "?h4 = enter_gadget k stack g (\<lambda>h. snd (sys k (Rmdir c) h)) ?h3"
    unfolding syz_usb_trans2_1_def assms(9) by (rule refl)
  have w4: "tree (world_of k ?h4) = (usb_gadget_dir @ g) # tree w" "links (world_of k ?h4) = links w"
    using rmdir_removes [OF assms(1,3) _ assms(6) _ _ _ s4] absent_out(2) [OF assms(11)]
      not_below
    by (simp_all add: w3)
  show ?thesis
    using remove_gadget [OF assms(1,3), of ?h4 stack] absent_out(1) [OF assms(11)] not_below [of _ "[]"]
    by (simp add: w4 take_down_def)
qed

text \<open>
  C26. A gadget built in its five steps, all successful, is taken down completely by the five steps
  back: the directories and links are those of before, for every gadget of the tables but the
  second keyboard, on a file system that removes what is there, empty and not linked to.
\<close>

theorem take_down_undoes_build:
  assumes "removal_laws k" and "fresh_fds k"
    and "(g, l) \<in> set link_names" and "map_of function_names g = Some f" and "g \<noteq> ''hid2''"
    and "absent g (world_of k h)"
    and "build_all k stack g [Create a, Configure ''configs/c.1'', Add_Function f, Link f l, Bind u] h
      = Some h'"
  shows "tree (world_of k (take_down k stack g h')) = tree (world_of k h)
    \<and> links (world_of k (take_down k stack g h')) = links (world_of k h)"
proof -
  obtain x where x: "plain x" "l = ''configs/c.1/'' @ x" "plain g" "map_of link_names g = Some l"
    "map_of function_names g = Some (''functions/'' @ x)"
    by (rule table_names [OF assms(3,5)])
  then have f: "f = ''functions/'' @ x" using assms(4) by simp
  have plain: "plain f" "plain l" "plain ''configs/c.1''"
    unfolding f x(2) by (rule plain_names(1) [OF x(1)] plain_names(2) [OF x(1)] plain_names(3))+
  have "gadgets_of (world_of k h') = fold (build_spec g)
      [Create a, Configure ''configs/c.1'', Add_Function f, Link f l, Bind u] (gadgets_of (world_of k h))"
    by (rule build_all_refines [OF assms(2) x(3) _ assms(7)]) (use plain in simp)
  from arg_cong [OF this, of dirs] arg_cong [OF this, of linked]
  have w: "tree (world_of k h') = [usb_gadget_dir @ g @ ''/'' @ f, usb_gadget_dir @ g @ ''/'' @ ''configs/c.1'',
      usb_gadget_dir @ g] @ tree (world_of k h)"
    "links (world_of k h') = (usb_gadget_dir @ g @ ''/'' @ l, usb_gadget_dir @ g @ ''/'' @ f) # links (world_of k h)"
    by simp_all
  have "\<not> prefix (f @ ''/'') ''configs/c.1''" unfolding f by simp
  from take_down_world [OF assms(1,2) x(3) plain x(4) assms(4) refl this assms(6) w] show ?thesis .
qed

lemma tree_effect:
  assumes "y \<in> set (tree w)" and "\<And>p. c = Rmdir p \<Longrightarrow> resolve (cwd w) p \<noteq> y"
  shows "y \<in> set (tree (effect c r w))"
  using assms by (cases "(c, r, w)" rule: effect.cases) (auto split: option.split simp: in_set_remove1)

lemma replay_calls_keep:
  assumes "y \<in> set (tree w)" and "\<forall>p. Rmdir p \<in> set cs \<longrightarrow> (\<forall>d. resolve d p \<noteq> y)"
  shows "y \<in> set (tree (replay_calls k h w cs))"
  using assms
proof (induction cs arbitrary: h w)
  case Nil
  then show ?case by simp
next
  case (Cons c cs)
  have "y \<in> set (tree (effect c (ret (k h c)) w))"
    by (rule tree_effect [OF Cons.prems(1)]) (use Cons.prems(2) in auto)
  then show ?case using Cons by simp
qed

definition extends :: "string list \<Rightarrow> fs_call list \<Rightarrow> fs_call list \<Rightarrow> bool" where
  "extends ps h h' \<longleftrightarrow> (\<exists>cs. h' = h @ cs \<and> (\<forall>p. Rmdir p \<in> set cs \<longrightarrow> p \<in> set ps))"

lemma extends_trans: "extends ps h h1 \<Longrightarrow> extends ps h1 h2 \<Longrightarrow> extends ps h h2"
  by (force simp: extends_def)

lemma steps_extend:
  "extends ps h (syz_usb_trans5_4 k stack g h)" "extends ps h (syz_usb_trans4_3 k stack g h)"
  "map_of function_names g = Some f \<Longrightarrow> f \<in> set ps \<Longrightarrow> extends ps h (syz_usb_trans3_2 k stack g h)"
  "''configs/c.1'' \<in> set ps \<Longrightarrow> extends ps h (syz_usb_trans2_1 k stack g h)"
  "g \<in> set ps \<Longrightarrow> extends ps h (syz_usb_trans1_0 k stack g h)"
  by (auto simp: extends_def syz_usb_trans5_4_def syz_usb_trans4_3_def syz_usb_trans3_2_def
      syz_usb_trans2_1_def syz_usb_trans1_0_def enter_gadget_def write_file_def stat_dir_def sys_def Let_def
      split: option.split)

lemma take_down_extends:
  assumes "map_of function_names g = Some f" and "{f, ''configs/c.1'', g} \<subseteq> set ps"
  shows "extends ps h (take_down k stack g h)"
proof -
  have in_ps: "f \<in> set ps" "''configs/c.1'' \<in> set ps" "g \<in> set ps" using assms(2) by blast+
  note s = steps_extend(1) [of ps] steps_extend(2) [of ps] steps_extend(3) [OF assms(1) in_ps(1)]
    steps_extend(4) [OF in_ps(2)] steps_extend(5) [OF in_ps(3)]
  show ?thesis
    unfolding take_down_def
    by (rule extends_trans [OF _ s(5)], rule extends_trans [OF _ s(4)], rule extends_trans [OF _ s(3)],
        rule extends_trans [OF _ s(2)], rule s(1))
qed

lemma resolve_ends:
  assumes "resolve d p = u @ q" and "2 \<le> length p" and "2 \<le> length q"
  shows "take 2 (rev p) = take 2 (rev q)"
proof -
  obtain d' where "resolve d p = d' @ p"
    by (metis append_Nil resolve_def)
  then have "rev p @ rev d' = rev q @ rev u" using assms(1) by (metis rev_append)
  then show ?thesis using assms(2,3)
    by (metis (no_types) append_Nil2 diff_is_0_eq' length_rev take0 take_append)
qed

text \<open>
  Taking down the second keyboard leaves its configuration: whatever the file system answers,
  no step removes \<open>configs/c.2\<close>, which building that keyboard made.
\<close>

theorem second_keyboard_stays:
  assumes "usb_gadget_dir @ ''hid2/configs/c.2'' \<in> set (tree (world_of k h))"
  shows "usb_gadget_dir @ ''hid2/configs/c.2'' \<in> set (tree (world_of k (take_down k stack ''hid2'' h)))"
proof -
  let ?ps = "[''functions/hid.1'', ''configs/c.1'', ''hid2'']"
  have "map_of function_names ''hid2'' = Some ''functions/hid.1''" by (simp add: function_names_def)
  then have "extends ?ps h (take_down k stack ''hid2'' h)"
    by (rule take_down_extends) simp
  then obtain cs where cs: "take_down k stack ''hid2'' h = h @ cs" "\<forall>p. Rmdir p \<in> set cs \<longrightarrow> p \<in> set ?ps"
    by (auto simp: extends_def)
  have "resolve d p \<noteq> usb_gadget_dir @ ''hid2/configs/c.2''" if p: "p \<in> set ?ps" for d p
  proof
    assume eq: "resolve d p = usb_gadget_dir @ ''hid2/configs/c.2''"
    from p have "2 \<le> length p" by auto
    from resolve_ends [OF eq this] p show False by auto
  qed
  then show ?thesis using replay_calls_keep [OF assms] cs by simp
qed

section \<open>Witnesses\<close>

text \<open>
  A file system where every call succeeds, and where directories are found once one was made.
\<close>

fun makes_dir :: "fs_call \<Rightarrow> bool" where
  "makes_dir (Mkdir p) = True"
| "makes_dir _ = False"

definition demo_fs :: fs where
  "demo_fs h c = \<lparr>ret = (case c of Open_Here \<Rightarrow> int (length h) | Open_Rdwr p \<Rightarrow> int (length h) | _ \<Rightarrow> 0),
     is_dir = list_ex makes_dir h\<rparr>"

lemma demo_files: "f \<in> fst ` set (files (world_of demo_fs h)) \<Longrightarrow> f < int (length h)"
proof (induction h rule: rev_induct)
  case Nil
  then show ?case by (simp add: world_of_def start_world_def)
next
  case (snoc c h)
  then show ?case
    by (cases c) (force simp: demo_fs_def split: if_splits option.splits)+
qed

lemma demo_tree: "q \<in> set (tree (world_of demo_fs h)) \<Longrightarrow> list_ex makes_dir h"
proof (induction h rule: rev_induct)
  case Nil
  then show ?case by (simp add: world_of_def start_world_def)
next
  case (snoc c h)
  then show ?case
    by (cases c) (auto simp: demo_fs_def split: if_splits option.splits dest: notin_set_remove1)
qed

lemma demo_laws: "removal_laws demo_fs" "fresh_fds demo_fs"
proof -
  show "removal_laws demo_fs"
    using demo_tree by (auto simp: removal_laws_def Let_def demo_fs_def)
  show "fresh_fds demo_fs"
    using demo_files by (fastforce simp: fresh_fds_def demo_fs_def)
qed

definition demo_attr :: configfs_attr where
  "demo_attr = \<lparr>bcdUSB = 0x200, bDeviceClass = 0, idVendor = 0x1d6b, idProduct = 0x104, bcdDevice = 0x100\<rparr>"

definition demo_build :: "build list" where
  "demo_build = [Create demo_attr, Configure ''configs/c.1'', Add_Function ''functions/hid.0'',
     Link ''functions/hid.0'' ''configs/c.1/hid.0'', Bind ''dummy_udc.0'']"

lemma demo_sys:
  "ret (demo_fs h (Chdir p)) = 0" "ret (demo_fs h (Mkdir p)) = 0" "ret (demo_fs h (Stat p)) = 0"
  "ret (demo_fs h (Write_Fd fd b)) = 0" "ret (demo_fs h (Symlinkat t fd p)) = 0"
  "ret (demo_fs h Open_Here) = int (length h)" "ret (demo_fs h (Open_Rdwr p)) = int (length h)"
  "is_dir (demo_fs h c) = list_ex makes_dir h"
  by (simp_all add: demo_fs_def)

lemmas build_defs = syz_usb_trans0_1_def syz_usb_trans1_2_def syz_usb_trans2_3_def make_in_def
  syz_usb_trans3_4_def syz_usb_trans4_5_def configfs_set_descs_eq sys_def stat_dir_def Let_def

lemma demo_created:
  "\<exists>h. build_call demo_fs False ''hid'' (Create demo_attr) [] = Some (0, h)"
  by (simp add: build_defs demo_sys)

lemma demo_step:
  "\<exists>h'. build_call demo_fs False ''hid'' (Configure ''configs/c.1'') h = Some (0, h')"
  "\<exists>h'. build_call demo_fs False ''hid'' (Add_Function f) h = Some (0, h')"
  "\<exists>h'. build_call demo_fs False ''hid'' (Link f l) h = Some (0, h')"
  "\<exists>h'. build_call demo_fs False ''hid'' (Bind u) h = Some (0, h')"
  by (simp_all add: build_defs demo_sys gpath_def print_to_def)

lemma demo_built: "\<exists>h. build_all demo_fs False ''hid'' demo_build [] = Some h"
proof -
  obtain h1 where 1: "build_call demo_fs False ''hid'' (Create demo_attr) [] = Some (0, h1)"
    using demo_created by blast
  obtain h2 where 2: "build_call demo_fs False ''hid'' (Configure ''configs/c.1'') h1 = Some (0, h2)"
    using demo_step(1) by blast
  obtain h3 where 3: "build_call demo_fs False ''hid'' (Add_Function ''functions/hid.0'') h2 = Some (0, h3)"
    using demo_step(2) by blast
  obtain h4 where 4: "build_call demo_fs False ''hid'' (Link ''functions/hid.0'' ''configs/c.1/hid.0'') h3
      = Some (0, h4)"
    using demo_step(3) by blast
  obtain h5 where 5: "build_call demo_fs False ''hid'' (Bind ''dummy_udc.0'') h4 = Some (0, h5)"
    using demo_step(4) by blast
  show ?thesis
    unfolding demo_build_def build_all.simps 1 2 3 4 5 Option.bind.simps split_conv by simp
qed

theorem take_down_undoes_build_witness:
  "\<exists>h. build_all demo_fs False ''hid'' demo_build [] = Some h
    \<and> tree (world_of demo_fs (take_down demo_fs False ''hid'' h)) = []"
proof -
  obtain h where h: "build_all demo_fs False ''hid'' demo_build [] = Some h"
    using demo_built by blast
  have "(''hid'', ''configs/c.1/hid.0'') \<in> set link_names"
    "map_of function_names ''hid'' = Some ''functions/hid.0''" "absent ''hid'' (world_of demo_fs [])"
    by (simp_all add: link_names_def function_names_def absent_def world_of_def start_world_def)
  from take_down_undoes_build [OF demo_laws this(1,2) _ this(3) h [unfolded demo_build_def]]
  have "tree (world_of demo_fs (take_down demo_fs False ''hid'' h)) = tree (world_of demo_fs [])" by simp
  also have "\<dots> = []" by (simp add: world_of_def start_world_def)
  finally show ?thesis using h by blast
qed

theorem build_call_refines_witness:
  "\<exists>h. build_call demo_fs False ''hid'' (Create demo_attr) [] = Some (0, h)
    \<and> gadgets_of (world_of demo_fs h)
      = build_spec ''hid'' (Create demo_attr) (gadgets_of (world_of demo_fs []))"
proof -
  obtain h where h: "build_call demo_fs False ''hid'' (Create demo_attr) [] = Some (0, h)"
    using demo_created by blast
  have "plain ''hid''" by (simp add: plain_def)
  from build_call_refines [OF demo_laws(2) this _ h] h show ?thesis by simp
qed

text \<open>A file system where making a link fails.\<close>

definition no_links_fs :: fs where
  "no_links_fs h c = \<lparr>ret = (case c of Symlinkat t fd l \<Rightarrow> - 1 | Open_Here \<Rightarrow> int (length h)
     | Open_Rdwr p \<Rightarrow> int (length h) | _ \<Rightarrow> 0), is_dir = False\<rparr>"

lemma no_links_files: "f \<in> fst ` set (files (world_of no_links_fs h)) \<Longrightarrow> f < int (length h)"
proof (induction h rule: rev_induct)
  case Nil
  then show ?case by (simp add: world_of_def start_world_def)
next
  case (snoc c h)
  then show ?case
    by (cases c) (force simp: no_links_fs_def split: if_splits option.splits)+
qed

theorem link_and_bind_leak_witness:
  "\<exists>h. syz_usb_trans3_4 no_links_fs ''hid'' ''functions/hid.0'' ''configs/c.1/hid.0'' [] = Some (- 1, h)
    \<and> map fst (files (world_of no_links_fs [])) = [] \<and> map fst (files (world_of no_links_fs h)) = [1]"
proof -
  have fresh: "fresh_fds no_links_fs"
    using no_links_files by (fastforce simp: fresh_fds_def no_links_fs_def)
  have "syz_usb_trans3_4 no_links_fs ''hid'' ''functions/hid.0'' ''configs/c.1/hid.0'' []
    = Some (- 1, [Chdir (usb_gadget_dir @ ''hid''), Open_Here,
        Symlinkat ''functions/hid.0'' 1 ''configs/c.1/hid.0''])"
    by code_simp
  moreover have "map fst (files (world_of no_links_fs [])) = []" by (simp add: world_of_def start_world_def)
  ultimately show ?thesis
    using link_and_bind_leak [OF fresh disjI1, of "''hid''" "''functions/hid.0''" "''configs/c.1/hid.0''" "[]" "- 1"]
    by simp
qed

theorem second_keyboard_stays_witness:
  "\<exists>h. build_call demo_fs False ''hid2'' (Configure ''configs/c.2'') [] = Some (0, h)
    \<and> usb_gadget_dir @ ''hid2/configs/c.2'' \<in> set (tree (world_of demo_fs (take_down demo_fs False ''hid2'' h)))"
proof -
  let ?h = "[Chdir (usb_gadget_dir @ ''hid2''), Mkdir ''configs/c.2'']"
  have h: "build_call demo_fs False ''hid2'' (Configure ''configs/c.2'') [] = Some (0, ?h)"
    by (simp add: build_defs demo_sys gpath_def print_to_def)
  have "plain ''hid2''" "plain ''configs/c.2''" by (simp_all add: plain_def)
  then have "usb_gadget_dir @ ''hid2/configs/c.2'' \<in> set (tree (world_of demo_fs ?h))"
    by (simp add: world_of_def demo_sys)
  from second_keyboard_stays [OF this] h show ?thesis by blast
qed

end
