(* ===== verification/Usbtest_Core.thy ===== *)
theory Usbtest_Core
  imports Usb_Defs
begin

unbundle bit_operations_syntax

text \<open>
  The host-side test driver of the fuzzer (usbtest.c, lines 14 to 375): its device structures,
  what it asks of the USB core, and how it finds the endpoints to test.
\<close>

section \<open>Devices and interfaces\<close>

record host_interface =
  alt_bInterfaceNumber :: u8
  alt_bAlternateSetting :: u8
  endpoint :: "usb_host_endpoint list"

text \<open>
  A device as the driver sees it; \<open>pipe_ep\<close> is the core's table of enabled endpoints, \<open>bos\<close> the
  length of its set of capabilities where it has one.
\<close>

record usb_device =
  devnum :: u8
  dev_speed :: usb_device_speed
  dev_bMaxPacketSize0 :: u8
  dev_bcdUSB :: u16
  dev_idVendor :: u16
  dev_idProduct :: u16
  dev_bNumConfigurations :: u8
  act_bConfigurationValue :: u8
  bos_wTotalLength :: "u16 option"
  pipe_ep :: "u32 \<Rightarrow> usb_host_endpoint option"

text \<open>Pipe values (usb.h), from their parts.\<close>

definition create_pipe :: "usb_device \<Rightarrow> u8 \<Rightarrow> u32" where
  "create_pipe udev n = push_bit 8 (ucast (devnum udev)) OR push_bit 15 (ucast n)"

definition usb_rcvbulkpipe :: "usb_device \<Rightarrow> u8 \<Rightarrow> u32" where
  "usb_rcvbulkpipe udev n = 0xC0000000 OR create_pipe udev n OR 0x80"

definition usb_sndbulkpipe :: "usb_device \<Rightarrow> u8 \<Rightarrow> u32" where
  "usb_sndbulkpipe udev n = 0xC0000000 OR create_pipe udev n"

definition usb_rcvisocpipe :: "usb_device \<Rightarrow> u8 \<Rightarrow> u32" where
  "usb_rcvisocpipe udev n = create_pipe udev n OR 0x80"

definition usb_sndisocpipe :: "usb_device \<Rightarrow> u8 \<Rightarrow> u32" where
  "usb_sndisocpipe udev n = create_pipe udev n"

definition usb_rcvintpipe :: "usb_device \<Rightarrow> u8 \<Rightarrow> u32" where
  "usb_rcvintpipe udev n = 0x40000000 OR create_pipe udev n OR 0x80"

definition usb_sndintpipe :: "usb_device \<Rightarrow> u8 \<Rightarrow> u32" where
  "usb_sndintpipe udev n = 0x40000000 OR create_pipe udev n"

definition usb_rcvctrlpipe :: "usb_device \<Rightarrow> u8 \<Rightarrow> u32" where
  "usb_rcvctrlpipe udev n = 0x80000000 OR create_pipe udev n OR 0x80"

definition usb_sndctrlpipe :: "usb_device \<Rightarrow> u8 \<Rightarrow> u32" where
  "usb_sndctrlpipe udev n = 0x80000000 OR create_pipe udev n"

section \<open>Calls to the core\<close>

text \<open>
  What the driver asks of the USB core and of the allocator, and their answers, which may depend
  on all calls before. An urb is submitted with its pipe, the offset and length of its buffer, and
  its memory; waiting for it tells whether it completed in time, its status, its actual length and
  what its memory holds then, the guard bytes before its buffer included. Urbs of a queue are
  known by their position in it; polling tells whether an urb has come back by now.
\<close>

datatype core_call =
    Alloc nat
  | Alloc_Urb
  | Free_Urb
  | Submit u32 nat nat "u8 list"
  | Wait
  | Kill
  | Unlink nat
  | Queue nat u32 nat nat "u8 list"
  | Queue_Control nat u32 usb_ctrlrequest "u8 list"
  | Poll
  | Control_Msg u32 u8 u8 u16 u16 "u8 list" nat
  | Set_Interface u8 u8
  | Set_Any_Interface u32 u32
  | Lock
  | Get_Descriptor u8 nat nat
  | Get_Std_Status u8 u16
  | Clear_Halt u32
  | Sg_Init u32 "u8 list list"
  | Sg_Wait
  | Copy_From_User nat

record core_reply =
  rc :: int
  in_time :: bool
  status :: int
  actual :: nat
  mem :: "u8 list"

type_synonym core = "core_call list \<Rightarrow> core_call \<Rightarrow> core_reply"

section \<open>The driver's state\<close>

record usbtest_info =
  ep_in :: u8
  ep_out :: u8
  autoconf :: bool
  info_ctrl_out :: bool
  iso :: bool
  intr :: bool
  alt :: int
  need_fix_alt :: bool
  fix_alt_intf0 :: int
  fix_alt_intf1 :: int
  fix_alt_intf2 :: int
  info_out_iso_pipe :: u32
  info_in_iso_pipe :: u32
  info_out_bulk_pipe :: u32
  info_in_bulk_pipe :: u32
  info_out_int_pipe :: u32
  info_in_int_pipe :: u32
  info_iso_in :: "usb_endpoint_descriptor option"
  info_iso_out :: "usb_endpoint_descriptor option"
  info_int_in :: "usb_endpoint_descriptor option"
  info_int_out :: "usb_endpoint_descriptor option"

abbreviation (input) TBUF_SIZE :: nat where "TBUF_SIZE \<equiv> 256"

text \<open>The pointer to the static information is its position in their table.\<close>

record usbtest_dev =
  dev_info :: nat
  in_pipe :: u32
  out_pipe :: u32
  in_iso_pipe :: u32
  out_iso_pipe :: u32
  in_int_pipe :: u32
  out_int_pipe :: u32
  iso_in :: "usb_endpoint_descriptor option"
  iso_out :: "usb_endpoint_descriptor option"
  int_in :: "usb_endpoint_descriptor option"
  int_out :: "usb_endpoint_descriptor option"
  buf :: "u8 list"
  host_data :: "u8 list option"

text \<open>
  The state of the module as one test sees it: the calls made, the pattern of the data, the
  static table of device information, which all devices share, and the device under test.
\<close>

record tester =
  asked :: "core_call list"
  pattern :: u32
  infos :: "usbtest_info list"
  dev :: usbtest_dev

text \<open>What does not change during a test: the core, the device, the interface, the parameters.\<close>

record rig =
  core :: core
  udev :: usb_device
  altsettings :: "host_interface list"
  override_alt :: int
  mod_pattern :: u32
  realworld :: bool
  force_interrupt :: bool

definition ask :: "rig \<Rightarrow> core_call \<Rightarrow> tester \<Rightarrow> core_reply \<times> tester" where
  "ask g c s = (core g (asked s) c, s\<lparr>asked := asked s @ [c]\<rparr>)"

definition info_of :: "tester \<Rightarrow> usbtest_info" where
  "info_of s = infos s ! dev_info (dev s)"

definition upd_info :: "(usbtest_info \<Rightarrow> usbtest_info) \<Rightarrow> tester \<Rightarrow> tester" where
  "upd_info f s = s\<lparr>infos := (infos s)[dev_info (dev s) := f (info_of s)]\<rparr>"

definition upd_dev :: "(usbtest_dev \<Rightarrow> usbtest_dev) \<Rightarrow> tester \<Rightarrow> tester" where
  "upd_dev f s = s\<lparr>dev := f (dev s)\<rparr>"

section \<open>Finding endpoints\<close>

record found =
  f_in :: "usb_host_endpoint option"
  f_out :: "usb_host_endpoint option"
  f_iso_in :: "usb_host_endpoint option"
  f_iso_out :: "usb_host_endpoint option"
  f_int_in :: "usb_host_endpoint option"
  f_int_out :: "usb_host_endpoint option"

definition nothing_found :: found where
  "nothing_found = \<lparr>f_in = None, f_out = None, f_iso_in = None, f_iso_out = None, f_int_in = None,
     f_int_out = None\<rparr>"

definition endpoint_update ::
  "bool \<Rightarrow> usb_host_endpoint option \<Rightarrow> usb_host_endpoint option \<Rightarrow> usb_host_endpoint
     \<Rightarrow> usb_host_endpoint option \<times> usb_host_endpoint option" where
  "endpoint_update edi inp out e =
     (if edi then (if inp = None then Some e else inp, out)
      else (inp, if out = None then Some e else out))"

definition scan_endpoint :: "usbtest_info \<Rightarrow> usb_host_endpoint \<Rightarrow> found \<Rightarrow> found" where
  "scan_endpoint info e f =
     (let edi = usb_endpoint_dir_in (he_desc e) in
      case usb_endpoint_type (he_desc e) of
        USB_ENDPOINT_XFER_BULK \<Rightarrow>
          (let (a, b) = endpoint_update edi (f_in f) (f_out f) e in f\<lparr>f_in := a, f_out := b\<rparr>)
      | USB_ENDPOINT_XFER_INT \<Rightarrow>
          if intr info
          then (let (a, b) = endpoint_update edi (f_int_in f) (f_int_out f) e
                in f\<lparr>f_int_in := a, f_int_out := b\<rparr>)
          else f
      | USB_ENDPOINT_XFER_ISOC \<Rightarrow>
          if iso info
          then (let (a, b) = endpoint_update edi (f_iso_in f) (f_iso_out f) e
                in f\<lparr>f_iso_in := a, f_iso_out := b\<rparr>)
          else f
      | _ \<Rightarrow> f)"

definition scan_alt :: "usbtest_info \<Rightarrow> host_interface \<Rightarrow> found" where
  "scan_alt info a = fold (scan_endpoint info) (endpoint a) nothing_found"

definition enough :: "found \<Rightarrow> bool" where
  "enough f \<longleftrightarrow> (f_in f \<noteq> None \<and> f_out f \<noteq> None) \<or> f_iso_in f \<noteq> None \<or> f_iso_out f \<noteq> None
     \<or> f_int_in f \<noteq> None \<or> f_int_out f \<noteq> None"

definition endpoint_number :: "usb_host_endpoint \<Rightarrow> u8" where
  "endpoint_number e = bEndpointAddress (he_desc e) AND 0x0f"

definition take_endpoints :: "usb_device \<Rightarrow> found \<Rightarrow> usbtest_dev \<Rightarrow> usbtest_dev" where
  "take_endpoints u f d =
     (let d = (case f_in f of None \<Rightarrow> d | Some e \<Rightarrow> d\<lparr>in_pipe := usb_rcvbulkpipe u (endpoint_number e)\<rparr>);
          d = (case f_out f of None \<Rightarrow> d | Some e \<Rightarrow> d\<lparr>out_pipe := usb_sndbulkpipe u (endpoint_number e)\<rparr>);
          d = (case f_iso_in f of None \<Rightarrow> d
               | Some e \<Rightarrow> d\<lparr>iso_in := Some (he_desc e), in_iso_pipe := usb_rcvisocpipe u (endpoint_number e)\<rparr>);
          d = (case f_iso_out f of None \<Rightarrow> d
               | Some e \<Rightarrow> d\<lparr>iso_out := Some (he_desc e), out_iso_pipe := usb_sndisocpipe u (endpoint_number e)\<rparr>);
          d = (case f_int_in f of None \<Rightarrow> d
               | Some e \<Rightarrow> d\<lparr>int_in := Some (he_desc e), in_int_pipe := usb_rcvintpipe u (endpoint_number e)\<rparr>)
      in (case f_int_out f of None \<Rightarrow> d
          | Some e \<Rightarrow> d\<lparr>int_out := Some (he_desc e), out_int_pipe := usb_sndintpipe u (endpoint_number e)\<rparr>))"

text \<open>The fuzzer's variant records what it found in the static information as well.\<close>

definition share_endpoints :: "found \<Rightarrow> usbtest_dev \<Rightarrow> usbtest_info \<Rightarrow> usbtest_info" where
  "share_endpoints f d i =
     (let i = (if f_in f = None then i else i\<lparr>info_in_bulk_pipe := in_pipe d\<rparr>);
          i = (if f_out f = None then i else i\<lparr>info_out_bulk_pipe := out_pipe d\<rparr>);
          i = (if f_iso_in f = None then i
               else i\<lparr>info_in_iso_pipe := in_iso_pipe d, info_iso_in := iso_in d\<rparr>);
          i = (if f_iso_out f = None then i
               else i\<lparr>info_out_iso_pipe := out_iso_pipe d, info_iso_out := iso_out d\<rparr>);
          i = (if f_int_in f = None then i
               else i\<lparr>info_in_int_pipe := in_int_pipe d, info_int_in := int_in d\<rparr>)
      in (if f_int_out f = None then i
          else i\<lparr>info_out_int_pipe := out_int_pipe d, info_int_out := int_out d\<rparr>))"

definition select_alt :: "rig \<Rightarrow> host_interface \<Rightarrow> tester \<Rightarrow> int \<times> tester" where
  "select_alt g a s =
     (if alt_bAlternateSetting a \<noteq> 0
      then (let (r, s) = ask g (Set_Interface (alt_bInterfaceNumber a) (alt_bAlternateSetting a)) s
            in (rc r, s))
      else (0, s))"

definition fz_get_endpoints :: "rig \<Rightarrow> int \<Rightarrow> tester \<Rightarrow> int \<times> tester" where
  "fz_get_endpoints g fix_alt s =
     (let alts = altsettings g; info = info_of s in
      case List.find (\<lambda>i. int i = fix_alt \<and> enough (scan_alt info (alts ! i))) [0..<length alts] of
        None \<Rightarrow> (0, s)
      | Some i \<Rightarrow>
          (let (r, s) = select_alt g (alts ! i) s; f = scan_alt info (alts ! i) in
           if r < 0 then (r, s)
           else let s = upd_dev (take_endpoints (udev g) f) s
                in (0, upd_info (share_endpoints f (dev s)) s)))"

definition get_endpoints :: "rig \<Rightarrow> tester \<Rightarrow> int \<times> tester" where
  "get_endpoints g s =
     (let alts = altsettings g; info = info_of s in
      case List.find (\<lambda>i. (override_alt g < 0 \<or> override_alt g = int (unat (alt_bAlternateSetting (alts ! i))))
             \<and> enough (scan_alt info (alts ! i))) [0..<length alts] of
        None \<Rightarrow> (0, s)
      | Some i \<Rightarrow>
          (let s = upd_info (\<lambda>x. x\<lparr>alt := int (unat (alt_bAlternateSetting (alts ! i)))\<rparr>) s;
               (r, s) = select_alt g (alts ! i) s in
           if r < 0 then (r, s)
           else (0, upd_dev (take_endpoints (udev g) (scan_alt info (alts ! i))) s)))"

end
