(* ===== verification/Usbtest_Io.thy ===== *)
theory Usbtest_Io
  imports Usbtest_Core "HOL-Library.Signed_Division"
begin

unbundle bit_operations_syntax

text \<open>
  Transfers of the test driver (usbtest.c, lines 377 to 790): allocating and filling buffers,
  checking what came back, repeating a transfer with varying lengths, and scatter-gather lists.
\<close>

section \<open>Transfers\<close>

abbreviation (input) GUARD_BYTE :: u8 where "GUARD_BYTE \<equiv> 0xA5"
abbreviation (input) EREMOTEIO :: int where "EREMOTEIO \<equiv> 121"
abbreviation (input) SIMPLE_IO_TIMEOUT :: nat where "SIMPLE_IO_TIMEOUT \<equiv> 10000"

text \<open>
  An urb of the driver. Its memory is the whole allocation; the buffer starts at the offset, and
  the bytes before it are the guard. The lengths are those of the C fields.
\<close>

record turb =
  t_pipe :: u32
  t_mem :: "u8 list"
  t_off :: nat
  t_len :: u32
  t_interval :: int
  t_dma_mapped :: bool
  t_short_not_ok :: bool
  t_zero_packet :: bool
  t_status :: int
  t_actual :: nat

text \<open>The allocations of the urb and of its buffer may fail.\<close>

definition usbtest_alloc_urb ::
  "rig \<Rightarrow> u32 \<Rightarrow> nat \<Rightarrow> bool \<Rightarrow> nat \<Rightarrow> tester \<Rightarrow> turb option \<times> tester" where
  "usbtest_alloc_urb g pipe bytes dma_map offset s =
     (let (r, s) = ask g Alloc_Urb s;
          u = \<lparr>t_pipe = pipe, t_mem = [], t_off = 0, t_len = of_nat bytes,
                t_interval = (if dev_speed (udev g) = USB_SPEED_HIGH then 8 else 1),
                t_dma_mapped = dma_map, t_short_not_ok = usb_pipein pipe, t_zero_packet = False,
                t_status = 0, t_actual = 0\<rparr>
      in if rc r \<noteq> 0 then (None, s)
         else if bytes + offset = 0 then (Some u, s)
         else let (r, s) = ask g (Alloc (bytes + offset)) s in
           if rc r \<noteq> 0 then (None, snd (ask g Free_Urb s))
           else (Some (u\<lparr>t_off := offset,
                   t_mem := replicate offset GUARD_BYTE
                     @ replicate bytes (if usb_pipein pipe then GUARD_BYTE else 0)\<rparr>), s))"

definition simple_alloc_urb :: "rig \<Rightarrow> u32 \<Rightarrow> nat \<Rightarrow> tester \<Rightarrow> turb option \<times> tester" where
  "simple_alloc_urb g pipe bytes s = usbtest_alloc_urb g pipe bytes True 0 s"

definition complicated_alloc_urb :: "rig \<Rightarrow> u32 \<Rightarrow> nat \<Rightarrow> tester \<Rightarrow> turb option \<times> tester" where
  "complicated_alloc_urb g pipe bytes s = usbtest_alloc_urb g pipe bytes True 0 s"

text \<open>A pipe without an endpoint is a null pointer (\<open>None\<close>).\<close>

definition get_maxpacket :: "usb_device \<Rightarrow> u32 \<Rightarrow> nat option" where
  "get_maxpacket u pipe = map_option (\<lambda>e. unat (wMaxPacketSize (he_desc e))) (pipe_ep u pipe)"

definition ss_isoc_get_packet_num :: "usb_device \<Rightarrow> u32 \<Rightarrow> nat option" where
  "ss_isoc_get_packet_num u pipe =
     map_option (\<lambda>e. (1 + unat (ss_bmAttributes (he_ss_ep_comp e) AND 3))
       * (1 + unat (bMaxBurst (he_ss_ep_comp e)))) (pipe_ep u pipe)"

text \<open>Writing a buffer: outside of its memory it is undefined.\<close>

definition put_buffer :: "turb \<Rightarrow> u8 list \<Rightarrow> turb option" where
  "put_buffer u bytes =
     map_option (\<lambda>m. u\<lparr>t_mem := m\<rparr>) (memcpy (t_mem u) (t_off u) bytes 0 (length bytes))"

definition fz_simple_fill_buf :: "rig \<Rightarrow> turb \<Rightarrow> u8 list \<Rightarrow> turb option" where
  "fz_simple_fill_buf g u src =
     do {
       u \<leftarrow> put_buffer u (replicate (unat (t_len u)) 0);
       _ \<leftarrow> get_maxpacket (udev g) (t_pipe u);
       m \<leftarrow> memcpy (t_mem u) (t_off u) src 0 (unat (t_len u));
       Some (u\<lparr>t_mem := m\<rparr>)
     }"

text \<open>The byte of the pattern at a position.\<close>

definition mod63 :: "nat \<Rightarrow> nat \<Rightarrow> u8" where
  "mod63 maxp i = of_nat ((i mod maxp) mod 63)"

definition simple_fill_buf :: "rig \<Rightarrow> turb \<Rightarrow> tester \<Rightarrow> turb option" where
  "simple_fill_buf g u s =
     (if pattern s = 1 then do {
        maxp \<leftarrow> get_maxpacket (udev g) (t_pipe u);
        if maxp = 0 \<and> 0 < unat (t_len u) then None
        else put_buffer u (map (mod63 maxp) [0..<unat (t_len u)])
      } else put_buffer u (replicate (unat (t_len u)) 0))"

text \<open>
  The guard lies between the buffer and the aligned address below it; allocations are aligned, so
  that is the offset.
\<close>

definition check_guard_bytes :: "turb \<Rightarrow> int" where
  "check_guard_bytes u = (if list_all (\<lambda>b. b = GUARD_BYTE) (take (t_off u) (t_mem u)) then 0 else - EINVAL)"

fun check_bytes :: "u32 \<Rightarrow> nat \<Rightarrow> nat \<Rightarrow> nat \<Rightarrow> u8 list \<Rightarrow> int option" where
  "check_bytes pat maxp i 0 bs = Some 0"
| "check_bytes pat maxp i (Suc n) [] = None"
| "check_bytes pat maxp i (Suc n) (b # bs) =
     (if pat = 1 \<and> maxp = 0 then None
      else let expected = (if pat = 0 then 0 else if pat = 1 then mod63 maxp i else if b = 0 then 1 else 0)
           in if b = expected then check_bytes pat maxp (i + 1) n bs else Some (- EINVAL))"

definition simple_check_buf :: "rig \<Rightarrow> turb \<Rightarrow> tester \<Rightarrow> int option" where
  "simple_check_buf g u s =
     do {
       maxp \<leftarrow> get_maxpacket (udev g) (t_pipe u);
       if check_guard_bytes u \<noteq> 0 then Some (check_guard_bytes u)
       else check_bytes (pattern s) maxp 0 (t_actual u) (drop (t_off u) (t_mem u))
     }"

definition simple_free_urb :: "rig \<Rightarrow> turb \<Rightarrow> tester \<Rightarrow> tester" where
  "simple_free_urb g u s = snd (ask g Free_Urb s)"

section \<open>Simple input and output\<close>

text \<open>
  The next length: C's signed arithmetic of 32 bits, with the remainder rounded towards zero;
  a division by zero is undefined.
\<close>

definition vary_length :: "int \<Rightarrow> int \<Rightarrow> int \<Rightarrow> int option" where
  "vary_length vary maxlen len =
     (if maxlen = 0 then None
      else let l = sint (word_of_int (len + vary) :: u32) smod maxlen
           in Some (if l = 0 then (if vary < maxlen then vary else maxlen) else l))"

text \<open>One transfer: its result, the urb afterwards, and whether submitting failed, which ends the loop.\<close>

definition io_result :: "core_reply \<Rightarrow> turb \<Rightarrow> turb" where
  "io_result r u = u\<lparr>t_status := status r, t_actual := actual r, t_mem := mem r\<rparr>"

definition fill_for_output :: "rig \<Rightarrow> turb \<Rightarrow> tester \<Rightarrow> turb option" where
  "fill_for_output g u s =
     (if usb_pipeout (t_pipe u)
      then map_option (\<lambda>u. u\<lparr>t_zero_packet := True\<rparr>)
             (case host_data (dev s) of
                Some d \<Rightarrow> fz_simple_fill_buf g u d
              | None \<Rightarrow> simple_fill_buf g u s)
      else Some u)"

definition wait_for_io :: "rig \<Rightarrow> turb \<Rightarrow> tester \<Rightarrow> int \<times> turb \<times> tester" where
  "wait_for_io g u s =
     (let (r, s) = ask g Wait s in
      if in_time r then (status r, io_result r u, s)
      else let (r, s) = ask g Kill s
           in (if status r = - ENOENT then - ETIMEDOUT else status r, io_result r u, s))"

definition io_once :: "rig \<Rightarrow> turb \<Rightarrow> tester \<Rightarrow> (bool \<times> int \<times> turb \<times> tester) option" where
  "io_once g u s =
     do {
       u \<leftarrow> fill_for_output g u s;
       let (r, s) = ask g (Submit (t_pipe u) (t_off u) (unat (t_len u)) (t_mem u)) s;
       if rc r \<noteq> 0 then Some (True, rc r, u, s)
       else do {
         let (retval, u, s) = wait_for_io g u s;
         retval \<leftarrow> (if retval = 0 \<and> usb_pipein (t_pipe u) then simple_check_buf g u s else Some retval);
         Some (False, retval, u, s)
       }
     }"

primrec io_loop ::
  "rig \<Rightarrow> nat \<Rightarrow> int \<Rightarrow> int \<Rightarrow> turb \<Rightarrow> tester \<Rightarrow> (int \<times> turb \<times> tester) option" where
  "io_loop g 0 vary maxlen u s = Some (0, u, s)"
| "io_loop g (Suc n) vary maxlen u s =
     do {
       (broken, retval, u, s) \<leftarrow> io_once g u s;
       if broken then Some (retval, u, s)
       else do {
         u \<leftarrow> (if vary = 0 then Some u
               else map_option (\<lambda>l. u\<lparr>t_len := word_of_int l\<rparr>) (vary_length vary maxlen (sint (t_len u))));
         if retval = 0 then io_loop g n vary maxlen u s else Some (retval, u, s)
       }
     }"

text \<open>
  The iterations are a signed integer, of which the callers pass an unsigned one: none is made
  when it is negative. The expected result is only for a log message.
\<close>

definition simple_io ::
  "rig \<Rightarrow> turb \<Rightarrow> u32 \<Rightarrow> u32 \<Rightarrow> tester \<Rightarrow> (int \<times> turb \<times> tester) option" where
  "simple_io g u iterations vary s =
     do {
       let maxlen = sint (t_len u);
       (retval, u, s) \<leftarrow> io_loop g (nat (sint iterations)) (sint vary) maxlen u s;
       Some (retval, u\<lparr>t_len := word_of_int maxlen\<rparr>, s)
     }"

section \<open>Scatter-gather lists\<close>

definition vary_size :: "u32 \<Rightarrow> u32 \<Rightarrow> u32 \<Rightarrow> u32" where
  "vary_size vary maxlen size' =
     (let l = (size' + vary) mod maxlen
      in if l = 0 then (if sint vary < sint maxlen then vary else maxlen) else l)"

text \<open>
  The pieces of the list, until an allocation fails; the pattern goes on from piece to piece by
  \<open>n_size\<close>.
\<close>

primrec fill_sglist ::
  "rig \<Rightarrow> nat \<Rightarrow> u32 \<Rightarrow> u32 \<Rightarrow> nat \<Rightarrow> u32 \<Rightarrow> u32 \<Rightarrow> tester \<Rightarrow> (u8 list list option \<times> tester) option" where
  "fill_sglist g 0 vary maxlen maxp size' n_size s = Some (Some [], s)"
| "fill_sglist g (Suc n) vary maxlen maxp size' n_size s =
     (let (r, s) = ask g (Alloc (unat size')) s in
      if rc r \<noteq> 0 then Some (None, s)
      else if pattern s = 1 \<and> maxp = 0 \<and> 0 < unat size' then None
      else let piece = (if pattern s = 1
                        then map (\<lambda>j. mod63 maxp (unat (of_nat j + n_size))) [0..<unat size']
                        else replicate (unat size') 0);
               n_size = (if pattern s = 1 then n_size + size' else n_size);
               next_size = (if vary \<noteq> 0 then vary_size vary maxlen size' else size')
           in do {
             (rest, s) \<leftarrow> fill_sglist g n vary maxlen maxp next_size n_size s;
             Some (map_option ((#) piece) rest, s)
           })"

definition alloc_sglist ::
  "rig \<Rightarrow> nat \<Rightarrow> u32 \<Rightarrow> u32 \<Rightarrow> u32 \<Rightarrow> tester \<Rightarrow> (u8 list list option \<times> tester) option" where
  "alloc_sglist g nents maxlen vary pipe s =
     do {
       maxp \<leftarrow> get_maxpacket (udev g) pipe;
       if maxlen = 0 then Some (None, s)
       else let (r, s) = ask g (Alloc (32 * nents)) s in
         if rc r \<noteq> 0 then Some (None, s)
         else fill_sglist g nents vary maxlen maxp maxlen 0 s
     }"

primrec sg_rounds :: "rig \<Rightarrow> nat \<Rightarrow> u32 \<Rightarrow> u8 list list \<Rightarrow> tester \<Rightarrow> int \<times> tester" where
  "sg_rounds g 0 pipe sg s = (0, s)"
| "sg_rounds g (Suc n) pipe sg s =
     (let (r, s) = ask g (Sg_Init pipe sg) s in
      if rc r \<noteq> 0 then (rc r, s)
      else let (r, s) = ask g Sg_Wait s;
               retval = (if in_time r then status r else - ETIMEDOUT)
           in if retval = 0 then sg_rounds g n pipe sg s else (retval, s))"

definition perform_sglist :: "rig \<Rightarrow> u32 \<Rightarrow> u32 \<Rightarrow> u8 list list \<Rightarrow> tester \<Rightarrow> int \<times> tester" where
  "perform_sglist g iterations pipe sg s = sg_rounds g (unat iterations) pipe sg s"

section \<open>The pattern\<close>

lemma check_bytes_iff:
  assumes "pat = 0 \<or> pat = 1 \<and> 0 < maxp" and "n \<le> length bs"
  shows "check_bytes pat maxp i n bs = Some (if \<forall>j < n. bs ! j = (if pat = 0 then 0 else mod63 maxp (i + j))
    then 0 else - EINVAL)"
  using assms(2)
proof (induction n arbitrary: i bs)
  case 0
  then show ?case by simp
next
  case (Suc n)
  then obtain b bs' where bs: "bs = b # bs'" by (cases bs) auto
  have "(\<forall>j < Suc n. bs ! j = (if pat = 0 then 0 else mod63 maxp (i + j)))
    \<longleftrightarrow> b = (if pat = 0 then 0 else mod63 maxp i)
      \<and> (\<forall>j < n. bs' ! j = (if pat = 0 then 0 else mod63 maxp (i + 1 + j)))"
    by (auto simp: bs less_Suc_eq_0_disj)
  then show ?case
    using Suc.IH [of bs' "i + 1"] Suc.prems assms(1) by (auto simp: bs)
qed

definition pattern_bytes :: "u32 \<Rightarrow> nat \<Rightarrow> nat \<Rightarrow> u8 list" where
  "pattern_bytes pat maxp n = (if pat = 1 then map (mod63 maxp) [0..<n] else replicate n 0)"

lemma pattern_bytes_length [simp]: "length (pattern_bytes pat maxp n) = n"
  by (simp add: pattern_bytes_def)

lemma pattern_bytes_nth:
  "j < n \<Longrightarrow> pattern_bytes pat maxp n ! j = (if pat = 1 then mod63 maxp j else 0)"
  by (simp add: pattern_bytes_def)

definition buffer :: "turb \<Rightarrow> u8 list" where
  "buffer u = drop (t_off u) (t_mem u)"

definition urb_ok :: "nat \<Rightarrow> turb \<Rightarrow> bool" where
  "urb_ok m u \<longleftrightarrow> length (t_mem u) = t_off u + m"

lemma put_buffer_ok:
  assumes "urb_ok m u" and "length bs \<le> m"
  obtains u' where "put_buffer u bs = Some u'" "urb_ok m u'" "t_len u' = t_len u" "t_pipe u' = t_pipe u"
    "take (length bs) (buffer u') = bs" "t_off u' = t_off u" "take (t_off u) (t_mem u') = take (t_off u) (t_mem u)"
proof -
  have fits: "t_off u + length bs \<le> length (t_mem u) \<and> 0 + length bs \<le> length bs"
    using assms by (simp add: urb_ok_def)
  let ?m = "take (t_off u) (t_mem u) @ take (length bs) (drop 0 bs) @ drop (t_off u + length bs) (t_mem u)"
  have eq: "put_buffer u bs = Some (u\<lparr>t_mem := ?m\<rparr>)"
    unfolding put_buffer_def memcpy_def if_P [OF fits] by simp
  have "length (take (t_off u) (t_mem u)) = t_off u" using assms by (simp add: urb_ok_def)
  then show ?thesis
    using assms by (intro that [OF eq]) (simp_all add: urb_ok_def buffer_def)
qed

lemma simple_fill_buf_ok:
  assumes "urb_ok m u" and "unat (t_len u) \<le> m" and "get_maxpacket (udev g) (t_pipe u) = Some maxp" and "0 < maxp"
  obtains u' where "simple_fill_buf g u s = Some u'" "urb_ok m u'" "t_len u' = t_len u" "t_pipe u' = t_pipe u"
    "take (unat (t_len u)) (buffer u') = pattern_bytes (pattern s) maxp (unat (t_len u))" "t_off u' = t_off u"
proof (rule put_buffer_ok [OF assms(1), of "pattern_bytes (pattern s) maxp (unat (t_len u))"])
  show "length (pattern_bytes (pattern s) maxp (unat (t_len u))) \<le> m" using assms(2) by simp
  fix u' assume "put_buffer u (pattern_bytes (pattern s) maxp (unat (t_len u))) = Some u'"
    "urb_ok m u'" "t_len u' = t_len u" "t_pipe u' = t_pipe u" "t_off u' = t_off u"
    "take (length (pattern_bytes (pattern s) maxp (unat (t_len u)))) (buffer u')
      = pattern_bytes (pattern s) maxp (unat (t_len u))"
  then show thesis
    using assms(3,4) by (intro that [of u']) (simp_all add: simple_fill_buf_def pattern_bytes_def split: if_splits)
qed

lemma simple_check_buf_eq:
  assumes "pattern s = 0 \<or> pattern s = 1" and "get_maxpacket (udev g) (t_pipe u) = Some maxp" and "0 < maxp"
    and "urb_ok m u" and "t_actual u \<le> m"
  shows "simple_check_buf g u s = Some (if (\<forall>j < t_off u. t_mem u ! j = GUARD_BYTE)
      \<and> take (t_actual u) (buffer u) = pattern_bytes (pattern s) maxp (t_actual u) then 0 else - EINVAL)"
proof -
  have guard: "list_all (\<lambda>b. b = GUARD_BYTE) (take (t_off u) (t_mem u)) \<longleftrightarrow> (\<forall>j < t_off u. t_mem u ! j = GUARD_BYTE)"
    using assms(4) by (auto simp: list_all_length urb_ok_def)
  have len: "length (buffer u) = m" using assms(4) by (simp add: urb_ok_def buffer_def)
  have eq: "take (t_actual u) (buffer u) = pattern_bytes (pattern s) maxp (t_actual u)
    \<longleftrightarrow> (\<forall>j < t_actual u. buffer u ! j = (if pattern s = 0 then 0 else mod63 maxp (0 + j)))"
    using assms(1,5) len by (auto simp: list_eq_iff_nth_eq pattern_bytes_nth)
  have "check_bytes (pattern s) maxp 0 (t_actual u) (buffer u) = Some (if \<forall>j < t_actual u.
      buffer u ! j = (if pattern s = 0 then 0 else mod63 maxp (0 + j)) then 0 else - EINVAL)"
    by (rule check_bytes_iff) (use assms(1,3,5) len in auto)
  then show ?thesis
    using eq guard by (simp add: simple_check_buf_def assms(2) check_guard_bytes_def buffer_def)
qed

text \<open>
  C33. What the driver writes it accepts when it reads it back, and nothing else. Let an urb \<open>v\<close> be
  filled for output with a supported pattern (0 or 1) and an urb \<open>u\<close> have received no more bytes than
  that, both with packets of the same size, which is not zero, and each inside its memory. Then filling
  is defined, byte \<open>j\<close> of the filled buffer is zero for pattern 0 and \<open>(j mod maxpacket) mod 63\<close> for
  pattern 1, and \<open>u\<close> passes the check exactly when its guard bytes are intact and each byte it received
  is the one the driver wrote at that place.
\<close>

theorem pattern_check_spec:
  assumes "pattern s = 0 \<or> pattern s = 1" and "0 < maxp"
    and "get_maxpacket (udev g) (t_pipe v) = Some maxp" and "urb_ok m' v" and "unat (t_len v) \<le> m'"
    and "get_maxpacket (udev g) (t_pipe u) = Some maxp" and "urb_ok m u" and "t_actual u \<le> m"
    and "t_actual u \<le> unat (t_len v)"
  shows "\<exists>v'. simple_fill_buf g v s = Some v' \<and> t_len v' = t_len v \<and> t_off v' = t_off v \<and> urb_ok m' v'
    \<and> (\<forall>j < unat (t_len v). buffer v' ! j = (if pattern s = 0 then 0 else of_nat ((j mod maxp) mod 63)))
    \<and> simple_check_buf g u s = Some (if (\<forall>j < t_off u. t_mem u ! j = GUARD_BYTE)
         \<and> (\<forall>j < t_actual u. buffer u ! j = buffer v' ! j) then 0 else - EINVAL)"
proof -
  obtain v' where fill: "simple_fill_buf g v s = Some v'" "t_len v' = t_len v" "t_off v' = t_off v" "urb_ok m' v'"
    and t: "take (unat (t_len v)) (buffer v') = pattern_bytes (pattern s) maxp (unat (t_len v))"
    by (rule simple_fill_buf_ok [OF assms(4,5,3,2)])
  have bytes: "buffer v' ! j = (if pattern s = 1 then mod63 maxp j else 0)" if "j < unat (t_len v)" for j
    using arg_cong [OF t, of "\<lambda>xs. xs ! j"] that by (simp add: pattern_bytes_nth)
  have "length (buffer u) = m" using assms(7) by (simp add: urb_ok_def buffer_def)
  then have "take (t_actual u) (buffer u) = pattern_bytes (pattern s) maxp (t_actual u)
      \<longleftrightarrow> (\<forall>j < t_actual u. buffer u ! j = buffer v' ! j)"
    using assms(8,9) by (auto simp: list_eq_iff_nth_eq pattern_bytes_nth bytes)
  moreover have "buffer v' ! j = (if pattern s = 0 then 0 else of_nat ((j mod maxp) mod 63))" if "j < unat (t_len v)" for j
    using bytes [OF that] assms(1) by (auto simp: mod63_def)
  ultimately show ?thesis
    using fill by (intro exI [of _ v']) (simp add: simple_check_buf_eq [OF assms(1,6,2,7,8)])
qed

section \<open>Lengths\<close>

lemma vary_length_range:
  assumes "0 < maxlen" and "0 < vary" and "0 \<le> len" and "len \<le> maxlen" and "maxlen + vary < 2 ^ 31"
  obtains l where "vary_length vary maxlen len = Some l" "0 < l" "l \<le> maxlen"
proof -
  have "signed_take_bit 31 (len + vary) = len + vary"
    by (rule signed_take_bit_int_eq_self) (use assms in simp_all)
  then have "sint (word_of_int (len + vary) :: u32) = len + vary"
    unfolding sint_sbintrunc' by simp
  moreover have "(len + vary) smod maxlen = (len + vary) mod maxlen"
    using assms by (simp add: signed_modulo_int_def signed_divide_int_def minus_div_mult_eq_mod)
  ultimately have v: "0 \<le> (len + vary) mod maxlen" "(len + vary) mod maxlen < maxlen"
    "sint (word_of_int (len + vary) :: u32) smod maxlen = (len + vary) mod maxlen"
    using assms(1) by simp_all
  let ?l = "if (len + vary) mod maxlen = 0 then (if vary < maxlen then vary else maxlen)
    else (len + vary) mod maxlen"
  have "maxlen \<noteq> 0" using assms(1) by simp
  then have eq: "vary_length vary maxlen len = Some ?l"
    unfolding vary_length_def v(3) Let_def by (rule if_not_P)
  show ?thesis by (rule that [OF eq]) (use assms(1,2) v(1,2) in \<open>auto simp: order_less_le\<close>)
qed

text \<open>
  What the core promises of a transfer: it changes nothing but the bytes of the memory, and
  transfers no more than the length asked for.
\<close>

definition core_keeps :: "core \<Rightarrow> bool" where
  "core_keeps c \<longleftrightarrow> (\<forall>h p off n m.
     (let r = c (h @ [Submit p off n m]) Wait in length (mem r) = length m \<and> actual r \<le> n)
     \<and> (let r = c (h @ [Submit p off n m, Wait]) Kill in length (mem r) = length m \<and> actual r \<le> n))"

text \<open>An urb with a buffer of a size, and a length within it.\<close>

definition ready :: "rig \<Rightarrow> nat \<Rightarrow> turb \<Rightarrow> bool" where
  "ready g m u \<longleftrightarrow> urb_ok m u \<and> 0 < unat (t_len u) \<and> unat (t_len u) \<le> m
     \<and> (\<exists>maxp. get_maxpacket (udev g) (t_pipe u) = Some maxp \<and> 0 < maxp)"

definition lens_ok :: "nat \<Rightarrow> core_call list \<Rightarrow> bool" where
  "lens_ok m cs \<longleftrightarrow> (\<forall>p off n b. Submit p off n b \<in> set cs \<longrightarrow> 0 < n \<and> n \<le> m)"

lemma check_bytes_defined: "n \<le> length bs \<Longrightarrow> 0 < maxp \<Longrightarrow> check_bytes pat maxp i n bs \<noteq> None"
  by (induction pat maxp i n bs rule: check_bytes.induct) (auto simp: Let_def)

lemma fill_for_output_ready:
  assumes "ready g m u" and "case host_data (dev s) of None \<Rightarrow> True | Some d \<Rightarrow> m \<le> length d"
  obtains u' where "fill_for_output g u s = Some u'" "ready g m u'" "t_len u' = t_len u" "t_pipe u' = t_pipe u"
proof (cases "usb_pipeout (t_pipe u)")
  case False
  then show ?thesis using assms(1) by (intro that [of u]) (simp_all add: fill_for_output_def)
next
  case True
  obtain maxp where p: "get_maxpacket (udev g) (t_pipe u) = Some maxp" "0 < maxp"
    and ok: "urb_ok m u" "0 < unat (t_len u)" "unat (t_len u) \<le> m"
    using assms(1) by (auto simp: ready_def)
  show ?thesis
  proof (cases "host_data (dev s)")
    case None
    obtain u1 where u1: "simple_fill_buf g u s = Some u1" "urb_ok m u1" "t_len u1 = t_len u" "t_pipe u1 = t_pipe u"
      by (rule simple_fill_buf_ok [OF ok(1,3) p])
    show ?thesis
      by (rule that [of "u1\<lparr>t_zero_packet := True\<rparr>"])
        (use u1 True None p ok in \<open>auto simp: fill_for_output_def ready_def urb_ok_def\<close>)
  next
    case (Some d)
    obtain u1 where u1: "put_buffer u (replicate (unat (t_len u)) 0) = Some u1" "urb_ok m u1"
        "t_len u1 = t_len u" "t_pipe u1 = t_pipe u"
      by (rule put_buffer_ok [OF ok(1), of "replicate (unat (t_len u)) 0"]) (use ok(3) in simp_all)
    have "\<exists>b. memcpy (t_mem u1) (t_off u1) d 0 (unat (t_len u)) = Some b"
      using u1(2) ok(3) assms(2) Some by (simp add: memcpy_Some_iff urb_ok_def)
    then obtain b where b: "memcpy (t_mem u1) (t_off u1) d 0 (unat (t_len u)) = Some b" by blast
    show ?thesis
      by (rule that [of "u1\<lparr>t_mem := b, t_zero_packet := True\<rparr>"])
        (use u1 True Some p ok b memcpy_length [OF b] in
          \<open>auto simp: fill_for_output_def fz_simple_fill_buf_def ready_def urb_ok_def\<close>)
  qed
qed

lemma io_once_ready:
  assumes "core_keeps (core g)" and "ready g m u" and "lens_ok m (asked s)"
    and "case host_data (dev s) of None \<Rightarrow> True | Some d \<Rightarrow> m \<le> length d"
  obtains broken r u' s' where "io_once g u s = Some (broken, r, u', s')" "ready g m u'" "lens_ok m (asked s')"
    "t_len u' = t_len u" "dev s' = dev s"
proof -
  obtain u1 where f: "fill_for_output g u s = Some u1" "ready g m u1" "t_len u1 = t_len u" "t_pipe u1 = t_pipe u"
    by (rule fill_for_output_ready [OF assms(2,4)])
  let ?c = "Submit (t_pipe u1) (t_off u1) (unat (t_len u1)) (t_mem u1)"
  let ?r = "core g (asked s) ?c" and ?s1 = "s\<lparr>asked := asked s @ [?c]\<rparr>"
  have lens: "lens_ok m (asked s @ [?c])" using assms(3) f(2) by (auto simp: lens_ok_def ready_def)
  show ?thesis
  proof (cases "rc ?r = 0")
    case False
    show ?thesis
      by (rule that [of True "rc ?r" u1 ?s1])
        (use False f lens in \<open>simp_all add: io_once_def ask_def\<close>)
  next
    case True
    let ?w = "core g (asked s @ [?c]) Wait" and ?k = "core g (asked s @ [?c, Wait]) Kill"
    have keeps: "length (mem ?w) = length (t_mem u1)" "actual ?w \<le> unat (t_len u1)"
        "length (mem ?k) = length (t_mem u1)" "actual ?k \<le> unat (t_len u1)"
      using assms(1) by (auto simp: core_keeps_def Let_def)
    define r u2 s2 where "r = fst (wait_for_io g u1 ?s1)" and "u2 = fst (snd (wait_for_io g u1 ?s1))"
      and "s2 = snd (snd (wait_for_io g u1 ?s1))"
    then have w: "wait_for_io g u1 ?s1 = (r, u2, s2)" by simp
    have u2: "ready g m u2" "t_len u2 = t_len u" "t_actual u2 \<le> m" "dev s2 = dev s"
      using keeps f(2,3)
      by (auto simp: u2_def s2_def wait_for_io_def ask_def io_result_def ready_def urb_ok_def)
    have lens2: "lens_ok m (asked s2)"
      using lens by (auto simp: s2_def wait_for_io_def ask_def lens_ok_def)
    obtain maxp where p: "get_maxpacket (udev g) (t_pipe u2) = Some maxp" "0 < maxp"
      using u2(1) by (auto simp: ready_def)
    have "t_actual u2 \<le> length (drop (t_off u2) (t_mem u2))" using u2(1,3) by (simp add: ready_def urb_ok_def)
    then have "simple_check_buf g u2 s2 \<noteq> None"
      using check_bytes_defined [OF _ p(2)] by (simp add: simple_check_buf_def p(1))
    then obtain q where q: "(if r = 0 \<and> usb_pipein (t_pipe u2) then simple_check_buf g u2 s2 else Some r) = Some q"
      by (cases "r = 0 \<and> usb_pipein (t_pipe u2)") auto
    have "io_once g u s = Some (False, q, u2, s2)"
      using True by (simp add: io_once_def f(1) ask_def w q)
    then show ?thesis using u2 lens2 by (intro that)
  qed
qed

lemma unat_of_int_small: "0 \<le> l \<Longrightarrow> l < 2 ^ 31 \<Longrightarrow> unat (word_of_int l :: u32) = nat l"
proof -
  assume l: "0 \<le> l" "l < 2 ^ 31"
  then obtain k where k: "l = int k" using nonneg_int_cases by blast
  then have "k < 2 ^ 31" using l(2) by simp
  then show ?thesis by (simp add: k unat_of_nat)
qed

lemma ready_len:
  assumes "ready g m u" and "0 < l" and "l \<le> int m" and "m < 2 ^ 31"
  shows "ready g m (u\<lparr>t_len := word_of_int l\<rparr>)"
proof -
  have "l < 2 ^ 31" using assms(3,4) by simp
  then have "unat (word_of_int l :: u32) = nat l" using assms(2) by (simp add: unat_of_int_small)
  then show ?thesis using assms by (auto simp: ready_def urb_ok_def)
qed

lemma io_loop_ready:
  assumes "core_keeps (core g)" and "ready g m u" and "lens_ok m (asked s)"
    and "case host_data (dev s) of None \<Rightarrow> True | Some d \<Rightarrow> m \<le> length d"
    and "0 < m" and "0 \<le> vary" and "int m + vary < 2 ^ 31"
  obtains r u' s' where "io_loop g n vary (int m) u s = Some (r, u', s')" "lens_ok m (asked s')"
  using assms(2-4)
proof (induction n arbitrary: u s thesis)
  case 0
  show ?case by (rule 0(1) [of 0 u s]) (use 0 in simp_all)
next
  case (Suc n)
  obtain broken r u1 s1 where once: "io_once g u s = Some (broken, r, u1, s1)" "ready g m u1"
      "lens_ok m (asked s1)" "t_len u1 = t_len u" "dev s1 = dev s"
    by (rule io_once_ready [OF assms(1) Suc.prems(2,3,4)])
  have m: "m < 2 ^ 31" using assms(6,7) by simp
  show ?case
  proof (cases broken)
    case True
    show ?thesis by (rule Suc.prems(1) [of r u1 s1]) (use once True in simp_all)
  next
    case False
    have ub: "unat (t_len u1) \<le> m" using once(2) by (simp add: ready_def)
    then have "unat (t_len u1) < 2 ^ 31" using m by simp
    note len = sint_small [OF this] ub
    have rng: "0 \<le> sint (t_len u1)" "sint (t_len u1) \<le> int m"
      by (simp_all only: len(1) of_nat_0_le_iff of_nat_le_iff len(2))
    obtain u2 where u2: "(if vary = 0 then Some u1 else map_option (\<lambda>l. u1\<lparr>t_len := word_of_int l\<rparr>)
        (vary_length vary (int m) (sint (t_len u1)))) = Some u2" "ready g m u2"
    proof (cases "vary = 0")
      case True
      show ?thesis by (rule that [of u1]) (use True once(2) in simp_all)
    next
      case vary: False
      obtain l where l: "vary_length vary (int m) (sint (t_len u1)) = Some l" "0 < l" "l \<le> int m"
        by (rule vary_length_range [OF _ _ rng assms(7)]) (use vary assms(5,6) in simp_all)
      show ?thesis
        by (rule that [of "u1\<lparr>t_len := word_of_int l\<rparr>"])
          (use vary l ready_len [OF once(2) l(2,3) m] in simp_all)
    qed
    show ?thesis
    proof (cases "r = 0")
      case True
      obtain r' u' s' where "io_loop g n vary (int m) u2 s1 = Some (r', u', s')" "lens_ok m (asked s')"
        by (rule Suc.IH [OF _ u2(2) once(3)]) (use Suc.prems(4) once(5) in simp_all)
      then show ?thesis
        by (intro Suc.prems(1) [of r' u' s']) (use once(1) False u2(1) True in simp_all)
    next
      case nz: False
      show ?thesis
        by (rule Suc.prems(1) [of r u2 s1]) (use once(1,3) False u2(1) nz in simp_all)
    qed
  qed
qed

text \<open>Repeated transfers are defined and stay inside the buffer.\<close>

lemma simple_io_ready:
  assumes "core_keeps (core g)" and "ready g m u" and "unat (t_len u) = m" and "0 \<le> sint vary"
    and "int m + sint vary < 2 ^ 31" and "lens_ok m (asked s)"
    and "case host_data (dev s) of None \<Rightarrow> True | Some d \<Rightarrow> m \<le> length d"
  shows "\<exists>r u' s'. simple_io g u iterations vary s = Some (r, u', s') \<and> t_len u' = t_len u
    \<and> lens_ok m (asked s')"
proof -
  have m: "m < 2 ^ 31" "0 < m" using assms(2-5) by (auto simp: ready_def)
  then have len: "sint (t_len u) = int m" using sint_small [of "t_len u"] assms(3) by simp
  obtain r u' s' where "io_loop g (nat (sint iterations)) (sint vary) (int m) u s = Some (r, u', s')"
    "lens_ok m (asked s')"
    by (rule io_loop_ready [OF assms(1,2,6,7) m(2) assms(4,5)])
  moreover have "word_of_int (int m) = t_len u" using assms(3) by auto
  ultimately show ?thesis by (auto simp: simple_io_def len Let_def)
qed


text \<open>A device that takes everything.\<close>

definition never_fails :: "core \<Rightarrow> bool" where
  "never_fails c \<longleftrightarrow> (\<forall>h p off n m. rc (c h (Submit p off n m)) = 0 \<and>
     in_time (c h Wait) \<and> status (c h Wait) = 0)"

lemma io_once_out:
  assumes "core_keeps (core g)" and "never_fails (core g)" and "ready g m u" and "usb_pipeout (t_pipe u)"
    and "host_data (dev s) = None"
  obtains u' s' where "io_once g u s = Some (False, 0, u', s')" "ready g m u'" "t_len u' = t_len u"
    "t_pipe u' = t_pipe u" "dev s' = dev s" "pattern s' = pattern s"
proof -
  obtain u1 where f: "fill_for_output g u s = Some u1" "ready g m u1" "t_len u1 = t_len u" "t_pipe u1 = t_pipe u"
    by (rule fill_for_output_ready [OF assms(3), of s]) (use assms(5) in simp_all)
  let ?c = "Submit (t_pipe u1) (t_off u1) (unat (t_len u1)) (t_mem u1)"
  let ?w = "core g (asked s @ [?c]) Wait"
  have w: "rc (core g (asked s) ?c) = 0" "in_time ?w" "status ?w = 0" "length (mem ?w) = length (t_mem u1)"
    using assms(1,2) by (simp_all add: never_fails_def core_keeps_def Let_def)
  show ?thesis
    by (rule that [of "io_result ?w u1" "s\<lparr>asked := asked s @ [?c, Wait]\<rparr>"])
      (use w f assms(4) in \<open>simp_all add: io_once_def ask_def wait_for_io_def usb_pipeout_def
        io_result_def ready_def urb_ok_def\<close>)
qed

lemma smod_small: "\<bar>a\<bar> < m \<Longrightarrow> (a :: int) smod m = a"
  by (simp add: signed_modulo_int_def signed_divide_int_def sgn_mult_abs)

lemma vary_length_down:
  assumes "\<bar>len - v\<bar> < maxlen" and "len \<noteq> v" and "maxlen < 2 ^ 31"
  shows "vary_length (- v) maxlen len = Some (len - v)"
proof -
  have "signed_take_bit 31 (len + - v) = len + - v"
    by (rule signed_take_bit_int_eq_self) (use assms in simp_all)
  then have "sint (word_of_int (len + - v) :: u32) = len + - v"
    unfolding sint_sbintrunc' by simp
  moreover have "(len + - v) smod maxlen = len + - v" by (rule smod_small) (use assms(1) in simp)
  moreover have "maxlen \<noteq> 0" "len + - v \<noteq> 0" using assms(1,2) by simp_all
  ultimately show ?thesis unfolding vary_length_def Let_def by simp
qed

lemma put_buffer_too_long: "urb_ok m u \<Longrightarrow> m < length bs \<Longrightarrow> put_buffer u bs = None"
  by (simp add: put_buffer_def memcpy_def urb_ok_def)

lemma fill_too_long:
  assumes "urb_ok m u" and "m < unat (t_len u)" and "usb_pipeout (t_pipe u)" and "host_data (dev s) = None"
  shows "io_once g u s = None"
  using assms put_buffer_too_long [OF assms(1)]
  by (cases "get_maxpacket (udev g) (t_pipe u)")
    (simp_all add: io_once_def fill_for_output_def simple_fill_buf_def)

text \<open>
  A negative step, which the unsigned parameter of the test allows, takes the length below
  zero: a third transfer to the device of which the step is more than half the buffer overwrites
  memory beyond it.
\<close>

theorem negative_step_overruns:
  assumes "core_keeps (core g)" and "never_fails (core g)" and "ready g m u" and "unat (t_len u) = m"
    and "usb_pipeout (t_pipe u)" and "host_data (dev s) = None"
    and "sint vary = - int v" and "v < m" and "m < 2 * v" and "m < 2 ^ 31" and "3 \<le> sint iterations"
  shows "simple_io g u iterations vary s = None"
proof -
  have len: "sint (t_len u) = int m" using sint_small [of "t_len u"] assms(4,10) by simp
  obtain k where k: "nat (sint iterations) = Suc (Suc (Suc k))"
    using assms(11) by (intro that [of "nat (sint iterations) - 3"]) simp
  obtain u1 s1 where 1: "io_once g u s = Some (False, 0, u1, s1)" "ready g m u1" "t_len u1 = t_len u"
    "t_pipe u1 = t_pipe u" "dev s1 = dev s" "pattern s1 = pattern s"
    by (rule io_once_out [OF assms(1-3,5,6)])
  let ?l = "int m - int v"
  let ?u1 = "u1\<lparr>t_len := word_of_int ?l\<rparr>"
  have l: "0 < ?l" "?l \<le> int m" "?l < 2 ^ 31" using assms(8,10) by simp_all
  have v1: "vary_length (- int v) (int m) (sint (t_len u1)) = Some ?l"
    unfolding 1(3) len by (rule vary_length_down) (use assms(8-10) in simp_all)
  have r1: "ready g m ?u1" by (rule ready_len [OF 1(2) l(1,2) assms(10)])
  obtain u2 s2 where 2: "io_once g ?u1 s1 = Some (False, 0, u2, s2)" "ready g m u2" "t_len u2 = t_len ?u1"
    "t_pipe u2 = t_pipe ?u1" "dev s2 = dev s1" "pattern s2 = pattern s1"
    by (rule io_once_out [OF assms(1,2) r1, of s1]) (use 1(4,5) assms(5,6) in simp_all)
  have "unat (t_len u2) = nat ?l" using unat_of_int_small [of ?l] l 2(3) by simp
  then have len2: "sint (t_len u2) = ?l" using sint_small [of "t_len u2"] l by simp
  let ?n = "int m - 2 * int v"
  have v2: "vary_length (- int v) (int m) (sint (t_len u2)) = Some (?l - int v)"
    unfolding len2 by (rule vary_length_down) (use assms(8-10) in simp_all)
  let ?u2 = "u2\<lparr>t_len := word_of_int (?l - int v)\<rparr>"
  have "unat (word_of_int (?l - int v) :: u32) = nat (2 ^ 32 + (?l - int v))"
  proof -
    have "(?l - int v) mod 2 ^ 32 = (?l - int v + 2 ^ 32) mod 2 ^ 32" by simp
    also have "\<dots> = ?l - int v + 2 ^ 32" by (rule mod_pos_pos_trivial) (use assms(8-10) in simp_all)
    finally show ?thesis
      unfolding unat_eq_nat_uint uint_word_of_int by (simp add: add.commute)
  qed
  then have "m < unat (t_len ?u2)" using assms(8-10) by simp
  then have 3: "io_once g ?u2 s2 = None"
    by (intro fill_too_long [of m]) (use 2 1 assms(5,6) in \<open>simp_all add: ready_def urb_ok_def\<close>)
  show ?thesis
    using 1(1) 2(1) 3 v1 v2 assms(7,9)
    by (simp add: simple_io_def len k Let_def)
qed

section \<open>Scatter-gather lists\<close>

lemma upt_shift: "map (\<lambda>j. f (j + a)) [0..<n] = map f [a..<a + n]"
  by (rule nth_equalityI) (simp_all add: add.commute)

lemma fill_sglist_stream:
  assumes "fill_sglist g n vary maxlen maxp sz ns s = Some (Some sg, s')" and "pattern s = 1"
    and "unat ns + length (concat sg) < 2 ^ 32"
  shows "concat sg = map (mod63 maxp) [unat ns..<unat ns + length (concat sg)] \<and> length sg = n"
  using assms
proof (induction n arbitrary: sz ns s sg)
  case 0
  then show ?case by simp
next
  case (Suc n)
  let ?s1 = "snd (ask g (Alloc (unat sz)) s)"
  let ?next = "if vary \<noteq> 0 then vary_size vary maxlen sz else sz"
  let ?piece = "map (\<lambda>j. mod63 maxp (unat (of_nat j + ns))) [0..<unat sz]"
  obtain rest where rest: "fill_sglist g n vary maxlen maxp ?next (ns + sz) ?s1 = Some (Some rest, s')"
    and sg: "sg = ?piece # rest"
    using Suc.prems(1,2) by (auto simp: Let_def split_def bind_eq_Some_conv ask_def split: if_splits)
  have bound: "unat ns + unat sz + length (concat rest) < 2 ^ 32" using Suc.prems(3) by (simp add: sg)
  then have sum: "unat (ns + sz) = unat ns + unat sz"
    by (simp add: unat_word_ariths(1))
  have "concat rest = map (mod63 maxp) [unat (ns + sz)..<unat (ns + sz) + length (concat rest)] \<and> length rest = n"
    by (rule Suc.IH [OF rest]) (use Suc.prems(2) sum bound in \<open>simp_all add: ask_def\<close>)
  then have IH: "concat rest = map (mod63 maxp) [unat ns + unat sz..<unat ns + unat sz + length (concat rest)]"
    "length rest = n" by (simp_all only: sum)
  have "unat (of_nat j + ns) = j + unat ns" if "j < unat sz" for j
  proof -
    have j: "j < 2 ^ 32" using that bound by simp
    then have "unat (of_nat j :: u32) = j" by (simp add: unat_of_nat)
    then show ?thesis using that bound by (simp add: unat_word_ariths(1))
  qed
  then have "?piece = map (\<lambda>j. mod63 maxp (j + unat ns)) [0..<unat sz]" by simp
  also have "\<dots> = map (mod63 maxp) [unat ns..<unat ns + unat sz]" by (rule upt_shift)
  finally have piece: "?piece = map (mod63 maxp) [unat ns..<unat ns + unat sz]" .
  have "concat sg = map (mod63 maxp) ([unat ns..<unat ns + unat sz]
      @ [unat ns + unat sz..<unat ns + unat sz + length (concat rest)])"
    using piece IH(1) by (simp add: sg)
  also have "\<dots> = map (mod63 maxp) [unat ns..<unat ns + unat sz + length (concat rest)]"
    using upt_add_eq_append [of "unat ns" "unat ns + unat sz" "length (concat rest)"] by simp
  finally show ?case using IH(2) by (simp add: sg add.assoc)
qed

text \<open>
  C32. The pieces of a scatter-gather list filled with the pattern hold, one after the other, the
  bytes one buffer of their total length would hold, whatever their lengths vary by: splitting a
  transfer into pieces does not change what is sent.
\<close>

theorem sglist_is_one_buffer:
  assumes "alloc_sglist g nents maxlen vary pipe s = Some (Some sg, s')" and "pattern s = 1"
    and "get_maxpacket (udev g) pipe = Some maxp" and "length (concat sg) < 2 ^ 32"
  shows "concat sg = pattern_bytes 1 maxp (length (concat sg)) \<and> length sg = nents"
proof -
  have "fill_sglist g nents vary maxlen maxp maxlen 0 (snd (ask g (Alloc (32 * nents)) s)) = Some (Some sg, s')"
    using assms(1,3) by (auto simp: alloc_sglist_def Let_def split_def split: if_splits)
  from fill_sglist_stream [OF this] assms(2,4) show ?thesis by (simp add: ask_def pattern_bytes_def)
qed

section \<open>Witnesses\<close>

text \<open>A bulk endpoint of 64 bytes for every pipe, and a core where everything succeeds.\<close>

definition demo_endpoint :: usb_host_endpoint where
  "demo_endpoint = \<lparr>he_desc = \<lparr>bDescriptorType = 5, bEndpointAddress = 0x81, bmAttributes = 2,
     wMaxPacketSize = 64, bInterval = 0\<rparr>, he_ss_ep_comp = \<lparr>bMaxBurst = 0, ss_bmAttributes = 0\<rparr>\<rparr>"

definition demo_udev :: usb_device where
  "demo_udev = \<lparr>devnum = 1, dev_speed = USB_SPEED_HIGH, dev_bMaxPacketSize0 = 64, dev_bcdUSB = 0x200,
     dev_idVendor = 0x525, dev_idProduct = 0xa4a0, dev_bNumConfigurations = 1, act_bConfigurationValue = 1,
     bos_wTotalLength = None, pipe_ep = (\<lambda>_. Some demo_endpoint)\<rparr>"

definition last_mem :: "core_call list \<Rightarrow> u8 list" where
  "last_mem h = foldl (\<lambda>m c. case c of Submit p off n b \<Rightarrow> b | _ \<Rightarrow> m) [] h"

definition demo_core :: core where
  "demo_core h c = \<lparr>rc = 0, in_time = True, status = 0, actual = 0, mem = last_mem h\<rparr>"

definition demo_rig :: rig where
  "demo_rig = \<lparr>core = demo_core, udev = demo_udev, altsettings = [], override_alt = - 1, mod_pattern = 1,
     realworld = True, force_interrupt = False\<rparr>"

definition demo_info :: usbtest_info where
  "demo_info = \<lparr>ep_in = 0, ep_out = 0, autoconf = True, info_ctrl_out = True, iso = False, intr = False,
     alt = 0, need_fix_alt = False, fix_alt_intf0 = 0, fix_alt_intf1 = 0, fix_alt_intf2 = 0,
     info_out_iso_pipe = 0, info_in_iso_pipe = 0, info_out_bulk_pipe = 0, info_in_bulk_pipe = 0,
     info_out_int_pipe = 0, info_in_int_pipe = 0, info_iso_in = None, info_iso_out = None,
     info_int_in = None, info_int_out = None\<rparr>"

definition demo_tester :: tester where
  "demo_tester = \<lparr>asked = [], pattern = 1, infos = [demo_info],
     dev = \<lparr>dev_info = 0, in_pipe = 0, out_pipe = 0, in_iso_pipe = 0, out_iso_pipe = 0, in_int_pipe = 0,
       out_int_pipe = 0, iso_in = None, iso_out = None, int_in = None, int_out = None,
       buf = replicate 256 0, host_data = None\<rparr>\<rparr>"

definition demo_urb :: "u32 \<Rightarrow> nat \<Rightarrow> turb" where
  "demo_urb p n = \<lparr>t_pipe = p, t_mem = replicate n 0, t_off = 0, t_len = of_nat n, t_interval = 8,
     t_dma_mapped = True, t_short_not_ok = False, t_zero_packet = False, t_status = 0, t_actual = 0\<rparr>"

lemma demo_core_ok: "core_keeps (core demo_rig)" "never_fails (core demo_rig)"
  by (simp_all add: core_keeps_def never_fails_def demo_rig_def demo_core_def last_mem_def Let_def)

lemma demo_maxpacket [simp]: "get_maxpacket (udev demo_rig) p = Some 64"
  by (simp add: get_maxpacket_def demo_rig_def demo_udev_def demo_endpoint_def)

lemma demo_urb_ready: "0 < n \<Longrightarrow> n < 2 ^ 32 \<Longrightarrow> ready demo_rig n (demo_urb p n)"
  "n < 2 ^ 32 \<Longrightarrow> unat (t_len (demo_urb p n)) = n"
  by (simp_all add: ready_def urb_ok_def demo_urb_def unat_of_nat)

lemma demo_urb_fits: "urb_ok n (demo_urb p n)"
  by (simp add: urb_ok_def demo_urb_def)

theorem pattern_check_spec_witness:
  "\<exists>v. simple_fill_buf demo_rig (demo_urb 0 70) demo_tester = Some v
     \<and> buffer v ! 62 = 62 \<and> buffer v ! 63 = 0 \<and> buffer v ! 64 = 0 \<and> buffer v ! 65 = 1
     \<and> simple_check_buf demo_rig ((demo_urb 0x80 4)\<lparr>t_mem := [0, 1, 2, 4], t_actual := 4\<rparr>) demo_tester
         = Some (- EINVAL)"
proof -
  let ?u = "(demo_urb 0x80 4)\<lparr>t_mem := [0, 1, 2, 4], t_actual := 4\<rparr>"
  have u: "urb_ok 4 ?u" "t_actual ?u \<le> 4" "pattern demo_tester = 1" "buffer ?u = [0, 1, 2, 4]" "t_off ?u = 0"
    by (simp_all add: urb_ok_def demo_urb_def demo_tester_def buffer_def)
  have n: "unat (t_len (demo_urb 0 70)) = 70" by (simp add: demo_urb_ready)
  have a: "t_actual ?u \<le> unat (t_len (demo_urb 0 70))" "unat (t_len (demo_urb 0 70)) \<le> 70" using n by simp_all
  have p: "pattern demo_tester = 0 \<or> pattern demo_tester = 1" "(0::nat) < 64" using u(3) by simp_all
  obtain v where v: "simple_fill_buf demo_rig (demo_urb 0 70) demo_tester = Some v"
    "\<forall>j < unat (t_len (demo_urb 0 70)). buffer v ! j = (if pattern demo_tester = 0 then 0 else of_nat ((j mod 64) mod 63))"
    "simple_check_buf demo_rig ?u demo_tester = Some (if (\<forall>j < t_off ?u. t_mem ?u ! j = GUARD_BYTE)
         \<and> (\<forall>j < t_actual ?u. buffer ?u ! j = buffer v ! j) then 0 else - EINVAL)"
    using pattern_check_spec [OF p demo_maxpacket demo_urb_fits a(2) demo_maxpacket u(1,2) a(1)] by (elim exE conjE)
  have "buffer v ! 3 = 3" using v(2) u(3) n by simp
  moreover have "buffer ?u ! 3 = 4" "3 < t_actual ?u" unfolding u(4) by simp_all
  ultimately have "\<not> (\<forall>j < t_actual ?u. buffer ?u ! j = buffer v ! j)" by (intro notI) (drule spec [of _ 3], simp)
  then show ?thesis using v u(3) n by (intro exI [of _ v]) simp
qed


theorem negative_step_overruns_witness:
  "simple_io demo_rig (demo_urb 0 512) 3 (- 300) demo_tester = None"
proof -
  have "usb_pipeout (t_pipe (demo_urb 0 512))" "host_data (dev demo_tester) = None"
    by (simp_all add: usb_pipeout_def usb_pipein_def demo_urb_def demo_tester_def)
  then show ?thesis
    by (intro negative_step_overruns [OF demo_core_ok demo_urb_ready(1) demo_urb_ready(2), where v = 300]) simp_all
qed

theorem sglist_is_one_buffer_witness:
  "\<exists>sg s. alloc_sglist demo_rig 3 100 70 0 demo_tester = Some (Some sg, s)
    \<and> map length sg = [100, 70, 40] \<and> concat sg = pattern_bytes 1 64 210"
proof -
  have "map_option (\<lambda>(sg, s). map_option (map length) sg) (alloc_sglist demo_rig 3 100 70 0 demo_tester)
    = Some (Some [100, 70, 40])"
    by code_simp
  then obtain sg s where sg: "alloc_sglist demo_rig 3 100 70 0 demo_tester = Some (Some sg, s)"
    "map length sg = [100, 70, 40]"
    by auto
  have "length (concat sg) = 210" using sg(2) by (simp add: length_concat)
  then show ?thesis
    using sglist_is_one_buffer [OF sg(1) _ demo_maxpacket] sg by (auto simp: demo_tester_def)
qed

end
