(* ===== verification/Usbtest_Ch9.thy ===== *)
theory Usbtest_Ch9
  imports Usbtest_Io
begin

unbundle bit_operations_syntax

text \<open>
  The chapter 9 tests (usbtest.c, lines 794 to 1198): the standard requests of the USB
  specification, tried on the device under test one after the other, and the checks of the
  descriptors it answers with.
\<close>

section \<open>Control requests\<close>

abbreviation (input) ERANGE :: int where "ERANGE \<equiv> 34"
abbreviation (input) USB_REQ_GET_CONFIGURATION :: u8 where "USB_REQ_GET_CONFIGURATION \<equiv> 8"
abbreviation (input) USB_REQ_GET_INTERFACE :: u8 where "USB_REQ_GET_INTERFACE \<equiv> 10"
abbreviation (input) USB_DT_OTHER_SPEED_CONFIG :: u8 where "USB_DT_OTHER_SPEED_CONFIG \<equiv> 7"

text \<open>
  A request that reads into the scratch buffer: what the device sent, at most as much as was
  asked for, is at its front afterwards. The last argument is the answer of the core.
\<close>

definition receive :: "nat \<Rightarrow> core_reply \<Rightarrow> tester \<Rightarrow> tester" where
  "receive n r s =
     (let m = take n (mem r) in upd_dev (\<lambda>d. d\<lparr>buf := m @ drop (length m) (buf d)\<rparr>) s)"

definition control_read :: "rig \<Rightarrow> core_call \<Rightarrow> nat \<Rightarrow> tester \<Rightarrow> int \<times> tester" where
  "control_read g c n s = (let (r, s) = ask g c s in (rc r, receive n r s))"

text \<open>Before it asks for a descriptor the core clears the bytes that it is to be read into.\<close>

definition get_descriptor :: "rig \<Rightarrow> u8 \<Rightarrow> nat \<Rightarrow> nat \<Rightarrow> tester \<Rightarrow> int \<times> tester" where
  "get_descriptor g t i n s =
     (let (r, s) = ask g (Get_Descriptor t i n) s in (rc r, receive n (r\<lparr>mem := mem r @ replicate n 0\<rparr>) s))"

text \<open>Reading the scratch buffer; outside of it is undefined.\<close>

definition peek :: "nat \<Rightarrow> tester \<Rightarrow> u8 option" where
  "peek i s = (if i < length (buf (dev s)) then Some (buf (dev s) ! i) else None)"

definition peek16 :: "nat \<Rightarrow> tester \<Rightarrow> u16 option" where
  "peek16 i s = do { a \<leftarrow> peek i s; b \<leftarrow> peek (i + 1) s; Some (ucast a OR push_bit 8 (ucast b)) }"

definition peek32 :: "nat \<Rightarrow> tester \<Rightarrow> u32 option" where
  "peek32 i s = do { a \<leftarrow> peek16 i s; b \<leftarrow> peek16 (i + 2) s; Some (ucast a OR push_bit 16 (ucast b)) }"

definition intf_number :: "rig \<Rightarrow> u8" where
  "intf_number g = (case altsettings g of [] \<Rightarrow> 0 | a # _ \<Rightarrow> alt_bInterfaceNumber a)"

definition get_altsetting :: "rig \<Rightarrow> tester \<Rightarrow> (int \<times> tester) option" where
  "get_altsetting g s =
     (let (retval, s) = control_read g (Control_Msg (usb_rcvctrlpipe (udev g) 0) USB_REQ_GET_INTERFACE
            (USB_DIR_IN OR USB_RECIP_INTERFACE) 0 (ucast (intf_number g)) [] 1) 1 s
      in if retval = 1 then map_option (\<lambda>b. (int (unat b), s)) (peek 0 s)
         else Some (if retval = 0 then - ERANGE else retval, s))"

definition set_altsetting :: "rig \<Rightarrow> int \<Rightarrow> tester \<Rightarrow> int \<times> tester" where
  "set_altsetting g alternate s =
     (if alternate < 0 \<or> alternate \<ge> 256 then (- EINVAL, s)
      else let (r, s) = ask g (Set_Interface (intf_number g) (word_of_int alternate)) s in (rc r, s))"

section \<open>Checks of descriptors\<close>

text \<open>
  The length is compared as an unsigned number of 64 bits, so an error is not below the size of
  the descriptor.
\<close>

definition is_good_config :: "rig \<Rightarrow> int \<Rightarrow> tester \<Rightarrow> bool option" where
  "is_good_config g len s =
     (if unat (word_of_int len :: 64 word) < 9 then Some False
      else do {
        ty \<leftarrow> peek 1 s; l \<leftarrow> peek 0 s; attr \<leftarrow> peek 7 s; tot \<leftarrow> peek16 2 s;
        Some (if ty = USB_DT_CONFIG \<or> ty = USB_DT_OTHER_SPEED_CONFIG then
                if l \<noteq> 9 then False
                else if \<not> realworld g \<and> attr AND 0x80 = 0 then False
                else if attr AND 0x1f \<noteq> 0 then False
                else if int (unat tot) = len then True
                else unat tot \<ge> TBUF_SIZE
              else False)
      })"

definition is_good_ext :: "nat \<Rightarrow> tester \<Rightarrow> bool option" where
  "is_good_ext off s =
     do {
       l \<leftarrow> peek off s; attr \<leftarrow> peek32 (off + 3) s;
       Some (l = 7 \<and> attr AND NOT 0xfffe = 0)
     }"

definition is_good_ss_cap :: "nat \<Rightarrow> tester \<Rightarrow> bool option" where
  "is_good_ss_cap off s =
     do {
       l \<leftarrow> peek off s; attr \<leftarrow> peek (off + 3) s; speeds \<leftarrow> peek16 (off + 4) s;
       Some (l = 10 \<and> attr AND NOT 0x02 = 0 \<and> speeds AND NOT 0x0f = 0)
     }"

definition is_good_con_id :: "nat \<Rightarrow> tester \<Rightarrow> bool option" where
  "is_good_con_id off s =
     do {
       l \<leftarrow> peek off s; reserved \<leftarrow> peek (off + 3) s;
       Some (l = 20 \<and> reserved = 0)
     }"

section \<open>The steps\<close>

text \<open>The result of a step that did not do what it should.\<close>

definition bad :: "int \<Rightarrow> int" where
  "bad retval = (if retval < 0 then retval else - EDOM)"

primrec check_altsettings :: "rig \<Rightarrow> host_interface list \<Rightarrow> tester \<Rightarrow> (int \<times> tester) option" where
  "check_altsettings g [] s = Some (0, s)"
| "check_altsettings g (a # as) s =
     (let alternate = int (unat (alt_bAlternateSetting a)) in
      if realworld g \<and> length (altsettings g) = 1 then check_altsettings g as s
      else let (retval, s) = set_altsetting g alternate s in
        if retval \<noteq> 0 then Some (retval, s)
        else do {
          (retval, s) \<leftarrow> get_altsetting g s;
          if retval \<noteq> alternate then Some (bad retval, s) else check_altsettings g as s
        })"

definition check_configuration :: "rig \<Rightarrow> tester \<Rightarrow> (int \<times> tester) option" where
  "check_configuration g s =
     (if \<not> realworld g \<or> dev_bNumConfigurations (udev g) \<noteq> 1
      then (let (retval, s) = control_read g (Control_Msg (usb_rcvctrlpipe (udev g) 0)
                USB_REQ_GET_CONFIGURATION (USB_DIR_IN OR USB_RECIP_DEVICE) 0 0 [] 1) 1 s
            in if retval \<noteq> 1 then Some (bad retval, s)
               else do {
                 b \<leftarrow> peek 0 s;
                 Some (if b \<noteq> act_bConfigurationValue (udev g) then bad retval else 0, s)
               })
      else Some (0, s))"

text \<open>One capability of the set: whether it is bogus. Those too short or unknown are skipped.\<close>

definition bogus_capability :: "nat \<Rightarrow> nat \<Rightarrow> tester \<Rightarrow> bool option" where
  "bogus_capability off tot s =
     do {
       ty \<leftarrow> peek (off + 1) s; cap \<leftarrow> peek (off + 2) s;
       if ty \<noteq> USB_DT_DEVICE_CAPABILITY then Some False
       else if cap = 2 then (if off + 7 > tot then Some True else map_option Not (is_good_ext off s))
       else if cap = 3 then (if off + 10 > tot then Some True else map_option Not (is_good_ss_cap off s))
       else if cap = 4 then (if off + 20 > tot then Some True else map_option Not (is_good_con_id off s))
       else Some False
     }"

primrec walk_capabilities :: "nat \<Rightarrow> nat \<Rightarrow> nat \<Rightarrow> nat \<Rightarrow> tester \<Rightarrow> int option" where
  "walk_capabilities 0 off len tot s = Some 0"
| "walk_capabilities (Suc n) off len tot s =
     (let off = off + len in
      if off + 3 > tot then Some 0
      else do {
        l \<leftarrow> peek off s;
        bogus \<leftarrow> bogus_capability off tot s;
        if bogus then Some (- EDOM) else walk_capabilities n off (unat l) tot s
      })"

definition check_bos :: "rig \<Rightarrow> tester \<Rightarrow> (int \<times> tester) option" where
  "check_bos g s =
     (if unat (dev_bcdUSB (udev g)) < 0x0210 then Some (0, s)
      else let (retval, s) = get_descriptor g USB_DT_BOS 0 5 s in
        if retval \<noteq> 5 then Some (bad retval, s)
        else do {
          tot \<leftarrow> peek16 2 s; num \<leftarrow> peek 4 s;
          let tot = min (unat tot) TBUF_SIZE;
          let (retval, s) = get_descriptor g USB_DT_BOS 0 tot s;
          if retval \<noteq> int tot then Some (bad retval, s)
          else map_option (\<lambda>r. (r, s)) (walk_capabilities (unat num) 0 5 tot s)
        })"

primrec check_configs :: "rig \<Rightarrow> u8 \<Rightarrow> nat list \<Rightarrow> tester \<Rightarrow> (int \<times> tester) option" where
  "check_configs g t [] s = Some (0, s)"
| "check_configs g t (i # is) s =
     (let (retval, s) = get_descriptor g t i TBUF_SIZE s in do {
        good \<leftarrow> is_good_config g retval s;
        if good then check_configs g t is s else Some (bad retval, s)
      })"

definition check_qualifier :: "rig \<Rightarrow> tester \<Rightarrow> (int \<times> tester) option" where
  "check_qualifier g s =
     (if dev_bcdUSB (udev g) \<noteq> 0x0200 then Some (0, s)
      else let (retval, s) = get_descriptor g USB_DT_DEVICE_QUALIFIER 0 10 s in
        if retval = - EPIPE
        then Some (if dev_speed (udev g) = USB_SPEED_HIGH then (retval, s) else (0, s))
        else if retval \<noteq> 10 then Some (bad retval, s)
        else do {
          n \<leftarrow> peek 8 s;
          check_configs g USB_DT_OTHER_SPEED_CONFIG [0..<unat n] s
        })"

definition check_status :: "rig \<Rightarrow> u8 \<Rightarrow> u16 \<Rightarrow> tester \<Rightarrow> int \<times> tester" where
  "check_status g recip target s = control_read g (Get_Std_Status recip target) 2 s"

text \<open>Running the steps one after the other, until one fails.\<close>

fun run_steps :: "(tester \<Rightarrow> (int \<times> tester) option) list \<Rightarrow> tester \<Rightarrow> (int \<times> tester) option" where
  "run_steps [] s = Some (0, s)"
| "run_steps (f # fs) s =
     do { (retval, s) \<leftarrow> f s; if retval \<noteq> 0 then Some (retval, s) else run_steps fs s }"

definition check_device :: "rig \<Rightarrow> tester \<Rightarrow> (int \<times> tester) option" where
  "check_device g s =
     (let (retval, s) = get_descriptor g USB_DT_DEVICE 0 18 s
      in Some (if retval \<noteq> 18 then bad retval else 0, s))"

definition ch9_postconfig :: "rig \<Rightarrow> tester \<Rightarrow> (int \<times> tester) option" where
  "ch9_postconfig g = run_steps
     [check_altsettings g (altsettings g), check_configuration g, check_device g, check_bos g,
      check_configs g USB_DT_CONFIG [0..<unat (dev_bNumConfigurations (udev g))], check_qualifier g,
      \<lambda>s. Some (check_status g USB_RECIP_DEVICE 0 s),
      \<lambda>s. Some (check_status g USB_RECIP_INTERFACE (ucast (intf_number g)) s)]"

section \<open>The tests always end with a result\<close>

text \<open>
  Every step keeps the scratch buffer's size, and ends with a result that is zero or an error
  where the results of the core are.
\<close>

definition core_results :: "core \<Rightarrow> bool" where
  "core_results c \<longleftrightarrow> (\<forall>h i a. rc (c h (Set_Interface i a)) \<le> 0)
     \<and> (\<forall>h r t. rc (c h (Get_Std_Status r t)) \<le> 0)"

definition step_ok :: "(tester \<Rightarrow> (int \<times> tester) option) \<Rightarrow> bool" where
  "step_ok f \<longleftrightarrow> (\<forall>s. length (buf (dev s)) = TBUF_SIZE \<longrightarrow>
     (\<exists>r s'. f s = Some (r, s') \<and> r \<le> 0 \<and> length (buf (dev s')) = TBUF_SIZE))"

lemma step_okI:
  "(\<And>s. length (buf (dev s)) = TBUF_SIZE \<Longrightarrow> \<exists>r s'. f s = Some (r, s') \<and> r \<le> 0 \<and> length (buf (dev s')) = TBUF_SIZE)
    \<Longrightarrow> step_ok f"
  by (simp add: step_ok_def)

lemma step_okD:
  "step_ok f \<Longrightarrow> length (buf (dev s)) = TBUF_SIZE \<Longrightarrow>
    \<exists>r s'. f s = Some (r, s') \<and> r \<le> 0 \<and> length (buf (dev s')) = TBUF_SIZE"
  by (simp add: step_ok_def)

lemma receive_buf [simp]:
  "n \<le> length (buf (dev s)) \<Longrightarrow> length (buf (dev (receive n r s))) = length (buf (dev s))"
  by (simp add: receive_def upd_dev_def Let_def)

lemma control_read_buf:
  "control_read g c n s = (r, s') \<Longrightarrow> n \<le> length (buf (dev s)) \<Longrightarrow> length (buf (dev s')) = length (buf (dev s))"
  by (auto simp: control_read_def ask_def Let_def split_def)

lemma get_descriptor_buf:
  "get_descriptor g t i n s = (r, s') \<Longrightarrow> n \<le> length (buf (dev s)) \<Longrightarrow> length (buf (dev s')) = length (buf (dev s))"
  by (auto simp: get_descriptor_def ask_def Let_def)

lemma peek_defined [simp]: "i < length (buf (dev s)) \<Longrightarrow> peek i s = Some (buf (dev s) ! i)"
  by (simp add: peek_def)

lemma peek16_defined: "i + 1 < length (buf (dev s)) \<Longrightarrow> \<exists>x. peek16 i s = Some x"
  by (simp add: peek16_def)

lemma peek32_defined: "i + 3 < length (buf (dev s)) \<Longrightarrow> \<exists>x. peek32 i s = Some x"
  using peek16_defined [of i s] peek16_defined [of "i + 2" s] by (auto simp: peek32_def)

lemma bad_neg [simp]: "bad r \<le> 0"
  by (simp add: bad_def)

lemma is_good_config_defined:
  "length (buf (dev s)) = TBUF_SIZE \<Longrightarrow> \<exists>b. is_good_config g len s = Some b"
  using peek16_defined [of 2 s] by (auto simp: is_good_config_def)

lemma is_good_capability_defined:
  assumes "length (buf (dev s)) = TBUF_SIZE"
  shows "off + 7 \<le> TBUF_SIZE \<Longrightarrow> \<exists>b. is_good_ext off s = Some b"
    and "off + 10 \<le> TBUF_SIZE \<Longrightarrow> \<exists>b. is_good_ss_cap off s = Some b"
    and "off + 20 \<le> TBUF_SIZE \<Longrightarrow> \<exists>b. is_good_con_id off s = Some b"
  using assms peek32_defined [of "off + 3" s] peek16_defined [of "off + 4" s]
  by (auto simp: is_good_ext_def is_good_ss_cap_def is_good_con_id_def)

lemma bogus_capability_defined:
  assumes "length (buf (dev s)) = TBUF_SIZE" and "tot \<le> TBUF_SIZE" and "off + 3 \<le> tot"
  shows "\<exists>b. bogus_capability off tot s = Some b"
  using assms is_good_capability_defined [OF assms(1), where off = off]
  by (cases "buf (dev s) ! (off + 2) = 4") (auto simp: bogus_capability_def)

lemma walk_capabilities_defined:
  assumes "length (buf (dev s)) = TBUF_SIZE" and "tot \<le> TBUF_SIZE"
  shows "\<exists>r. walk_capabilities n off len tot s = Some r \<and> r \<le> 0"
proof (induction n arbitrary: off len)
  case 0
  then show ?case by simp
next
  case (Suc n)
  then show ?case
    using bogus_capability_defined [OF assms, of "off + len"] assms by (auto simp: Let_def)
qed

lemma check_altsettings_ok:
  assumes "core_results (core g)"
  shows "step_ok (check_altsettings g as)"
proof (induction "as")
  case Nil
  then show ?case by (simp add: step_ok_def)
next
  case (Cons a as)
  show ?case
  proof (rule step_okI)
    fix s :: tester
    assume s: "length (buf (dev s)) = TBUF_SIZE"
    let ?alt = "int (unat (alt_bAlternateSetting a))"
    show "\<exists>r s'. check_altsettings g (a # as) s = Some (r, s') \<and> r \<le> 0 \<and> length (buf (dev s')) = TBUF_SIZE"
    proof (cases "realworld g \<and> length (altsettings g) = 1")
      case True
      then show ?thesis using step_okD [OF Cons s] by auto
    next
      case False
      obtain r1 s1 where 1: "set_altsetting g ?alt s = (r1, s1)" by fastforce
      then have r1: "r1 \<le> 0" "length (buf (dev s1)) = TBUF_SIZE"
        using assms s by (auto simp: set_altsetting_def ask_def core_results_def split: if_splits)
      let ?m = "Control_Msg (usb_rcvctrlpipe (udev g) 0) USB_REQ_GET_INTERFACE
            (USB_DIR_IN OR USB_RECIP_INTERFACE) 0 (ucast (intf_number g)) [] 1"
      obtain q s2 where 2: "control_read g ?m 1 s1 = (q, s2)" by fastforce
      then have b2: "length (buf (dev s2)) = TBUF_SIZE" using control_read_buf r1(2) by fastforce
      then have "\<exists>q'. get_altsetting g s1 = Some (q', s2)"
        using 2 by (cases "q = 1") (simp_all add: get_altsetting_def)
      then obtain q' where "get_altsetting g s1 = Some (q', s2)" by blast
      then show ?thesis
        using False 1 r1 b2 step_okD [OF Cons b2] by (auto simp: Let_def)
    qed
  qed
qed

lemma check_configuration_ok: "step_ok (check_configuration g)"
proof (rule step_okI)
  fix s :: tester
  assume s: "length (buf (dev s)) = TBUF_SIZE"
  let ?m = "Control_Msg (usb_rcvctrlpipe (udev g) 0) USB_REQ_GET_CONFIGURATION
            (USB_DIR_IN OR USB_RECIP_DEVICE) 0 0 [] 1"
  obtain q s2 where 2: "control_read g ?m 1 s = (q, s2)" by fastforce
  then have "length (buf (dev s2)) = TBUF_SIZE" using control_read_buf s by fastforce
  then show "\<exists>r s'. check_configuration g s = Some (r, s') \<and> r \<le> 0 \<and> length (buf (dev s')) = TBUF_SIZE"
    using 2 s by (auto simp: check_configuration_def)
qed

lemma check_device_ok: "step_ok (check_device g)"
proof (rule step_okI)
  fix s :: tester
  assume s: "length (buf (dev s)) = TBUF_SIZE"
  obtain q s2 where 2: "get_descriptor g USB_DT_DEVICE 0 18 s = (q, s2)" by fastforce
  then have "length (buf (dev s2)) = TBUF_SIZE" using get_descriptor_buf s by fastforce
  then show "\<exists>r s'. check_device g s = Some (r, s') \<and> r \<le> 0 \<and> length (buf (dev s')) = TBUF_SIZE"
    using 2 by (auto simp: check_device_def)
qed

lemma check_bos_ok: "step_ok (check_bos g)"
proof (rule step_okI)
  fix s :: tester
  assume s: "length (buf (dev s)) = TBUF_SIZE"
  obtain q s1 where 1: "get_descriptor g USB_DT_BOS 0 5 s = (q, s1)" by fastforce
  then have b1: "length (buf (dev s1)) = TBUF_SIZE" using get_descriptor_buf s by fastforce
  obtain t where t: "peek16 2 s1 = Some t" using peek16_defined [of 2 s1] b1 by auto
  let ?t = "min (unat t) TBUF_SIZE"
  obtain p s2 where 2: "get_descriptor g USB_DT_BOS 0 ?t s1 = (p, s2)" by fastforce
  then have b2: "length (buf (dev s2)) = TBUF_SIZE" using get_descriptor_buf b1 by fastforce
  have "?t \<le> TBUF_SIZE" by simp
  from walk_capabilities_defined [OF b2 this]
  obtain r where "walk_capabilities (unat (buf (dev s1) ! 4)) 0 5 ?t s2 = Some r" "r \<le> 0" by blast
  then show "\<exists>r s'. check_bos g s = Some (r, s') \<and> r \<le> 0 \<and> length (buf (dev s')) = TBUF_SIZE"
    using s 1 b1 t 2 b2 by (auto simp: check_bos_def Let_def)
qed

lemma check_configs_ok: "step_ok (check_configs g t is)"
proof (induction "is")
  case Nil
  then show ?case by (simp add: step_ok_def)
next
  case (Cons i "is")
  show ?case
  proof (rule step_okI)
    fix s :: tester
    assume s: "length (buf (dev s)) = TBUF_SIZE"
    obtain q s1 where 1: "get_descriptor g t i TBUF_SIZE s = (q, s1)" by fastforce
    then have b1: "length (buf (dev s1)) = TBUF_SIZE" using get_descriptor_buf s by fastforce
    then show "\<exists>r s'. check_configs g t (i # is) s = Some (r, s') \<and> r \<le> 0 \<and> length (buf (dev s')) = TBUF_SIZE"
      using 1 is_good_config_defined [OF b1, of g q] step_okD [OF Cons b1] by auto
  qed
qed

lemma check_qualifier_ok: "step_ok (check_qualifier g)"
proof (rule step_okI)
  fix s :: tester
  assume s: "length (buf (dev s)) = TBUF_SIZE"
  obtain q s1 where 1: "get_descriptor g USB_DT_DEVICE_QUALIFIER 0 10 s = (q, s1)" by fastforce
  then have b1: "length (buf (dev s1)) = TBUF_SIZE" using get_descriptor_buf s by fastforce
  from step_okD [OF check_configs_ok b1, of g USB_DT_OTHER_SPEED_CONFIG "[0..<unat (buf (dev s1) ! 8)]"]
  obtain r s2 where "check_configs g USB_DT_OTHER_SPEED_CONFIG [0..<unat (buf (dev s1) ! 8)] s1 = Some (r, s2)"
    "r \<le> 0" "length (buf (dev s2)) = TBUF_SIZE" by blast
  then show "\<exists>r s'. check_qualifier g s = Some (r, s') \<and> r \<le> 0 \<and> length (buf (dev s')) = TBUF_SIZE"
    using s 1 b1 by (auto simp: check_qualifier_def Let_def)
qed

lemma check_status_ok: "core_results (core g) \<Longrightarrow> step_ok (\<lambda>s. Some (check_status g recip target s))"
  by (rule step_okI) (auto simp: check_status_def control_read_def ask_def Let_def core_results_def)

lemma run_steps_ok: "\<forall>f \<in> set fs. step_ok f \<Longrightarrow> step_ok (run_steps fs)"
proof (induction fs)
  case Nil
  then show ?case by (simp add: step_ok_def)
next
  case (Cons f fs)
  then have f: "step_ok f" and fs: "step_ok (run_steps fs)" by simp_all
  show ?case
  proof (rule step_okI)
    fix s :: tester
    assume "length (buf (dev s)) = TBUF_SIZE"
    from step_okD [OF f this] obtain r s1 where 1: "f s = Some (r, s1)" "r \<le> 0" "length (buf (dev s1)) = TBUF_SIZE"
      by blast
    from step_okD [OF fs 1(3)] 1
    show "\<exists>r s'. run_steps (f # fs) s = Some (r, s') \<and> r \<le> 0 \<and> length (buf (dev s')) = TBUF_SIZE"
      by auto
  qed
qed

text \<open>
  C29. The chapter 9 tests always end, whatever the device answers: they read nothing outside the
  scratch buffer of 256 bytes, in particular not while they walk a capability set with lengths
  the device made up, keep that buffer's size, and return zero or a negative error.
\<close>

theorem ch9_total:
  assumes "core_results (core g)" and "length (buf (dev s)) = TBUF_SIZE"
  shows "\<exists>r s'. ch9_postconfig g s = Some (r, s') \<and> r \<le> 0 \<and> length (buf (dev s')) = TBUF_SIZE"
proof -
  have "step_ok (ch9_postconfig g)"
    unfolding ch9_postconfig_def
    by (rule run_steps_ok) (simp add: check_altsettings_ok check_configuration_ok check_device_ok check_bos_ok
        check_configs_ok check_qualifier_ok check_status_ok assms(1))
  then show ?thesis using assms(2) by (rule step_okD)
qed

section \<open>Witnesses\<close>

text \<open>A device of two configurations, of which the second cannot be read.\<close>

definition one_config_core :: core where
  "one_config_core h c = (case c of
     Get_Descriptor t i n \<Rightarrow>
       if i = 0 then \<lparr>rc = 256, in_time = True, status = 0, actual = 0,
           mem = [9, 2, 0x2c, 1, 1, 1, 0, 0x80] @ replicate 248 0\<rparr>
       else \<lparr>rc = - EPIPE, in_time = True, status = 0, actual = 0, mem = []\<rparr>
   | _ \<Rightarrow> \<lparr>rc = 0, in_time = True, status = 0, actual = 0, mem = []\<rparr>)"

definition one_config_rig :: rig where
  "one_config_rig = demo_rig\<lparr>core := one_config_core\<rparr>"

theorem ch9_total_witness:
  "\<exists>r s. ch9_postconfig one_config_rig demo_tester = Some (r, s) \<and> r \<le> 0"
proof -
  have "core_results (core one_config_rig)" "length (buf (dev demo_tester)) = TBUF_SIZE"
    by (simp_all add: core_results_def one_config_rig_def one_config_core_def demo_tester_def)
  then show ?thesis using ch9_total by blast
qed

end
