(* ===== verification/Usbtest_Control.thy ===== *)
theory Usbtest_Control
  imports Usbtest_Ch9
begin

unbundle bit_operations_syntax

text \<open>
  The queue of control requests (usbtest.c, lines 1200 to 1559): up to sixteen kinds of request
  are kept pending at once, each resubmitted from its own completion until the agreed number has
  been made.
\<close>

section \<open>State\<close>

text \<open>
  An urb of the queue with its subcase. \<open>cu_dev\<close> tells whether its device pointer is set: the
  completion clears it when the urb is not to be used again.
\<close>

record ctrl_urb =
  cu_urb :: turb
  cu_setup :: usb_ctrlrequest
  cu_number :: nat
  cu_expected :: int
  cu_dev :: bool

text \<open>
  The context the completions share. \<open>ctx_queued\<close> holds the positions of the urbs the core has,
  and \<open>ctx_done\<close> tells whether the completion was signalled.
\<close>

record ctrl_ctx =
  ctx_count :: u32
  ctx_pending :: u32
  ctx_status :: int
  ctx_last :: int
  ctx_urbs :: "ctrl_urb list"
  ctx_queued :: "nat list"
  ctx_done :: bool
  ctx_tester :: tester

definition ctx_ask :: "rig \<Rightarrow> core_call \<Rightarrow> ctrl_ctx \<Rightarrow> int \<times> ctrl_ctx" where
  "ctx_ask g call c = (let (r, s) = ask g call (ctx_tester c) in (rc r, c\<lparr>ctx_tester := s\<rparr>))"

definition queue_ctrl_urb :: "rig \<Rightarrow> nat \<Rightarrow> ctrl_ctx \<Rightarrow> int \<times> ctrl_ctx" where
  "queue_ctrl_urb g k c =
     (let u = ctx_urbs c ! k in
      ctx_ask g (Queue_Control k (t_pipe (cu_urb u)) (cu_setup u) (t_mem (cu_urb u))) c)"

section \<open>The completion\<close>

text \<open>Whether the status is the one expected, one that is allowed, or an error.\<close>

definition subtest_status :: "nat \<Rightarrow> int \<Rightarrow> int \<Rightarrow> int" where
  "subtest_status number expected st =
     (if st = expected then 0
      else if st \<noteq> - ECONNRESET then
        if 0 < expected \<and> (st = - expected \<or> st = 0) then 0
        else if number = 12 \<and> st = - EPIPE then 0
        else st
      else st)"

definition unlink_pending :: "rig \<Rightarrow> nat \<Rightarrow> nat \<Rightarrow> ctrl_ctx \<Rightarrow> ctrl_ctx" where
  "unlink_pending g number k c =
     fold (\<lambda>i c. let j = (i + number) mod length (ctx_urbs c) in
             if j = k \<or> \<not> cu_dev (ctx_urbs c ! j) then c else snd (ctx_ask g (Unlink j) c))
       [1..<length (ctx_urbs c)] c"

definition clear_dev :: "nat \<Rightarrow> ctrl_ctx \<Rightarrow> ctrl_ctx" where
  "clear_dev k c = c\<lparr>ctx_urbs := (ctx_urbs c)[k := (ctx_urbs c ! k)\<lparr>cu_dev := False\<rparr>]\<rparr>"

text \<open>Resubmitting the urb, or marking it as no longer used.\<close>

definition ctrl_resubmit :: "rig \<Rightarrow> nat \<Rightarrow> int \<Rightarrow> ctrl_ctx \<Rightarrow> ctrl_ctx" where
  "ctrl_resubmit g k st c =
     (if st = 0 \<and> ctx_pending c < ctx_count c
      then (let (r, c) = queue_ctrl_urb g k c in
            if r \<noteq> 0 then clear_dev k c
            else c\<lparr>ctx_pending := ctx_pending c + 1, ctx_queued := ctx_queued c @ [k]\<rparr>)
      else clear_dev k c)"

text \<open>
  The status the completion goes on with: requests complete in the order they were queued, which
  the numbers of the subcases show.
\<close>

definition ctrl_verdict :: "nat \<Rightarrow> int \<Rightarrow> ctrl_ctx \<Rightarrow> int" where
  "ctrl_verdict k st c =
     (let u = ctx_urbs c ! k in
      if 0 < cu_number u \<and> int (cu_number u) - ctx_last c \<noteq> 1 then - EDOM
      else subtest_status (cu_number u) (cu_expected u) st)"

text \<open>The first error is kept, and whatever is still pending is unlinked.\<close>

definition ctrl_account :: "rig \<Rightarrow> nat \<Rightarrow> int \<Rightarrow> ctrl_ctx \<Rightarrow> ctrl_ctx" where
  "ctrl_account g k verdict c =
     (let number = cu_number (ctx_urbs c ! k);
          c = c\<lparr>ctx_count := ctx_count c - 1, ctx_pending := ctx_pending c - 1, ctx_last := int number\<rparr>
      in if verdict \<noteq> 0 \<and> ctx_status c = 0
         then unlink_pending g number k (c\<lparr>ctx_status := verdict\<rparr>) else c)"

definition ctrl_complete :: "rig \<Rightarrow> nat \<Rightarrow> int \<Rightarrow> ctrl_ctx \<Rightarrow> ctrl_ctx" where
  "ctrl_complete g k st c =
     (let v = ctrl_verdict k st c; c = ctrl_resubmit g k v (ctrl_account g k v c)
      in c\<lparr>ctx_done := ctx_done c \<or> ctx_pending c = 0\<rparr>)"

section \<open>The requests\<close>

definition get_desc_req :: "u8 \<Rightarrow> usb_ctrlrequest" where
  "get_desc_req t = \<lparr>bRequestType = USB_DIR_IN OR USB_RECIP_DEVICE, bRequest = USB_REQ_GET_DESCRIPTOR,
     wValue = push_bit 8 (ucast t), wIndex = 0, wLength = 0\<rparr>"

definition in_req :: "u8 \<Rightarrow> u8 \<Rightarrow> usb_ctrlrequest" where
  "in_req recip req = \<lparr>bRequestType = USB_DIR_IN OR recip, bRequest = req, wValue = 0, wIndex = 0, wLength = 0\<rparr>"

text \<open>
  The sixteen subcases: the request, the length and the expected status, of which the sign tells
  whether the device must or may answer with it.
\<close>

definition subcase_13_len :: "usb_device \<Rightarrow> nat" where
  "subcase_13_len u =
     (if dev_speed u = USB_SPEED_SUPER then 1024 - 512 else 1024 - unat (dev_bMaxPacketSize0 u))"

definition subcase_14_len :: "usb_device \<Rightarrow> nat" where
  "subcase_14_len u =
     (let len = (if dev_speed u = USB_SPEED_SUPER then 512 else unat (dev_bMaxPacketSize0 u))
      in if len = 8 then 24 else if len = 16 then 32 else len)"

definition ctrl_subcase :: "usb_device \<Rightarrow> nat \<Rightarrow> usb_ctrlrequest \<times> nat \<times> int" where
  "ctrl_subcase u i =
     (if i = 0 then (get_desc_req USB_DT_DEVICE, 18, 0)
      else if i = 1 then (get_desc_req USB_DT_CONFIG, 9, 0)
      else if i = 2 then (in_req USB_RECIP_INTERFACE USB_REQ_GET_INTERFACE, 1, EPIPE)
      else if i = 3 then (in_req USB_RECIP_INTERFACE USB_REQ_GET_STATUS, 2, 0)
      else if i = 4 then (in_req USB_RECIP_DEVICE USB_REQ_GET_STATUS, 2, 0)
      else if i = 5 then (get_desc_req USB_DT_DEVICE_QUALIFIER, 10,
             if dev_speed u \<noteq> USB_SPEED_HIGH then EPIPE else 0)
      else if i = 6 then (get_desc_req USB_DT_CONFIG, 9 + 9, 0)
      else if i = 7 then (get_desc_req USB_DT_INTERFACE, 9, - EPIPE)
      else if i = 8 then ((in_req 0 USB_REQ_CLEAR_FEATURE)\<lparr>bRequestType := USB_RECIP_ENDPOINT\<rparr>, 0, EPIPE)
      else if i = 9 then (in_req USB_RECIP_ENDPOINT USB_REQ_GET_STATUS, 2, 0)
      else if i = 10 then (get_desc_req USB_DT_CONFIG, 1024, - EREMOTEIO)
      else if i = 11 then (get_desc_req USB_DT_ENDPOINT, 9, EPIPE)
      else if i = 12 then (get_desc_req USB_DT_STRING, 9, EREMOTEIO)
      else if i = 13 then (get_desc_req USB_DT_CONFIG, subcase_13_len u, - EREMOTEIO)
      else if i = 14 then (get_desc_req USB_DT_DEVICE, subcase_14_len u, - EREMOTEIO)
      else (get_desc_req USB_DT_BOS, (case bos_wTotalLength u of Some n \<Rightarrow> unat n | None \<Rightarrow> 5),
             if unat (dev_bcdUSB u) < 0x0201 then - EPIPE else 0))"

definition ctrl_pipe :: "usb_device \<Rightarrow> nat \<Rightarrow> u32" where
  "ctrl_pipe u i = (if i = 8 then usb_sndctrlpipe u 0 else usb_rcvctrlpipe u 0)"

text \<open>
  Allocating the urbs one after the other, and whether all of them could be allocated; an urb for
  which only the subcase could not be is among those to be freed.
\<close>

primrec ctrl_alloc :: "rig \<Rightarrow> nat list \<Rightarrow> tester \<Rightarrow> ctrl_urb list \<times> bool \<times> tester" where
  "ctrl_alloc g [] s = ([], True, s)"
| "ctrl_alloc g (i # is) s =
     (let n = i mod 16; (req, len, expected) = ctrl_subcase (udev g) n;
          (u, s) = simple_alloc_urb g (ctrl_pipe (udev g) n) len s
      in case u of
           None \<Rightarrow> ([], False, s)
         | Some u \<Rightarrow>
             (let cu = \<lparr>cu_urb = u, cu_setup = req\<lparr>wLength := of_nat len\<rparr>, cu_number = n,
                        cu_expected = expected, cu_dev = True\<rparr>;
                  (r, s) = ask g (Alloc 16) s
              in if rc r \<noteq> 0 then ([cu], False, s)
                 else let (us, done, s) = ctrl_alloc g is s in (cu # us, done, s)))"

definition ctrl_free :: "rig \<Rightarrow> ctrl_urb list \<Rightarrow> tester \<Rightarrow> tester" where
  "ctrl_free g us s = fold (\<lambda>u. simple_free_urb g (cu_urb u)) us s"

section \<open>The test\<close>

primrec ctrl_submit :: "rig \<Rightarrow> nat list \<Rightarrow> ctrl_ctx \<Rightarrow> ctrl_ctx" where
  "ctrl_submit g [] c = c"
| "ctrl_submit g (k # ks) c =
     (let (r, c) = queue_ctrl_urb g k c; c = c\<lparr>ctx_status := r\<rparr> in
      if r \<noteq> 0 then c\<lparr>ctx_count := ctx_pending c\<rparr>
      else ctrl_submit g ks (c\<lparr>ctx_pending := ctx_pending c + 1, ctx_queued := ctx_queued c @ [k]\<rparr>))"

text \<open>
  What gives the urbs back: it picks one the core has, and its status. The controller gives them
  back one at a time, so no completion runs inside another.
\<close>

type_synonym giver = "ctrl_ctx \<Rightarrow> nat \<times> int"

text \<open>
  Waiting for the signal; \<open>None\<close> when it has not come after so many completions, or when an urb
  is given back that the core does not have.
\<close>

primrec ctrl_wait :: "rig \<Rightarrow> giver \<Rightarrow> nat \<Rightarrow> ctrl_ctx \<Rightarrow> ctrl_ctx option" where
  "ctrl_wait g env 0 c = (if ctx_done c then Some c else None)"
| "ctrl_wait g env (Suc n) c =
     (if ctx_done c then Some c
      else let (k, st) = env c in
        if k \<in> set (ctx_queued c)
        then ctrl_wait g env n (ctrl_complete g k st (c\<lparr>ctx_queued := remove1 k (ctx_queued c)\<rparr>))
        else None)"

definition ctrl_start :: "u32 \<Rightarrow> u32 \<Rightarrow> ctrl_urb list \<Rightarrow> tester \<Rightarrow> ctrl_ctx" where
  "ctrl_start sglen iterations us s = \<lparr>ctx_count = sglen * iterations, ctx_pending = 0, ctx_status = - ENOMEM,
     ctx_last = - 1, ctx_urbs = us, ctx_queued = [], ctx_done = False, ctx_tester = s\<rparr>"

text \<open>The part of the test between allocating the urbs and freeing them: submitting all, and waiting.\<close>

definition ctrl_session ::
  "rig \<Rightarrow> giver \<Rightarrow> u32 \<Rightarrow> u32 \<Rightarrow> ctrl_urb list \<Rightarrow> tester \<Rightarrow> ctrl_ctx option" where
  "ctrl_session g env sglen iterations us s =
     (let c = ctrl_submit g [0..<unat sglen] (ctrl_start sglen iterations us s) in
      if 0 < ctx_pending c then ctrl_wait g env (unat (ctx_count c)) c else Some c)"

definition test_ctrl_queue :: "rig \<Rightarrow> giver \<Rightarrow> u32 \<Rightarrow> u32 \<Rightarrow> tester \<Rightarrow> (int \<times> tester) option" where
  "test_ctrl_queue g env sglen iterations s =
     (if sglen = 0 \<or> (2 ^ 32 - 1) div unat sglen < unat iterations then Some (- EOPNOTSUPP, s)
      else let (r, s) = ask g (Alloc (8 * unat sglen)) s in
        if rc r \<noteq> 0 then Some (- ENOMEM, s)
        else let (us, done, s) = ctrl_alloc g [0..<unat sglen] s in
          if \<not> done then Some (- ENOMEM, ctrl_free g us s)
          else do {
            c \<leftarrow> ctrl_session g env sglen iterations us s;
            Some (ctx_status c, ctrl_free g us (ctx_tester c))
          })"

section \<open>Accounting\<close>

lemma ctx_ask_simps:
  "ctx_ask g call c = (r, c') \<Longrightarrow> ctx_count c' = ctx_count c \<and> ctx_pending c' = ctx_pending c \<and>
     ctx_status c' = ctx_status c \<and> ctx_last c' = ctx_last c \<and> ctx_urbs c' = ctx_urbs c \<and>
     ctx_queued c' = ctx_queued c \<and> ctx_done c' = ctx_done c \<and> asked (ctx_tester c') = asked (ctx_tester c) @ [call]
     \<and> r = rc (core g (asked (ctx_tester c)) call)"
  by (auto simp: ctx_ask_def ask_def)

text \<open>The calls that queue an urb, of a history.\<close>

definition queue_calls :: "core_call list \<Rightarrow> nat" where
  "queue_calls cs = length (filter (\<lambda>c. case c of Queue_Control _ _ _ _ \<Rightarrow> True | _ \<Rightarrow> False) cs)"

lemma queue_calls_simps [simp]:
  "queue_calls (xs @ ys) = queue_calls xs + queue_calls ys"
  "queue_calls (Queue_Control k p r m # cs) = Suc (queue_calls cs)"
  "queue_calls (Unlink k # cs) = queue_calls cs" "queue_calls (Alloc n # cs) = queue_calls cs"
  "queue_calls (Alloc_Urb # cs) = queue_calls cs" "queue_calls (Free_Urb # cs) = queue_calls cs"
  "queue_calls [] = 0"
  by (simp_all add: queue_calls_def)

text \<open>
  The urbs the core has are those that are pending, there are no more of them than completions are
  left to come, and the signal has been given exactly when none is left.
\<close>

definition queue_ok :: "ctrl_ctx \<Rightarrow> bool" where
  "queue_ok c \<longleftrightarrow> distinct (ctx_queued c) \<and> (\<forall>k \<in> set (ctx_queued c). k < length (ctx_urbs c))
     \<and> length (ctx_queued c) = unat (ctx_pending c) \<and> ctx_pending c \<le> ctx_count c"

lemma unlink_pending_keeps:
  "ctx_count (unlink_pending g m k c) = ctx_count c" "ctx_pending (unlink_pending g m k c) = ctx_pending c"
  "ctx_status (unlink_pending g m k c) = ctx_status c" "ctx_last (unlink_pending g m k c) = ctx_last c"
  "ctx_urbs (unlink_pending g m k c) = ctx_urbs c" "ctx_queued (unlink_pending g m k c) = ctx_queued c"
  "ctx_done (unlink_pending g m k c) = ctx_done c"
  "queue_calls (asked (ctx_tester (unlink_pending g m k c))) = queue_calls (asked (ctx_tester c))"
proof -
  let ?f = "\<lambda>i c. let j = (i + m) mod length (ctx_urbs c) in
      if j = k \<or> \<not> cu_dev (ctx_urbs c ! j) then c else snd (ctx_ask g (Unlink j) c)"
  have "\<forall>c. ctx_count (fold ?f is c) = ctx_count c \<and> ctx_pending (fold ?f is c) = ctx_pending c
    \<and> ctx_status (fold ?f is c) = ctx_status c \<and> ctx_last (fold ?f is c) = ctx_last c
    \<and> ctx_urbs (fold ?f is c) = ctx_urbs c \<and> ctx_queued (fold ?f is c) = ctx_queued c
    \<and> ctx_done (fold ?f is c) = ctx_done c
    \<and> queue_calls (asked (ctx_tester (fold ?f is c))) = queue_calls (asked (ctx_tester c))" for "is"
    by (induction "is") (simp_all add: Let_def ctx_ask_def ask_def split_def)
  then show "ctx_count (unlink_pending g m k c) = ctx_count c" "ctx_pending (unlink_pending g m k c) = ctx_pending c"
    "ctx_status (unlink_pending g m k c) = ctx_status c" "ctx_last (unlink_pending g m k c) = ctx_last c"
    "ctx_urbs (unlink_pending g m k c) = ctx_urbs c" "ctx_queued (unlink_pending g m k c) = ctx_queued c"
    "ctx_done (unlink_pending g m k c) = ctx_done c"
    "queue_calls (asked (ctx_tester (unlink_pending g m k c))) = queue_calls (asked (ctx_tester c))"
    by (simp_all add: unlink_pending_def)
qed

lemma ctrl_account_keeps:
  "ctx_count (ctrl_account g k v c) = ctx_count c - 1" "ctx_pending (ctrl_account g k v c) = ctx_pending c - 1"
  "ctx_urbs (ctrl_account g k v c) = ctx_urbs c" "ctx_queued (ctrl_account g k v c) = ctx_queued c"
  "ctx_done (ctrl_account g k v c) = ctx_done c"
  "queue_calls (asked (ctx_tester (ctrl_account g k v c))) = queue_calls (asked (ctx_tester c))"
  "ctx_status (ctrl_account g k v c) = (if ctx_status c = 0 then v else ctx_status c)"
  by (simp_all add: ctrl_account_def unlink_pending_keeps Let_def)

lemma ctrl_resubmit_cases:
  obtains (again) u where "v = 0" "ctx_pending c < ctx_count c"
      "rc (core g (asked (ctx_tester c)) u) = 0" "u = Queue_Control k (t_pipe (cu_urb (ctx_urbs c ! k)))
        (cu_setup (ctx_urbs c ! k)) (t_mem (cu_urb (ctx_urbs c ! k)))"
      "ctrl_resubmit g k v c = c\<lparr>ctx_pending := ctx_pending c + 1, ctx_queued := ctx_queued c @ [k],
         ctx_tester := (ctx_tester c)\<lparr>asked := asked (ctx_tester c) @ [u]\<rparr>\<rparr>"
    | (failed) u where "v = 0" "ctx_pending c < ctx_count c"
      "rc (core g (asked (ctx_tester c)) u) \<noteq> 0" "u = Queue_Control k (t_pipe (cu_urb (ctx_urbs c ! k)))
        (cu_setup (ctx_urbs c ! k)) (t_mem (cu_urb (ctx_urbs c ! k)))"
      "ctrl_resubmit g k v c = clear_dev k (c\<lparr>ctx_tester := (ctx_tester c)\<lparr>asked := asked (ctx_tester c) @ [u]\<rparr>\<rparr>)"
    | (last) "v \<noteq> 0 \<or> \<not> ctx_pending c < ctx_count c" "ctrl_resubmit g k v c = clear_dev k c"
proof -
  let ?u = "Queue_Control k (t_pipe (cu_urb (ctx_urbs c ! k)))
        (cu_setup (ctx_urbs c ! k)) (t_mem (cu_urb (ctx_urbs c ! k)))"
  consider "v = 0 \<and> ctx_pending c < ctx_count c \<and> rc (core g (asked (ctx_tester c)) ?u) = 0"
    | "v = 0 \<and> ctx_pending c < ctx_count c \<and> rc (core g (asked (ctx_tester c)) ?u) \<noteq> 0"
    | "v \<noteq> 0 \<or> \<not> ctx_pending c < ctx_count c" by blast
  then show thesis
  proof cases
    case 1
    then show ?thesis
      by (intro again [OF _ _ _ refl]) (simp_all add: ctrl_resubmit_def queue_ctrl_urb_def ctx_ask_def ask_def Let_def)
  next
    case 2
    then show ?thesis
      by (intro failed [OF _ _ _ refl]) (simp_all add: ctrl_resubmit_def queue_ctrl_urb_def ctx_ask_def ask_def Let_def)
  next
    case 3
    then show ?thesis by (intro last) (auto simp: ctrl_resubmit_def)
  qed
qed

lemma clear_dev_keeps [simp]:
  "ctx_count (clear_dev k c) = ctx_count c" "ctx_pending (clear_dev k c) = ctx_pending c"
  "ctx_status (clear_dev k c) = ctx_status c" "length (ctx_urbs (clear_dev k c)) = length (ctx_urbs c)"
  "ctx_queued (clear_dev k c) = ctx_queued c" "ctx_done (clear_dev k c) = ctx_done c"
  "ctx_tester (clear_dev k c) = ctx_tester c"
  by (simp_all add: clear_dev_def)

lemma ctrl_complete_step:
  fixes g st
  assumes "queue_ok c" and "k \<in> set (ctx_queued c)"
  defines "c' \<equiv> ctrl_complete g k st (c\<lparr>ctx_queued := remove1 k (ctx_queued c)\<rparr>)"
  shows "queue_ok c'" and "unat (ctx_count c') = unat (ctx_count c) - 1" and "0 < unat (ctx_count c)"
    and "length (ctx_urbs c') = length (ctx_urbs c)"
    and "ctx_done c' \<longleftrightarrow> ctx_done c \<or> ctx_pending c' = 0"
    and "ctx_status c \<noteq> 0 \<Longrightarrow> ctx_status c' \<noteq> 0"
proof -
  let ?c = "c\<lparr>ctx_queued := remove1 k (ctx_queued c)\<rparr>"
  let ?v = "ctrl_verdict k st ?c"
  let ?a = "ctrl_account g k ?v ?c"
  have pending: "length (ctx_queued c) = unat (ctx_pending c)" using assms(1) by (simp add: queue_ok_def)
  have "0 < length (ctx_queued c)" by (rule length_pos_if_in_set [OF assms(2)])
  then have pos: "0 < unat (ctx_pending c)" unfolding pending .
  have le: "unat (ctx_pending c) \<le> unat (ctx_count c)"
    using assms(1) by (simp add: queue_ok_def word_le_nat_alt)
  show cpos: "0 < unat (ctx_count c)" using pos le by simp
  have dec: "unat (ctx_pending c - 1) = unat (ctx_pending c) - 1" "unat (ctx_count c - 1) = unat (ctx_count c) - 1"
    using pos cpos by (simp_all add: word_dec word_less_nat_alt)
  have len: "length (remove1 k (ctx_queued c)) = unat (ctx_pending c) - 1"
    using assms(1,2) by (simp add: length_remove1 queue_ok_def)
  have k: "k < length (ctx_urbs c)" "k \<notin> set (remove1 k (ctx_queued c))" "distinct (remove1 k (ctx_queued c))"
    "\<forall>j \<in> set (remove1 k (ctx_queued c)). j < length (ctx_urbs c)"
    using assms(1,2) by (auto simp: queue_ok_def set_remove1_eq)
  have eq: "c' = (let c = ctrl_resubmit g k ?v ?a in c\<lparr>ctx_done := ctx_done c \<or> ctx_pending c = 0\<rparr>)"
    unfolding c'_def ctrl_complete_def Let_def ..
  have goals: "queue_ok c' \<and> unat (ctx_count c') = unat (ctx_count c) - 1
    \<and> length (ctx_urbs c') = length (ctx_urbs c) \<and> (ctx_done c' \<longleftrightarrow> ctx_done c \<or> ctx_pending c' = 0)
    \<and> (ctx_status c \<noteq> 0 \<longrightarrow> ctx_status c' \<noteq> 0)"
  proof (cases rule: ctrl_resubmit_cases [of ?v ?a g k])
    case (again u)
    have lt: "ctx_pending c - 1 < ctx_count c - 1" using again(2) by (simp add: ctrl_account_keeps)
    then have "unat (ctx_pending c - 1 + 1) = unat (ctx_pending c)" using word_inc [OF lt] dec pos by simp
    moreover have "ctx_pending c - 1 + 1 \<le> ctx_count c - 1" using lt dec pos by (simp add: word_le_nat_alt word_less_nat_alt)
    ultimately show ?thesis
      using again(5) k len pos by (auto simp: eq Let_def queue_ok_def ctrl_account_keeps dec)
  next
    case (failed u)
    have "ctx_pending c - 1 \<le> ctx_count c - 1" using le dec by (simp add: word_le_nat_alt)
    then show ?thesis
      using failed(5) k len by (auto simp: eq Let_def queue_ok_def ctrl_account_keeps dec)
  next
    case last
    have "ctx_pending c - 1 \<le> ctx_count c - 1" using le dec by (simp add: word_le_nat_alt)
    then show ?thesis
      using last(2) k len by (auto simp: eq Let_def queue_ok_def ctrl_account_keeps dec)
  qed
  then show "queue_ok c'" "unat (ctx_count c') = unat (ctx_count c) - 1"
    "length (ctx_urbs c') = length (ctx_urbs c)" "ctx_done c' \<longleftrightarrow> ctx_done c \<or> ctx_pending c' = 0"
    "ctx_status c \<noteq> 0 \<Longrightarrow> ctx_status c' \<noteq> 0" by auto
qed

section \<open>Waiting for a queue\<close>

text \<open>
  What a queue of urbs and the test waiting for it promise each other: a completion keeps what the
  queue relies on and leaves less to do, and while the signal is not given the core has an urb. A
  test that waits for as many completions as are left then ends with the signal, whatever is given
  back in whatever order.
\<close>

locale work_queue =
  fixes sound :: "'c \<Rightarrow> bool" and ended :: "'c \<Rightarrow> bool" and left_over :: "'c \<Rightarrow> nat"
    and flight :: "'c \<Rightarrow> nat list" and complete :: "nat \<Rightarrow> 'r \<Rightarrow> 'c \<Rightarrow> 'c"
    and wait :: "('c \<Rightarrow> nat \<times> 'r) \<Rightarrow> nat \<Rightarrow> 'c \<Rightarrow> 'c option"
  assumes completes: "sound c \<Longrightarrow> k \<in> set (flight c) \<Longrightarrow>
      sound (complete k r c) \<and> left_over (complete k r c) < left_over c"
    and busy: "sound c \<Longrightarrow> \<not> ended c \<Longrightarrow> flight c \<noteq> []"
    and wait_0: "wait env 0 c = (if ended c then Some c else None)"
    and wait_Suc: "wait env (Suc n) c = (if ended c then Some c
      else if fst (env c) \<in> set (flight c) then wait env n (complete (fst (env c)) (snd (env c)) c) else None)"
begin

definition honest :: "('c \<Rightarrow> nat \<times> 'r) \<Rightarrow> bool" where
  "honest env \<longleftrightarrow> (\<forall>c. flight c \<noteq> [] \<longrightarrow> fst (env c) \<in> set (flight c))"

lemma wait_ends:
  assumes "honest env" and "sound c" and "left_over c \<le> n"
  shows "\<exists>c'. wait env n c = Some c' \<and> sound c' \<and> ended c'"
  using assms(2,3)
proof (induction n arbitrary: c)
  case 0
  have "ended c"
  proof (rule ccontr)
    assume "\<not> ended c"
    then obtain k where "k \<in> set (flight c)" using busy [OF 0(1)] by (cases "flight c") auto
    then show False using completes [OF 0(1)] 0(2) by fastforce
  qed
  then show ?case using 0(1) by (simp add: wait_0)
next
  case (Suc n)
  show ?case
  proof (cases "ended c")
    case True
    then show ?thesis using Suc.prems(1) by (simp add: wait_Suc)
  next
    case False
    let ?c = "complete (fst (env c)) (snd (env c)) c"
    have k: "fst (env c) \<in> set (flight c)"
      using busy [OF Suc.prems(1) False] assms(1) by (simp add: honest_def)
    have c: "sound ?c \<and> left_over ?c < left_over c" by (rule completes [OF Suc.prems(1) k])
    then have "left_over ?c \<le> n" using Suc.prems(2) by linarith
    then show ?thesis using Suc.IH c False k by (simp add: wait_Suc)
  qed
qed

end

section \<open>The test ends\<close>

text \<open>What the controller promises: it gives back an urb it has.\<close>

definition gives_back :: "giver \<Rightarrow> bool" where
  "gives_back env \<longleftrightarrow> (\<forall>c. ctx_queued c \<noteq> [] \<longrightarrow> fst (env c) \<in> set (ctx_queued c))"

interpretation ctrl: work_queue "\<lambda>c. queue_ok c \<and> (ctx_done c \<longleftrightarrow> ctx_pending c = 0)" ctx_done
  "\<lambda>c. unat (ctx_count c)" ctx_queued
  "\<lambda>k st c. ctrl_complete g k st (c\<lparr>ctx_queued := remove1 k (ctx_queued c)\<rparr>)" "ctrl_wait g" for g
proof (unfold_locales, goal_cases)
  case (1 c k st)
  then have ok: "queue_ok c" and d: "ctx_done c \<longleftrightarrow> ctx_pending c = 0" by blast+
  have "ctx_pending c \<noteq> 0" using ok length_pos_if_in_set [OF 1(2)] by (auto simp: queue_ok_def)
  then show ?case using ctrl_complete_step(1,2,5) [OF ok 1(2), where g = g and st = st] ctrl_complete_step(3) [OF ok 1(2)] d by simp
next
  case (2 c)
  then have "unat (ctx_pending c) \<noteq> 0" by (simp add: unat_eq_0)
  then show ?case using 2(1) by (auto simp: queue_ok_def)
qed (simp_all add: split_def Let_def)

text \<open>Nothing is left of the queue: no request is pending, and the core has no urb of it.\<close>

definition idle :: "ctrl_ctx \<Rightarrow> bool" where
  "idle c \<longleftrightarrow> ctx_pending c = 0 \<and> ctx_queued c = []"

lemma ctrl_wait_ends:
  assumes "gives_back env" and "queue_ok c" and "ctx_done c \<longleftrightarrow> ctx_pending c = 0"
  shows "\<exists>c'. ctrl_wait g env (unat (ctx_count c)) c = Some c' \<and> idle c'"
  using ctrl.wait_ends [where env = env and c = c and g = g and n = "unat (ctx_count c)"] assms
  by (auto simp: ctrl.honest_def gives_back_def queue_ok_def idle_def)

lemma ctrl_submit_ok:
  assumes "queue_ok c" and "\<not> ctx_done c" and "ctx_queued c = [0..<i]" and "i \<le> length (ctx_urbs c)"
    and "length (ctx_urbs c) \<le> unat (ctx_count c)"
  shows "queue_ok (ctrl_submit g [i..<length (ctx_urbs c)] c) \<and> \<not> ctx_done (ctrl_submit g [i..<length (ctx_urbs c)] c)"
  using assms
proof (induction "length (ctx_urbs c) - i" arbitrary: i c)
  case 0
  then show ?case by simp
next
  case (Suc d)
  then have lt: "i < length (ctx_urbs c)" by simp
  then have upt: "[i..<length (ctx_urbs c)] = i # [Suc i..<length (ctx_urbs c)]" by (simp add: upt_rec)
  obtain r c1 where q: "queue_ctrl_urb g i c = (r, c1)" by fastforce
  then have c1: "ctx_count c1 = ctx_count c" "ctx_pending c1 = ctx_pending c" "ctx_urbs c1 = ctx_urbs c"
    "ctx_queued c1 = ctx_queued c" "ctx_done c1 = ctx_done c"
    using ctx_ask_simps by (auto simp: queue_ctrl_urb_def Let_def)
  have i: "unat (ctx_pending c) = i" using Suc.prems(1,3) by (simp add: queue_ok_def)
  then have "ctx_pending c < ctx_count c" using lt Suc.prems(5) by (simp add: word_less_nat_alt)
  then have inc: "unat (ctx_pending c + 1) = i + 1" by (simp add: word_inc i)
  show ?case
  proof (cases "r = 0")
    case False
    then have "ctrl_submit g [i..<length (ctx_urbs c)] c = c1\<lparr>ctx_status := r, ctx_count := ctx_pending c1\<rparr>"
      using q by (simp add: upt)
    then show ?thesis using Suc.prems(1,2) c1 by (simp add: queue_ok_def)
  next
    case True
    let ?c = "c1\<lparr>ctx_status := r, ctx_pending := ctx_pending c1 + 1, ctx_queued := ctx_queued c1 @ [i]\<rparr>"
    have "queue_ok ?c"
      using Suc.prems lt inc by (auto simp: queue_ok_def c1 word_le_nat_alt)
    then have "queue_ok (ctrl_submit g [Suc i..<length (ctx_urbs ?c)] ?c)
        \<and> \<not> ctx_done (ctrl_submit g [Suc i..<length (ctx_urbs ?c)] ?c)"
      by (intro Suc.hyps(1)) (use Suc.prems Suc.hyps(2) lt c1 in simp_all)
    then show ?thesis using q True by (simp add: upt c1)
  qed
qed

lemma ctrl_alloc_length:
  "fst (snd (ctrl_alloc g is s)) \<Longrightarrow> length (fst (ctrl_alloc g is s)) = length is"
  by (induction "is" arbitrary: s) (auto simp: Let_def split_def split: option.splits if_splits)

lemma ctrl_start_ok:
  assumes "sglen \<noteq> 0" and "iterations \<noteq> 0" and "unat iterations \<le> (2 ^ 32 - 1) div unat sglen"
    and "length us = unat sglen"
  shows "queue_ok (ctrl_start sglen iterations us s)" "\<not> ctx_done (ctrl_start sglen iterations us s)"
    "length us \<le> unat (ctx_count (ctrl_start sglen iterations us s))"
  using assms product_fits [OF assms(1,3)]
  by (simp_all add: ctrl_start_def queue_ok_def unat_eq_0 [symmetric])

lemma ctrl_alloc_calls: "queue_calls (asked (snd (snd (ctrl_alloc g is s)))) = queue_calls (asked s)"
proof -
  have "queue_calls (asked (snd (simple_alloc_urb g p n s))) = queue_calls (asked s)" for p n s
    by (simp add: simple_alloc_urb_def usbtest_alloc_urb_def ask_def Let_def)
  then show ?thesis
    by (induction "is" arbitrary: s) (simp_all add: Let_def split_def ask_def split: option.split)
qed

lemma ctrl_free_calls: "queue_calls (asked (ctrl_free g us s)) = queue_calls (asked s)"
  unfolding ctrl_free_def by (induction us arbitrary: s) (simp_all add: simple_free_urb_def ask_def)

lemma ctrl_session_ends:
  assumes "gives_back env" and "iterations \<noteq> 0" and "sglen \<noteq> 0" and "unat iterations \<le> (2 ^ 32 - 1) div unat sglen"
    and "length us = unat sglen"
  shows "\<exists>c. ctrl_session g env sglen iterations us s = Some c \<and> idle c"
proof -
  let ?start = "ctrl_start sglen iterations us s"
  let ?c = "ctrl_submit g [0..<unat sglen] ?start"
  note start = ctrl_start_ok [OF assms(3,2,4,5), where s = s]
  have urbs: "ctx_urbs ?start = us" by (simp add: ctrl_start_def)
  have "queue_ok (ctrl_submit g [0..<length (ctx_urbs ?start)] ?start)
      \<and> \<not> ctx_done (ctrl_submit g [0..<length (ctx_urbs ?start)] ?start)"
    by (rule ctrl_submit_ok [OF start(1,2)]) (use start(3) urbs in \<open>simp_all add: ctrl_start_def\<close>)
  then have ok: "queue_ok ?c" "\<not> ctx_done ?c" by (simp_all add: urbs assms(5))
  show ?thesis
  proof (cases "0 < ctx_pending ?c")
    case True
    then show ?thesis
      using ctrl_wait_ends [OF assms(1) ok(1), of g] ok(2) by (auto simp: ctrl_session_def Let_def)
  next
    case False
    then have "ctx_pending ?c = 0" by (simp add: word_neq_0_conv [symmetric])
    then have "idle ?c" using ok(1) by (auto simp: idle_def queue_ok_def)
    then show ?thesis using False by (simp add: ctrl_session_def)
  qed
qed

text \<open>
  C14. The test of queued control requests ends, whatever the device answers and in whatever order
  the controller gives back the urbs it has (one it has, as \<open>gives_back\<close> says), errors, unlinking
  and failed resubmissions included. Either its parameters are refused, or an allocation fails, and
  then no request was made; or the urbs were submitted, the waiting test went on only when none of
  them was pending or with the core any more, and after that they were freed. (Of no iterations,
  which the request of user space may not ask for, nothing is said.)
\<close>

theorem ctrl_queue_returns:
  assumes "gives_back env" and "iterations \<noteq> 0"
  shows "\<exists>r s'. test_ctrl_queue g env sglen iterations s = Some (r, s')
    \<and> (r = - EOPNOTSUPP \<and> s' = s
       \<or> r = - ENOMEM \<and> queue_calls (asked s') = queue_calls (asked s)
       \<or> (\<exists>us s1 c. ctrl_alloc g [0..<unat sglen] (snd (ask g (Alloc (8 * unat sglen)) s)) = (us, True, s1)
            \<and> ctrl_session g env sglen iterations us s1 = Some c \<and> ctx_pending c = 0 \<and> ctx_queued c = []
            \<and> r = ctx_status c \<and> s' = ctrl_free g us (ctx_tester c)))"
proof (cases "sglen = 0 \<or> (2 ^ 32 - 1) div unat sglen < unat iterations \<or> rc (core g (asked s) (Alloc (8 * unat sglen))) \<noteq> 0")
  case True
  then show ?thesis by (auto simp: test_ctrl_queue_def ask_def)
next
  case False
  let ?s = "s\<lparr>asked := asked s @ [Alloc (8 * unat sglen)]\<rparr>"
  obtain us ok s1 where alloc: "ctrl_alloc g [0..<unat sglen] ?s = (us, ok, s1)" by (metis prod_cases3)
  have calls: "queue_calls (asked s1) = queue_calls (asked s)" using ctrl_alloc_calls [of g "[0..<unat sglen]" ?s] alloc by simp
  show ?thesis
  proof (cases ok)
    case no: False
    then show ?thesis using False alloc calls by (simp add: test_ctrl_queue_def ask_def ctrl_free_calls)
  next
    case True
    then have len: "length us = unat sglen" using ctrl_alloc_length [of g "[0..<unat sglen]" ?s] alloc by simp
    obtain c where c: "ctrl_session g env sglen iterations us s1 = Some c" "ctx_pending c = 0 \<and> ctx_queued c = []"
      using ctrl_session_ends [OF assms _ _ len, of g s1] False by (auto simp: idle_def)
    then have "test_ctrl_queue g env sglen iterations s = Some (ctx_status c, ctrl_free g us (ctx_tester c))"
      using False alloc True c(1) by (simp add: test_ctrl_queue_def ask_def)
    moreover have "snd (ask g (Alloc (8 * unat sglen)) s) = ?s" by (simp add: ask_def)
    ultimately show ?thesis using c alloc True by metis
  qed
qed

section \<open>What a success means\<close>

definition takes_all :: "core \<Rightarrow> bool" where
  "takes_all c \<longleftrightarrow> (\<forall>h k p r m. rc (c h (Queue_Control k p r m)) = 0)"

text \<open>
  While no error was found, either the queue is full or all that is left to do is pending; the
  requests made are those completed and those pending.
\<close>

definition queue_full :: "nat \<Rightarrow> ctrl_ctx \<Rightarrow> bool" where
  "queue_full m c \<longleftrightarrow> (unat (ctx_pending c) = length (ctx_urbs c) \<or> ctx_pending c = ctx_count c)
     \<and> queue_calls (asked (ctx_tester c)) + unat (ctx_count c) = m + unat (ctx_pending c)"

lemma ctrl_complete_full:
  fixes g st
  assumes "queue_ok c" and "k \<in> set (ctx_queued c)" and "takes_all (core g)" and "queue_full m c"
    and "ctx_status c = 0"
  defines "c' \<equiv> ctrl_complete g k st (c\<lparr>ctx_queued := remove1 k (ctx_queued c)\<rparr>)"
  assumes "ctx_status c' = 0"
  shows "queue_full m c'"
proof -
  let ?c = "c\<lparr>ctx_queued := remove1 k (ctx_queued c)\<rparr>"
  let ?v = "ctrl_verdict k st ?c"
  let ?a = "ctrl_account g k ?v ?c"
  have pending: "length (ctx_queued c) = unat (ctx_pending c)" using assms(1) by (simp add: queue_ok_def)
  have "0 < length (ctx_queued c)" by (rule length_pos_if_in_set [OF assms(2)])
  then have pos: "0 < unat (ctx_pending c)" unfolding pending .
  have le: "unat (ctx_pending c) \<le> unat (ctx_count c)"
    using assms(1) by (simp add: queue_ok_def word_le_nat_alt)
  have dec: "unat (ctx_pending c - 1) = unat (ctx_pending c) - 1" "unat (ctx_count c - 1) = unat (ctx_count c) - 1"
    using pos le by (simp_all add: word_dec word_less_nat_alt)
  have eq: "c' = (let c = ctrl_resubmit g k ?v ?a in c\<lparr>ctx_done := ctx_done c \<or> ctx_pending c = 0\<rparr>)"
    unfolding c'_def ctrl_complete_def Let_def ..
  have lt: "ctx_pending ?a < ctx_count ?a \<longleftrightarrow> unat (ctx_pending c) < unat (ctx_count c)"
    unfolding ctrl_account_keeps word_less_nat_alt by (simp add: dec) (use pos le in arith)
  show ?thesis
  proof (cases rule: ctrl_resubmit_cases [of ?v ?a g k])
    case (again u)
    have less: "unat (ctx_pending c) < unat (ctx_count c)" using again(2) lt by simp
    then have "unat (ctx_pending c) = length (ctx_urbs c)" using assms(4) by (auto simp: queue_full_def)
    then show ?thesis
      using assms(4) again(4,5) less by (simp add: eq Let_def queue_full_def ctrl_account_keeps dec)
  next
    case (failed u)
    then show ?thesis using assms(3) by (simp add: takes_all_def)
  next
    case last
    have "?v = 0" using last(2) assms(5,7) by (simp add: eq Let_def ctrl_account_keeps)
    then have "unat (ctx_pending c) = unat (ctx_count c)" using last(1) lt le by auto
    then have "ctx_pending c = ctx_count c" by (simp only: word_unat_eq_iff)
    then show ?thesis
      using assms(4) last(2) pos by (simp add: eq Let_def queue_full_def ctrl_account_keeps dec)
  qed
qed

lemma ctrl_complete_error_stays:
  assumes "queue_ok c" and "k \<in> set (ctx_queued c)"
    and "ctx_status (ctrl_complete g k st (c\<lparr>ctx_queued := remove1 k (ctx_queued c)\<rparr>)) = 0"
  shows "ctx_status c = 0"
  using ctrl_complete_step(6) [OF assms(1,2)] assms(3) by blast

lemma ctrl_wait_full:
  assumes "ctrl_wait g env n c = Some c'" and "ctx_status c' = 0" and "takes_all (core g)"
    and "queue_ok c" and "ctx_done c \<longleftrightarrow> ctx_pending c = 0" and "ctx_status c = 0 \<longrightarrow> queue_full m c"
  shows "queue_full m c' \<and> queue_ok c' \<and> ctx_pending c' = 0 \<and> length (ctx_urbs c') = length (ctx_urbs c)"
  using assms(1,2,4-6)
proof (induction n arbitrary: c)
  case 0
  then show ?case by (auto split: if_splits)
next
  case (Suc n)
  show ?case
  proof (cases "ctx_done c")
    case True
    then show ?thesis using Suc.prems by auto
  next
    case False
    obtain k st where e: "env c = (k, st)" by fastforce
    let ?c = "ctrl_complete g k st (c\<lparr>ctx_queued := remove1 k (ctx_queued c)\<rparr>)"
    have k: "k \<in> set (ctx_queued c)" and w: "ctrl_wait g env n ?c = Some c'"
      using Suc.prems(1) False e by (auto split: if_splits)
    note step = ctrl_complete_step(1,4,5) [OF Suc.prems(3) k, where g = g and st = st]
    have full: "ctx_status ?c = 0 \<longrightarrow> queue_full m ?c"
    proof
      assume ok: "ctx_status ?c = 0"
      have c: "ctx_status c = 0" by (rule ctrl_complete_error_stays [OF Suc.prems(3) k ok])
      show "queue_full m ?c"
        by (rule ctrl_complete_full [OF Suc.prems(3) k assms(3) _ c ok]) (use Suc.prems(5) c in blast)
    qed
    have "queue_full m c' \<and> queue_ok c' \<and> ctx_pending c' = 0 \<and> length (ctx_urbs c') = length (ctx_urbs ?c)"
      by (rule Suc.IH [OF w Suc.prems(2) step(1) _ full]) (use step(3) False in simp)
    then show ?thesis using step(2) by simp
  qed
qed

lemma ctrl_submit_full:
  assumes "takes_all (core g)"
  shows "length (ctx_queued (ctrl_submit g ks c)) = length (ctx_queued c) + length ks
    \<and> ctx_count (ctrl_submit g ks c) = ctx_count c \<and> ctx_urbs (ctrl_submit g ks c) = ctx_urbs c
    \<and> queue_calls (asked (ctx_tester (ctrl_submit g ks c))) = queue_calls (asked (ctx_tester c)) + length ks"
proof (induction ks arbitrary: c)
  case Nil
  then show ?case by simp
next
  case (Cons k ks)
  then show ?case
    using assms by (simp add: queue_ctrl_urb_def ctx_ask_def ask_def takes_all_def Let_def)
qed

lemma ctrl_session_full:
  assumes "ctrl_session g env sglen iterations us s = Some c'" and "ctx_status c' = 0" and "takes_all (core g)"
    and "iterations \<noteq> 0" and args: "sglen \<noteq> 0" "unat iterations \<le> (2 ^ 32 - 1) div unat sglen"
    and len: "length us = unat sglen"
  shows "ctx_count c' = 0" and "ctx_pending c' = 0" and "ctx_queued c' = []"
    and "queue_calls (asked (ctx_tester c')) = queue_calls (asked s) + unat sglen * unat iterations"
proof -
  let ?start = "ctrl_start sglen iterations us s"
  let ?c = "ctrl_submit g [0..<unat sglen] ?start"
  note start = ctrl_start_ok [OF args(1) assms(4) args(2) len, where s = s]
  have urbs: "ctx_urbs ?start = us" "ctx_queued ?start = []" "ctx_tester ?start = s" by (simp_all add: ctrl_start_def)
  have "queue_ok (ctrl_submit g [0..<length (ctx_urbs ?start)] ?start)
      \<and> \<not> ctx_done (ctrl_submit g [0..<length (ctx_urbs ?start)] ?start)"
    by (rule ctrl_submit_ok [OF start(1,2)]) (use start(3) urbs in simp_all)
  then have c: "queue_ok ?c" "\<not> ctx_done ?c" by (simp_all add: urbs len)
  have sub: "length (ctx_queued ?c) = unat sglen" "ctx_count ?c = ctx_count ?start" "ctx_urbs ?c = us"
    "queue_calls (asked (ctx_tester ?c)) = queue_calls (asked s) + unat sglen"
    using ctrl_submit_full [OF assms(3), of "[0..<unat sglen]" ?start] urbs by simp_all
  have pend: "unat (ctx_pending ?c) = unat sglen" using c(1) sub(1) by (simp add: queue_ok_def)
  have n0: "unat sglen \<noteq> 0" using args(1) by (simp add: unat_eq_0)
  then have pos: "ctx_pending ?c \<noteq> 0" using pend by (metis unat_0)
  have N: "unat (ctx_count ?start) = unat sglen * unat iterations"
    using product_fits [OF args] by (simp add: ctrl_start_def)
  let ?m = "queue_calls (asked s) + unat sglen * unat iterations"
  have full: "queue_full ?m ?c" using sub pend len N by (simp add: queue_full_def)
  have w: "ctrl_wait g env (unat (ctx_count ?c)) ?c = Some c'"
    using assms(1) pos by (simp add: ctrl_session_def Let_def word_neq_0_conv)
  have res: "queue_full ?m c' \<and> queue_ok c' \<and> ctx_pending c' = 0 \<and> length (ctx_urbs c') = length (ctx_urbs ?c)"
    by (rule ctrl_wait_full [OF w assms(2,3) c(1)]) (use c(2) pos full in simp_all)
  then show "ctx_count c' = 0" using sub(3) len n0 by (auto simp: queue_full_def)
  then show "queue_calls (asked (ctx_tester c')) = ?m" using res by (simp add: queue_full_def)
  show p: "ctx_pending c' = 0" using res by blast
  show "ctx_queued c' = []" using res p by (auto simp: queue_ok_def)
qed

text \<open>
  C13. When the core takes every urb and the test reports success, all requests ordered were made:
  each urb of the queue was submitted again until their number was reached. When the waiting test
  went on no completion was left to come, none was pending, the core had no urb of the queue, and
  no completion had found an error; then the urbs were freed.
\<close>

theorem ctrl_queue_complete:
  assumes "test_ctrl_queue g env sglen iterations s = Some (0, s')" and "takes_all (core g)" and "iterations \<noteq> 0"
  shows "queue_calls (asked s') = queue_calls (asked s) + unat sglen * unat iterations
    \<and> (\<exists>us s1 c. ctrl_alloc g [0..<unat sglen] (snd (ask g (Alloc (8 * unat sglen)) s)) = (us, True, s1)
         \<and> ctrl_session g env sglen iterations us s1 = Some c
         \<and> ctx_count c = 0 \<and> ctx_pending c = 0 \<and> ctx_queued c = [] \<and> ctx_status c = 0
         \<and> s' = ctrl_free g us (ctx_tester c))"
proof -
  let ?s = "s\<lparr>asked := asked s @ [Alloc (8 * unat sglen)]\<rparr>"
  obtain us ok s1 where alloc: "ctrl_alloc g [0..<unat sglen] ?s = (us, ok, s1)" by (metis prod_cases3)
  have args: "sglen \<noteq> 0" "unat iterations \<le> (2 ^ 32 - 1) div unat sglen" and ok: ok
    using assms(1) alloc by (auto simp: test_ctrl_queue_def ask_def split: if_splits)
  have len: "length us = unat sglen" using ctrl_alloc_length [of g "[0..<unat sglen]" ?s] alloc ok by simp
  have calls: "queue_calls (asked s1) = queue_calls (asked s)" using ctrl_alloc_calls [of g "[0..<unat sglen]" ?s] alloc by simp
  obtain c where run: "ctrl_session g env sglen iterations us s1 = Some c" and "ctx_status c = 0"
    and s': "s' = ctrl_free g us (ctx_tester c)"
    using assms(1) alloc args ok by (auto simp: test_ctrl_queue_def ask_def bind_eq_Some_conv split: if_splits)
  note c = ctrl_session_full [OF run this(2) assms(2,3) args len]
  have "queue_calls (asked s') = queue_calls (asked s) + unat sglen * unat iterations"
    using c(4) by (simp add: s' ctrl_free_calls calls)
  moreover have "snd (ask g (Alloc (8 * unat sglen)) s) = ?s" by (simp add: ask_def)
  ultimately show ?thesis using alloc ok run c(1-3) \<open>ctx_status c = 0\<close> s' by metis
qed

text \<open>
  A refused resubmission is only logged: when the core takes the first request and none after
  it, the test of one urb reports success although one request of all that were ordered was made.
\<close>

definition refuses_again :: "core \<Rightarrow> bool" where
  "refuses_again c \<longleftrightarrow> (\<forall>h k p r m. rc (c h (Queue_Control k p r m)) = (if queue_calls h = 0 then 0 else - ENOMEM))
     \<and> (\<forall>h n. rc (c h (Alloc n)) = 0) \<and> (\<forall>h. rc (c h Alloc_Urb) = 0)"

theorem resubmit_failure_passes:
  assumes "refuses_again (core g)" and "queue_calls (asked s) = 0" and "1 < iterations" and "\<forall>c. env c = (0, 0)"
  shows "\<exists>s'. test_ctrl_queue g env 1 iterations s = Some (0, s') \<and> queue_calls (asked s') = 2"
proof -
  have ok: "rc (core g h (Alloc n)) = 0" "rc (core g h Alloc_Urb) = 0"
    "rc (core g h (Queue_Control k p r m)) = (if queue_calls h = 0 then 0 else - ENOMEM)" for h n k p r m
    using assms(1) by (simp_all add: refuses_again_def)
  let ?s1 = "s\<lparr>asked := asked s @ [Alloc 8]\<rparr>"
  have "\<exists>cu. ctrl_alloc g [0] ?s1 = ([cu], True, ?s1\<lparr>asked := asked ?s1 @ [Alloc_Urb, Alloc 18, Alloc 16]\<rparr>)
      \<and> cu_number cu = 0 \<and> cu_expected cu = 0 \<and> cu_dev cu"
    by (simp add: ctrl_subcase_def simple_alloc_urb_def usbtest_alloc_urb_def ask_def ok Let_def)
  then obtain cu s2 where alloc: "ctrl_alloc g [0] ?s1 = ([cu], True, s2)"
    and cu: "cu_number cu = 0" "cu_expected cu = 0" and s2: "queue_calls (asked s2) = 0"
    using assms(2) by auto
  obtain n where n: "unat iterations = Suc n"
    using assms(3) by (cases "unat iterations") (simp_all add: word_less_nat_alt)
  have "1 < unat iterations" using assms(3) by (simp add: word_less_nat_alt)
  then have pos: "0 < iterations - 1" using word_dec [of iterations] by (simp add: word_less_nat_alt)
  have big: "unat iterations \<le> 2 ^ 32 - 1" using unsigned_less [where ?'a = nat and w = iterations] by simp
  let ?u = "Queue_Control 0 (t_pipe (cu_urb cu)) (cu_setup cu) (t_mem (cu_urb cu))"
  let ?c = "(ctrl_start 1 iterations [cu] s2)\<lparr>ctx_status := 0, ctx_pending := 1, ctx_queued := [0],
      ctx_tester := s2\<lparr>asked := asked s2 @ [?u]\<rparr>\<rparr>"
  have sub: "ctrl_submit g [0] (ctrl_start 1 iterations [cu] s2) = ?c"
    by (simp add: ctrl_start_def queue_ctrl_urb_def ctx_ask_def ask_def ok s2 Let_def)
  let ?d = "ctrl_complete g 0 0 (?c\<lparr>ctx_queued := []\<rparr>)"
  have d: "ctx_status ?d = 0 \<and> ctx_done ?d \<and> queue_calls (asked (ctx_tester ?d)) = 2"
    using pos cu by (simp add: ctrl_complete_def ctrl_verdict_def ctrl_account_def ctrl_resubmit_def subtest_status_def
        ctrl_start_def queue_ctrl_urb_def ctx_ask_def ask_def ok s2 Let_def clear_dev_def)
  have "ctrl_wait g env (unat (ctx_count ?c)) ?c = Some ?d"
    using d assms(4) n by (cases n) (simp_all add: ctrl_start_def)
  then show ?thesis
    using alloc sub d big assms(3)
    by (simp add: test_ctrl_queue_def ctrl_session_def ask_def ok Let_def ctrl_free_calls)
qed

section \<open>Witnesses\<close>

text \<open>A controller that gives the urbs back in order, with the status the device should have sent.\<close>

definition in_order :: giver where
  "in_order c = (case ctx_queued c of [] \<Rightarrow> (0, 0) | k # _ \<Rightarrow> (k, 0))"

theorem ctrl_queue_returns_witness:
  "\<exists>r s. test_ctrl_queue demo_rig in_order 20 1000000 demo_tester = Some (r, s)"
proof -
  have "gives_back in_order" by (auto simp: gives_back_def in_order_def split: list.splits)
  from ctrl_queue_returns [OF this, of 1000000 demo_rig 20 demo_tester] show ?thesis by auto
qed

lemmas run_queue = test_ctrl_queue_def ctrl_session_def ctrl_subcase_def simple_alloc_urb_def usbtest_alloc_urb_def ask_def
  demo_rig_def demo_core_def ctrl_start_def queue_ctrl_urb_def ctx_ask_def ctrl_complete_def ctrl_verdict_def
  ctrl_account_def ctrl_resubmit_def subtest_status_def clear_dev_def in_order_def ctrl_free_def simple_free_urb_def

lemma ctrl_wait_numeral:
  "ctrl_wait g env (numeral v) c = (if ctx_done c then Some c
      else let (k, st) = env c in
        if k \<in> set (ctx_queued c)
        then ctrl_wait g env (pred_numeral v) (ctrl_complete g k st (c\<lparr>ctx_queued := remove1 k (ctx_queued c)\<rparr>))
        else None)"
  by (simp add: numeral_eq_Suc)

theorem ctrl_queue_complete_witness:
  "\<exists>s. test_ctrl_queue demo_rig in_order 1 2 demo_tester = Some (0, s) \<and> queue_calls (asked s) = 2"
proof -
  have "\<exists>s. test_ctrl_queue demo_rig in_order 1 2 demo_tester = Some (0, s)"
    by (simp add: run_queue ctrl_wait_numeral)
  then obtain s where s: "test_ctrl_queue demo_rig in_order 1 2 demo_tester = Some (0, s)" by auto
  have "takes_all (core demo_rig)" by (simp add: takes_all_def demo_rig_def demo_core_def)
  from ctrl_queue_complete [OF s this] s show ?thesis by (simp add: demo_tester_def)
qed

definition once_core :: core where
  "once_core h c = \<lparr>rc = (case c of Queue_Control _ _ _ _ \<Rightarrow> if queue_calls h = 0 then 0 else - ENOMEM | _ \<Rightarrow> 0),
     in_time = True, status = 0, actual = 0, mem = []\<rparr>"

theorem resubmit_failure_passes_witness:
  "\<exists>s. test_ctrl_queue (demo_rig\<lparr>core := once_core\<rparr>) (\<lambda>_. (0, 0)) 1 1000 demo_tester = Some (0, s)
     \<and> queue_calls (asked s) = 2"
  by (rule resubmit_failure_passes) (simp_all add: refuses_again_def once_core_def demo_tester_def)

end
