(* ===== verification/Usbtest_Halt.thy ===== *)
theory Usbtest_Halt
  imports Usbtest_Control
begin

unbundle bit_operations_syntax

text \<open>
  Tests of cancelling, of halted endpoints and of control writes (usbtest.c, lines 1562 to 2050).
\<close>

section \<open>Unlinking one urb\<close>

abbreviation (input) EIDRM :: int where "EIDRM \<equiv> 43"
abbreviation (input) EBADMSG :: int where "EBADMSG \<equiv> 74"
abbreviation (input) USB_DIR_OUT :: u8 where "USB_DIR_OUT \<equiv> 0"
abbreviation (input) USB_TYPE_VENDOR :: u8 where "USB_TYPE_VENDOR \<equiv> 0x40"

definition submit_urb :: "rig \<Rightarrow> turb \<Rightarrow> tester \<Rightarrow> int \<times> tester" where
  "submit_urb g u s =
     (let (r, s) = ask g (Submit (t_pipe u) (t_off u) (unat (t_len u)) (t_mem u)) s in (rc r, s))"

text \<open>
  The completion: an urb that ends well is submitted again, any other end is the last. The first
  component of the result tells whether it was.
\<close>

definition unlink1_callback :: "rig \<Rightarrow> turb \<Rightarrow> tester \<Rightarrow> bool \<times> turb \<times> tester" where
  "unlink1_callback g u s =
     (let (st, s) = (if t_status u = 0 then submit_urb g u s else (t_status u, s))
      in if st \<noteq> 0 then (True, u\<lparr>t_status := st\<rparr>, s) else (False, u, s))"

text \<open>
  The completions that run while the test does something else: until the last, or until the core
  has no other for the moment.
\<close>

partial_function (option) unlink1_deliver ::
  "rig \<Rightarrow> bool \<Rightarrow> turb \<Rightarrow> tester \<Rightarrow> (bool \<times> turb \<times> tester) option" where
  "unlink1_deliver g over u s =
     (if over then Some (True, u, s)
      else let (r, s) = ask g Poll s in
        if in_time r
        then let (over, u, s) = unlink1_callback g (io_result r u) s in unlink1_deliver g over u s
        else Some (False, u, s))"

text \<open>
  The loop of asynchronous unlinking: it ends with the last completion, with an unlink that was
  accepted, or with an error, which the test returns at once.
\<close>

partial_function (option) unlink1_retry ::
  "rig \<Rightarrow> bool \<Rightarrow> turb \<Rightarrow> tester \<Rightarrow> (int option \<times> bool \<times> turb \<times> tester) option" where
  "unlink1_retry g over u s =
     (if over then Some (None, True, u, s)
      else do {
        let (r, s) = ask g (Unlink 0) s;
        retval \<leftarrow> (if rc r = 0 \<and> usb_pipein (t_pipe u) then simple_check_buf g u s else Some (rc r));
        if retval = - EBUSY \<or> retval = - EIDRM
        then do { (over, u, s) \<leftarrow> unlink1_deliver g False u s; unlink1_retry g over u s }
        else Some (if retval = 0 \<or> retval = - EINPROGRESS then None else Some retval, False, u, s)
      })"

partial_function (option) unlink1_wait ::
  "rig \<Rightarrow> bool \<Rightarrow> turb \<Rightarrow> tester \<Rightarrow> (turb \<times> tester) option" where
  "unlink1_wait g over u s =
     (if over then Some (u, s)
      else let (r, s) = ask g Poll s in
        if in_time r
        then let (over, u, s) = unlink1_callback g (io_result r u) s in unlink1_wait g over u s
        else unlink1_wait g False u s)"

text \<open>Killing an urb in flight gives it back first.\<close>

definition kill_urb :: "rig \<Rightarrow> bool \<Rightarrow> turb \<Rightarrow> tester \<Rightarrow> bool \<times> turb \<times> tester" where
  "kill_urb g over u s =
     (let (r, s) = ask g Kill s
      in if over \<or> \<not> in_time r then (over, u, s) else unlink1_callback g (io_result r u) s)"

definition unlink1 :: "rig \<Rightarrow> u32 \<Rightarrow> nat \<Rightarrow> bool \<Rightarrow> tester \<Rightarrow> (int \<times> tester) option" where
  "unlink1 g pipe sz async s =
     (case simple_alloc_urb g pipe sz s of
        (None, s) \<Rightarrow> Some (- ENOMEM, s)
      | (Some u, s) \<Rightarrow> do {
          u \<leftarrow> (if usb_pipeout (t_pipe u)
                then map_option (\<lambda>u. u\<lparr>t_zero_packet := True\<rparr>) (simple_fill_buf g u s) else Some u);
          let (retval, s) = submit_urb g u s;
          if retval \<noteq> 0 then Some (retval, s)
          else do {
            (over, u, s) \<leftarrow> unlink1_deliver g False u s;
            (err, over, u, s) \<leftarrow> (if async then unlink1_retry g over u s
                                  else Some (None, kill_urb g over u s));
            case err of Some retval \<Rightarrow> Some (retval, s)
            | None \<Rightarrow> do {
                (u, s) \<leftarrow> unlink1_wait g over u s;
                let retval = t_status u;
                Some (if async then (if retval = - ECONNRESET then 0 else retval - 1000)
                      else (if retval = - ENOENT \<or> retval = - EPERM then 0 else retval - 2000),
                      simple_free_urb g u s)
              }
          }
        })"

definition unlink_simple :: "rig \<Rightarrow> u32 \<Rightarrow> nat \<Rightarrow> tester \<Rightarrow> (int \<times> tester) option" where
  "unlink_simple g pipe len s =
     do {
       (retval, s) \<leftarrow> unlink1 g pipe len True s;
       if retval = 0 then unlink1 g pipe len False s else Some (retval, s)
     }"

section \<open>Unlinking from a queue\<close>

text \<open>
  The test thread and the completions run side by side here. Where the thread is, and what the two
  share: the counter, one more than the urbs in flight until the thread drops its own share, the
  first error, and the signal.
\<close>

datatype uq_phase =
    Uq_Submit nat
  | Uq_Unlink "nat list"
  | Uq_Drop
  | Uq_Wait
  | Uq_Return int

record queued_ctx =
  uq_pending :: int
  uq_status :: int
  uq_urbs :: "turb list"
  uq_flight :: "nat list"
  uq_phase :: uq_phase
  uq_done :: bool
  uq_tester :: tester

definition uq_put :: "queued_ctx \<Rightarrow> queued_ctx" where
  "uq_put q = (let p = uq_pending q - 1 in q\<lparr>uq_pending := p, uq_done := uq_done q \<or> p = 0\<rparr>)"

text \<open>
  The urbs four and two before the end are those the thread cancels. They exist: the request of user
  space refuses a queue of fewer than four.
\<close>

definition unlink_queued_callback :: "nat \<Rightarrow> nat \<Rightarrow> int \<Rightarrow> queued_ctx \<Rightarrow> queued_ctx" where
  "unlink_queued_callback num k st q =
     uq_put (if uq_status q \<noteq> 0 then q
             else if (k = num - 4 \<or> k = num - 2) \<and> st = - ECONNRESET then q
             else if st \<noteq> 0 then q\<lparr>uq_status := st\<rparr> else q)"

text \<open>Allocating the urbs and their common buffer.\<close>

primrec uq_alloc :: "rig \<Rightarrow> u32 \<Rightarrow> nat \<Rightarrow> nat \<Rightarrow> tester \<Rightarrow> (turb list \<times> bool \<times> tester) option" where
  "uq_alloc g pipe sz 0 s = Some ([], True, s)"
| "uq_alloc g pipe sz (Suc n) s =
     (let (r, s) = ask g Alloc_Urb s in
      if rc r \<noteq> 0 then Some ([], False, s)
      else do {
        let u = \<lparr>t_pipe = pipe, t_mem = replicate sz 0, t_off = 0, t_len = of_nat sz, t_interval = 0,
                 t_dma_mapped = True, t_short_not_ok = False, t_zero_packet = False, t_status = 0, t_actual = 0\<rparr>;
        u \<leftarrow> (if usb_pipeout pipe
              then map_option (\<lambda>u. u\<lparr>t_zero_packet := True\<rparr>) (simple_fill_buf g u s) else Some u);
        (us, ok, s) \<leftarrow> uq_alloc g pipe sz n s;
        Some (u # us, ok, s)
      })"

text \<open>What the urbs and the buffer are freed with; the allocation is undone last.\<close>

definition uq_free :: "rig \<Rightarrow> nat \<Rightarrow> tester \<Rightarrow> tester" where
  "uq_free g n s = fold (\<lambda>_ s. snd (ask g Free_Urb s)) [0..<n] s"

text \<open>The test up to the first submission: an error, or the state the thread goes on from.\<close>

definition unlink_queued_start ::
  "rig \<Rightarrow> u32 \<Rightarrow> nat \<Rightarrow> nat \<Rightarrow> tester \<Rightarrow> (int \<times> tester + queued_ctx) option" where
  "unlink_queued_start g pipe num sz s =
     (let (r, s) = ask g (Alloc sz) s in
      if rc r \<noteq> 0 then Some (Inl (- ENOMEM, s))
      else let (r, s) = ask g (Alloc (8 * num)) s in
        if rc r \<noteq> 0 then Some (Inl (- ENOMEM, s))
        else do {
          (us, ok, s) \<leftarrow> uq_alloc g pipe sz num s;
          Some (if ok then Inr \<lparr>uq_pending = 1, uq_status = 0, uq_urbs = us, uq_flight = [],
                    uq_phase = Uq_Submit 0, uq_done = False, uq_tester = s\<rparr>
                else Inl (- ENOMEM, uq_free g (length us) s))
        })"

definition uq_ask :: "rig \<Rightarrow> core_call \<Rightarrow> queued_ctx \<Rightarrow> int \<times> queued_ctx" where
  "uq_ask g call q = (let (r, s) = ask g call (uq_tester q) in (rc r, q\<lparr>uq_tester := s\<rparr>))"

text \<open>The next step of the thread, if it is not waiting for the signal and has not returned.\<close>

definition uq_thread :: "rig \<Rightarrow> nat \<Rightarrow> queued_ctx \<Rightarrow> queued_ctx option" where
  "uq_thread g num q =
     (case uq_phase q of
        Uq_Submit i \<Rightarrow>
          if i \<ge> num then Some (q\<lparr>uq_phase := Uq_Unlink [num - 4, num - 2]\<rparr>)
          else let u = uq_urbs q ! i;
                   (r, q) = uq_ask g (Queue i (t_pipe u) (t_off u) (unat (t_len u)) (t_mem u)) q
            in Some (if r \<noteq> 0
                     then q\<lparr>uq_status := r, uq_phase := Uq_Unlink (rev [0..<i])\<rparr>
                     else q\<lparr>uq_pending := uq_pending q + 1, uq_flight := uq_flight q @ [i],
                            uq_phase := Uq_Submit (i + 1)\<rparr>)
      | Uq_Unlink [] \<Rightarrow> Some (q\<lparr>uq_phase := Uq_Drop\<rparr>)
      | Uq_Unlink (k # ks) \<Rightarrow> Some ((snd (uq_ask g (Unlink k) q))\<lparr>uq_phase := Uq_Unlink ks\<rparr>)
      | Uq_Drop \<Rightarrow> Some ((uq_put q)\<lparr>uq_phase := Uq_Wait\<rparr>)
      | Uq_Wait \<Rightarrow>
          if uq_done q
          then Some (q\<lparr>uq_phase := Uq_Return (uq_status q), uq_tester := uq_free g num (uq_tester q)\<rparr>)
          else None
      | Uq_Return _ \<Rightarrow> None)"

text \<open>
  The steps of the test: one of the thread, or a completion of an urb in flight with a status the
  controller gives.
\<close>

inductive uq_step :: "rig \<Rightarrow> nat \<Rightarrow> (nat \<Rightarrow> int \<Rightarrow> bool) \<Rightarrow> queued_ctx \<Rightarrow> queued_ctx \<Rightarrow> bool"
  for g num gives where
  thread: "uq_thread g num q = Some q' \<Longrightarrow> uq_step g num gives q q'"
| given_back: "k \<in> set (uq_flight q) \<Longrightarrow> gives k st
     \<Longrightarrow> uq_step g num gives q (unlink_queued_callback num k st (q\<lparr>uq_flight := remove1 k (uq_flight q)\<rparr>))"

inductive uq_reach :: "rig \<Rightarrow> u32 \<Rightarrow> nat \<Rightarrow> nat \<Rightarrow> tester \<Rightarrow> (nat \<Rightarrow> int \<Rightarrow> bool) \<Rightarrow> queued_ctx \<Rightarrow> bool"
  for g pipe num sz s gives where
  start: "unlink_queued_start g pipe num sz s = Some (Inr q) \<Longrightarrow> uq_reach g pipe num sz s gives q"
| more: "uq_reach g pipe num sz s gives q \<Longrightarrow> uq_step g num gives q q' \<Longrightarrow> uq_reach g pipe num sz s gives q'"

section \<open>Halted endpoints\<close>

text \<open>A status the device answered with, in two bytes; what the variable held before where it sent none.\<close>

definition status_word :: "u8 list \<Rightarrow> u16 option" where
  "status_word m = (case m of a # b # _ \<Rightarrow> Some (ucast a OR push_bit 8 (ucast b)) | _ \<Rightarrow> None)"

definition endpoint_status :: "rig \<Rightarrow> u8 \<Rightarrow> tester \<Rightarrow> int \<times> u16 option \<times> tester" where
  "endpoint_status g ep s =
     (let (r, s) = ask g (Get_Std_Status USB_RECIP_ENDPOINT (ucast ep)) s in (rc r, status_word (mem r), s))"

definition verify_not_halted :: "rig \<Rightarrow> u8 \<Rightarrow> turb \<Rightarrow> tester \<Rightarrow> (int \<times> turb \<times> tester) option" where
  "verify_not_halted g ep u s =
     (let (retval, st, s) = endpoint_status g ep s in
      if retval < 0 then Some (retval, u, s)
      else do {
        st \<leftarrow> st;
        if st \<noteq> 0 then Some (- EINVAL, u, s)
        else do {
          (retval, u, s) \<leftarrow> simple_io g u 1 0 s;
          Some (if retval \<noteq> 0 then - EINVAL else 0, u, s)
        }
      })"

definition verify_halted :: "rig \<Rightarrow> u8 \<Rightarrow> turb \<Rightarrow> tester \<Rightarrow> (int \<times> turb \<times> tester) option" where
  "verify_halted g ep u s =
     (let (retval, st, s) = endpoint_status g ep s in
      if retval < 0 then Some (retval, u, s)
      else do {
        st \<leftarrow> st;
        if st \<noteq> 1 then Some (- EINVAL, u, s)
        else do {
          (retval, u, s) \<leftarrow> simple_io g u 1 0 s;
          if retval \<noteq> - EPIPE then Some (- EINVAL, u, s)
          else do {
            (retval, u, s) \<leftarrow> simple_io g u 1 0 s;
            Some (if retval \<noteq> - EPIPE then - EINVAL else 0, u, s)
          }
        }
      })"

definition set_halt_msg :: "rig \<Rightarrow> u8 \<Rightarrow> core_call" where
  "set_halt_msg g ep = Control_Msg (usb_sndctrlpipe (udev g) 0) USB_REQ_SET_FEATURE USB_RECIP_ENDPOINT 0
     (ucast ep) [] 0"

definition clear_halt :: "rig \<Rightarrow> turb \<Rightarrow> tester \<Rightarrow> int \<times> tester" where
  "clear_halt g u s = (let (r, s) = ask g (Clear_Halt (t_pipe u)) s in (rc r, s))"

definition test_halt :: "rig \<Rightarrow> u8 \<Rightarrow> turb \<Rightarrow> tester \<Rightarrow> (int \<times> turb \<times> tester) option" where
  "test_halt g ep u s =
     do {
       (retval, u, s) \<leftarrow> verify_not_halted g ep u s;
       if retval < 0 then Some (retval, u, s)
       else let (r, s) = ask g (set_halt_msg g ep) s in
         if rc r < 0 then Some (rc r, u, s)
         else do {
           (retval, u, s) \<leftarrow> verify_halted g ep u s;
           let (cleared, s) = clear_halt g u s;
           if retval < 0 then Some (retval, u, s)
           else if cleared < 0 then Some (cleared, u, s)
           else do {
             (retval, u, s) \<leftarrow> verify_not_halted g ep u s;
             Some (if retval < 0 then retval else 0, u, s)
           }
         }
     }"

definition test_toggle_sync :: "rig \<Rightarrow> turb \<Rightarrow> tester \<Rightarrow> (int \<times> turb \<times> tester) option" where
  "test_toggle_sync g u s =
     (let (retval, s) = clear_halt g u s in
      if retval < 0 then Some (retval, u, s)
      else do {
        (retval, u, s) \<leftarrow> simple_io g u 1 0 s;
        if retval \<noteq> 0 then Some (- EINVAL, u, s)
        else let (retval, s) = clear_halt g u s in
          if retval < 0 then Some (retval, u, s) else simple_io g u 1 0 s
      })"

definition halt_simple :: "rig \<Rightarrow> tester \<Rightarrow> (int \<times> tester) option" where
  "halt_simple g s =
     (case simple_alloc_urb g 0 (if dev_speed (udev g) = USB_SPEED_SUPER then 1024 else 512) s of
        (None, s) \<Rightarrow> Some (- ENOMEM, s)
      | (Some u, s) \<Rightarrow> do {
          let p = in_pipe (dev s);
          (retval, u, s) \<leftarrow> (if p \<noteq> 0
             then test_halt g (of_nat (usb_pipeendpoint p) OR USB_DIR_IN) (u\<lparr>t_pipe := p\<rparr>) s else Some (0, u, s));
          let p = out_pipe (dev s);
          (retval, u, s) \<leftarrow> (if \<not> retval < 0 \<and> p \<noteq> 0
             then test_halt g (of_nat (usb_pipeendpoint p)) (u\<lparr>t_pipe := p\<rparr>) s else Some (retval, u, s));
          Some (retval, simple_free_urb g u s)
        })"

definition toggle_sync_simple :: "rig \<Rightarrow> tester \<Rightarrow> (int \<times> tester) option" where
  "toggle_sync_simple g s =
     do {
       maxp \<leftarrow> get_maxpacket (udev g) (out_pipe (dev s));
       case simple_alloc_urb g 0 (2 * maxp) s of
         (None, s) \<Rightarrow> Some (- ENOMEM, s)
       | (Some u, s) \<Rightarrow> do {
           (retval, u, s) \<leftarrow> test_toggle_sync g (u\<lparr>t_zero_packet := True, t_pipe := out_pipe (dev s)\<rparr>) s;
           Some (retval, simple_free_urb g u s)
         }
     }"

section \<open>Control writes\<close>

definition ctrl_out_bytes :: "nat \<Rightarrow> nat \<Rightarrow> u8 list" where
  "ctrl_out_bytes i len = map (\<lambda>j. of_nat (i + j)) [0..<len]"

definition short_answer :: "int \<Rightarrow> int" where
  "short_answer retval = (if retval \<ge> 0 then - EBADMSG else retval)"

definition write_msg :: "rig \<Rightarrow> u8 list \<Rightarrow> nat \<Rightarrow> core_call" where
  "write_msg g m len = Control_Msg (usb_sndctrlpipe (udev g) 0) 0x5b (USB_DIR_OUT OR USB_TYPE_VENDOR) 0 0 m len"

definition read_msg :: "rig \<Rightarrow> nat \<Rightarrow> core_call" where
  "read_msg g len = Control_Msg (usb_rcvctrlpipe (udev g) 0) 0x5c (USB_DIR_IN OR USB_TYPE_VENDOR) 0 0 [] len"

text \<open>
  One round: write, read back, compare. The buffer starts at the pattern, and what the device
  sends, at most the length asked for, is put over it; the results are compared as unsigned
  numbers.
\<close>

definition ctrl_out_round :: "rig \<Rightarrow> nat \<Rightarrow> nat \<Rightarrow> tester \<Rightarrow> int \<times> tester" where
  "ctrl_out_round g i len s =
     (let m = ctrl_out_bytes i len; (r, s) = ask g (write_msg g m len) s in
      if (word_of_int (rc r) :: u32) \<noteq> of_nat len then (short_answer (rc r), s)
      else let (r, s) = ask g (read_msg g len) s; got = take len (mem r) @ drop (length (mem r)) m in
        if (word_of_int (rc r) :: u32) \<noteq> of_nat len then (short_answer (rc r), s)
        else (if got \<noteq> m then - EBADMSG else rc r, s))"

definition ctrl_out_next :: "rig \<Rightarrow> nat \<Rightarrow> nat \<Rightarrow> nat \<Rightarrow> nat" where
  "ctrl_out_next g len vary maxlen = (if len + vary > maxlen then (if realworld g then 1 else 0) else len + vary)"

primrec ctrl_out_loop :: "rig \<Rightarrow> nat \<Rightarrow> nat \<Rightarrow> nat \<Rightarrow> nat \<Rightarrow> nat \<Rightarrow> int \<Rightarrow> tester \<Rightarrow> int \<times> tester" where
  "ctrl_out_loop g 0 i len vary maxlen retval s = (retval, s)"
| "ctrl_out_loop g (Suc n) i len vary maxlen retval s =
     (let (retval, s) = ctrl_out_round g i len s in
      if retval < 0 then (retval, s)
      else ctrl_out_loop g n (i + 1) (ctrl_out_next g len vary maxlen) vary maxlen retval s)"

text \<open>
  The length is below \<open>0x10000\<close> and the step below the length, so that neither their sum nor the
  size of the allocation wraps.
\<close>

definition ctrl_out :: "rig \<Rightarrow> u32 \<Rightarrow> u32 \<Rightarrow> u32 \<Rightarrow> nat \<Rightarrow> tester \<Rightarrow> int \<times> tester" where
  "ctrl_out g count maxlen vary offset s =
     (if maxlen < 1 \<or> 0xffff < maxlen \<or> maxlen \<le> vary then (- EINVAL, s)
      else let (r, s) = ask g (Alloc (unat maxlen + offset)) s in
        if rc r \<noteq> 0 then (- ENOMEM, s)
        else ctrl_out_loop g (unat count) 0 (unat maxlen) (unat vary) (unat maxlen) 0 s)"

section \<open>Control writes are echoed\<close>

text \<open>The lengths of the rounds.\<close>

definition round_len :: "rig \<Rightarrow> nat \<Rightarrow> nat \<Rightarrow> nat \<Rightarrow> nat \<Rightarrow> nat" where
  "round_len g vary maxlen len k = ((\<lambda>l. ctrl_out_next g l vary maxlen) ^^ k) len"

lemma round_len_Suc: "round_len g vary maxlen len (Suc k) = round_len g vary maxlen (ctrl_out_next g len vary maxlen) k"
  by (simp add: round_len_def funpow_Suc_right del: funpow.simps)

text \<open>
  A device with one buffer: it takes what is written whole, and returns its image under \<open>f\<close> when
  it is read.
\<close>

definition echoes :: "(u8 list \<Rightarrow> u8 list) \<Rightarrow> rig \<Rightarrow> bool" where
  "echoes f g \<longleftrightarrow> (\<forall>m. length (f m) = length m)
     \<and> (\<forall>h m. rc (core g h (write_msg g m (length m))) = int (length m)
        \<and> rc (core g (h @ [write_msg g m (length m)]) (read_msg g (length m))) = int (length m)
        \<and> mem (core g (h @ [write_msg g m (length m)]) (read_msg g (length m))) = f m)"

lemma ctrl_out_bytes_length [simp]: "length (ctrl_out_bytes i len) = len"
  by (simp add: ctrl_out_bytes_def)

lemma ctrl_out_round_echo:
  assumes "echoes f g"
  shows "ctrl_out_round g i len s = (if f (ctrl_out_bytes i len) = ctrl_out_bytes i len then int len else - EBADMSG,
    s\<lparr>asked := asked s @ [write_msg g (ctrl_out_bytes i len) len, read_msg g len]\<rparr>)"
proof -
  let ?m = "ctrl_out_bytes i len"
  have e: "rc (core g (asked s) (write_msg g ?m (length ?m))) = int (length ?m)"
    "rc (core g (asked s @ [write_msg g ?m (length ?m)]) (read_msg g (length ?m))) = int (length ?m)"
    "mem (core g (asked s @ [write_msg g ?m (length ?m)]) (read_msg g (length ?m))) = f ?m"
    "length (f ?m) = length ?m"
    using assms by (auto simp: echoes_def simp del: ctrl_out_bytes_length)
  then show ?thesis by (simp add: ctrl_out_round_def ask_def Let_def)
qed

lemma ctrl_out_loop_echo:
  assumes "echoes f g" and "0 \<le> retval"
  shows "fst (ctrl_out_loop g n i len vary maxlen retval s) =
    (if \<forall>k < n. f (ctrl_out_bytes (i + k) (round_len g vary maxlen len k)) = ctrl_out_bytes (i + k) (round_len g vary maxlen len k)
     then (if n = 0 then retval else int (round_len g vary maxlen len (n - 1))) else - EBADMSG)"
  using assms(2)
proof (induction n arbitrary: i len retval s)
  case 0
  then show ?case by simp
next
  case (Suc n)
  let ?ok = "\<lambda>k. f (ctrl_out_bytes (i + k) (round_len g vary maxlen len k)) = ctrl_out_bytes (i + k) (round_len g vary maxlen len k)"
  have all: "(\<forall>k < Suc n. ?ok k) \<longleftrightarrow> ?ok 0 \<and> (\<forall>k < n. ?ok (Suc k))"
    by (auto simp: less_Suc_eq_0_disj)
  have z: "round_len g vary maxlen len 0 = len" by (simp add: round_len_def)
  let ?s = "s\<lparr>asked := asked s @ [write_msg g (ctrl_out_bytes i len) len, read_msg g len]\<rparr>"
  let ?rest = "ctrl_out_loop g n (i + 1) (ctrl_out_next g len vary maxlen) vary maxlen (int len) ?s"
  have step: "ctrl_out_loop g (Suc n) i len vary maxlen retval s = (if ?ok 0 then ?rest else (- EBADMSG, ?s))"
    by (simp add: ctrl_out_round_echo [OF assms(1)] z)
  have rest: "fst ?rest = (if \<forall>k < n. ?ok (Suc k)
      then (if n = 0 then int len else int (round_len g vary maxlen (ctrl_out_next g len vary maxlen) (n - 1))) else - EBADMSG)"
    using Suc.IH [of "int len" "i + 1" "ctrl_out_next g len vary maxlen" ?s] by (simp add: round_len_Suc)
  have "(if n = 0 then int len else int (round_len g vary maxlen (ctrl_out_next g len vary maxlen) (n - 1))) = int (round_len g vary maxlen len n)"
    by (cases n) (simp_all add: z round_len_Suc)
  then show ?case unfolding step all using rest by simp
qed

lemma round_len_bound:
  "len \<le> maxlen \<Longrightarrow> 0 < maxlen \<Longrightarrow> round_len g vary maxlen len k \<le> maxlen"
  by (induction k arbitrary: len) (simp_all add: round_len_Suc ctrl_out_next_def round_len_def [of _ _ _ _ 0])

text \<open>
  C31. Against a device that keeps what is written to it and returns it under some map, the control
  write test fails exactly when one of the messages it writes comes back changed: otherwise it
  returns the length of its last message, which never exceeds the length asked for.
\<close>

theorem ctrl_out_detects:
  assumes "echoes f g" and "0 < unat maxlen" and "unat maxlen \<le> 0xffff" and "vary < maxlen"
    and "rc (core g (asked s) (Alloc (unat maxlen + offset))) = 0" and "count \<noteq> 0"
  shows "fst (ctrl_out g count maxlen vary offset s) =
    (if \<forall>k < unat count. let m = ctrl_out_bytes k (round_len g (unat vary) (unat maxlen) (unat maxlen) k) in f m = m
     then int (round_len g (unat vary) (unat maxlen) (unat maxlen) (unat count - 1)) else - EBADMSG)
    \<and> (\<forall>k. round_len g (unat vary) (unat maxlen) (unat maxlen) k \<le> unat maxlen)"
proof -
  have args: "\<not> (maxlen < 1 \<or> 0xffff < maxlen \<or> maxlen \<le> vary)"
    using assms(2-4) by (auto simp: word_less_nat_alt word_le_nat_alt)
  have "unat count \<noteq> 0" using assms(6) by (simp add: unat_eq_0)
  then show ?thesis
    unfolding ctrl_out_def if_not_P [OF args]
    using assms(5) ctrl_out_loop_echo [OF assms(1), of 0 "unat count" 0] round_len_bound [of "unat maxlen" "unat maxlen"] assms(2)
    by (simp add: ask_def Let_def)
qed

section \<open>The queue is empty at the end\<close>

fun uq_extra :: "uq_phase \<Rightarrow> int" where
  "uq_extra Uq_Wait = 0" | "uq_extra (Uq_Return r) = 0" | "uq_extra _ = 1"

fun uq_weight :: "nat \<Rightarrow> uq_phase \<Rightarrow> nat" where
  "uq_weight num (Uq_Submit i) = 2 * (num - i) + num + 5"
| "uq_weight num (Uq_Unlink ks) = length ks + 3"
| "uq_weight num Uq_Drop = 2"
| "uq_weight num Uq_Wait = 1"
| "uq_weight num (Uq_Return r) = 0"

definition uq_measure :: "nat \<Rightarrow> queued_ctx \<Rightarrow> nat" where
  "uq_measure num q = uq_weight num (uq_phase q) + length (uq_flight q)"

definition uq_ok :: "nat \<Rightarrow> queued_ctx \<Rightarrow> bool" where
  "uq_ok num q \<longleftrightarrow> uq_pending q = int (length (uq_flight q)) + uq_extra (uq_phase q)
     \<and> (uq_done q \<longleftrightarrow> uq_extra (uq_phase q) = 0 \<and> uq_flight q = [])
     \<and> (\<forall>r. uq_phase q = Uq_Return r \<longrightarrow> uq_flight q = [])
     \<and> (\<forall>i. uq_phase q = Uq_Submit i \<longrightarrow> i \<le> num)"

lemma uq_ask_keeps [simp]:
  "uq_ask g c q = (r, q') \<Longrightarrow> q' = q\<lparr>uq_tester := uq_tester q'\<rparr>"
  by (auto simp: uq_ask_def ask_def)

lemma uq_extra_range: "uq_extra p = 0 \<or> uq_extra p = 1"
  by (cases p) simp_all

lemma uq_extra_0: "uq_extra p = 0 \<longleftrightarrow> p = Uq_Wait \<or> (\<exists>r. p = Uq_Return r)"
  by (cases p) simp_all

lemma uq_callback_ok:
  fixes st
  assumes "uq_ok num q" and "k \<in> set (uq_flight q)"
  defines "q' \<equiv> unlink_queued_callback num k st (q\<lparr>uq_flight := remove1 k (uq_flight q)\<rparr>)"
  shows "uq_ok num q' \<and> uq_measure num q' < uq_measure num q"
proof -
  obtain n where n: "length (uq_flight q) = Suc n" using assms(2) by (cases "uq_flight q") auto
  have fl: "uq_flight q' = remove1 k (uq_flight q)" "uq_phase q' = uq_phase q" "uq_pending q' = uq_pending q - 1"
    "uq_done q' \<longleftrightarrow> uq_done q \<or> uq_pending q = 1"
    by (simp_all add: q'_def unlink_queued_callback_def uq_put_def Let_def)
  have len: "length (uq_flight q') = n" unfolding fl(1) using assms(2) n by (simp add: length_remove1)
  have ne: "uq_flight q \<noteq> []" "\<nexists>r. uq_phase q = Uq_Return r" using assms(1,2) by (auto simp: uq_ok_def)
  have empty: "uq_flight q' = [] \<longleftrightarrow> n = 0" using len by (cases "uq_flight q'") auto
  have "uq_pending q = 1 \<longleftrightarrow> uq_extra (uq_phase q) = 0 \<and> n = 0"
    using assms(1) n uq_extra_range [of "uq_phase q"] by (auto simp: uq_ok_def)
  then show ?thesis
    using assms(1) n len fl empty ne by (auto simp: uq_ok_def uq_measure_def)
qed

lemma uq_thread_ok:
  assumes "uq_ok num q" and "uq_thread g num q = Some q'" and "0 < num"
  shows "uq_ok num q' \<and> uq_measure num q' < uq_measure num q"
proof (cases "uq_phase q")
  case (Uq_Submit i)
  show ?thesis
  proof (cases "num \<le> i")
    case True
    then show ?thesis using assms Uq_Submit by (auto simp: uq_ok_def uq_thread_def uq_measure_def)
  next
    case False
    let ?u = "uq_urbs q ! i"
    obtain r q1 where a: "uq_ask g (Queue i (t_pipe ?u) (t_off ?u) (unat (t_len ?u)) (t_mem ?u)) q = (r, q1)" by fastforce
    then have q1: "q1 = q\<lparr>uq_tester := uq_tester q1\<rparr>" by (rule uq_ask_keeps)
    have keep: "uq_flight q1 = uq_flight q" "uq_pending q1 = uq_pending q" "uq_done q1 = uq_done q"
      by (subst q1, simp)+
    show ?thesis
      using assms Uq_Submit False a keep by (auto simp: uq_ok_def uq_thread_def uq_measure_def split: if_splits)
  qed
next
  case (Uq_Unlink ks)
  show ?thesis
  proof (cases ks)
    case Nil
    then show ?thesis using assms Uq_Unlink by (auto simp: uq_ok_def uq_thread_def uq_measure_def)
  next
    case (Cons k ks')
    obtain r q1 where a: "uq_ask g (Unlink k) q = (r, q1)" by fastforce
    then have q1: "q1 = q\<lparr>uq_tester := uq_tester q1\<rparr>" by (rule uq_ask_keeps)
    have keep: "uq_flight q1 = uq_flight q" "uq_pending q1 = uq_pending q" "uq_done q1 = uq_done q"
      by (subst q1, simp)+
    show ?thesis
      using assms Uq_Unlink Cons a keep by (auto simp: uq_ok_def uq_thread_def uq_measure_def)
  qed
next
  case Uq_Drop
  then show ?thesis using assms by (auto simp: uq_ok_def uq_thread_def uq_measure_def uq_put_def Let_def)
next
  case Uq_Wait
  then show ?thesis using assms by (auto simp: uq_ok_def uq_thread_def uq_measure_def split: if_splits)
next
  case (Uq_Return r)
  then show ?thesis using assms(2) by (simp add: uq_thread_def)
qed

lemma uq_step_ok:
  assumes "uq_step g num gives q q'" and "uq_ok num q" and "0 < num"
  shows "uq_ok num q' \<and> uq_measure num q' < uq_measure num q"
  using assms(1)
proof cases
  case thread
  then show ?thesis using uq_thread_ok [OF assms(2) _ assms(3)] by blast
next
  case (given_back k st)
  then show ?thesis using uq_callback_ok [OF assms(2)] by blast
qed

lemma uq_reach_ok:
  assumes "uq_reach g pipe num sz s gives q" and "0 < num"
  shows "uq_ok num q"
  using assms(1)
proof induction
  case (start q)
  then show ?case
    by (auto simp: unlink_queued_start_def ask_def uq_ok_def bind_eq_Some_conv Let_def split: if_splits)
next
  case (more q q')
  then show ?case using uq_step_ok assms(2) by blast
qed

text \<open>
  C18. Cancelling urbs of a queue ends, however its completions run between the steps of the test:
  every step brings the end nearer, a test that has not returned can go on as long as the controller
  gives back what it has, and one that has returned leaves no urb in flight, so that no completion
  uses the context on its stack afterwards.
\<close>

theorem unlink_queued_ends:
  assumes "uq_reach g pipe num sz s gives q" and "0 < num" and "\<forall>k. \<exists>st. gives k st"
  shows "(\<forall>q'. uq_step g num gives q q' \<longrightarrow> uq_measure num q' < uq_measure num q)
    \<and> (if \<exists>r. uq_phase q = Uq_Return r then uq_flight q = [] \<and> uq_pending q = 0
       else \<exists>q'. uq_step g num gives q q')"
proof -
  have ok: "uq_ok num q" by (rule uq_reach_ok [OF assms(1,2)])
  have "\<exists>q'. uq_step g num gives q q'" if no: "\<nexists>r. uq_phase q = Uq_Return r"
  proof (cases "uq_flight q")
    case (Cons k ks)
    obtain st where "gives k st" using assms(3) by blast
    then show ?thesis using Cons uq_step.given_back [of k q gives st] by auto
  next
    case Nil
    then have "uq_extra (uq_phase q) = 0 \<Longrightarrow> uq_done q" using ok by (simp add: uq_ok_def)
    then have "\<exists>q'. uq_thread g num q = Some q'"
      using no by (auto simp: uq_thread_def Let_def split_def split: uq_phase.splits list.splits)
    then show ?thesis using uq_step.thread by blast
  qed
  then show ?thesis
    using uq_step_ok [OF _ ok assms(2)] ok by (auto simp: uq_ok_def)
qed

section \<open>A halt is always cleared\<close>

text \<open>The calls of a transfer, and those of looking at an endpoint.\<close>

fun io_call :: "core_call \<Rightarrow> bool" where
  "io_call (Submit p off n m) = True" | "io_call Wait = True" | "io_call Kill = True"
| "io_call (Get_Std_Status r t) = True" | "io_call _ = False"

definition only_io :: "turb \<Rightarrow> tester \<Rightarrow> turb \<Rightarrow> tester \<Rightarrow> bool" where
  "only_io u s u' s' \<longleftrightarrow> (\<exists>cs. asked s' = asked s @ cs \<and> list_all io_call cs) \<and> t_pipe u' = t_pipe u"

lemma only_io_refl [simp]: "only_io u s u s"
  by (simp add: only_io_def)

lemma only_io_trans: "only_io u s u1 s1 \<Longrightarrow> only_io u1 s1 u2 s2 \<Longrightarrow> only_io u s u2 s2"
  by (auto simp: only_io_def)

lemma put_buffer_pipe: "put_buffer u bs = Some u' \<Longrightarrow> t_pipe u' = t_pipe u"
  by (auto simp: put_buffer_def)

lemma fill_for_output_pipe: "fill_for_output g u s = Some u' \<Longrightarrow> t_pipe u' = t_pipe u"
  by (auto simp: fill_for_output_def fz_simple_fill_buf_def simple_fill_buf_def bind_eq_Some_conv
      dest!: put_buffer_pipe split: if_splits option.splits)

lemma io_once_only:
  assumes "io_once g u s = Some (broken, r, u', s')"
  shows "only_io u s u' s'"
proof -
  obtain u1 where f: "fill_for_output g u s = Some u1" using assms by (auto simp: io_once_def bind_eq_Some_conv)
  then show ?thesis
    using assms fill_for_output_pipe [OF f]
    by (auto simp: io_once_def wait_for_io_def ask_def only_io_def io_result_def bind_eq_Some_conv Let_def
        split: if_splits)
qed

lemma io_loop_only: "io_loop g n vary maxlen u s = Some (r, u', s') \<Longrightarrow> only_io u s u' s'"
proof (induction n arbitrary: u s)
  case 0
  then show ?case by simp
next
  case (Suc n)
  obtain broken q u1 s1 where 1: "io_once g u s = Some (broken, q, u1, s1)"
    using Suc.prems by (auto simp: bind_eq_Some_conv)
  note only = io_once_only [OF 1]
  show ?case
  proof (cases "broken")
    case True
    then show ?thesis using Suc.prems 1 only by simp
  next
    case False
    then have "\<exists>u2. only_io u1 s1 u2 s1 \<and> (if q = 0 then io_loop g n vary maxlen u2 s1 else Some (q, u2, s1)) = Some (r, u', s')"
    proof (cases "vary = 0")
      case True
      then show ?thesis using Suc.prems 1 \<open>\<not> broken\<close> by (intro exI [of _ u1]) (simp split: if_splits)
    next
      case v: False
      then obtain z where "vary_length vary maxlen (sint (t_len u1)) = Some z"
        using Suc.prems 1 \<open>\<not> broken\<close> by (auto simp: bind_eq_Some_conv)
      then show ?thesis
        using Suc.prems 1 \<open>\<not> broken\<close> v by (intro exI [of _ "u1\<lparr>t_len := word_of_int z\<rparr>"]) (simp add: only_io_def split: if_splits)
    qed
    then obtain u2 where 2: "only_io u1 s1 u2 s1"
      "(if q = 0 then io_loop g n vary maxlen u2 s1 else Some (q, u2, s1)) = Some (r, u', s')" by blast
    have 3: "only_io u s u2 s1" by (rule only_io_trans [OF only 2(1)])
    show ?thesis
    proof (cases "q = 0")
      case True
      then have "only_io u2 s1 u' s'" using Suc.IH 2(2) by simp
      then show ?thesis by (rule only_io_trans [OF 3])
    qed (use 2(2) 3 in simp)
  qed
qed

lemma simple_io_only: "simple_io g u n vary s = Some (r, u', s') \<Longrightarrow> only_io u s u' s'"
  using io_loop_only by (fastforce simp: simple_io_def only_io_def bind_eq_Some_conv Let_def)

lemma endpoint_status_only: "endpoint_status g ep s = (r, st, s') \<Longrightarrow> only_io u s u s'"
  by (auto simp: endpoint_status_def ask_def only_io_def)

lemma verify_not_halted_only:
  assumes "verify_not_halted g ep u s = Some (r, u', s')"
  shows "only_io u s u' s'"
proof -
  obtain q st s1 where 1: "endpoint_status g ep s = (q, st, s1)" by (metis prod_cases3)
  note only = endpoint_status_only [OF 1, of u]
  show ?thesis
    using assms 1 only only_io_trans [OF only simple_io_only]
    by (auto simp: verify_not_halted_def bind_eq_Some_conv split: if_splits)
qed

lemma verify_halted_only:
  assumes "verify_halted g ep u s = Some (r, u', s')"
  shows "only_io u s u' s'"
proof -
  obtain q st s1 where 1: "endpoint_status g ep s = (q, st, s1)" by (metis prod_cases3)
  note only = endpoint_status_only [OF 1, of u]
  show ?thesis
    using assms 1 only only_io_trans [OF only simple_io_only] only_io_trans [OF only_io_trans [OF only simple_io_only] simple_io_only]
    by (auto simp: verify_halted_def bind_eq_Some_conv split: if_splits)
qed

lemma not_io_set_halt: "list_all io_call cs \<Longrightarrow> set_halt_msg g ep \<notin> set cs"
  by (auto simp: list_all_iff set_halt_msg_def)

text \<open>
  C30. The test of halted endpoints leaves none halted: whenever the device took the request to
  halt the endpoint, the endpoint is cleared afterwards, whatever the verification finds.
\<close>

theorem halt_cleared:
  assumes "test_halt g ep u s = Some (r, u', s')" and "asked s' = asked s @ xs @ set_halt_msg g ep # ys"
    and "0 \<le> rc (core g (asked s @ xs) (set_halt_msg g ep))"
  shows "Clear_Halt (t_pipe u) \<in> set ys"
proof -
  let ?c = "set_halt_msg g ep"
  obtain r1 u1 s1 where 1: "verify_not_halted g ep u s = Some (r1, u1, s1)"
    using assms(1) by (auto simp: test_halt_def bind_eq_Some_conv)
  obtain before where b: "asked s1 = asked s @ before" "list_all io_call before" "t_pipe u1 = t_pipe u"
    using verify_not_halted_only [OF 1] by (auto simp: only_io_def)
  note no = not_io_set_halt [OF b(2), of g ep]
  have "0 \<le> r1" using assms(1,2) 1 b(1) no by (auto simp: test_halt_def split: if_splits)
  then have "\<exists>rest. asked s' = asked s @ before @ ?c # rest \<and> ?c \<notin> set rest
    \<and> (rest = [] \<and> rc (core g (asked s @ before) ?c) < 0 \<or> Clear_Halt (t_pipe u) \<in> set rest)"
  proof (cases "rc (core g (asked s1) ?c) < 0")
    case True
    then show ?thesis using assms(1) 1 b \<open>0 \<le> r1\<close> by (intro exI [of _ "[]"]) (auto simp: test_halt_def ask_def)
  next
    case False
    let ?s2 = "s1\<lparr>asked := asked s1 @ [?c]\<rparr>"
    obtain r2 u2 s2 where 2: "verify_halted g ep u1 ?s2 = Some (r2, u2, s2)"
      using assms(1) 1 False \<open>0 \<le> r1\<close> by (auto simp: test_halt_def ask_def bind_eq_Some_conv)
    obtain during where d: "asked s2 = asked ?s2 @ during" "list_all io_call during" "t_pipe u2 = t_pipe u"
      using verify_halted_only [OF 2] b(3) by (auto simp: only_io_def)
    let ?h = "Clear_Halt (t_pipe u)"
    have clear: "clear_halt g u2 s2 = (rc (core g (asked s2) ?h), s2\<lparr>asked := asked s2 @ [?h]\<rparr>)"
      by (simp add: clear_halt_def ask_def d(3))
    have "\<exists>after. asked s' = asked s2 @ ?h # after \<and> list_all io_call after"
      using assms(1) 1 2 False \<open>0 \<le> r1\<close> clear verify_not_halted_only
      by (fastforce simp: test_halt_def ask_def bind_eq_Some_conv only_io_def split: if_splits)
    then obtain after where a: "asked s' = asked s2 @ ?h # after" "list_all io_call after" by blast
    have "?c \<noteq> ?h" by (simp add: set_halt_msg_def)
    then have "?c \<notin> set (during @ ?h # after)"
      using not_io_set_halt [OF d(2), of g ep] not_io_set_halt [OF a(2), of g ep] by simp
    moreover have "asked s' = asked s @ before @ ?c # (during @ ?h # after)" using a(1) d(1) b(1) by simp
    ultimately show ?thesis by (intro exI [of _ "during @ ?h # after"]) simp
  qed
  then obtain rest where r: "asked s' = asked s @ before @ ?c # rest" "?c \<notin> set rest"
    "rest = [] \<and> rc (core g (asked s @ before) ?c) < 0 \<or> Clear_Halt (t_pipe u) \<in> set rest" by blast
  have "before @ ?c # rest = xs @ ?c # ys" using r(1) assms(2) by simp
  then have "xs = before" "ys = rest" by (simp_all add: append_Cons_eq_iff [OF no r(2)])
  then show ?thesis using r(3) assms(3) by auto
qed

section \<open>Cancelling\<close>

text \<open>The urbs allocated and not freed in a history.\<close>

definition urbs_kept :: "core_call list \<Rightarrow> int" where
  "urbs_kept cs = int (count_list cs Alloc_Urb) - int (count_list cs Free_Urb)"

lemma urbs_kept_simps [simp]:
  "urbs_kept [] = 0" "urbs_kept (xs @ ys) = urbs_kept xs + urbs_kept ys"
  "urbs_kept (c # cs) = (if c = Alloc_Urb then 1 else if c = Free_Urb then - 1 else 0) + urbs_kept cs"
  by (simp_all add: urbs_kept_def)

text \<open>A controller that cancels an urb when it is asked to, and gives back none before.\<close>

definition cancels :: "core \<Rightarrow> bool" where
  "cancels c \<longleftrightarrow> (\<forall>h n k p off m. rc (c h (Alloc n)) = 0 \<and> rc (c h Alloc_Urb) = 0
     \<and> rc (c h (Submit p off n m)) = 0 \<and> rc (c h (Unlink k)) = - EINPROGRESS
     \<and> \<not> in_time (c (h @ [Submit p off n m]) Poll)
     \<and> in_time (c (h @ [Unlink k]) Poll) \<and> status (c (h @ [Unlink k]) Poll) = - ECONNRESET
     \<and> in_time (c h Kill) \<and> status (c h Kill) = - ENOENT)"

lemma simple_alloc_urb_ok:
  assumes "\<forall>h n. rc (core g h (Alloc n)) = 0 \<and> rc (core g h Alloc_Urb) = 0" and "0 < n" and "n < 2 ^ 32"
  obtains u where "simple_alloc_urb g p n s = (Some u, s\<lparr>asked := asked s @ [Alloc_Urb, Alloc n]\<rparr>)"
    "urb_ok n u" "unat (t_len u) = n" "t_pipe u = p"
  using assms by (auto simp: simple_alloc_urb_def usbtest_alloc_urb_def ask_def urb_ok_def unat_of_nat)

lemma unlink1_filled:
  assumes "\<forall>h n. rc (core g h (Alloc n)) = 0 \<and> rc (core g h Alloc_Urb) = 0" and "0 < n" and "n < 2 ^ 32"
    and "get_maxpacket (udev g) p = Some maxp" and "0 < maxp"
  obtains u u' where "simple_alloc_urb g p n s = (Some u, s\<lparr>asked := asked s @ [Alloc_Urb, Alloc n]\<rparr>)"
    "(if usb_pipeout (t_pipe u) then map_option (\<lambda>u. u\<lparr>t_zero_packet := True\<rparr>)
        (simple_fill_buf g u (s\<lparr>asked := asked s @ [Alloc_Urb, Alloc n]\<rparr>)) else Some u) = Some u'"
    "t_pipe u' = p"
proof -
  obtain u where u: "simple_alloc_urb g p n s = (Some u, s\<lparr>asked := asked s @ [Alloc_Urb, Alloc n]\<rparr>)"
    "urb_ok n u" "unat (t_len u) = n" "t_pipe u = p"
    by (rule simple_alloc_urb_ok [OF assms(1-3)])
  obtain u1 where "simple_fill_buf g u (s\<lparr>asked := asked s @ [Alloc_Urb, Alloc n]\<rparr>) = Some u1" "t_pipe u1 = t_pipe u"
    using simple_fill_buf_ok [OF u(2), of g maxp "s\<lparr>asked := asked s @ [Alloc_Urb, Alloc n]\<rparr>"] u(3,4) assms(4,5)
    by (metis order_refl)
  then show ?thesis
    using u by (cases "usb_pipeout p") (auto intro: that [OF u(1)])
qed

lemma unlink1_cancelled:
  assumes "cancels (core g)" and "0 < n" and "n < 2 ^ 32"
    and "get_maxpacket (udev g) p = Some maxp" and "0 < maxp"
  shows "\<exists>s'. unlink1 g p n async s = Some (0, s') \<and> urbs_kept (asked s') = urbs_kept (asked s)"
proof -
  have c: "rc (core g h (Alloc n)) = 0" "rc (core g h Alloc_Urb) = 0" "rc (core g h (Submit p off n m)) = 0"
    "rc (core g h (Unlink k)) = - EINPROGRESS" "\<not> in_time (core g (h @ [Submit p off n m]) Poll)"
    "in_time (core g (h @ [Unlink k]) Poll)" "status (core g (h @ [Unlink k]) Poll) = - ECONNRESET"
    "in_time (core g h Kill)" "status (core g h Kill) = - ENOENT" for h n k p off m
    using assms(1) by (simp_all add: cancels_def)
  have calls: "\<forall>h n. rc (core g h (Alloc n)) = 0 \<and> rc (core g h Alloc_Urb) = 0" using c(1,2) by simp
  obtain u u' where u: "simple_alloc_urb g p n s = (Some u, s\<lparr>asked := asked s @ [Alloc_Urb, Alloc n]\<rparr>)"
    "(if usb_pipeout (t_pipe u) then map_option (\<lambda>u. u\<lparr>t_zero_packet := True\<rparr>)
        (simple_fill_buf g u (s\<lparr>asked := asked s @ [Alloc_Urb, Alloc n]\<rparr>)) else Some u) = Some u'"
    by (rule unlink1_filled [OF calls assms(2-5), of s]) blast
  let ?h = "asked s @ [Alloc_Urb, Alloc n]"
  let ?sub = "Submit (t_pipe u') (t_off u') (unat (t_len u')) (t_mem u')"
  let ?s2 = "s\<lparr>asked := (?h @ [?sub]) @ [Poll]\<rparr>"
  have sub: "submit_urb g u' (s\<lparr>asked := ?h\<rparr>) = (0, s\<lparr>asked := ?h @ [?sub]\<rparr>)"
    by (simp add: submit_urb_def ask_def c)
  have del: "unlink1_deliver g False u' (s\<lparr>asked := ?h @ [?sub]\<rparr>) = Some (False, u', ?s2)"
    using c(5) [of ?h] by (subst unlink1_deliver.simps) (simp add: ask_def)
  show ?thesis
  proof (cases async)
    case True
    have un: "unlink1_retry g False u' ?s2 = Some (None, False, u', s\<lparr>asked := asked ?s2 @ [Unlink 0]\<rparr>)"
      using c(4) by (subst unlink1_retry.simps) (simp add: ask_def)
    let ?r = "core g (asked ?s2 @ [Unlink 0]) Poll"
    have "unlink1_wait g False u' (s\<lparr>asked := asked ?s2 @ [Unlink 0]\<rparr>)
        = Some (io_result ?r u', s\<lparr>asked := (asked ?s2 @ [Unlink 0]) @ [Poll]\<rparr>)"
      using c(6,7) [of "asked ?s2" 0]
      by (subst unlink1_wait.simps) (simp add: ask_def unlink1_callback_def io_result_def unlink1_wait.simps [of g True])
    then show ?thesis
      using u sub del un True c(7) [of "asked ?s2" 0]
      by (simp add: unlink1_def io_result_def simple_free_urb_def ask_def Let_def)
  next
    case False
    let ?r = "core g (asked ?s2) Kill"
    have kill: "kill_urb g False u' ?s2 = (True, io_result ?r u', s\<lparr>asked := asked ?s2 @ [Kill]\<rparr>)"
      using c(8,9) [of "asked ?s2"] by (simp add: kill_urb_def ask_def unlink1_callback_def io_result_def)
    then show ?thesis
      using u sub del False c(9) [of "asked ?s2"]
      by (simp add: unlink1_def io_result_def simple_free_urb_def ask_def Let_def unlink1_wait.simps [of g True])
  qed
qed

text \<open>
  Where the controller cancels what it is asked to cancel, both tests of unlinking pass, the
  asynchronous and the synchronous one, and every urb they allocated is freed.
\<close>

theorem unlink_simple_passes:
  assumes "cancels (core g)" and "0 < n" and "n < 2 ^ 32"
    and "get_maxpacket (udev g) pipe = Some maxp" and "0 < maxp"
  shows "\<exists>s'. unlink_simple g pipe n s = Some (0, s') \<and> urbs_kept (asked s') = urbs_kept (asked s)"
proof -
  obtain s1 where 1: "unlink1 g pipe n True s = Some (0, s1)" "urbs_kept (asked s1) = urbs_kept (asked s)"
    using unlink1_cancelled [OF assms] by blast
  obtain s2 where "unlink1 g pipe n False s1 = Some (0, s2)" "urbs_kept (asked s2) = urbs_kept (asked s1)"
    using unlink1_cancelled [OF assms] by blast
  then show ?thesis using 1 by (simp add: unlink_simple_def)
qed

text \<open>
  When the core refuses the urb, the test of unlinking returns its error without freeing the
  urb: each such run leaks one.
\<close>

theorem unlink1_leaks:
  assumes "\<forall>h n. rc (core g h (Alloc n)) = 0 \<and> rc (core g h Alloc_Urb) = 0"
    and "\<forall>h p off n m. rc (core g h (Submit p off n m)) = e" and "e \<noteq> 0" and "0 < n" and "n < 2 ^ 32"
    and "get_maxpacket (udev g) pipe = Some maxp" and "0 < maxp"
  shows "\<exists>s'. unlink1 g pipe n async s = Some (e, s') \<and> urbs_kept (asked s') = urbs_kept (asked s) + 1"
proof -
  obtain u u' where u: "simple_alloc_urb g pipe n s = (Some u, s\<lparr>asked := asked s @ [Alloc_Urb, Alloc n]\<rparr>)"
    "(if usb_pipeout (t_pipe u) then map_option (\<lambda>u. u\<lparr>t_zero_packet := True\<rparr>)
        (simple_fill_buf g u (s\<lparr>asked := asked s @ [Alloc_Urb, Alloc n]\<rparr>)) else Some u) = Some u'"
    by (rule unlink1_filled [OF assms(1,4-7), of s]) blast
  then show ?thesis
    using assms(2,3) by (simp add: unlink1_def submit_urb_def ask_def)
qed

section \<open>Witnesses\<close>

text \<open>A controller that cancels; a device that keeps its halt feature; a device with one buffer.\<close>

definition cancel_core :: core where
  "cancel_core h c = (case c of
     Unlink _ \<Rightarrow> \<lparr>rc = - EINPROGRESS, in_time = True, status = 0, actual = 0, mem = []\<rparr>
   | Poll \<Rightarrow> \<lparr>rc = 0, in_time = h \<noteq> [] \<and> last h = Unlink 0 \<or> (h \<noteq> [] \<and> (case last h of Unlink _ \<Rightarrow> True | _ \<Rightarrow> False)),
       status = - ECONNRESET, actual = 0, mem = []\<rparr>
   | Kill \<Rightarrow> \<lparr>rc = 0, in_time = True, status = - ENOENT, actual = 0, mem = []\<rparr>
   | _ \<Rightarrow> \<lparr>rc = 0, in_time = True, status = 0, actual = 0, mem = []\<rparr>)"

definition halted_by :: "core_call list \<Rightarrow> bool" where
  "halted_by h = foldl (\<lambda>b c. case c of Control_Msg _ _ _ _ _ _ _ \<Rightarrow> True | Clear_Halt _ \<Rightarrow> False | _ \<Rightarrow> b) False h"

definition halt_core :: core where
  "halt_core h c = \<lparr>rc = 0, in_time = True, status = (if halted_by h then - EPIPE else 0), actual = 0,
     mem = (if halted_by h then [1, 0] else [0, 0])\<rparr>"

definition echo_core :: core where
  "echo_core h c = (case c of
     Control_Msg p rq ty v i m n \<Rightarrow> \<lparr>rc = int n, in_time = True, status = 0, actual = n,
       mem = (if h = [] then [] else case last h of Control_Msg _ _ _ _ _ m _ \<Rightarrow> m | _ \<Rightarrow> [])\<rparr>
   | _ \<Rightarrow> \<lparr>rc = 0, in_time = True, status = 0, actual = 0, mem = []\<rparr>)"

theorem unlink_simple_passes_witness:
  "\<exists>s. unlink_simple (demo_rig\<lparr>core := cancel_core\<rparr>) 0 512 demo_tester = Some (0, s) \<and> urbs_kept (asked s) = 0"
proof -
  have "cancels (core (demo_rig\<lparr>core := cancel_core\<rparr>))" by (simp add: cancels_def cancel_core_def)
  moreover have "get_maxpacket (udev (demo_rig\<lparr>core := cancel_core\<rparr>)) 0 = Some 64" using demo_maxpacket [of 0] by simp
  ultimately show ?thesis
    using unlink_simple_passes [of "demo_rig\<lparr>core := cancel_core\<rparr>" 512 0 64 demo_tester] by (simp add: demo_tester_def)
qed

definition refusing_core :: core where
  "refusing_core h c = \<lparr>rc = (case c of Submit p off n m \<Rightarrow> - ENODEV | _ \<Rightarrow> 0), in_time = True, status = 0,
     actual = 0, mem = []\<rparr>"

theorem unlink1_leaks_witness:
  "\<exists>s. unlink1 (demo_rig\<lparr>core := refusing_core\<rparr>) 0x80 512 True demo_tester = Some (- ENODEV, s) \<and> urbs_kept (asked s) = 1"
proof -
  have "get_maxpacket (udev (demo_rig\<lparr>core := refusing_core\<rparr>)) 0x80 = Some 64" using demo_maxpacket [of "0x80"] by simp
  then show ?thesis
    using unlink1_leaks [where g = "demo_rig\<lparr>core := refusing_core\<rparr>" and e = "- ENODEV" and n = 512
      and pipe = "0x80" and maxp = 64 and async = True and s = demo_tester]
    by (simp add: refusing_core_def demo_tester_def)
qed

theorem ctrl_out_detects_witness:
  "fst (ctrl_out (demo_rig\<lparr>core := echo_core\<rparr>) 3 10 4 0 demo_tester) = 5"
proof -
  let ?g = "demo_rig\<lparr>core := echo_core\<rparr>"
  have "echoes (\<lambda>m. m) ?g" by (simp add: echoes_def echo_core_def write_msg_def read_msg_def)
  moreover have "round_len ?g 4 10 10 2 = 5"
    by (simp add: round_len_def ctrl_out_next_def demo_rig_def numeral_2_eq_2)
  ultimately show ?thesis
    using ctrl_out_detects [of "\<lambda>m. m" ?g 10 4 demo_tester 0 3] by (simp add: echo_core_def)
qed

lemmas uq_alloc_numeral = uq_alloc.simps(2) [where n = "pred_numeral v" for v, folded numeral_eq_Suc]

theorem unlink_queued_ends_witness:
  "\<exists>q q'. uq_reach demo_rig 0x80 4 8 demo_tester (\<lambda>_ _. True) q
     \<and> uq_step demo_rig 4 (\<lambda>_ _. True) q q' \<and> uq_measure 4 q' < uq_measure 4 q"
proof -
  have "\<exists>q. unlink_queued_start demo_rig 0x80 4 8 demo_tester = Some (Inr q) \<and> uq_phase q = Uq_Submit 0"
    by (simp add: unlink_queued_start_def ask_def demo_rig_def demo_core_def usb_pipeout_def usb_pipein_def uq_alloc_numeral)
  then obtain q where q: "unlink_queued_start demo_rig 0x80 4 8 demo_tester = Some (Inr q)" "uq_phase q = Uq_Submit 0"
    by blast
  have "uq_reach demo_rig 0x80 4 8 demo_tester (\<lambda>_ _. True) q" by (rule uq_reach.start [OF q(1)])
  with unlink_queued_ends [OF this] q(2) show ?thesis by auto
qed

theorem halt_cleared_witness:
  "\<exists>u s ys. test_halt (demo_rig\<lparr>core := halt_core\<rparr>) 0x81 (demo_urb 0x80 1) demo_tester = Some (0, u, s)
     \<and> Clear_Halt 0x80 \<in> set ys \<and> (\<exists>xs. asked s = xs @ set_halt_msg demo_rig 0x81 # ys)"
proof -
  let ?g = "demo_rig\<lparr>core := halt_core\<rparr>"
  let ?c = "set_halt_msg ?g 0x81"
  have "\<exists>u s ys. test_halt ?g 0x81 (demo_urb 0x80 1) demo_tester = Some (0, u, s)
     \<and> asked s = asked demo_tester @ [Get_Std_Status USB_RECIP_ENDPOINT 0x81, Submit 0x80 0 1 [0], Wait] @ ?c # ys"
    by (simp add: test_halt_def verify_not_halted_def verify_halted_def endpoint_status_def ask_def halt_core_def
      halted_by_def status_word_def simple_io_def io_once_def fill_for_output_def wait_for_io_def io_result_def
      demo_urb_def usb_pipeout_def usb_pipein_def simple_check_buf_def check_guard_bytes_def set_halt_msg_def
      clear_halt_def demo_tester_def get_maxpacket_def demo_rig_def demo_udev_def demo_endpoint_def)
  then obtain u s ys where t: "test_halt ?g 0x81 (demo_urb 0x80 1) demo_tester = Some (0, u, s)"
    "asked s = asked demo_tester @ [Get_Std_Status USB_RECIP_ENDPOINT 0x81, Submit 0x80 0 1 [0], Wait] @ ?c # ys"
    by blast
  have "Clear_Halt (t_pipe (demo_urb 0x80 1)) \<in> set ys"
    by (rule halt_cleared [OF t]) (simp add: halt_core_def)
  moreover have "?c = set_halt_msg demo_rig 0x81" "t_pipe (demo_urb 0x80 1) = 0x80"
    by (simp_all add: set_halt_msg_def demo_urb_def)
  ultimately show ?thesis using t by auto
qed

end
