(* ===== verification/Usbtest_Queue.thy ===== *)
theory Usbtest_Queue
  imports Usbtest_Halt
begin

unbundle bit_operations_syntax

text \<open>
  Queued bulk and isochronous transfers (usbtest.c, lines 2052 to 2290): several urbs are kept
  pending at once, each resubmitted from its completion, and the errors are counted.
\<close>

section \<open>Isochronous urbs\<close>

abbreviation (input) EACCES :: int where "EACCES \<equiv> 13"
abbreviation (input) MAX_SGLEN :: nat where "MAX_SGLEN \<equiv> 128"

text \<open>An urb of the queue: its packets with their offsets and lengths, none of them for bulk.\<close>

record queue_urb =
  q_urb :: turb
  q_frames :: "(nat \<times> nat) list"

primrec iso_frames :: "nat \<Rightarrow> nat \<Rightarrow> nat \<Rightarrow> nat \<Rightarrow> (nat \<times> nat) list" where
  "iso_frames maxp i 0 bytes = []"
| "iso_frames maxp i (Suc n) bytes =
     (let len = min bytes maxp in (maxp * i, len) # iso_frames maxp (i + 1) n (bytes - len))"

text \<open>The bytes of one interval; an endpoint the device does not have is a null pointer.\<close>

definition iso_maxp :: "usb_device \<Rightarrow> u32 \<Rightarrow> usb_endpoint_descriptor \<Rightarrow> nat option" where
  "iso_maxp u pipe desc =
     (if dev_speed u \<ge> USB_SPEED_SUPER
      then map_option (\<lambda>n. usb_endpoint_maxp desc * n) (ss_isoc_get_packet_num u pipe)
      else Some (usb_endpoint_maxp desc * usb_endpoint_maxp_mult desc))"

text \<open>
  Division by zero is undefined, and so is the shift that makes the interval for an interval of
  zero or one above 32; a shift by 31 reaches the sign.
\<close>

definition iso_alloc_urb ::
  "rig \<Rightarrow> u32 \<Rightarrow> usb_endpoint_descriptor \<Rightarrow> nat \<Rightarrow> nat \<Rightarrow> tester \<Rightarrow> (queue_urb option \<times> tester) option" where
  "iso_alloc_urb g pipe desc bytes offset s =
     do {
       maxp \<leftarrow> iso_maxp (udev g) pipe desc;
       if maxp = 0 then None
       else let packets = (bytes + maxp - 1) div maxp; (r, s) = ask g Alloc_Urb s in
         if rc r \<noteq> 0 then Some (None, s)
         else let (r, s) = ask g (Alloc (bytes + offset)) s in
           if rc r \<noteq> 0 then Some (None, snd (ask g Free_Urb s))
           else if bInterval desc = 0 \<or> 32 < unat (bInterval desc) then None
           else Some (Some \<lparr>q_urb = \<lparr>t_pipe = pipe,
                    t_mem = replicate offset GUARD_BYTE
                      @ replicate bytes (if usb_pipein pipe then GUARD_BYTE else 0),
                    t_off = offset, t_len = of_nat bytes, t_interval = sint (push_bit (unat (bInterval desc) - 1) 1 :: u32),
                    t_dma_mapped = True, t_short_not_ok = False, t_zero_packet = False, t_status = 0,
                    t_actual = 0\<rparr>,
                  q_frames = iso_frames maxp 0 packets bytes\<rparr>, s)
     }"

section \<open>The completion\<close>

text \<open>
  The context of a queue. Its counts of errors and packets cannot reach the width of their C type.
  \<open>tc_cleared\<close> holds the positions of the array of urbs that were set to null. A completion
  reports the status, the actual length, the errors counted in the packets and the memory.
\<close>

record transfer_context =
  tc_count :: u32
  tc_pending :: u32
  tc_submit_error :: bool
  tc_errors :: nat
  tc_packet_count :: nat
  tc_is_iso :: bool
  tc_urbs :: "queue_urb list"
  tc_cleared :: "nat list"
  tc_queued :: "nat list"
  tc_done :: bool
  tc_tester :: tester

record completion_report =
  cr_status :: int
  cr_actual :: nat
  cr_errors :: int
  cr_mem :: "u8 list"

definition tc_ask :: "rig \<Rightarrow> core_call \<Rightarrow> transfer_context \<Rightarrow> int \<times> transfer_context" where
  "tc_ask g call c = (let (r, s) = ask g call (tc_tester c) in (rc r, c\<lparr>tc_tester := s\<rparr>))"

definition queue_tc_urb :: "rig \<Rightarrow> nat \<Rightarrow> queue_urb \<Rightarrow> transfer_context \<Rightarrow> int \<times> transfer_context" where
  "queue_tc_urb g k u c =
     tc_ask g (Queue k (t_pipe (q_urb u)) (t_off (q_urb u)) (unat (t_len (q_urb u))) (t_mem (q_urb u))) c"

definition new_errors :: "bool \<Rightarrow> queue_urb \<Rightarrow> completion_report \<Rightarrow> nat" where
  "new_errors is_iso u r =
     (if cr_errors r > 0 then nat (cr_errors r)
      else if cr_status r \<noteq> 0 then (if is_iso then length (q_frames u) else 1)
      else if of_nat (cr_actual r) \<noteq> t_len (q_urb u) then 1
      else if check_guard_bytes (q_urb u) \<noteq> 0 then 1
      else 0)"

text \<open>The urb is submitted again, or it is not and one less is pending.\<close>

definition tc_resubmit :: "rig \<Rightarrow> nat \<Rightarrow> queue_urb \<Rightarrow> int \<Rightarrow> transfer_context \<Rightarrow> transfer_context" where
  "tc_resubmit g k u st c =
     (let stop = (\<lambda>c. c\<lparr>tc_pending := tc_pending c - 1, tc_done := tc_done c \<or> tc_pending c - 1 = 0\<rparr>) in
      if st = 0 \<and> tc_pending c - 1 < tc_count c \<and> \<not> tc_submit_error c
      then let (r, c) = queue_tc_urb g k u c in
        if r = 0 then c\<lparr>tc_queued := tc_queued c @ [k]\<rparr> else stop (c\<lparr>tc_submit_error := True\<rparr>)
      else stop c)"

definition complicated_callback :: "rig \<Rightarrow> nat \<Rightarrow> completion_report \<Rightarrow> transfer_context \<Rightarrow> transfer_context" where
  "complicated_callback g k r c =
     (let u = tc_urbs c ! k;
          u = u\<lparr>q_urb := (q_urb u)\<lparr>t_status := cr_status r, t_actual := cr_actual r, t_mem := cr_mem r\<rparr>\<rparr>
      in tc_resubmit g k u (cr_status r)
           (c\<lparr>tc_count := tc_count c - 1, tc_packet_count := tc_packet_count c + length (q_frames u),
              tc_errors := tc_errors c + new_errors (tc_is_iso c) u r, tc_urbs := (tc_urbs c)[k := u]\<rparr>))"

section \<open>The test\<close>

definition queue_alloc_one ::
  "rig \<Rightarrow> u32 \<Rightarrow> usb_endpoint_descriptor option \<Rightarrow> nat \<Rightarrow> nat \<Rightarrow> tester \<Rightarrow> (queue_urb option \<times> tester) option" where
  "queue_alloc_one g pipe desc bytes offset s =
     (case desc of
        Some e \<Rightarrow> iso_alloc_urb g pipe e bytes offset s
      | None \<Rightarrow> (let (u, s) = complicated_alloc_urb g pipe bytes s
                 in Some (map_option (\<lambda>u. \<lparr>q_urb = u, q_frames = []\<rparr>) u, s)))"

text \<open>Allocating the urbs until one fails: those allocated, and whether all were.\<close>

primrec queue_alloc ::
  "rig \<Rightarrow> u32 \<Rightarrow> usb_endpoint_descriptor option \<Rightarrow> nat \<Rightarrow> nat \<Rightarrow> nat \<Rightarrow> tester
     \<Rightarrow> (queue_urb list \<times> bool \<times> tester) option" where
  "queue_alloc g pipe desc bytes offset 0 s = Some ([], True, s)"
| "queue_alloc g pipe desc bytes offset (Suc n) s =
     do {
       (u, s) \<leftarrow> queue_alloc_one g pipe desc bytes offset s;
       case u of
         None \<Rightarrow> Some ([], False, s)
       | Some u \<Rightarrow> do {
           (us, ok, s) \<leftarrow> queue_alloc g pipe desc bytes offset n s;
           Some (u # us, ok, s)
         }
     }"

definition tc_free :: "rig \<Rightarrow> nat list \<Rightarrow> queue_urb list \<Rightarrow> tester \<Rightarrow> tester" where
  "tc_free g cleared us s =
     fold (\<lambda>k s. if k \<in> set cleared then s else simple_free_urb g (q_urb (us ! k)) s) [0..<length us] s"

text \<open>
  Submitting the urbs. An error of the first ends the test; one of a later urb frees it and leaves
  the test to wait for those before it.
\<close>

primrec tc_submit :: "rig \<Rightarrow> nat list \<Rightarrow> transfer_context \<Rightarrow> int \<times> transfer_context" where
  "tc_submit g [] c = (0, c)"
| "tc_submit g (k # ks) c =
     (let u = tc_urbs c ! k; (r, c) = queue_tc_urb g k u c in
      if r < 0 then
        if k = 0 then (r, c\<lparr>tc_pending := tc_pending c + 1\<rparr>)
        else (r, c\<lparr>tc_tester := simple_free_urb g (q_urb u) (tc_tester c), tc_cleared := [k],
                   tc_submit_error := True\<rparr>)
      else let (st, c) = tc_submit g ks (c\<lparr>tc_pending := tc_pending c + 1, tc_queued := tc_queued c @ [k]\<rparr>)
        in (if ks = [] then r else st, c))"

type_synonym reporter = "transfer_context \<Rightarrow> nat \<times> completion_report"

primrec tc_wait :: "rig \<Rightarrow> reporter \<Rightarrow> nat \<Rightarrow> transfer_context \<Rightarrow> transfer_context option" where
  "tc_wait g env 0 c = (if tc_done c then Some c else None)"
| "tc_wait g env (Suc n) c =
     (if tc_done c then Some c
      else let (k, r) = env c in
        if k \<in> set (tc_queued c)
        then tc_wait g env n (complicated_callback g k r (c\<lparr>tc_queued := remove1 k (tc_queued c)\<rparr>))
        else None)"

text \<open>The verdict: no error for bulk, no more than one packet in ten for isochronous transfers.\<close>

definition tc_verdict :: "int \<Rightarrow> transfer_context \<Rightarrow> int" where
  "tc_verdict st c =
     (if st \<noteq> 0 then st
      else if tc_submit_error c then - EACCES
      else if tc_errors c > (if tc_is_iso c then tc_packet_count c div 10 else 0) then - EIO
      else 0)"

definition tc_start :: "u32 \<Rightarrow> u32 \<Rightarrow> bool \<Rightarrow> queue_urb list \<Rightarrow> tester \<Rightarrow> transfer_context" where
  "tc_start sglen iterations is_iso us s = \<lparr>tc_count = iterations * sglen, tc_pending = 0,
     tc_submit_error = False, tc_errors = 0, tc_packet_count = 0, tc_is_iso = is_iso,
     tc_urbs = us, tc_cleared = [], tc_queued = [], tc_done = False, tc_tester = s\<rparr>"

text \<open>
  The array of urbs is not cleared: when an allocation other than the last fails, the cleanup
  follows what the stack held there, which is undefined.
\<close>

definition test_queue ::
  "rig \<Rightarrow> reporter \<Rightarrow> u32 \<Rightarrow> u32 \<Rightarrow> u32 \<Rightarrow> u32 \<Rightarrow> usb_endpoint_descriptor option \<Rightarrow> nat \<Rightarrow> tester
     \<Rightarrow> (int \<times> tester) option" where
  "test_queue g env sglen iterations bytes pipe desc offset s =
     (if sglen = 0 \<or> (2 ^ 32 - 1) div unat sglen < unat iterations then Some (- EINVAL, s)
      else if MAX_SGLEN < unat sglen then Some (- EINVAL, s)
      else do {
        (us, ok, s) \<leftarrow> queue_alloc g pipe desc (unat bytes) offset (unat sglen) s;
        if \<not> ok
        then (if length us + 1 < unat sglen then None else Some (- ENOMEM, tc_free g [] us s))
        else let (st, c) = tc_submit g [0..<unat sglen] (tc_start sglen iterations (desc \<noteq> None) us s) in
          if st < 0 \<and> tc_queued c = [] then Some (st, tc_free g (tc_cleared c) (tc_urbs c) (tc_tester c))
          else do {
            c \<leftarrow> tc_wait g env (unat (tc_count c)) c;
            Some (tc_verdict st c, tc_free g (tc_cleared c) (tc_urbs c) (tc_tester c))
          }
      })"

definition test_unaligned_bulk ::
  "rig \<Rightarrow> u32 \<Rightarrow> nat \<Rightarrow> u32 \<Rightarrow> bool \<Rightarrow> tester \<Rightarrow> (int \<times> tester) option" where
  "test_unaligned_bulk g pipe len iterations dma_map s =
     (case usbtest_alloc_urb g pipe len dma_map 1 s of
        (None, s) \<Rightarrow> Some (- ENOMEM, s)
      | (Some u, s) \<Rightarrow> do {
          (retval, u, s) \<leftarrow> simple_io g u iterations 0 s;
          Some (retval, simple_free_urb g u s)
        })"

section \<open>The packets of an isochronous urb\<close>

lemma iso_frames_length [simp]: "length (iso_frames maxp i n b) = n"
  by (induction n arbitrary: i b) (simp_all add: Let_def)

lemma iso_frames_nth:
  "k < n \<Longrightarrow> iso_frames maxp i n b ! k = (maxp * (i + k), min (b - k * maxp) maxp)"
proof (induction n arbitrary: i b k)
  case 0
  then show ?case by simp
next
  case (Suc n)
  show ?case
  proof (cases k)
    case 0
    then show ?thesis by (simp add: Let_def)
  next
    case (Suc k')
    have "b - min b maxp - k' * maxp = b - Suc k' * maxp" by (simp add: min_def)
    then show ?thesis using Suc Suc.prems Suc.IH [of k' "i + 1" "b - min b maxp"] by (simp add: Let_def)
  qed
qed

lemma iso_frames_sum: "sum_list (map snd (iso_frames maxp i n b)) = min b (n * maxp)"
proof (induction n arbitrary: i b)
  case 0
  then show ?case by simp
next
  case (Suc n)
  have "min b maxp + min (b - min b maxp) x = min b (maxp + x)" for x :: nat by linarith
  then show ?case by (simp add: Let_def Suc.IH)
qed

text \<open>
  C34. The packets of an isochronous urb cover its buffer: they follow each other without a gap,
  none is longer than what the endpoint takes in one interval and none is empty, only the last may
  be short, and together they are as long as the transfer.
\<close>

theorem iso_packets_cover:
  assumes "iso_alloc_urb g pipe desc bytes offset s = Some (Some u, s')" and "iso_maxp (udev g) pipe desc = Some maxp"
  shows "sum_list (map snd (q_frames u)) = bytes
    \<and> (\<forall>k < length (q_frames u). fst (q_frames u ! k) = k * maxp
        \<and> 0 < snd (q_frames u ! k) \<and> snd (q_frames u ! k) \<le> maxp
        \<and> (k + 1 < length (q_frames u) \<longrightarrow> snd (q_frames u ! k) = maxp))"
proof -
  define n where "n = (bytes + maxp - 1) div maxp"
  have "maxp \<noteq> 0" using assms by (cases "maxp = 0") (simp_all add: iso_alloc_urb_def)
  then have pos: "0 < maxp" by simp
  have fr: "q_frames u = iso_frames maxp 0 n bytes"
    using assms \<open>maxp \<noteq> 0\<close> unfolding n_def by (simp add: iso_alloc_urb_def ask_def Let_def split: if_splits)
      (elim conjE, hypsubst, simp)+
  have "bytes + maxp - 1 < n * maxp + maxp" unfolding n_def by (subst add.commute) (rule dividend_less_div_times [OF pos])
  then have "bytes \<le> n * maxp" using pos by linarith
  then have "min bytes (n * maxp) = bytes" by (rule min_absorb1)
  then have sum: "sum_list (map snd (q_frames u)) = bytes" unfolding fr iso_frames_sum .
  have low: "(k + 1) * maxp < bytes + maxp" if "k < n" for k
  proof -
    have "(k + 1) * maxp \<le> n * maxp" using that by (intro mult_le_mono1) simp
    also have "\<dots> \<le> bytes + maxp - 1" unfolding n_def by (rule div_times_less_eq_dividend)
    finally show ?thesis using pos by simp
  qed
  have "fst (q_frames u ! k) = k * maxp \<and> 0 < snd (q_frames u ! k) \<and> snd (q_frames u ! k) \<le> maxp
        \<and> (k + 1 < length (q_frames u) \<longrightarrow> snd (q_frames u ! k) = maxp)" if k: "k < length (q_frames u)" for k
  proof -
    have kn: "k < n" using k by (simp add: fr)
    have nth: "q_frames u ! k = (maxp * k, min (bytes - k * maxp) maxp)"
      unfolding fr iso_frames_nth [OF kn] by simp
    have "k * maxp < bytes" using low [OF kn] by simp
    moreover have "maxp \<le> bytes - k * maxp" if "k + 1 < n" using low [OF that] by simp
    ultimately show ?thesis using pos unfolding nth by (auto simp: fr mult.commute)
  qed
  then show ?thesis using sum by blast
qed

section \<open>Accounting\<close>

lemma tc_ask_eq: "tc_ask g call c = (rc (core g (asked (tc_tester c)) call),
    c\<lparr>tc_tester := (tc_tester c)\<lparr>asked := asked (tc_tester c) @ [call]\<rparr>\<rparr>)"
  by (simp add: tc_ask_def ask_def)

text \<open>The calls that queue an urb, of a history.\<close>

fun is_queue :: "core_call \<Rightarrow> bool" where
  "is_queue (Queue k p off n m) = True" | "is_queue _ = False"

definition urb_calls :: "core_call list \<Rightarrow> nat" where
  "urb_calls cs = length (filter is_queue cs)"

lemma urb_calls_simps [simp]:
  "urb_calls (xs @ ys) = urb_calls xs + urb_calls ys" "urb_calls [] = 0"
  "urb_calls (c # cs) = (if is_queue c then 1 else 0) + urb_calls cs"
  by (simp_all add: urb_calls_def)

text \<open>
  The urbs the core has are those that are pending, and no more than completions are left; while no
  error was counted in a bulk queue, it is full or all that is left is pending.
\<close>

definition tc_ok :: "transfer_context \<Rightarrow> bool" where
  "tc_ok c \<longleftrightarrow> length (tc_queued c) = unat (tc_pending c) \<and> tc_pending c \<le> tc_count c"

definition tc_full :: "nat \<Rightarrow> transfer_context \<Rightarrow> bool" where
  "tc_full m c \<longleftrightarrow> (\<not> tc_is_iso c \<and> tc_errors c = 0 \<and> \<not> tc_submit_error c \<longrightarrow>
     (unat (tc_pending c) = length (tc_urbs c) \<or> tc_pending c = tc_count c)
     \<and> urb_calls (asked (tc_tester c)) + unat (tc_count c) = m + unat (tc_pending c))"

text \<open>The completion up to the decision on resubmitting.\<close>

definition tc_account :: "nat \<Rightarrow> completion_report \<Rightarrow> transfer_context \<Rightarrow> queue_urb \<times> transfer_context" where
  "tc_account k r c =
     (let u = tc_urbs c ! k;
          u = u\<lparr>q_urb := (q_urb u)\<lparr>t_status := cr_status r, t_actual := cr_actual r, t_mem := cr_mem r\<rparr>\<rparr>
      in (u, c\<lparr>tc_count := tc_count c - 1, tc_packet_count := tc_packet_count c + length (q_frames u),
              tc_errors := tc_errors c + new_errors (tc_is_iso c) u r, tc_urbs := (tc_urbs c)[k := u]\<rparr>))"

lemma callback_account:
  "complicated_callback g k r c = (let (u, c) = tc_account k r c in tc_resubmit g k u (cr_status r) c)"
  by (simp add: complicated_callback_def tc_account_def Let_def)

lemma tc_account_keeps:
  assumes "tc_account k r c = (u, a)"
  shows "tc_count a = tc_count c - 1" "tc_pending a = tc_pending c" "tc_queued a = tc_queued c"
    "tc_done a = tc_done c" "tc_tester a = tc_tester c" "tc_submit_error a = tc_submit_error c"
    "length (tc_urbs a) = length (tc_urbs c)" "tc_is_iso a = tc_is_iso c" "tc_cleared a = tc_cleared c"
    "tc_errors a = tc_errors c + new_errors (tc_is_iso c) u r"
  using assms by (auto simp: tc_account_def Let_def)

lemma callback_cases:
  fixes r
  assumes "tc_account k r c = (u, a)"
  defines "call \<equiv> Queue k (t_pipe (q_urb u)) (t_off (q_urb u)) (unat (t_len (q_urb u))) (t_mem (q_urb u))"
  obtains (again) "cr_status r = 0" "tc_pending c - 1 < tc_count c - 1" "\<not> tc_submit_error c"
      "rc (core g (asked (tc_tester c)) call) = 0"
      "complicated_callback g k r c = a\<lparr>tc_tester := (tc_tester c)\<lparr>asked := asked (tc_tester c) @ [call]\<rparr>,
         tc_queued := tc_queued c @ [k]\<rparr>"
    | (refused) c' where "rc (core g (asked (tc_tester c)) call) \<noteq> 0"
      "complicated_callback g k r c = a\<lparr>tc_tester := c', tc_submit_error := True,
         tc_pending := tc_pending c - 1, tc_done := tc_done c \<or> tc_pending c - 1 = 0\<rparr>"
    | (over) "cr_status r \<noteq> 0 \<or> \<not> tc_pending c - 1 < tc_count c - 1 \<or> tc_submit_error c"
      "complicated_callback g k r c = a\<lparr>tc_pending := tc_pending c - 1, tc_done := tc_done c \<or> tc_pending c - 1 = 0\<rparr>"
proof -
  note keep = tc_account_keeps [OF assms(1)]
  have eq: "complicated_callback g k r c = tc_resubmit g k u (cr_status r) a"
    by (simp add: callback_account assms(1))
  consider "cr_status r = 0 \<and> tc_pending c - 1 < tc_count c - 1 \<and> \<not> tc_submit_error c
      \<and> rc (core g (asked (tc_tester c)) call) = 0"
    | "cr_status r = 0 \<and> tc_pending c - 1 < tc_count c - 1 \<and> \<not> tc_submit_error c
      \<and> rc (core g (asked (tc_tester c)) call) \<noteq> 0"
    | "cr_status r \<noteq> 0 \<or> \<not> tc_pending c - 1 < tc_count c - 1 \<or> tc_submit_error c" by blast
  then show thesis
  proof cases
    case 1
    then show ?thesis
      by (intro again) (simp_all add: eq tc_resubmit_def queue_tc_urb_def tc_ask_eq keep call_def)
  next
    case 2
    then show ?thesis
      by (intro refused) (simp_all add: eq tc_resubmit_def queue_tc_urb_def tc_ask_eq keep call_def)
  next
    case 3
    then show ?thesis by (intro over) (auto simp: eq tc_resubmit_def keep)
  qed
qed

lemma callback_step:
  fixes g r
  assumes "tc_ok c" and "k \<in> set (tc_queued c)"
  defines "c' \<equiv> complicated_callback g k r (c\<lparr>tc_queued := remove1 k (tc_queued c)\<rparr>)"
  assumes "tc_done c \<longleftrightarrow> tc_pending c = 0"
  shows "tc_ok c'" and "tc_done c' \<longleftrightarrow> tc_pending c' = 0" and "unat (tc_count c') < unat (tc_count c)"
    and "length (tc_urbs c') = length (tc_urbs c)" and "tc_is_iso c' = tc_is_iso c"
    and "tc_full m c \<Longrightarrow> tc_full m c'"
proof -
  let ?c = "c\<lparr>tc_queued := remove1 k (tc_queued c)\<rparr>"
  obtain u a where acc: "tc_account k r ?c = (u, a)" by fastforce
  note keep = tc_account_keeps [OF acc]
  have pending: "length (tc_queued c) = unat (tc_pending c)" using assms(1) by (simp add: tc_ok_def)
  have "0 < length (tc_queued c)" by (rule length_pos_if_in_set [OF assms(2)])
  then have pos: "0 < unat (tc_pending c)" unfolding pending .
  have le: "unat (tc_pending c) \<le> unat (tc_count c)" using assms(1) by (simp add: tc_ok_def word_le_nat_alt)
  have dec: "unat (tc_pending c - 1) = unat (tc_pending c) - 1" "unat (tc_count c - 1) = unat (tc_count c) - 1"
    using pos le by (simp_all add: word_dec word_less_nat_alt)
  have len: "length (remove1 k (tc_queued c)) = unat (tc_pending c) - 1"
    using assms(2) pending by (simp add: length_remove1)
  have ne: "tc_pending c \<noteq> 0" using pos by auto
  then have nd: "\<not> tc_done c" using assms(4) by simp
  have lt: "tc_pending c - 1 < tc_count c - 1 \<longleftrightarrow> unat (tc_pending c) < unat (tc_count c)"
    unfolding word_less_nat_alt dec using pos le by arith
  have le': "tc_pending c - 1 \<le> tc_count c - 1" using le dec by (simp add: word_le_nat_alt)
  have "tc_ok c' \<and> (tc_done c' \<longleftrightarrow> tc_pending c' = 0) \<and> unat (tc_count c') < unat (tc_count c)
    \<and> length (tc_urbs c') = length (tc_urbs c) \<and> tc_is_iso c' = tc_is_iso c \<and> (tc_full m c \<longrightarrow> tc_full m c')"
    using acc
  proof (cases rule: callback_cases [where g = g])
    case again
    have less: "unat (tc_pending c) < unat (tc_count c)" using again(2) lt by simp
    then have "tc_pending c \<noteq> tc_count c" by auto
    moreover have "tc_pending c \<le> tc_count c - 1" using less dec by (simp add: word_le_nat_alt)
    ultimately show ?thesis
      using again(5) keep len dec less pos ne nd by (auto simp: c'_def tc_ok_def tc_full_def)
  next
    case (refused c1)
    then show ?thesis
      using keep len dec le' pos le nd by (simp add: c'_def tc_ok_def tc_full_def)
  next
    case over
    have "tc_pending c - 1 = tc_count c - 1" if "new_errors False u r = 0" "\<not> tc_submit_error c"
    proof -
      have "cr_status r = 0" using that(1) by (auto simp: new_errors_def split: if_splits)
      then have "\<not> unat (tc_pending c) < unat (tc_count c)" using over(1) that(2) lt by simp
      then have "unat (tc_pending c) = unat (tc_count c)" using le by simp
      then have "tc_pending c = tc_count c" by (simp only: word_unat_eq_iff)
      then show ?thesis by simp
    qed
    then show ?thesis
      using over(2) keep len dec le' pos le nd by (auto simp: c'_def tc_ok_def tc_full_def)
  qed
  then show "tc_ok c'" "tc_done c' \<longleftrightarrow> tc_pending c' = 0" "unat (tc_count c') < unat (tc_count c)"
    "length (tc_urbs c') = length (tc_urbs c)" "tc_is_iso c' = tc_is_iso c" "tc_full m c \<Longrightarrow> tc_full m c'" by blast+
qed

section \<open>The queue test ends\<close>

interpretation transfers: work_queue "\<lambda>c. tc_ok c \<and> (tc_done c \<longleftrightarrow> tc_pending c = 0)" tc_done
  "\<lambda>c. unat (tc_count c)" tc_queued
  "\<lambda>k r c. complicated_callback g k r (c\<lparr>tc_queued := remove1 k (tc_queued c)\<rparr>)" "tc_wait g" for g
proof (unfold_locales, goal_cases)
  case (1 c k r)
  then show ?case using callback_step(1-3) [of c k g r] by blast
next
  case (2 c)
  then have "unat (tc_pending c) \<noteq> 0" by (simp add: unat_eq_0)
  then show ?case using 2(1) by (auto simp: tc_ok_def)
qed (simp_all add: split_def Let_def)

lemma tc_submit_ok:
  assumes "tc_submit g [i..<n] c = (st, c')" and "tc_queued c = [0..<i]" and "unat (tc_pending c) = i" and "i \<le> n"
    and "n \<le> unat (tc_count c)" and "\<not> tc_done c" and "n = length (tc_urbs c)" and "0 < n"
  shows "\<not> tc_done c' \<and> length (tc_urbs c') = n \<and> tc_is_iso c' = tc_is_iso c \<and> tc_errors c' = tc_errors c
    \<and> (st < 0 \<and> tc_queued c' = []
       \<or> tc_ok c' \<and> 0 < unat (tc_pending c')
         \<and> (st \<ge> 0 \<longrightarrow> unat (tc_pending c') = n \<and> tc_count c' = tc_count c \<and> tc_submit_error c' = tc_submit_error c
              \<and> urb_calls (asked (tc_tester c')) = urb_calls (asked (tc_tester c)) + (n - i)))"
  using assms
proof (induction "n - i" arbitrary: i c st c')
  case 0
  then have "i = n" by simp
  then have "c' = c" "st = 0" using 0(2) by simp_all
  moreover have "tc_ok c" using 0(3,4,6) \<open>i = n\<close> by (simp add: tc_ok_def word_le_nat_alt)
  ultimately show ?case using 0(4,7,9) 0(8) [symmetric] \<open>i = n\<close> by simp
next
  case (Suc d)
  have lt: "i < n" using Suc.hyps(2) by simp
  then have upt: "[i..<n] = i # [Suc i..<n]" by (simp add: upt_rec)
  let ?u = "q_urb (tc_urbs c ! i)"
  let ?call = "Queue i (t_pipe ?u) (t_off ?u) (unat (t_len ?u)) (t_mem ?u)"
  let ?r = "rc (core g (asked (tc_tester c)) ?call)"
  let ?c = "c\<lparr>tc_tester := (tc_tester c)\<lparr>asked := asked (tc_tester c) @ [?call]\<rparr>\<rparr>"
  have q: "queue_tc_urb g i (tc_urbs c ! i) c = (?r, ?c)" by (simp add: queue_tc_urb_def tc_ask_eq)
  have "tc_pending c < tc_count c" using Suc.prems(3,5) lt by (simp add: word_less_nat_alt)
  then have inc: "unat (tc_pending c + 1) = i + 1" using Suc.prems(3) by (simp add: word_inc)
  show ?case
  proof (cases "?r < 0")
    case True
    have le: "tc_pending c \<le> tc_count c" using \<open>tc_pending c < tc_count c\<close> by simp
    let ?f = "\<lambda>x. x\<lparr>tc_tester := simple_free_urb g ?u (tc_tester ?c), tc_cleared := [i], tc_submit_error := True\<rparr>"
    have "st = ?r" "c' = (if i = 0 then ?c\<lparr>tc_pending := tc_pending c + 1\<rparr> else ?f ?c)"
      using Suc.prems(1) True q unfolding upt by (simp_all add: Let_def split: if_splits)
    then show ?thesis
      using Suc.prems(2,3,6) Suc.prems(7) [symmetric] True le by (cases "i = 0") (simp_all add: tc_ok_def)
  next
    case False
    let ?c2 = "?c\<lparr>tc_pending := tc_pending c + 1, tc_queued := tc_queued c @ [i]\<rparr>"
    obtain st2 c2 where s: "tc_submit g [Suc i..<n] ?c2 = (st2, c2)" by fastforce
    have c': "c' = c2" "st = (if [Suc i..<n] = [] then ?r else st2)"
      using Suc.prems(1) False q s by (simp_all add: upt Let_def)
    note IH = Suc.hyps(1) [OF _ s]
    have "\<not> tc_done c2 \<and> length (tc_urbs c2) = n \<and> tc_is_iso c2 = tc_is_iso ?c2 \<and> tc_errors c2 = tc_errors ?c2
    \<and> (st2 < 0 \<and> tc_queued c2 = []
       \<or> tc_ok c2 \<and> 0 < unat (tc_pending c2)
         \<and> (st2 \<ge> 0 \<longrightarrow> unat (tc_pending c2) = n \<and> tc_count c2 = tc_count ?c2 \<and> tc_submit_error c2 = tc_submit_error ?c2
              \<and> urb_calls (asked (tc_tester c2)) = urb_calls (asked (tc_tester ?c2)) + (n - Suc i)))"
      by (rule IH) (use Suc.prems Suc.hyps(2) lt inc in simp_all)
    moreover have "st2 = 0" if "[Suc i..<n] = []" using s that by simp
    ultimately show ?thesis using c' lt False by (auto split: if_splits)
  qed
qed

lemma tc_start_submit:
  assumes "tc_submit g [0..<n] (tc_start sglen iterations is_iso us s) = (st, c)" and "length us = n" and "0 < n"
    and "n \<le> unat (iterations * sglen)"
  shows "\<not> tc_done c \<and> length (tc_urbs c) = n \<and> tc_is_iso c = is_iso \<and> tc_errors c = 0
    \<and> (st < 0 \<and> tc_queued c = []
       \<or> tc_ok c \<and> 0 < unat (tc_pending c)
         \<and> (st \<ge> 0 \<longrightarrow> unat (tc_pending c) = n \<and> tc_count c = iterations * sglen
              \<and> urb_calls (asked (tc_tester c)) = urb_calls (asked s) + n))"
proof -
  have "tc_queued (tc_start sglen iterations is_iso us s) = [0..<0]" "unat (tc_pending (tc_start sglen iterations is_iso us s)) = 0"
    "n \<le> unat (tc_count (tc_start sglen iterations is_iso us s))" "\<not> tc_done (tc_start sglen iterations is_iso us s)"
    "n = length (tc_urbs (tc_start sglen iterations is_iso us s))"
    using assms(2,4) by (simp_all add: tc_start_def)
  note submit = tc_submit_ok [OF assms(1) this(1,2) _ this(3-5) assms(3)]
  have start: "tc_is_iso (tc_start sglen iterations is_iso us s) = is_iso" "tc_errors (tc_start sglen iterations is_iso us s) = 0"
    "tc_count (tc_start sglen iterations is_iso us s) = iterations * sglen" "tc_tester (tc_start sglen iterations is_iso us s) = s"
    by (simp_all add: tc_start_def)
  show ?thesis using submit unfolding start by auto
qed

lemma queue_alloc_length:
  "queue_alloc g pipe desc bytes offset n s = Some (us, True, s') \<Longrightarrow> length us = n"
  by (induction n arbitrary: s us) (auto simp: bind_eq_Some_conv split: option.splits)

text \<open>What the controller promises: it reports on an urb it has.\<close>

definition reports_back :: "reporter \<Rightarrow> bool" where
  "reports_back env \<longleftrightarrow> (\<forall>c. tc_queued c \<noteq> [] \<longrightarrow> fst (env c) \<in> set (tc_queued c))"

text \<open>
  C17. A test of queued transfers whose urbs could be allocated ends, whatever the transfers
  report and in whatever order they complete, and whether or not they can be resubmitted.
\<close>

theorem queue_test_ends:
  assumes "reports_back env" and "iterations \<noteq> 0"
    and "queue_alloc g pipe desc (unat bytes) offset (unat sglen) s = Some (us, True, s1)"
  shows "\<exists>r s'. test_queue g env sglen iterations bytes pipe desc offset s = Some (r, s')"
proof (cases "sglen = 0 \<or> (2 ^ 32 - 1) div unat sglen < unat iterations \<or> MAX_SGLEN < unat sglen")
  case True
  then show ?thesis by (auto simp: test_queue_def)
next
  case False
  then have args: "sglen \<noteq> 0" "unat iterations \<le> (2 ^ 32 - 1) div unat sglen" "unat sglen \<le> MAX_SGLEN" by simp_all
  have len: "length us = unat sglen" by (rule queue_alloc_length [OF assms(3)])
  let ?start = "tc_start sglen iterations (desc \<noteq> None) us s1"
  obtain st c where sub: "tc_submit g [0..<unat sglen] ?start = (st, c)" by fastforce
  have n: "0 < unat sglen" using args(1) by (simp add: unat_gt_0)
  have it: "0 < unat iterations" using assms(2) by (simp add: unat_gt_0)
  have cnt: "unat sglen \<le> unat (iterations * sglen)"
    using product_fits [OF args(1,2)] it by (simp add: mult.commute)
  have c: "\<not> tc_done c" "st < 0 \<and> tc_queued c = [] \<or> tc_ok c \<and> 0 < unat (tc_pending c)"
    using tc_start_submit [OF sub len n cnt] by blast+
  show ?thesis
  proof (cases "st < 0 \<and> tc_queued c = []")
    case True
    then show ?thesis using args assms(3) sub by (simp add: test_queue_def)
  next
    case no: False
    then have ok: "tc_ok c" "tc_pending c \<noteq> 0" using c(2) by auto
    obtain c' where "tc_wait g env (unat (tc_count c)) c = Some c'"
      using transfers.wait_ends [where env = env and c = c and g = g and n = "unat (tc_count c)"] assms(1) ok c(1)
      by (auto simp: transfers.honest_def reports_back_def)
    then show ?thesis using no args assms(3) sub by (auto simp: test_queue_def)
  qed
qed

lemma tc_wait_full:
  assumes "tc_wait g env n c = Some c'" and "tc_ok c" and "tc_done c \<longleftrightarrow> tc_pending c = 0" and "tc_full m c"
  shows "tc_full m c' \<and> tc_ok c' \<and> tc_pending c' = 0 \<and> length (tc_urbs c') = length (tc_urbs c) \<and> tc_is_iso c' = tc_is_iso c"
  using assms
proof (induction n arbitrary: c)
  case 0
  then show ?case by (auto split: if_splits)
next
  case (Suc n)
  show ?case
  proof (cases "tc_done c")
    case True
    then show ?thesis using Suc.prems by auto
  next
    case False
    obtain k r where e: "env c = (k, r)" by fastforce
    let ?c = "complicated_callback g k r (c\<lparr>tc_queued := remove1 k (tc_queued c)\<rparr>)"
    have k: "k \<in> set (tc_queued c)" and w: "tc_wait g env n ?c = Some c'"
      using Suc.prems(1) False e by (auto split: if_splits)
    note step = callback_step [OF Suc.prems(2) k Suc.prems(3), where g = g and r = r]
    show ?thesis using Suc.IH [OF w step(1,2) step(6) [OF Suc.prems(4)]] step(4,5) by simp
  qed
qed

lemma tc_free_calls: "urb_calls (asked (tc_free g cleared us s)) = urb_calls (asked s)"
proof -
  have "urb_calls (asked (fold (\<lambda>k s. if k \<in> set cleared then s else simple_free_urb g (q_urb (us ! k)) s) ks s))
      = urb_calls (asked s)" for ks
    by (induction ks arbitrary: s) (simp_all add: simple_free_urb_def ask_def)
  then show ?thesis by (simp add: tc_free_def)
qed

section \<open>What the completions report\<close>

text \<open>The reports a waiting test gets, in their order, each with the position of its urb.\<close>

primrec tc_reports :: "rig \<Rightarrow> reporter \<Rightarrow> nat \<Rightarrow> transfer_context \<Rightarrow> (nat \<times> completion_report) list" where
  "tc_reports g env 0 c = []"
| "tc_reports g env (Suc n) c =
     (if tc_done c then []
      else let (k, r) = env c in
        (k, r) # tc_reports g env n (complicated_callback g k r (c\<lparr>tc_queued := remove1 k (tc_queued c)\<rparr>)))"

lemma callback_effect:
  fixes g r k and c :: transfer_context
  defines "u \<equiv> (tc_urbs c ! k)\<lparr>q_urb := (q_urb (tc_urbs c ! k))\<lparr>t_status := cr_status r, t_actual := cr_actual r, t_mem := cr_mem r\<rparr>\<rparr>"
    and "c' \<equiv> complicated_callback g k r (c\<lparr>tc_queued := remove1 k (tc_queued c)\<rparr>)"
  shows "tc_errors c' = tc_errors c + new_errors (tc_is_iso c) u r" and "tc_urbs c' = (tc_urbs c)[k := u]"
    and "tc_is_iso c' = tc_is_iso c" and "tc_count c' = tc_count c - 1"
    and "set (tc_queued c') \<subseteq> insert k (set (tc_queued c))"
  unfolding u_def c'_def
  by (simp_all add: complicated_callback_def tc_resubmit_def queue_tc_urb_def tc_ask_eq Let_def)
    (meson set_remove1_subset subset_insertI2)

text \<open>The urbs of a queue, all of one length, and the core has none but those.\<close>

definition tc_lens :: "u32 \<Rightarrow> transfer_context \<Rightarrow> bool" where
  "tc_lens n c \<longleftrightarrow> (\<forall>u \<in> set (tc_urbs c). t_len (q_urb u) = n) \<and> (\<forall>k \<in> set (tc_queued c). k < length (tc_urbs c))"

lemma callback_lens:
  assumes "tc_lens n c" and "k \<in> set (tc_queued c)"
  shows "tc_lens n (complicated_callback g k r (c\<lparr>tc_queued := remove1 k (tc_queued c)\<rparr>))"
proof -
  have k: "k < length (tc_urbs c)" using assms by (simp add: tc_lens_def)
  then have "t_len (q_urb (tc_urbs c ! k)) = n" using assms(1) by (simp add: tc_lens_def)
  then show ?thesis
    using assms callback_effect(2,5) [of g k r c]
    by (auto simp: tc_lens_def dest!: subsetD [OF set_update_subset_insert])
qed

lemma submit_lens: "tc_submit g ks c = (st, c') \<Longrightarrow> tc_urbs c' = tc_urbs c \<and> set (tc_queued c') \<subseteq> set (tc_queued c) \<union> set ks"
  by (induction ks arbitrary: c st c')
    (fastforce simp: queue_tc_urb_def tc_ask_eq Let_def split: if_splits prod.splits)+

lemma queue_alloc_lens:
  "queue_alloc g pipe None bytes offset n s = Some (us, ok, s') \<Longrightarrow> u \<in> set us \<Longrightarrow> t_len (q_urb u) = of_nat bytes"
proof (induction n arbitrary: s us)
  case 0
  then show ?case by simp
next
  case (Suc n)
  have one: "queue_alloc_one g pipe None bytes offset s = Some (Some u, s') \<Longrightarrow> t_len (q_urb u) = of_nat bytes" for u s s'
    by (cases "bytes = 0")
      (auto simp: queue_alloc_one_def complicated_alloc_urb_def usbtest_alloc_urb_def ask_def Let_def split: if_splits)
  from Suc.prems(1) obtain v t where v: "queue_alloc_one g pipe None bytes offset s = Some (v, t)"
    by (auto simp: bind_eq_Some_conv)
  show ?case
  proof (cases v)
    case None
    then show ?thesis using Suc.prems v by simp
  next
    case (Some w)
    have "t_len (q_urb w) = of_nat bytes" by (rule one [OF v [unfolded Some]])
    then show ?thesis using Suc.prems v Some Suc.IH [of t] by (auto simp: bind_eq_Some_conv)
  qed
qed

text \<open>When no error was counted, every report is of a whole transfer.\<close>

lemma tc_wait_whole:
  assumes "tc_wait g env n c = Some c'" and "tc_errors c' = 0" and "tc_ok c" and "tc_done c \<longleftrightarrow> tc_pending c = 0"
    and "tc_lens b c" and "\<not> tc_is_iso c"
  shows "tc_errors c = 0 \<and> length (tc_reports g env n c) + unat (tc_count c') = unat (tc_count c)
    \<and> (\<forall>(k, r) \<in> set (tc_reports g env n c). cr_status r = 0 \<and> of_nat (cr_actual r) = b)"
  using assms
proof (induction n arbitrary: c)
  case 0
  then show ?case by (auto split: if_splits)
next
  case (Suc n)
  show ?case
  proof (cases "tc_done c")
    case True
    then show ?thesis using Suc.prems by auto
  next
    case False
    obtain k r where e: "env c = (k, r)" by fastforce
    let ?c = "complicated_callback g k r (c\<lparr>tc_queued := remove1 k (tc_queued c)\<rparr>)"
    have k: "k \<in> set (tc_queued c)" and w: "tc_wait g env n ?c = Some c'"
      using Suc.prems(1) False e by (auto split: if_splits)
    note step = callback_step [OF Suc.prems(3) k Suc.prems(4), where g = g and r = r]
    note IH = Suc.IH [OF w Suc.prems(2) step(1,2) callback_lens [OF Suc.prems(5) k]]
    have iso: "\<not> tc_is_iso c" by (rule Suc.prems(6))
    have "unat (tc_count c) \<noteq> 0" using step(3) by simp
    then have count: "unat (tc_count ?c) = unat (tc_count c) - 1"
      unfolding callback_effect(4) by (intro word_dec) (simp add: word_less_nat_alt)
    have "t_len (q_urb (tc_urbs c ! k)) = b" using Suc.prems(5) k by (simp add: tc_lens_def)
    moreover have "tc_errors c = 0" "new_errors (tc_is_iso c) ((tc_urbs c ! k)\<lparr>q_urb := (q_urb (tc_urbs c ! k))\<lparr>
        t_status := cr_status r, t_actual := cr_actual r, t_mem := cr_mem r\<rparr>\<rparr>) r = 0"
      using IH step(5) iso callback_effect(1) [of g k r c] by simp_all
    ultimately have "tc_errors c = 0 \<and> cr_status r = 0 \<and> of_nat (cr_actual r) = b"
      using iso by (auto simp: new_errors_def split: if_splits)
    then show ?thesis using IH step(5) iso count \<open>unat (tc_count c) \<noteq> 0\<close> False e by auto
  qed
qed

text \<open>
  C16. A bulk queue whose urbs could be allocated and that reports success made every transfer that
  was ordered: the urbs were submitted as often as the test has iterations for each of them, and no
  submission was refused; as many completions were reported, each of them without an error and of
  the whole length of a transfer (as a number of 32 bits); and when the test went on the core had
  none of the urbs.
\<close>

theorem bulk_queue_complete:
  assumes "test_queue g env sglen iterations bytes pipe None offset s = Some (0, s')" and "iterations \<noteq> 0"
    and "queue_alloc g pipe None (unat bytes) offset (unat sglen) s = Some (us, True, s1)"
  shows "urb_calls (asked s') = urb_calls (asked s1) + unat sglen * unat iterations
    \<and> (\<exists>c c'. tc_submit g [0..<unat sglen] (tc_start sglen iterations False us s1) = (0, c)
         \<and> tc_wait g env (unat (tc_count c)) c = Some c' \<and> \<not> tc_submit_error c' \<and> tc_queued c' = []
         \<and> length (tc_reports g env (unat (tc_count c)) c) = unat sglen * unat iterations
         \<and> (\<forall>(k, r) \<in> set (tc_reports g env (unat (tc_count c)) c). cr_status r = 0 \<and> of_nat (cr_actual r) = bytes))"
proof -
  have args: "sglen \<noteq> 0" "unat iterations \<le> (2 ^ 32 - 1) div unat sglen" "unat sglen \<le> MAX_SGLEN"
    using assms(1) by (auto simp: test_queue_def split: if_splits)
  have len: "length us = unat sglen" by (rule queue_alloc_length [OF assms(3)])
  let ?start = "tc_start sglen iterations False us s1"
  obtain st c where sub: "tc_submit g [0..<unat sglen] ?start = (st, c)" by fastforce
  have n: "0 < unat sglen" using args(1) by (simp add: unat_gt_0)
  have N: "unat (iterations * sglen) = unat sglen * unat iterations"
    using product_fits [OF args(1,2)] by (simp add: mult.commute)
  have "0 < unat iterations" using assms(2) by (simp add: unat_gt_0)
  then have cnt: "unat sglen \<le> unat (iterations * sglen)" using N by simp
  note res = tc_start_submit [OF sub len n cnt]
  have not0: "\<not> (st < 0 \<and> tc_queued c = [])" using assms(1,3) sub args by (auto simp: test_queue_def)
  have "\<exists>c'. tc_wait g env (unat (tc_count c)) c = Some c' \<and> tc_verdict st c' = 0
      \<and> s' = tc_free g (tc_cleared c') (tc_urbs c') (tc_tester c')"
    using assms(1,3) sub args not0 by (auto simp: test_queue_def bind_eq_Some_conv)
  then obtain c' where w: "tc_wait g env (unat (tc_count c)) c = Some c'" and v: "tc_verdict st c' = 0"
    and s': "s' = tc_free g (tc_cleared c') (tc_urbs c') (tc_tester c')" by blast
  have st: "st = 0" "\<not> tc_submit_error c'" "\<not> tc_is_iso c' \<longrightarrow> tc_errors c' = 0"
    using v by (auto simp: tc_verdict_def split: if_splits)
  have c: "\<not> tc_done c" "length (tc_urbs c) = unat sglen" "\<not> tc_is_iso c" "tc_ok c" "tc_pending c \<noteq> 0"
    "unat (tc_pending c) = unat sglen" "tc_count c = iterations * sglen"
    "urb_calls (asked (tc_tester c)) = urb_calls (asked s1) + unat sglen"
    using res st(1) by auto
  let ?m = "urb_calls (asked s1) + unat sglen * unat iterations"
  have "tc_full ?m c" using c N by (simp add: tc_full_def)
  from tc_wait_full [OF w c(4) _ this] c(1-3,5)
  have full: "tc_full ?m c' \<and> tc_ok c' \<and> tc_pending c' = 0 \<and> length (tc_urbs c') = unat sglen \<and> \<not> tc_is_iso c'" by simp
  have "tc_lens bytes c"
    using submit_lens [OF sub] len queue_alloc_lens [OF assms(3)] by (auto simp: tc_lens_def tc_start_def)
  then have whole: "length (tc_reports g env (unat (tc_count c)) c) + unat (tc_count c') = unat (tc_count c)"
    "\<forall>(k, r) \<in> set (tc_reports g env (unat (tc_count c)) c). cr_status r = 0 \<and> of_nat (cr_actual r) = bytes"
    using tc_wait_whole [OF w _ c(4)] st(3) full c(1,3,5) by simp_all
  have "urb_calls (asked s') = ?m" "unat (tc_count c') = 0"
    using full st n by (auto simp: tc_full_def s' tc_free_calls)
  moreover have "tc_queued c' = []" using full by (auto simp: tc_ok_def)
  ultimately show ?thesis using sub st(1,2) w whole c(7) N by auto
qed

text \<open>
  Without memory the test of a queue is not safe: its array of urbs is on the stack and not
  cleared, and when the first allocation fails the cleanup frees whatever the entries after it
  hold. Only a queue of one urb reports the error.
\<close>

theorem no_memory_frees_garbage:
  assumes "\<forall>h. rc (core g h Alloc_Urb) \<noteq> 0" and "sglen \<noteq> 0" and "unat sglen \<le> MAX_SGLEN"
    and "unat iterations \<le> (2 ^ 32 - 1) div unat sglen"
  shows "map_option fst (test_queue g env sglen iterations bytes pipe None offset s)
    = (if sglen = 1 then Some (- ENOMEM) else None)"
proof -
  obtain n where n: "unat sglen = Suc n" using assms(2) by (cases "unat sglen") (simp_all add: unat_eq_0)
  have one: "sglen = 1 \<longleftrightarrow> n = 0" using n by (auto simp: word_unat_eq_iff)
  have "queue_alloc g pipe None (unat bytes) offset (Suc n) s = Some ([], False, s\<lparr>asked := asked s @ [Alloc_Urb]\<rparr>)"
    using assms(1) by (simp add: queue_alloc_one_def complicated_alloc_urb_def usbtest_alloc_urb_def ask_def)
  then show ?thesis
    unfolding test_queue_def using assms(2-4) one n by (auto simp: tc_free_def)
qed

section \<open>Witnesses\<close>

definition first_whole :: reporter where
  "first_whole c = (case tc_queued c of
     [] \<Rightarrow> (0, \<lparr>cr_status = 0, cr_actual = 0, cr_errors = 0, cr_mem = []\<rparr>)
   | k # _ \<Rightarrow> (k, \<lparr>cr_status = 0, cr_actual = 8, cr_errors = 0, cr_mem = []\<rparr>))"

definition iso_endpoint :: usb_endpoint_descriptor where
  "iso_endpoint = \<lparr>bDescriptorType = 5, bEndpointAddress = 0x81, bmAttributes = 1, wMaxPacketSize = 0x840,
     bInterval = 4\<rparr>"

theorem iso_packets_cover_witness:
  "\<exists>u s. iso_alloc_urb demo_rig 0x80 iso_endpoint 300 1 demo_tester = Some (Some u, s)
     \<and> q_frames u = [(0, 128), (128, 128), (256, 44)] \<and> sum_list (map snd (q_frames u)) = 300"
proof -
  have p: "iso_maxp (udev demo_rig) 0x80 iso_endpoint = Some 128"
    by (simp add: iso_maxp_def demo_rig_def demo_udev_def usb_endpoint_maxp_def usb_endpoint_maxp_mult_def
      iso_endpoint_def less_eq_usb_device_speed_def)
  have ok: "rc (core demo_rig h c) = 0" "bInterval iso_endpoint = 4" for h c
    by (simp_all add: demo_rig_def demo_core_def iso_endpoint_def)
  have "iso_frames 128 0 3 300 = [(0, 128), (128, 128), (256, 44)]" by (simp add: numeral_3_eq_3)
  then have "\<exists>u s. iso_alloc_urb demo_rig 0x80 iso_endpoint 300 1 demo_tester = Some (Some u, s)
     \<and> q_frames u = [(0, 128), (128, 128), (256, 44)]"
    by (simp add: iso_alloc_urb_def p ask_def ok)
  then obtain u s where u: "iso_alloc_urb demo_rig 0x80 iso_endpoint 300 1 demo_tester = Some (Some u, s)"
    "q_frames u = [(0, 128), (128, 128), (256, 44)]" by blast
  have "sum_list (map snd (q_frames u)) = 300" using iso_packets_cover [OF u(1) p] by blast
  then show ?thesis using u by blast
qed

lemmas queue_alloc_numeral = queue_alloc.simps(2) [where n = "pred_numeral v" for v, folded numeral_eq_Suc]

lemma demo_queue_alloc:
  "\<exists>us s. queue_alloc demo_rig 0x80 None 8 0 2 demo_tester = Some (us, True, s) \<and> urb_calls (asked s) = 0
     \<and> length us = 2 \<and> (\<forall>u \<in> set us. t_len (q_urb u) = 8 \<and> t_off (q_urb u) = 0 \<and> q_frames u = [])"
  by (simp add: queue_alloc_numeral queue_alloc_one_def complicated_alloc_urb_def usbtest_alloc_urb_def ask_def
    demo_rig_def demo_core_def demo_tester_def)

theorem queue_test_ends_witness:
  "\<exists>r s. test_queue demo_rig first_whole 2 1000 8 0x80 None 0 demo_tester = Some (r, s)"
proof -
  have "reports_back first_whole" by (auto simp: reports_back_def first_whole_def split: list.splits)
  moreover obtain us s where "queue_alloc demo_rig 0x80 None (unat (8 :: u32)) 0 (unat (2 :: u32)) demo_tester = Some (us, True, s)"
    using demo_queue_alloc by auto
  ultimately show ?thesis by (intro queue_test_ends) simp_all
qed

lemma tc_wait_numeral:
  "tc_wait g env (numeral v) c = (if tc_done c then Some c
      else let (k, r) = env c in
        if k \<in> set (tc_queued c)
        then tc_wait g env (pred_numeral v) (complicated_callback g k r (c\<lparr>tc_queued := remove1 k (tc_queued c)\<rparr>))
        else None)"
  by (simp add: numeral_eq_Suc)

theorem bulk_queue_complete_witness:
  "\<exists>s. test_queue demo_rig first_whole 1 2 8 0x80 None 0 demo_tester = Some (0, s) \<and> urb_calls (asked s) = 2"
proof -
  have "\<exists>us s. queue_alloc demo_rig 0x80 None 8 0 1 demo_tester = Some (us, True, s) \<and> urb_calls (asked s) = 0"
    by (simp add: queue_alloc_one_def complicated_alloc_urb_def usbtest_alloc_urb_def ask_def
      demo_rig_def demo_core_def demo_tester_def)
  then obtain us s1 where a: "queue_alloc demo_rig 0x80 None 8 0 1 demo_tester = Some (us, True, s1)" "urb_calls (asked s1) = 0"
    by blast
  have "\<exists>s. test_queue demo_rig first_whole 1 2 8 0x80 None 0 demo_tester = Some (0, s)"
    by (simp add: test_queue_def queue_alloc_one_def complicated_alloc_urb_def usbtest_alloc_urb_def ask_def
      demo_rig_def demo_core_def demo_tester_def tc_start_def queue_tc_urb_def tc_ask_def tc_wait_numeral first_whole_def
      complicated_callback_def tc_resubmit_def new_errors_def check_guard_bytes_def tc_verdict_def tc_free_def simple_free_urb_def)
  then obtain s where s: "test_queue demo_rig first_whole 1 2 8 0x80 None 0 demo_tester = Some (0, s)" by blast
  from bulk_queue_complete [OF s _, of us s1] a s show ?thesis by auto
qed

theorem no_memory_frees_garbage_witness:
  "test_queue (demo_rig\<lparr>core := (\<lambda>h c. \<lparr>rc = - ENOMEM, in_time = True, status = 0, actual = 0, mem = []\<rparr>)\<rparr>)
     first_whole 2 1 8 0x80 None 0 demo_tester = None"
proof -
  let ?g = "demo_rig\<lparr>core := (\<lambda>h c. \<lparr>rc = - ENOMEM, in_time = True, status = 0, actual = 0, mem = []\<rparr>)\<rparr>"
  have "map_option fst (test_queue ?g first_whole 2 1 8 0x80 None 0 demo_tester) = (if (2 :: u32) = 1 then Some (- ENOMEM) else None)"
    by (rule no_memory_frees_garbage) simp_all
  then show ?thesis by simp
qed

end
