(* ===== verification/Usbtest_Fuzz.thy ===== *)
theory Usbtest_Fuzz
  imports Usbtest_Queue
begin

unbundle bit_operations_syntax

text \<open>
  The fuzzer's own requests (usbtest.c, lines 2292 to 2553): transfers with data or with a control
  request that the fuzzer made up, on the endpoints recorded in the static device information.
\<close>

section \<open>Parameters\<close>

text \<open>The parameter of a request, without the duration it returns; flags are tested against zero.\<close>

record usbtest_param =
  p_test_num :: u32
  p_iterations :: u32
  p_length :: u32
  p_vary :: u32
  p_sglen :: u32
  is_fz :: bool
  is_ctrl :: bool
  is_bulk :: bool
  is_int :: bool
  is_iso :: bool
  is_dir_out :: bool
  ctrl_req :: usb_ctrlrequest
  is_set_alt :: bool
  data_size :: u32

text \<open>
  What the controller does while a test waits: which urb it gives back, with which result; in the
  test of cancelling, also whether it gives one back before the test goes on.
\<close>

record controller =
  give_ctrl :: giver
  give_queue :: reporter
  give_unlinked :: "queued_ctx \<Rightarrow> (nat \<times> int) option"

section \<open>Control requests of the fuzzer\<close>

definition empty_complete :: "ctrl_ctx \<Rightarrow> ctrl_ctx" where
  "empty_complete c = (let p = ctx_pending c - 1 in
     c\<lparr>ctx_count := ctx_count c - 1, ctx_pending := p, ctx_done := ctx_done c \<or> p = 0\<rparr>)"

text \<open>
  One request is queued; the only urb the controller can give back is that one, and the test waits
  for it. The pipe is for input whatever the direction of the request.
\<close>

definition fuzz_wait :: "giver \<Rightarrow> ctrl_ctx \<Rightarrow> ctrl_ctx option" where
  "fuzz_wait env c = (let (k, st) = env c in
     if k \<in> set (ctx_queued c) then Some (empty_complete (c\<lparr>ctx_queued := remove1 k (ctx_queued c)\<rparr>)) else None)"

definition host_ctr_fuzz :: "rig \<Rightarrow> giver \<Rightarrow> usbtest_param \<Rightarrow> tester \<Rightarrow> (int \<times> tester) option" where
  "host_ctr_fuzz g env p s =
     (let (r, s) = ask g (Alloc 8) s in
      if rc r \<noteq> 0 then Some (- ENOMEM, s)
      else case simple_alloc_urb g (usb_rcvctrlpipe (udev g) 0) (unat (wLength (ctrl_req p))) s of
        (None, s) \<Rightarrow> Some (- ENOMEM, s)
      | (Some u, s) \<Rightarrow>
          (let (r, s) = ask g (Alloc 16) s;
               cu = \<lparr>cu_urb = u, cu_setup = ctrl_req p, cu_number = 0, cu_expected = 0, cu_dev = True\<rparr> in
           if rc r \<noteq> 0 then Some (- ENOMEM, ctrl_free g [cu] s)
           else let c = ctrl_submit g [0] (ctrl_start 1 (p_iterations p) [cu] s) in do {
             c \<leftarrow> (if 0 < ctx_pending c then fuzz_wait env c else Some c);
             Some (ctx_status c, ctrl_free g [cu] (ctx_tester c))
           }))"

section \<open>Data of the fuzzer\<close>

text \<open>The kernel's conversion of hexadecimal digits: it stops at the first pair that is not of digits.\<close>

definition hex_to_bin :: "u8 \<Rightarrow> nat option" where
  "hex_to_bin c = (let n = unat c in
     if 0x30 \<le> n \<and> n \<le> 0x39 then Some (n - 0x30)
     else if 0x41 \<le> n \<and> n \<le> 0x46 then Some (n - 0x41 + 10)
     else if 0x61 \<le> n \<and> n \<le> 0x66 then Some (n - 0x61 + 10)
     else None)"

primrec hex2bin :: "nat \<Rightarrow> u8 list \<Rightarrow> u8 list" where
  "hex2bin 0 src = []"
| "hex2bin (Suc n) src =
     (case src of
        a # b # rest \<Rightarrow>
          (case (hex_to_bin a, hex_to_bin b) of
             (Some h, Some l) \<Rightarrow> of_nat (16 * h + l) # hex2bin n rest
           | _ \<Rightarrow> [])
      | _ \<Rightarrow> [])"

text \<open>
  The length of the urb and the size of the buffer for the digits are computed in 32 bits. The buffer the digits are converted into is not
  cleared: what the allocator left in it stays where the conversion stops early. Errors after the
  allocation of the urb return without freeing it.
\<close>

definition fuzz_length :: "usbtest_param \<Rightarrow> nat" where
  "fuzz_length p = (if data_size p \<noteq> 0 then unat (data_size p div 2 - 1) else unat (p_length p))"

definition fuzz_data :: "rig \<Rightarrow> usbtest_param \<Rightarrow> tester \<Rightarrow> (int + u8 list) \<times> tester" where
  "fuzz_data g p s =
     (let n = unat (data_size p); (r, s) = ask g (Alloc (unat (data_size p + 1))) s in
      if rc r \<noteq> 0 then (Inl (- ENOMEM), s)
      else let (user, s) = ask g (Copy_From_User n) s in
        if rc user \<noteq> 0 then (Inl (- ENOMEM), s)
        else let (r, s) = ask g (Alloc (n div 2)) s; garbage = take (n div 2) (mem r @ replicate (n div 2) 0) in
          if rc r \<noteq> 0 then (Inl (- ENOMEM), s)
          else let bin = hex2bin (n div 2) (take n (mem user)) in (Inr (bin @ drop (length bin) garbage), s))"

definition host_fuzz :: "rig \<Rightarrow> usbtest_param \<Rightarrow> u32 \<Rightarrow> tester \<Rightarrow> (int \<times> tester) option" where
  "host_fuzz g p pipe s =
     (case usbtest_alloc_urb g pipe (fuzz_length p) False 1 s of
        (None, s) \<Rightarrow> Some (- ENOMEM, s)
      | (Some u, s) \<Rightarrow>
          (let (data, s) = (if data_size p \<noteq> 0 then (let (d, s) = fuzz_data g p s in (map_sum id Some d, s))
                            else (Inr (host_data (dev s)), s))
           in case data of
                Inl e \<Rightarrow> Some (e, s)
              | Inr d \<Rightarrow> do {
                  (retval, u, s) \<leftarrow> simple_io g u (p_iterations p) 0 (upd_dev (\<lambda>x. x\<lparr>host_data := d\<rparr>) s);
                  Some (retval, upd_dev (\<lambda>x. x\<lparr>host_data := None\<rparr>) (simple_free_urb g u s))
                }))"

definition host_fuzz_int :: "rig \<Rightarrow> usbtest_param \<Rightarrow> u32 \<Rightarrow> tester \<Rightarrow> (int \<times> tester) option" where
  "host_fuzz_int g p pipe s =
     (case usbtest_alloc_urb g pipe (unat (p_length p)) True 0 s of
        (None, s) \<Rightarrow> Some (- ENOMEM, s)
      | (Some u, s) \<Rightarrow> do {
          (retval, u, s) \<leftarrow> simple_io g u (p_iterations p) 0 s;
          Some (retval, simple_free_urb g u s)
        })"

definition host_fuzz_iso ::
  "rig \<Rightarrow> reporter \<Rightarrow> usbtest_param \<Rightarrow> u32 \<Rightarrow> usb_endpoint_descriptor option \<Rightarrow> tester \<Rightarrow> (int \<times> tester) option" where
  "host_fuzz_iso g env p pipe desc s = test_queue g env (p_sglen p) (p_iterations p) (p_length p) pipe desc 1 s"

section \<open>The request\<close>

definition fz_step :: "bool \<Rightarrow> (tester \<Rightarrow> (int \<times> tester) option) \<Rightarrow> tester \<Rightarrow> tester option" where
  "fz_step b f s = (if b then map_option snd (f s) else Some s)"

text \<open>
  The function returns nothing: the results of the transfers are lost. The pipes are those of the
  static information, read when each transfer starts.
\<close>

definition fz_ioctl :: "rig \<Rightarrow> controller \<Rightarrow> usbtest_param \<Rightarrow> tester \<Rightarrow> tester option" where
  "fz_ioctl g e p s =
     (if is_set_alt p then Some (snd (ask g (Set_Any_Interface (p_iterations p) (p_length p)) s))
      else if is_ctrl p then map_option snd (host_ctr_fuzz g (give_ctrl e) p s)
      else do {
        s \<leftarrow> fz_step (is_bulk p \<and> is_dir_out p) (\<lambda>s. host_fuzz g p (info_out_bulk_pipe (info_of s)) s) s;
        s \<leftarrow> fz_step (is_bulk p \<and> \<not> is_dir_out p) (\<lambda>s. host_fuzz g p (info_in_bulk_pipe (info_of s)) s) s;
        s \<leftarrow> fz_step (is_int p \<and> is_dir_out p) (\<lambda>s. host_fuzz_int g p (info_out_int_pipe (info_of s)) s) s;
        s \<leftarrow> fz_step (is_int p \<and> \<not> is_dir_out p) (\<lambda>s. host_fuzz_int g p (info_in_int_pipe (info_of s)) s) s;
        s \<leftarrow> fz_step (is_iso p \<and> is_dir_out p) (\<lambda>s. host_fuzz_iso g (give_queue e) p
               (info_out_iso_pipe (info_of s)) (info_iso_out (info_of s)) s) s;
        fz_step (is_iso p \<and> \<not> is_dir_out p) (\<lambda>s. host_fuzz_iso g (give_queue e) p
               (info_in_iso_pipe (info_of s)) (info_iso_in (info_of s)) s) s
      })"

section \<open>What is sent\<close>

definition hex_digit :: "nat \<Rightarrow> u8" where
  "hex_digit n = of_nat (if n < 10 then 0x30 + n else 0x57 + n)"

definition hex_encode :: "u8 list \<Rightarrow> u8 list" where
  "hex_encode bs = concat (map (\<lambda>b. [hex_digit (unat b div 16), hex_digit (unat b mod 16)]) bs)"

lemma hex_digit_back: "n < 16 \<Longrightarrow> hex_to_bin (hex_digit n) = Some n"
  by (auto simp: hex_to_bin_def hex_digit_def unat_of_nat)

lemma hex_encode_length [simp]: "length (hex_encode bs) = 2 * length bs"
  by (induction bs) (simp_all add: hex_encode_def)

lemma hex2bin_encode: "hex2bin (length bs) (hex_encode bs @ rest) = bs"
proof (induction bs)
  case Nil
  then show ?case by simp
next
  case (Cons b bs)
  have "unat b < 256" using unsigned_less [where ?'a = nat and w = b] by simp
  then have "hex_to_bin (hex_digit (unat b div 16)) = Some (unat b div 16)"
    "hex_to_bin (hex_digit (unat b mod 16)) = Some (unat b mod 16)"
    by (simp_all add: hex_digit_back)
  moreover have "(of_nat (16 * (unat b div 16) + unat b mod 16) :: u8) = b" by simp
  ultimately show ?case using Cons by (simp add: hex_encode_def)
qed

lemma simple_io_submits:
  assumes "simple_io g u n vary s = Some (r, u', s')" and "0 < sint n" and "fill_for_output g u s = Some u1"
  shows "Submit (t_pipe u1) (t_off u1) (unat (t_len u1)) (t_mem u1) \<in> set (asked s')"
proof -
  let ?c = "Submit (t_pipe u1) (t_off u1) (unat (t_len u1)) (t_mem u1)"
  obtain k where k: "nat (sint n) = Suc k" using assms(2) by (cases "nat (sint n)") auto
  obtain broken q u2 s2 where once: "io_once g u s = Some (broken, q, u2, s2)"
    using assms(1) k by (auto simp: simple_io_def Let_def bind_eq_Some_conv)
  have c: "?c \<in> set (asked s2)"
    using once assms(3) by (auto simp: io_once_def wait_for_io_def ask_def bind_eq_Some_conv Let_def split: if_splits)
  have "s' = s2 \<or> (\<exists>u3 r' u4. io_loop g k (sint vary) (sint (t_len u)) u3 s2 = Some (r', u4, s'))"
    using assms(1) once k by (auto simp: simple_io_def Let_def bind_eq_Some_conv split: if_splits)
  then show ?thesis using c io_loop_only by (fastforce simp: only_io_def)
qed

text \<open>A user whose data are the digits of the bytes, and an allocator that has memory.\<close>

definition encodes :: "u8 list \<Rightarrow> core \<Rightarrow> bool" where
  "encodes bs c \<longleftrightarrow> (\<forall>h. rc (c h Alloc_Urb) = 0 \<and> rc (c h (Copy_From_User (2 * length bs))) = 0
      \<and> mem (c h (Copy_From_User (2 * length bs))) = hex_encode bs \<and> (\<forall>n. rc (c h (Alloc n)) = 0))"

lemma host_fuzz_prepared:
  assumes "encodes bs (core g)" and "1 < length bs" and "data_size p = of_nat (2 * length bs)"
    and "2 * length bs < 2 ^ 32" and "usb_pipeout pipe"
  obtains u s2 where "t_pipe u = pipe" "t_off u = 1" "t_mem u = GUARD_BYTE # replicate (length bs - 1) 0"
    "unat (t_len u) = length bs - 1" "dev s2 = dev s" "pattern s2 = pattern s"
    "asked s2 = asked s @ [Alloc_Urb, Alloc (length bs - 1 + 1), Alloc (2 * length bs + 1),
       Copy_From_User (2 * length bs), Alloc (length bs)]"
    "host_fuzz g p pipe s = do {
       (r, u, s) \<leftarrow> simple_io g u (p_iterations p) 0 (upd_dev (\<lambda>x. x\<lparr>host_data := Some bs\<rparr>) s2);
       Some (r, upd_dev (\<lambda>x. x\<lparr>host_data := None\<rparr>) (simple_free_urb g u s)) }"
proof -
  let ?n = "length bs - 1"
  have ok: "rc (core g h Alloc_Urb) = 0" "rc (core g h (Copy_From_User (2 * length bs))) = 0"
    "mem (core g h (Copy_From_User (2 * length bs))) = hex_encode bs" "rc (core g h (Alloc n)) = 0" for h n
    using assms(1) by (simp_all add: encodes_def)
  have ds: "unat (data_size p) = 2 * length bs"
    unfolding assms(3) unat_of_nat by (rule mod_less) (use assms(4) in simp)
  have nz: "data_size p \<noteq> 0" using ds assms(2) by auto
  have half: "unat (data_size p div 2) = length bs" using ds by (simp add: unat_div)
  then have "0 < unat (data_size p div 2)" using assms(2) by linarith
  then have "0 < data_size p div 2" unfolding word_less_nat_alt by simp
  from word_dec [OF this] have "unat (data_size p div 2 - 1) = ?n" unfolding half .
  then have fl: "fuzz_length p = ?n" using nz by (simp add: fuzz_length_def)
  have out: "\<not> usb_pipein pipe" using assms(5) by (simp add: usb_pipeout_def)
  let ?s1 = "s\<lparr>asked := asked s @ [Alloc_Urb, Alloc (?n + 1)]\<rparr>"
  obtain u where u: "usbtest_alloc_urb g pipe ?n False 1 s = (Some u, ?s1)" "t_pipe u = pipe" "t_off u = 1"
    "t_mem u = GUARD_BYTE # replicate ?n 0" "t_len u = of_nat ?n"
    using out ok by (simp add: usbtest_alloc_urb_def ask_def)
  have n: "unat (t_len u) = ?n" using assms(4) unfolding u(5) unat_of_nat by (intro mod_less) simp
  let ?s2 = "?s1\<lparr>asked := asked ?s1 @ [Alloc (2 * length bs + 1), Copy_From_User (2 * length bs), Alloc (length bs)]\<rparr>"
  have "unat (data_size p + 1) = 2 * length bs + 1"
  proof -
    have "length bs < 2 ^ 31" using assms(4) by simp
    then have "2 * length bs + 1 < 2 ^ 32" by simp
    then show ?thesis by (simp add: unat_word_ariths(1) ds)
  qed
  then have d: "fuzz_data g p ?s1 = (Inr bs, ?s2)"
    using ok hex2bin_encode [of bs "[]"] by (simp add: fuzz_data_def ask_def ds Let_def)
  have "host_fuzz g p pipe s = do {
       (r, u, s) \<leftarrow> simple_io g u (p_iterations p) 0 (upd_dev (\<lambda>x. x\<lparr>host_data := Some bs\<rparr>) ?s2);
       Some (r, upd_dev (\<lambda>x. x\<lparr>host_data := None\<rparr>) (simple_free_urb g u s)) }"
    using fl u(1) d nz by (simp add: host_fuzz_def)
  then show ?thesis using u n by (intro that [of u ?s2]) simp_all
qed

text \<open>
  C35. What the fuzzer sends to an endpoint is what it encoded as hexadecimal digits, but for the
  last byte: the urb is one byte shorter than the data, and it is submitted with the rest of the
  data right behind the guard byte.
\<close>

theorem fuzz_data_roundtrip:
  assumes "encodes bs (core g)" and "1 < length bs" and "data_size p = of_nat (2 * length bs)"
    and "2 * length bs < 2 ^ 32" and "usb_pipeout pipe"
    and "get_maxpacket (udev g) pipe = Some maxp" and "0 < sint (p_iterations p)"
    and "host_fuzz g p pipe s = Some (r, s')"
  shows "Submit pipe 1 (length bs - 1) (GUARD_BYTE # butlast bs) \<in> set (asked s')"
proof (rule host_fuzz_prepared [OF assms(1-5), of s])
  fix u s2
  let ?n = "length bs - 1"
  assume u: "t_pipe u = pipe" "t_off u = 1" "t_mem u = GUARD_BYTE # replicate ?n 0" "unat (t_len u) = ?n"
    and h: "host_fuzz g p pipe s = do {
       (r, u, s) \<leftarrow> simple_io g u (p_iterations p) 0 (upd_dev (\<lambda>x. x\<lparr>host_data := Some bs\<rparr>) s2);
       Some (r, upd_dev (\<lambda>x. x\<lparr>host_data := None\<rparr>) (simple_free_urb g u s)) }"
  let ?s = "upd_dev (\<lambda>x. x\<lparr>host_data := Some bs\<rparr>) s2"
  obtain q u2 s3 where io: "simple_io g u (p_iterations p) 0 ?s = Some (q, u2, s3)"
    and s': "s' = upd_dev (\<lambda>x. x\<lparr>host_data := None\<rparr>) (simple_free_urb g u2 s3)"
    using assms(8) h by (auto simp: bind_eq_Some_conv)
  have "butlast bs = take ?n bs" by (simp add: butlast_conv_take)
  then have "fill_for_output g u ?s = Some (u\<lparr>t_mem := GUARD_BYTE # butlast bs, t_zero_packet := True\<rparr>)"
    using assms(5,6) u by (simp add: fill_for_output_def upd_dev_def fz_simple_fill_buf_def put_buffer_def memcpy_def)
  from simple_io_submits [OF io assms(7) this] u
  have "Submit pipe 1 ?n (GUARD_BYTE # butlast bs) \<in> set (asked s3)" by simp
  then show ?thesis by (simp add: s' upd_dev_def simple_free_urb_def ask_def)
qed

lemma fuzz_wait_one:
  assumes "gives_back e" and "ctx_queued c = [0]"
  shows "fuzz_wait e c = Some (empty_complete (c\<lparr>ctx_queued := []\<rparr>))"
proof -
  have "ctx_queued c \<noteq> []" using assms(2) by simp
  then have "fst (e c) \<in> set (ctx_queued c)" using assms(1) unfolding gives_back_def by blast
  then show ?thesis using assms(2) by (simp add: fuzz_wait_def split_def)
qed

text \<open>
  Of a control request the fuzzer made up, the device's answer is lost: however the controller
  completes it, the result is whether it could be submitted. It is always submitted to the pipe
  for input, whatever the direction of the request.
\<close>

theorem ctrl_fuzz_ignores_answer:
  assumes "gives_back env" and "gives_back env'"
  shows "\<exists>r s'. host_ctr_fuzz g env p s = Some (r, s') \<and> host_ctr_fuzz g env' p s = Some (r, s')
    \<and> (\<forall>k pipe req m. Queue_Control k pipe req m \<in> set (asked s') - set (asked s) \<longrightarrow>
         pipe = usb_rcvctrlpipe (udev g) 0 \<and> req = ctrl_req p)"
proof -
  let ?pipe = "usb_rcvctrlpipe (udev g) 0"
  let ?n = "unat (wLength (ctrl_req p))"
  let ?s1 = "s\<lparr>asked := asked s @ [Alloc 8]\<rparr>"
  obtain u s2 where a: "simple_alloc_urb g ?pipe ?n ?s1 = (u, s2)" by fastforce
  have calls: "Queue_Control k q req m \<notin> set (asked s2) - set (asked s)" for k q req m
    using a by (auto simp: simple_alloc_urb_def usbtest_alloc_urb_def ask_def Let_def split: if_splits)
  show ?thesis
  proof (cases "rc (core g (asked s) (Alloc 8)) \<noteq> 0 \<or> u = None")
    case True
    then show ?thesis using a calls by (auto simp: host_ctr_fuzz_def ask_def)
  next
    case False
    then obtain v where v: "u = Some v" by blast
    have pv: "t_pipe v = ?pipe"
      using a v by (auto simp: simple_alloc_urb_def usbtest_alloc_urb_def ask_def Let_def split: if_splits)
    let ?cu = "\<lparr>cu_urb = v, cu_setup = ctrl_req p, cu_number = 0, cu_expected = 0, cu_dev = True\<rparr>"
    let ?s3 = "s2\<lparr>asked := asked s2 @ [Alloc 16]\<rparr>"
    obtain c where c: "ctrl_submit g [0] (ctrl_start 1 (p_iterations p) [?cu] ?s3) = c" by blast
    let ?call = "Queue_Control 0 ?pipe (ctrl_req p) (t_mem v)"
    let ?r = "rc (core g (asked ?s3) ?call)"
    have c_eq: "ctx_status c = ?r" "asked (ctx_tester c) = asked ?s3 @ [?call]"
      "ctx_pending c = (if ?r = 0 then 1 else 0)" "?r = 0 \<Longrightarrow> ctx_queued c = [0]"
      unfolding c [symmetric] by (simp_all add: ctrl_start_def queue_ctrl_urb_def ctx_ask_def ask_def pv Let_def)
    have w: "(if 0 < ctx_pending c then fuzz_wait e c else Some c)
        = Some (if ?r = 0 then empty_complete (c\<lparr>ctx_queued := []\<rparr>) else c)" if "gives_back e" for e
      using fuzz_wait_one [OF that c_eq(4)] c_eq(3) by simp
    have keep: "ctx_status (empty_complete d) = ctx_status d" "ctx_tester (empty_complete d) = ctx_tester d" for d
      by (simp_all add: empty_complete_def Let_def)
    have run: "host_ctr_fuzz g e p s = Some (if rc (core g (asked s2) (Alloc 16)) \<noteq> 0
        then (- ENOMEM, simple_free_urb g v ?s3) else (?r, simple_free_urb g v (ctx_tester c)))" if "gives_back e" for e
      using False a v c w [OF that] c_eq(1) keep
      by (simp add: host_ctr_fuzz_def ask_def ctrl_free_def Let_def)
    have new: "k' = 0 \<and> q = ?pipe \<and> req = ctrl_req p"
      if "Queue_Control k' q req m \<in> set (asked (simple_free_urb g v s')) - set (asked s)" and "s' = ?s3 \<or> s' = ctx_tester c"
      for k' q req m s'
      using that calls c_eq(2) by (auto simp: simple_free_urb_def ask_def)
    show ?thesis unfolding run [OF assms(1)] run [OF assms(2)] using new by auto
  qed
qed

section \<open>Witnesses\<close>

definition stalled :: giver where
  "stalled c = (case ctx_queued c of [] \<Rightarrow> (0, 0) | k # _ \<Rightarrow> (k, - EPIPE))"

definition demo_param :: usbtest_param where
  "demo_param = \<lparr>p_test_num = 0, p_iterations = 1, p_length = 0, p_vary = 0, p_sglen = 0, is_fz = True,
     is_ctrl = False, is_bulk = True, is_int = False, is_iso = False, is_dir_out = True,
     ctrl_req = \<lparr>bRequestType = 0, bRequest = 9, wValue = 1, wIndex = 0, wLength = 0\<rparr>, is_set_alt = False,
     data_size = 6\<rparr>"

text \<open>A user whose data are the digits \<open>0a0b0c\<close>.\<close>

definition user_core :: core where
  "user_core h c = \<lparr>rc = 0, in_time = True, status = 0, actual = 0,
     mem = (case c of Copy_From_User _ \<Rightarrow> hex_encode [10, 11, 12] | _ \<Rightarrow> last_mem h)\<rparr>"

theorem fuzz_data_roundtrip_witness:
  "\<exists>r s. host_fuzz (demo_rig\<lparr>core := user_core\<rparr>) demo_param 0 demo_tester = Some (r, s)
     \<and> Submit 0 1 2 [GUARD_BYTE, 10, 11] \<in> set (asked s)"
proof -
  let ?g = "demo_rig\<lparr>core := user_core\<rparr>" and ?bs = "[10, 11, 12 :: u8]"
  have e: "encodes ?bs (core ?g)" by (simp add: encodes_def user_core_def)
  have maxp: "get_maxpacket (udev ?g) 0 = Some 64" using demo_maxpacket [of 0] by simp
  have out: "usb_pipeout 0" by (simp add: usb_pipeout_def usb_pipein_def)
  have keeps: "core_keeps (core ?g)" by (simp add: core_keeps_def user_core_def last_mem_def Let_def)
  have size: "data_size demo_param = of_nat (2 * length ?bs)" by (simp add: demo_param_def)
  have "\<exists>r s. host_fuzz ?g demo_param 0 demo_tester = Some (r, s)"
  proof (rule host_fuzz_prepared [OF e _ size _ out, of demo_tester])
    fix u s2
    assume u: "t_pipe u = 0" "t_off u = 1" "t_mem u = GUARD_BYTE # replicate (length ?bs - 1) 0"
      "unat (t_len u) = length ?bs - 1"
      and s2: "asked s2 = asked demo_tester @ [Alloc_Urb, Alloc (length ?bs - 1 + 1), Alloc (2 * length ?bs + 1),
       Copy_From_User (2 * length ?bs), Alloc (length ?bs)]"
      and h: "host_fuzz ?g demo_param 0 demo_tester = do {
       (r, u, s) \<leftarrow> simple_io ?g u (p_iterations demo_param) 0 (upd_dev (\<lambda>x. x\<lparr>host_data := Some ?bs\<rparr>) s2);
       Some (r, upd_dev (\<lambda>x. x\<lparr>host_data := None\<rparr>) (simple_free_urb ?g u s)) }"
    have "ready ?g 2 u" using u maxp by (simp add: ready_def urb_ok_def)
    then have "\<exists>r u' s'. simple_io ?g u (p_iterations demo_param) 0 (upd_dev (\<lambda>x. x\<lparr>host_data := Some ?bs\<rparr>) s2) = Some (r, u', s')
      \<and> t_len u' = t_len u \<and> lens_ok 2 (asked s')"
      by (rule simple_io_ready [OF keeps]) (use u s2 in \<open>simp_all add: lens_ok_def upd_dev_def demo_tester_def\<close>)
    then show ?thesis using h by auto
  qed simp_all
  then obtain r s where h: "host_fuzz ?g demo_param 0 demo_tester = Some (r, s)" by blast
  have "Submit 0 1 (length ?bs - 1) (GUARD_BYTE # butlast ?bs) \<in> set (asked s)"
    by (rule fuzz_data_roundtrip [OF e _ size _ out maxp _ h]) (simp_all add: demo_param_def)
  then show ?thesis using h by (intro exI [of _ r] exI [of _ s]) (simp add: numeral_2_eq_2)
qed

theorem ctrl_fuzz_ignores_answer_witness:
  "\<exists>r s. host_ctr_fuzz demo_rig in_order demo_param demo_tester = Some (r, s)
     \<and> host_ctr_fuzz demo_rig stalled demo_param demo_tester = Some (r, s)"
proof -
  have "gives_back in_order" "gives_back stalled"
    by (auto simp: gives_back_def in_order_def stalled_def split: list.splits)
  from ctrl_fuzz_ignores_answer [OF this] show ?thesis by blast
qed

end
