(* ===== verification/Usbtest_Ioctl.thy ===== *)
theory Usbtest_Ioctl
  imports Usbtest_Fuzz
begin

text \<open>
  The requests of user space and the binding to a device (usbtest.c, lines 2555 to 3457): choosing
  and repeating a test, the two layouts of its parameters, probing an interface, and the static
  table of device information.
\<close>

section \<open>Running the test of cancelling\<close>

text \<open>
  The queue and its test thread as one function: a scheduler chooses whether an urb comes back, and
  which one, or the thread goes on.
\<close>

primrec uq_run :: "rig \<Rightarrow> nat \<Rightarrow> (queued_ctx \<Rightarrow> (nat \<times> int) option) \<Rightarrow> nat \<Rightarrow> queued_ctx \<Rightarrow> (int \<times> tester) option" where
  "uq_run g num sched 0 q = None"
| "uq_run g num sched (Suc n) q =
     (case uq_phase q of
        Uq_Return r \<Rightarrow> Some (r, uq_tester q)
      | _ \<Rightarrow>
          (case sched q of
             Some (k, st) \<Rightarrow>
               if k \<in> set (uq_flight q)
               then uq_run g num sched n (unlink_queued_callback num k st (q\<lparr>uq_flight := remove1 k (uq_flight q)\<rparr>))
               else None
           | None \<Rightarrow> (case uq_thread g num q of Some q' \<Rightarrow> uq_run g num sched n q' | None \<Rightarrow> None)))"

definition unlink_queued ::
  "rig \<Rightarrow> (queued_ctx \<Rightarrow> (nat \<times> int) option) \<Rightarrow> u32 \<Rightarrow> nat \<Rightarrow> nat \<Rightarrow> tester \<Rightarrow> (int \<times> tester) option" where
  "unlink_queued g sched pipe num sz s =
     do {
       q \<leftarrow> unlink_queued_start g pipe num sz s;
       case q of Inl result \<Rightarrow> Some result | Inr q \<Rightarrow> uq_run g num sched (3 * num + 6) q
     }"

section \<open>The tests\<close>

text \<open>A test of one urb, of a list of buffers, and the repetition of a test until it fails.\<close>

definition io_test :: "rig \<Rightarrow> u32 \<Rightarrow> usbtest_param \<Rightarrow> u32 \<Rightarrow> tester \<Rightarrow> (int \<times> tester) option" where
  "io_test g pipe p v s =
     (case simple_alloc_urb g pipe (unat (p_length p)) s of
        (None, s) \<Rightarrow> Some (- ENOMEM, s)
      | (Some u, s) \<Rightarrow> do {
          (retval, u, s) \<leftarrow> simple_io g u (p_iterations p) v s;
          Some (retval, simple_free_urb g u s)
        })"

definition sg_test :: "rig \<Rightarrow> u32 \<Rightarrow> usbtest_param \<Rightarrow> u32 \<Rightarrow> tester \<Rightarrow> (int \<times> tester) option" where
  "sg_test g pipe p v s =
     do {
       (sg, s) \<leftarrow> alloc_sglist g (unat (p_sglen p)) (p_length p) v pipe s;
       case sg of
         None \<Rightarrow> Some (- ENOMEM, s)
       | Some sg \<Rightarrow> Some (perform_sglist g (p_iterations p) pipe sg s)
     }"

primrec repeat_test :: "nat \<Rightarrow> (tester \<Rightarrow> (int \<times> tester) option) \<Rightarrow> tester \<Rightarrow> (int \<times> tester) option" where
  "repeat_test 0 f s = Some (0, s)"
| "repeat_test (Suc n) f s = do { (r, s) \<leftarrow> f s; if r = 0 then repeat_test n f s else Some (r, s) }"

text \<open>A test is skipped, with the error of an unknown one, where the device does not have what it needs.\<close>

definition needs :: "bool \<Rightarrow> (tester \<Rightarrow> (int \<times> tester) option) \<Rightarrow> tester \<Rightarrow> (int \<times> tester) option" where
  "needs b f s = (if b then f s else Some (- EOPNOTSUPP, s))"

definition bulk_tests :: "rig \<Rightarrow> usbtest_param \<Rightarrow> tester \<Rightarrow> (int \<times> tester) option" where
  "bulk_tests g p s =
     (let n = unat (p_test_num p); out = out_pipe (dev s); inp = in_pipe (dev s); sg = p_sglen p \<noteq> 0; v = p_vary p in
      if n = 1 then needs (out \<noteq> 0) (io_test g out p 0) s
      else if n = 2 then needs (inp \<noteq> 0) (io_test g inp p 0) s
      else if n = 3 then needs (out \<noteq> 0 \<and> v \<noteq> 0) (io_test g out p v) s
      else if n = 4 then needs (inp \<noteq> 0 \<and> v \<noteq> 0) (io_test g inp p v) s
      else if n = 5 then needs (out \<noteq> 0 \<and> sg) (sg_test g out p 0) s
      else if n = 6 then needs (inp \<noteq> 0 \<and> sg) (sg_test g inp p 0) s
      else if n = 7 then needs (out \<noteq> 0 \<and> sg \<and> v \<noteq> 0) (sg_test g out p v) s
      else needs (inp \<noteq> 0 \<and> sg \<and> v \<noteq> 0) (sg_test g inp p v) s)"

definition control_tests :: "rig \<Rightarrow> controller \<Rightarrow> usbtest_param \<Rightarrow> tester \<Rightarrow> (int \<times> tester) option" where
  "control_tests g e p s =
     (let n = unat (p_test_num p); out = out_pipe (dev s); inp = in_pipe (dev s);
          times = unat (p_iterations p); ln = unat (p_length p) in
      if n = 9 then repeat_test times (ch9_postconfig g) s
      else if n = 10 then test_ctrl_queue g (give_ctrl e) (p_sglen p) (p_iterations p) s
      else if n = 11 then needs (inp \<noteq> 0 \<and> ln \<noteq> 0) (repeat_test times (unlink_simple g inp ln)) s
      else if n = 12 then needs (out \<noteq> 0 \<and> ln \<noteq> 0) (repeat_test times (unlink_simple g out ln)) s
      else if n = 13 then needs (out \<noteq> 0 \<or> inp \<noteq> 0) (repeat_test times (halt_simple g)) s
      else if n = 14 then needs (info_ctrl_out (info_of s))
             (\<lambda>s. Some (ctrl_out g (p_iterations p) (p_length p) (p_vary p) 0 s)) s
      else needs (info_ctrl_out (info_of s))
             (\<lambda>s. Some (ctrl_out g (p_iterations p) (p_length p) (p_vary p) 1 s)) s)"

definition queue_test ::
  "rig \<Rightarrow> controller \<Rightarrow> usbtest_param \<Rightarrow> u32 \<Rightarrow> usb_endpoint_descriptor option \<Rightarrow> nat \<Rightarrow> tester \<Rightarrow> (int \<times> tester) option" where
  "queue_test g e p pipe desc offset s =
     test_queue g (give_queue e) (p_sglen p) (p_iterations p) (p_length p) pipe desc offset s"

definition queue_tests :: "rig \<Rightarrow> controller \<Rightarrow> usbtest_param \<Rightarrow> tester \<Rightarrow> (int \<times> tester) option" where
  "queue_tests g e p s =
     (let n = unat (p_test_num p); d = dev s; sg = p_sglen p \<noteq> 0 in
      if n = 15 then needs (out_iso_pipe d \<noteq> 0 \<and> sg) (queue_test g e p (out_iso_pipe d) (iso_out d) 0) s
      else if n = 16 then needs (in_iso_pipe d \<noteq> 0 \<and> sg) (queue_test g e p (in_iso_pipe d) (iso_in d) 0) s
      else if n = 22 then needs (out_iso_pipe d \<noteq> 0 \<and> sg) (queue_test g e p (out_iso_pipe d) (iso_out d) 1) s
      else if n = 23 then needs (in_iso_pipe d \<noteq> 0 \<and> sg) (queue_test g e p (in_iso_pipe d) (iso_in d) 1) s
      else if n = 27 then needs (out_pipe d \<noteq> 0 \<and> sg \<and> pattern s = 0) (queue_test g e p (out_pipe d) None 0) s
      else needs (in_pipe d \<noteq> 0 \<and> sg \<and> pattern s = 0) (queue_test g e p (in_pipe d) None 0) s)"

text \<open>
  Tests of unaligned buffers, of cancelling from a queue, of interrupt endpoints and of the data
  toggle; the interval of an interrupt test is read from the descriptor of its endpoint.
\<close>

definition other_tests :: "rig \<Rightarrow> controller \<Rightarrow> usbtest_param \<Rightarrow> tester \<Rightarrow> (int \<times> tester) option" where
  "other_tests g e p s =
     (let n = unat (p_test_num p); d = dev s; ln = unat (p_length p); it = p_iterations p in
      if n = 17 then needs (out_pipe d \<noteq> 0) (test_unaligned_bulk g (out_pipe d) ln it False) s
      else if n = 18 then needs (in_pipe d \<noteq> 0) (test_unaligned_bulk g (in_pipe d) ln it False) s
      else if n = 19 then needs (out_pipe d \<noteq> 0) (test_unaligned_bulk g (out_pipe d) ln it True) s
      else if n = 20 then needs (in_pipe d \<noteq> 0) (test_unaligned_bulk g (in_pipe d) ln it True) s
      else if n = 24 then needs (out_pipe d \<noteq> 0 \<and> ln \<noteq> 0 \<and> 4 \<le> unat (p_sglen p))
             (repeat_test (unat it) (unlink_queued g (give_unlinked e) (out_pipe d) (unat (p_sglen p)) ln)) s
      else if n = 25 then needs (out_int_pipe d \<noteq> 0)
             (\<lambda>s. do { _ \<leftarrow> int_out d; io_test g (out_int_pipe d) p 0 s }) s
      else if n = 26 then needs (in_int_pipe d \<noteq> 0)
             (\<lambda>s. do { _ \<leftarrow> int_in d; io_test g (in_int_pipe d) p 0 s }) s
      else needs (out_pipe d \<noteq> 0) (repeat_test (unat it) (toggle_sync_simple g)) s)"

section \<open>Requests\<close>

definition usbtest_do_ioctl :: "rig \<Rightarrow> controller \<Rightarrow> usbtest_param \<Rightarrow> tester \<Rightarrow> (int \<times> tester) option" where
  "usbtest_do_ioctl g e p s =
     (let n = unat (p_test_num p) in
      if is_fz p then map_option (\<lambda>s. (0, s)) (fz_ioctl g e p s)
      else if p_iterations p = 0 then Some (- EINVAL, s)
      else if MAX_SGLEN < unat (p_sglen p) then Some (- EINVAL, s)
      else if n = 0 then Some (0, s)
      else if n \<le> 8 then bulk_tests g p s
      else if n \<le> 14 \<or> n = 21 then control_tests g e p s
      else if n \<in> {15, 16, 22, 23, 27, 28} then queue_tests g e p s
      else if n \<le> 29 then other_tests g e p s
      else Some (- EOPNOTSUPP, s))"

text \<open>
  The two layouts of the parameters. The larger one is copied field by field into a variable on the
  stack, of which the fields of the fuzzer keep what the stack held.
\<close>

datatype ioctl_code = USBTEST_REQUEST_32 | USBTEST_REQUEST_64 | Other_Request

definition from_64 :: "usbtest_param \<Rightarrow> usbtest_param \<Rightarrow> usbtest_param" where
  "from_64 stack p = stack\<lparr>p_test_num := p_test_num p, p_iterations := p_iterations p, p_length := p_length p,
     p_sglen := p_sglen p, p_vary := p_vary p\<rparr>"

abbreviation (input) ERESTARTSYS :: int where "ERESTARTSYS \<equiv> 512"

definition usbtest_ioctl ::
  "rig \<Rightarrow> controller \<Rightarrow> usbtest_param \<Rightarrow> ioctl_code \<Rightarrow> usbtest_param \<Rightarrow> tester \<Rightarrow> (int \<times> tester) option" where
  "usbtest_ioctl g e stack code p s =
     (let s = s\<lparr>pattern := mod_pattern g\<rparr>; (r, s) = ask g Lock s in
      if rc r \<noteq> 0 then Some (- ERESTARTSYS, s)
      else case code of
        USBTEST_REQUEST_64 \<Rightarrow> usbtest_do_ioctl g e (from_64 stack p) s
      | USBTEST_REQUEST_32 \<Rightarrow> usbtest_do_ioctl g e p s
      | Other_Request \<Rightarrow> Some (- EOPNOTSUPP, s))"

section \<open>Binding to a device\<close>

text \<open>A new device, of which the allocator cleared everything but the scratch buffer.\<close>

definition new_dev :: "nat \<Rightarrow> u8 list \<Rightarrow> usbtest_dev" where
  "new_dev i b = \<lparr>dev_info = i, in_pipe = 0, out_pipe = 0, in_iso_pipe = 0, out_iso_pipe = 0, in_int_pipe = 0,
     out_int_pipe = 0, iso_in = None, iso_out = None, int_in = None, int_out = None, buf = b, host_data = None\<rparr>"

definition fixed_pipes :: "rig \<Rightarrow> (usb_device \<Rightarrow> u8 \<Rightarrow> u32) \<Rightarrow> (usb_device \<Rightarrow> u8 \<Rightarrow> u32) \<Rightarrow> tester \<Rightarrow> tester" where
  "fixed_pipes g mk_in mk_out s =
     (let i = info_of s;
          s = (if ep_in i \<noteq> 0 then upd_dev (\<lambda>d. d\<lparr>in_pipe := mk_in (udev g) (ep_in i)\<rparr>) s else s)
      in if ep_out i \<noteq> 0 then upd_dev (\<lambda>d. d\<lparr>out_pipe := mk_out (udev g) (ep_out i)\<rparr>) s else s)"

text \<open>The alternate setting fixed for one of the first three interfaces.\<close>

definition fix_alt_step :: "rig \<Rightarrow> int \<Rightarrow> nat \<Rightarrow> int \<times> tester \<Rightarrow> int \<times> tester" where
  "fix_alt_step g fix_alt n rs =
     (case rs of (r, s) \<Rightarrow> if r < 0 then (r, s)
        else if - 1 < fix_alt \<and> unat (intf_number g) = n then fz_get_endpoints g fix_alt s else (0, s))"

definition find_endpoints :: "rig \<Rightarrow> tester \<Rightarrow> int \<times> tester" where
  "find_endpoints g s =
     (let i = info_of s in
      if force_interrupt g \<or> dev_speed (udev g) = USB_SPEED_LOW
      then (0, fixed_pipes g usb_rcvintpipe usb_sndintpipe s)
      else if need_fix_alt i
      then fix_alt_step g (fix_alt_intf2 (info_of s)) 2 (fix_alt_step g (fix_alt_intf1 (info_of s)) 1
             (fix_alt_step g (fix_alt_intf0 (info_of s)) 0 (0, s)))
      else if 0 \<le> override_alt g \<or> autoconf i then get_endpoints g s
      else (0, fixed_pipes g usb_rcvbulkpipe usb_sndbulkpipe s))"

text \<open>
  The entries of the table of devices name a device, or leave it to the parameters of the module
  (\<open>None\<close>), and point to the device information. The result tells whether the device is bound; the
  information the driver keeps about it, 120 bytes, is in the state then.
\<close>

definition usbtest_probe ::
  "rig \<Rightarrow> u16 \<Rightarrow> u16 \<Rightarrow> (u16 \<times> u16) option \<times> nat \<Rightarrow> tester \<Rightarrow> int \<times> tester" where
  "usbtest_probe g vendor product entry s =
     (if fst entry = None \<and> (vendor = 0 \<or> dev_idVendor (udev g) \<noteq> vendor) then (- ENODEV, s)
      else if fst entry = None \<and> product \<noteq> 0 \<and> dev_idProduct (udev g) \<noteq> product then (- ENODEV, s)
      else let (r, s) = ask g (Alloc 120) s in
        if rc r \<noteq> 0 then (- ENOMEM, s)
        else let (r, s) = ask g (Alloc TBUF_SIZE) s in
          if rc r \<noteq> 0 then (- ENOMEM, s)
          else let (r, s') = find_endpoints g
                     (s\<lparr>dev := new_dev (snd entry) (take TBUF_SIZE (mem r @ replicate TBUF_SIZE 0))\<rparr>)
            in if r < 0 then (r, s'\<lparr>dev := dev s\<rparr>) else (0, s'))"

section \<open>Device information\<close>

definition no_info :: usbtest_info where
  "no_info = \<lparr>ep_in = 0, ep_out = 0, autoconf = False, info_ctrl_out = False, iso = False, intr = False, alt = 0,
     need_fix_alt = False, fix_alt_intf0 = 0, fix_alt_intf1 = 0, fix_alt_intf2 = 0, info_out_iso_pipe = 0,
     info_in_iso_pipe = 0, info_out_bulk_pipe = 0, info_in_bulk_pipe = 0, info_out_int_pipe = 0,
     info_in_int_pipe = 0, info_iso_in = None, info_iso_out = None, info_int_in = None, info_int_out = None\<rparr>"

definition fix_alt_info :: "int \<Rightarrow> int \<Rightarrow> int \<Rightarrow> usbtest_info" where
  "fix_alt_info a b c = no_info\<lparr>need_fix_alt := True, fix_alt_intf0 := a, fix_alt_intf1 := b, fix_alt_intf2 := c,
     alt := - 1\<rparr>"

definition ez1_info :: usbtest_info where "ez1_info = no_info\<lparr>ep_in := 2, ep_out := 2, alt := 1\<rparr>"

definition ez2_info :: usbtest_info where "ez2_info = no_info\<lparr>ep_in := 6, ep_out := 2, alt := 1\<rparr>"

definition fw_info :: usbtest_info where
  "fw_info = no_info\<lparr>ep_in := 2, ep_out := 2, alt := 1, autoconf := True, info_ctrl_out := True, iso := True\<rparr>"

definition gz_info :: usbtest_info where
  "gz_info = no_info\<lparr>autoconf := True, info_ctrl_out := True, iso := True, intr := True, alt := 0\<rparr>"

definition generic_fz_info :: usbtest_info where "generic_fz_info = no_info\<lparr>alt := - 1\<rparr>"

definition ecm_fz_info :: usbtest_info where "ecm_fz_info = no_info\<lparr>ep_in := 2, ep_out := 2, alt := 1\<rparr>"

definition uac2_fz_info :: usbtest_info where "uac2_fz_info = (fix_alt_info (- 1) 1 1)\<lparr>iso := True\<rparr>"

definition ss_fz_info :: usbtest_info where "ss_fz_info = (fix_alt_info 1 (- 1) (- 1))\<lparr>iso := True\<rparr>"

definition prt_fz_info :: usbtest_info where "prt_fz_info = fix_alt_info 0 (- 1) (- 1)"

definition phonet_fz_info :: usbtest_info where "phonet_fz_info = fix_alt_info (- 1) 1 (- 1)"

definition audiosrc_fz_info :: usbtest_info where "audiosrc_fz_info = (fix_alt_info (- 1) 1 (- 1))\<lparr>iso := True\<rparr>"

definition hid_fz_info :: usbtest_info where "hid_fz_info = (fix_alt_info 0 (- 1) (- 1))\<lparr>intr := True\<rparr>"

definition acm_fz_info :: usbtest_info where "acm_fz_info = fix_alt_info (- 1) 0 (- 1)"

definition um_info :: usbtest_info where "um_info = no_info\<lparr>autoconf := True, alt := - 1\<rparr>"

definition um2_info :: usbtest_info where "um2_info = no_info\<lparr>autoconf := True, iso := True, alt := - 1\<rparr>"

definition generic_info :: usbtest_info where "generic_info = no_info\<lparr>alt := - 1\<rparr>"

definition all_infos :: "usbtest_info list" where
  "all_infos = [ez1_info, ez2_info, fw_info, gz_info, generic_fz_info, ecm_fz_info, uac2_fz_info, ss_fz_info,
     prt_fz_info, phonet_fz_info, audiosrc_fz_info, hid_fz_info, acm_fz_info, um_info, um2_info, generic_info]"

text \<open>The devices, each with the position of its information in the list above.\<close>

definition id_table :: "((u16 \<times> u16) option \<times> nat) list" where
  "id_table =
     [(Some (0x0547, 0x2235), 0), (Some (0x0547, 0x0080), 0), (Some (0x04b4, 0x8613), 1),
      (Some (0xfff0, 0xfff0), 2), (Some (0x0525, 0xa4a0), 3), (Some (0x0525, 0xa411), 4),
      (Some (0x0525, 0xa412), 11), (Some (0x0525, 0xa414), 6), (Some (0x0525, 0xa413), 5),
      (Some (0x0525, 0xa415), 7), (Some (0x0525, 0xa416), 8), (Some (0x0525, 0xa417), 9),
      (Some (0x0525, 0xa418), 12), (Some (0x0525, 0xa419), 10), (Some (0x0525, 0xa4a4), 13),
      (Some (0x0525, 0xa4a3), 14), (None, 15)]"

section \<open>The test of cancelling returns\<close>

text \<open>
  A scheduler that gives back urbs in flight only, and gives one back when the thread has nothing
  else to do.
\<close>

definition fair :: "nat \<Rightarrow> rig \<Rightarrow> (queued_ctx \<Rightarrow> (nat \<times> int) option) \<Rightarrow> bool" where
  "fair num g sched \<longleftrightarrow> (\<forall>q. case sched q of
       Some (k, st) \<Rightarrow> k \<in> set (uq_flight q)
     | None \<Rightarrow> uq_thread g num q \<noteq> None \<or> uq_flight q = [])"

lemma uq_run_returns:
  assumes "fair num g sched" and "uq_ok num q" and "0 < num" and "uq_measure num q < n"
  shows "\<exists>r s. uq_run g num sched n q = Some (r, s)"
  using assms(2,4)
proof (induction n arbitrary: q)
  case 0
  then show ?case by simp
next
  case (Suc n)
  show ?case
  proof (cases "\<exists>r. uq_phase q = Uq_Return r")
    case True
    then show ?thesis by auto
  next
    case False
    then have run: "uq_run g num sched (Suc n) q = (case sched q of
             Some (k, st) \<Rightarrow>
               if k \<in> set (uq_flight q)
               then uq_run g num sched n (unlink_queued_callback num k st (q\<lparr>uq_flight := remove1 k (uq_flight q)\<rparr>))
               else None
           | None \<Rightarrow> (case uq_thread g num q of Some q' \<Rightarrow> uq_run g num sched n q' | None \<Rightarrow> None))"
      by (cases "uq_phase q") simp_all
    show ?thesis
    proof (cases "sched q")
      case (Some r)
      obtain k st where r: "r = (k, st)" by fastforce
      then have k: "k \<in> set (uq_flight q)" using assms(1) Some by (auto simp: fair_def split: option.splits)
      note step = uq_callback_ok [OF Suc.prems(1) k, of st]
      then show ?thesis unfolding run Some r using k Suc.IH Suc.prems(2) by simp
    next
      case None
      have "uq_thread g num q \<noteq> None"
      proof (cases "uq_flight q")
        case Nil
        then have "uq_extra (uq_phase q) = 0 \<Longrightarrow> uq_done q" using Suc.prems(1) by (simp add: uq_ok_def)
        then show ?thesis
          using False by (auto simp: uq_thread_def Let_def split_def split: uq_phase.splits list.splits)
      next
        case (Cons k ks)
        have "case sched q of Some (k, st) \<Rightarrow> k \<in> set (uq_flight q)
            | None \<Rightarrow> uq_thread g num q \<noteq> None \<or> uq_flight q = []"
          using assms(1) unfolding fair_def by blast
        then show ?thesis using None Cons by simp
      qed
      then obtain q' where q': "uq_thread g num q = Some q'" by blast
      note step = uq_thread_ok [OF Suc.prems(1) q' assms(3)]
      then show ?thesis unfolding run None using q' Suc.IH Suc.prems(2) by simp
    qed
  qed
qed

text \<open>
  C19. The test of cancelling urbs of a queue returns, however the completions run between its
  steps, as long as the controller gives back the urbs it has when the test waits for them.
\<close>

theorem unlink_queued_returns:
  assumes "unlink_queued_start g pipe num sz s = Some q" and "0 < num" and "fair num g sched"
  shows "\<exists>r s'. unlink_queued g sched pipe num sz s = Some (r, s')"
proof (cases q)
  case (Inl a)
  then show ?thesis using assms(1) by (cases a) (simp add: unlink_queued_def)
next
  case (Inr c)
  have "uq_reach g pipe num sz s (\<lambda>_ _. True) c" by (rule uq_reach.start) (use assms(1) Inr in simp)
  then have ok: "uq_ok num c" by (rule uq_reach_ok [OF _ assms(2)])
  have "uq_phase c = Uq_Submit 0" "uq_flight c = []"
    using assms(1) Inr by (auto simp: unlink_queued_start_def bind_eq_Some_conv Let_def split_def split: if_splits)
  then have "uq_measure num c < 3 * num + 6" by (simp add: uq_measure_def)
  from uq_run_returns [OF assms(3) ok assms(2) this] show ?thesis
    using assms(1) Inr by (simp add: unlink_queued_def)
qed

section \<open>Requests\<close>

text \<open>
  A test that the device has no endpoints for is refused before anything is asked of the core:
  without pipes and without vendor requests only the tests of the standard requests do anything.
\<close>

theorem no_pipes_no_traffic:
  assumes "\<not> is_fz p" and "p_iterations p \<noteq> 0" and "unat (p_sglen p) \<le> MAX_SGLEN"
    and "in_pipe (dev s) = 0 \<and> out_pipe (dev s) = 0 \<and> in_iso_pipe (dev s) = 0 \<and> out_iso_pipe (dev s) = 0
      \<and> in_int_pipe (dev s) = 0 \<and> out_int_pipe (dev s) = 0"
    and "\<not> info_ctrl_out (info_of s)" and "unat (p_test_num p) \<notin> {0, 9, 10}"
  shows "usbtest_do_ioctl g e p s = Some (- EOPNOTSUPP, s)"
proof -
  let ?n = "unat (p_test_num p)"
  have bulk: "bulk_tests g p s = Some (- EOPNOTSUPP, s)" using assms(4) by (simp add: bulk_tests_def needs_def Let_def)
  have queue: "queue_tests g e p s = Some (- EOPNOTSUPP, s)" using assms(4) by (simp add: queue_tests_def needs_def Let_def)
  have other: "other_tests g e p s = Some (- EOPNOTSUPP, s)" using assms(4) by (simp add: other_tests_def needs_def Let_def)
  have ctrl: "control_tests g e p s = Some (- EOPNOTSUPP, s)"
    using assms(4-6) by (simp add: control_tests_def needs_def Let_def)
  show ?thesis
    using assms(1-3,6) bulk queue other ctrl by (simp add: usbtest_do_ioctl_def Let_def)
qed

text \<open>
  The larger layout of the parameters does not say whether the request is one of the fuzzer, and
  the driver decides by what its stack held: the same request, of no iterations, is refused with one
  content of the stack and changes an interface setting with another.
\<close>

theorem request_64_reads_stack:
  assumes "\<forall>h. rc (core g h Lock) = 0" and "p_iterations p = 0" and "\<not> is_fz clean"
    and "is_fz dirty \<and> is_set_alt dirty"
  shows "map_option fst (usbtest_ioctl g e clean USBTEST_REQUEST_64 p s) = Some (- EINVAL)
    \<and> map_option (\<lambda>(r, s'). (r, asked s')) (usbtest_ioctl g e dirty USBTEST_REQUEST_64 p s)
      = Some (0, asked s @ [Lock, Set_Any_Interface 0 (p_length p)])"
  using assms by (simp add: usbtest_ioctl_def usbtest_do_ioctl_def fz_ioctl_def from_64_def ask_def Let_def)

section \<open>The static information is shared\<close>

text \<open>The alternate setting the static information fixes for an interface.\<close>

definition fixed_alt :: "usbtest_info \<Rightarrow> u8 \<Rightarrow> int" where
  "fixed_alt i n = (if n = 0 then fix_alt_intf0 i else if n = 1 then fix_alt_intf1 i
     else if n = 2 then fix_alt_intf2 i else - 1)"

lemma fz_get_endpoints_result: "fst (fz_get_endpoints g k s) \<le> 0"
  by (auto simp: fz_get_endpoints_def Let_def split_def split: option.split)

lemma find_endpoints_fixed:
  assumes "\<not> force_interrupt g" and "dev_speed (udev g) \<noteq> USB_SPEED_LOW" and "need_fix_alt (info_of s)"
    and "- 1 < fixed_alt (info_of s) (intf_number g)"
  shows "find_endpoints g s = fz_get_endpoints g (fixed_alt (info_of s) (intf_number g)) s"
proof -
  have step: "fix_alt_step g k n (r, s) = (if r < 0 then (r, s) else if - 1 < k \<and> unat (intf_number g) = n
      then fz_get_endpoints g k s else (0, s))" for k n r s
    by (simp add: fix_alt_step_def)
  let ?steps = "\<lambda>a b c. fix_alt_step g c 2 (fix_alt_step g b 1 (fix_alt_step g a 0 (0, s)))"
  have eq: "find_endpoints g s = ?steps (fix_alt_intf0 (info_of s)) (fix_alt_intf1 (info_of s)) (fix_alt_intf2 (info_of s))"
    using assms(1-3) by (simp add: find_endpoints_def Let_def)
  obtain r s' where fz: "fz_get_endpoints g (fixed_alt (info_of s) (intf_number g)) s = (r, s')" by fastforce
  then have "r \<le> 0" using fz_get_endpoints_result [of g "fixed_alt (info_of s) (intf_number g)" s] by simp
  consider "intf_number g = 0" | "intf_number g = 1" | "intf_number g = 2"
    using assms(4) by (auto simp: fixed_alt_def split: if_splits)
  then show ?thesis
  proof cases
    case 1
    then show ?thesis using assms(4) fz \<open>r \<le> 0\<close> by (auto simp: eq step fixed_alt_def)
  next
    case 2
    then show ?thesis using assms(4) fz \<open>r \<le> 0\<close> by (auto simp: eq step fixed_alt_def)
  next
    case 3
    then show ?thesis using assms(4) fz by (auto simp: eq step fixed_alt_def)
  qed
qed

lemma upd_info_keeps [simp]: "dev (upd_info f s) = dev s" "length (infos (upd_info f s)) = length (infos s)"
  by (simp_all add: upd_info_def)

lemma select_alt_keeps: "dev (snd (select_alt g a s)) = dev s" "infos (snd (select_alt g a s)) = infos s"
  by (simp_all add: select_alt_def ask_def Let_def)

lemma take_endpoints_info [simp]: "dev_info (take_endpoints u f d) = dev_info d"
  by (simp add: take_endpoints_def Let_def split: option.split)

lemma get_endpoints_keep:
  "dev_info (dev (snd (fz_get_endpoints g k s))) = dev_info (dev s)"
  "length (infos (snd (fz_get_endpoints g k s))) = length (infos s)"
  "dev_info (dev (snd (get_endpoints g s))) = dev_info (dev s)"
  "length (infos (snd (get_endpoints g s))) = length (infos s)"
  by (simp_all add: fz_get_endpoints_def get_endpoints_def Let_def split_def upd_dev_def select_alt_keeps split: option.split)

lemma fix_alt_step_keeps:
  "dev_info (dev (snd (fix_alt_step g k n rs))) = dev_info (dev (snd rs))"
  "length (infos (snd (fix_alt_step g k n rs))) = length (infos (snd rs))"
  by (cases rs; simp add: fix_alt_step_def get_endpoints_keep)+

lemma find_endpoints_keep:
  "dev_info (dev (snd (find_endpoints g s))) = dev_info (dev s)"
  "length (infos (snd (find_endpoints g s))) = length (infos s)"
  by (simp_all add: find_endpoints_def Let_def fix_alt_step_keeps get_endpoints_keep fixed_pipes_def upd_dev_def)

lemma probe_finds:
  assumes "usbtest_probe g vendor product entry s = (0, s')"
  obtains t where "infos t = infos s" "dev_info (dev t) = snd entry" "find_endpoints g t = (0, s')"
proof -
  let ?b = "take TBUF_SIZE (mem (core g (asked s @ [Alloc 120]) (Alloc TBUF_SIZE)) @ replicate TBUF_SIZE 0)"
  let ?s = "s\<lparr>asked := asked s @ [Alloc 120, Alloc TBUF_SIZE], dev := new_dev (snd entry) ?b\<rparr>"
  have "s' = snd (find_endpoints g ?s) \<and> 0 \<le> fst (find_endpoints g ?s)"
    using assms by (auto simp: usbtest_probe_def ask_def Let_def split_def split: if_splits)
  moreover have "fst (find_endpoints g ?s) \<le> 0"
  proof -
    have g: "fst (get_endpoints g s) \<le> 0" for s
      by (auto simp: get_endpoints_def Let_def split_def split: option.split)
    have f: "fst rs \<le> 0 \<Longrightarrow> fst (fix_alt_step g k n rs) \<le> 0" for rs k n
      using fz_get_endpoints_result by (cases rs) (auto simp: fix_alt_step_def)
    show ?thesis by (auto simp: find_endpoints_def Let_def intro!: f g)
  qed
  ultimately have "find_endpoints g ?s = (0, s')" by (simp add: prod_eq_iff)
  then show thesis by (rule that [rotated -1]) (simp_all add: new_dev_def)
qed


section \<open>Binding\<close>

text \<open>A pipe of the driver, where it has one, is that of an endpoint of the interface.\<close>

definition real_pipe :: "rig \<Rightarrow> usb_xfer_type \<Rightarrow> bool \<Rightarrow> (usb_device \<Rightarrow> u8 \<Rightarrow> u32) \<Rightarrow> u32 \<Rightarrow> bool" where
  "real_pipe g ty inward mk p \<longleftrightarrow> p = 0 \<or> (\<exists>a \<in> set (altsettings g). \<exists>e \<in> set (endpoint a).
     usb_endpoint_type (he_desc e) = ty \<and> usb_endpoint_dir_in (he_desc e) = inward \<and> p = mk (udev g) (endpoint_number e))"

definition real_pipes :: "rig \<Rightarrow> usbtest_dev \<Rightarrow> bool" where
  "real_pipes g d \<longleftrightarrow>
     real_pipe g USB_ENDPOINT_XFER_BULK True usb_rcvbulkpipe (in_pipe d)
     \<and> real_pipe g USB_ENDPOINT_XFER_BULK False usb_sndbulkpipe (out_pipe d)
     \<and> real_pipe g USB_ENDPOINT_XFER_ISOC True usb_rcvisocpipe (in_iso_pipe d)
     \<and> real_pipe g USB_ENDPOINT_XFER_ISOC False usb_sndisocpipe (out_iso_pipe d)
     \<and> real_pipe g USB_ENDPOINT_XFER_INT True usb_rcvintpipe (in_int_pipe d)
     \<and> real_pipe g USB_ENDPOINT_XFER_INT False usb_sndintpipe (out_int_pipe d)"

definition finds :: "usb_host_endpoint list \<Rightarrow> usb_xfer_type \<Rightarrow> bool \<Rightarrow> usb_host_endpoint option \<Rightarrow> bool" where
  "finds es ty inward f \<longleftrightarrow> (\<forall>e. f = Some e \<longrightarrow> e \<in> set es \<and> usb_endpoint_type (he_desc e) = ty
     \<and> usb_endpoint_dir_in (he_desc e) = inward)"

definition all_found :: "usb_host_endpoint list \<Rightarrow> found \<Rightarrow> bool" where
  "all_found es f \<longleftrightarrow> finds es USB_ENDPOINT_XFER_BULK True (f_in f) \<and> finds es USB_ENDPOINT_XFER_BULK False (f_out f)
     \<and> finds es USB_ENDPOINT_XFER_ISOC True (f_iso_in f) \<and> finds es USB_ENDPOINT_XFER_ISOC False (f_iso_out f)
     \<and> finds es USB_ENDPOINT_XFER_INT True (f_int_in f) \<and> finds es USB_ENDPOINT_XFER_INT False (f_int_out f)"

lemma scan_endpoint_found:
  assumes "all_found es f" and "e \<in> set es"
  shows "all_found es (scan_endpoint info e f)"
  using assms
  by (cases "usb_endpoint_type (he_desc e)")
    (auto simp: scan_endpoint_def endpoint_update_def all_found_def finds_def)

lemma scan_alt_found: "all_found (endpoint a) (scan_alt info a)"
proof -
  have "all_found (endpoint a) (fold (scan_endpoint info) es f)"
    if "all_found (endpoint a) f" "set es \<subseteq> set (endpoint a)" for es f
    using that by (induction es arbitrary: f) (simp_all add: scan_endpoint_found)
  moreover have "all_found (endpoint a) nothing_found" by (simp add: all_found_def finds_def nothing_found_def)
  ultimately show ?thesis unfolding scan_alt_def by blast
qed

lemma take_endpoints_pipes:
  "in_pipe (take_endpoints u f d) = (case f_in f of None \<Rightarrow> in_pipe d | Some e \<Rightarrow> usb_rcvbulkpipe u (endpoint_number e))"
  "out_pipe (take_endpoints u f d) = (case f_out f of None \<Rightarrow> out_pipe d | Some e \<Rightarrow> usb_sndbulkpipe u (endpoint_number e))"
  "in_iso_pipe (take_endpoints u f d) = (case f_iso_in f of None \<Rightarrow> in_iso_pipe d | Some e \<Rightarrow> usb_rcvisocpipe u (endpoint_number e))"
  "out_iso_pipe (take_endpoints u f d) = (case f_iso_out f of None \<Rightarrow> out_iso_pipe d | Some e \<Rightarrow> usb_sndisocpipe u (endpoint_number e))"
  "in_int_pipe (take_endpoints u f d) = (case f_int_in f of None \<Rightarrow> in_int_pipe d | Some e \<Rightarrow> usb_rcvintpipe u (endpoint_number e))"
  "out_int_pipe (take_endpoints u f d) = (case f_int_out f of None \<Rightarrow> out_int_pipe d | Some e \<Rightarrow> usb_sndintpipe u (endpoint_number e))"
  by (simp_all add: take_endpoints_def Let_def split: option.split)

lemma take_endpoints_real:
  assumes "real_pipes g d" and "a \<in> set (altsettings g)"
  shows "real_pipes g (take_endpoints (udev g) (scan_alt info a) d)"
proof -
  have f: "all_found (endpoint a) (scan_alt info a)" by (rule scan_alt_found)
  have real: "real_pipe g ty inward mk (case x of None \<Rightarrow> p | Some e \<Rightarrow> mk (udev g) (endpoint_number e))"
    if "finds (endpoint a) ty inward x" "real_pipe g ty inward mk p" for ty inward mk x p
    using that assms(2) by (cases x) (auto simp: real_pipe_def finds_def)
  show ?thesis
    using assms(1) f unfolding real_pipes_def take_endpoints_pipes all_found_def by (simp only: real simp_thms)
qed

lemma get_endpoints_real:
  assumes "real_pipes g (dev s)"
  shows "real_pipes g (dev (snd (fz_get_endpoints g k s)))" and "real_pipes g (dev (snd (get_endpoints g s)))"
proof -
  have sel: "dev (snd (select_alt g a s)) = dev s" for a s by (simp add: select_alt_def ask_def Let_def)
  have mem: "altsettings g ! i \<in> set (altsettings g)" if "List.find P [0..<length (altsettings g)] = Some i" for P i
    using that by (auto simp: find_Some_iff)
  show "real_pipes g (dev (snd (fz_get_endpoints g k s)))"
    using assms mem
    by (auto simp: fz_get_endpoints_def Let_def split_def upd_info_def upd_dev_def sel
        intro!: take_endpoints_real split: option.split)
  show "real_pipes g (dev (snd (get_endpoints g s)))"
    using assms mem
    by (auto simp: get_endpoints_def Let_def split_def upd_info_def upd_dev_def sel
        intro!: take_endpoints_real split: option.split)
qed

text \<open>
  C36. A device that is bound by looking for its endpoints is tested only through endpoints it has:
  each pipe the driver keeps is that of an endpoint of some setting of the interface, of the type
  and direction the tests use the pipe for.
\<close>

theorem probe_binds_real_endpoints:
  assumes "usbtest_probe g vendor product entry s = (0, s')"
    and "\<not> force_interrupt g" and "dev_speed (udev g) \<noteq> USB_SPEED_LOW"
    and "need_fix_alt (infos s ! snd entry) \<or> 0 \<le> override_alt g \<or> autoconf (infos s ! snd entry)"
  shows "real_pipes g (dev s')"
proof -
  have new: "real_pipes g (new_dev i b)" for i b by (simp add: real_pipes_def real_pipe_def new_dev_def)
  have step: "real_pipes g (dev (snd (fix_alt_step g k n rs)))" if "real_pipes g (dev (snd rs))" for k n rs
    using that get_endpoints_real(1) by (cases rs) (auto simp: fix_alt_step_def)
  let ?b = "take TBUF_SIZE (mem (core g (asked s @ [Alloc 120]) (Alloc TBUF_SIZE)) @ replicate TBUF_SIZE 0)"
  let ?s = "s\<lparr>asked := asked s @ [Alloc 120, Alloc TBUF_SIZE], dev := new_dev (snd entry) ?b\<rparr>"
  have s': "s' = snd (find_endpoints g ?s)"
    using assms(1) by (auto simp: usbtest_probe_def ask_def Let_def split_def split: if_splits)
  have info: "info_of ?s = infos s ! snd entry" by (simp add: info_of_def new_dev_def)
  have dev: "real_pipes g (dev ?s)" using new by simp
  show ?thesis
  proof (cases "need_fix_alt (infos s ! snd entry)")
    case True
    then have "s' = snd (fix_alt_step g (fix_alt_intf2 (info_of ?s)) 2 (fix_alt_step g (fix_alt_intf1 (info_of ?s)) 1
             (fix_alt_step g (fix_alt_intf0 (info_of ?s)) 0 (0, ?s))))"
      unfolding s' find_endpoints_def Let_def info using assms(2,3) by simp
    moreover have "real_pipes g (dev (snd (0 :: int, ?s)))" using dev by simp
    ultimately show ?thesis by (simp only: step)
  next
    case False
    then have "s' = snd (get_endpoints g ?s)"
      unfolding s' find_endpoints_def Let_def info using assms(2-4) by auto
    then show ?thesis using get_endpoints_real(2) [OF dev] by (simp only:)
  qed
qed

section \<open>Witnesses\<close>

definition lazy_sched :: "queued_ctx \<Rightarrow> (nat \<times> int) option" where
  "lazy_sched q = (case uq_flight q of [] \<Rightarrow> None
     | k # _ \<Rightarrow> (case uq_phase q of Uq_Wait \<Rightarrow> Some (k, 0) | Uq_Return _ \<Rightarrow> Some (k, 0) | _ \<Rightarrow> None))"

lemma lazy_sched_fair: "fair num g lazy_sched"
  by (auto simp: fair_def lazy_sched_def uq_thread_def Let_def split_def
      split: list.splits uq_phase.splits option.splits)

theorem unlink_queued_returns_witness:
  "\<exists>r s. unlink_queued demo_rig lazy_sched 0x80 100 8 demo_tester = Some (r, s)"
proof -
  have alloc: "\<exists>r. uq_alloc demo_rig 0x80 8 n s = Some r" for n s
  proof (induction n arbitrary: s)
    case (Suc n)
    obtain r where "uq_alloc demo_rig 0x80 8 n (snd (ask demo_rig Alloc_Urb s)) = Some r" using Suc by blast
    moreover have "rc (fst (ask demo_rig c s)) = 0" for c s by (simp add: ask_def demo_rig_def demo_core_def)
    ultimately show ?case by (simp add: Let_def split_def usb_pipeout_def usb_pipein_def)
  qed auto
  have "rc (fst (ask demo_rig c s)) = 0" for c s by (simp add: ask_def demo_rig_def demo_core_def)
  then have "\<exists>q. unlink_queued_start demo_rig 0x80 100 8 demo_tester = Some q"
    using alloc [of 100 "snd (ask demo_rig (Alloc (8 * 100)) (snd (ask demo_rig (Alloc 8) demo_tester)))"]
    by (auto simp: unlink_queued_start_def Let_def split_def)
  then obtain q where "unlink_queued_start demo_rig 0x80 100 8 demo_tester = Some q" by blast
  then show ?thesis by (rule unlink_queued_returns [OF _ _ lazy_sched_fair]) simp
qed

definition quiet_controller :: controller where
  "quiet_controller = \<lparr>give_ctrl = in_order, give_queue = first_whole, give_unlinked = lazy_sched\<rparr>"

theorem no_pipes_no_traffic_witness:
  "usbtest_do_ioctl demo_rig quiet_controller (demo_param\<lparr>is_fz := False, p_test_num := 12, p_length := 8\<rparr>)
     (demo_tester\<lparr>infos := [generic_info]\<rparr>)
   = Some (- EOPNOTSUPP, demo_tester\<lparr>infos := [generic_info]\<rparr>)"
  by (rule no_pipes_no_traffic) (simp_all add: demo_param_def demo_tester_def info_of_def generic_info_def no_info_def)

theorem request_64_reads_stack_witness:
  "map_option fst (usbtest_ioctl demo_rig quiet_controller (demo_param\<lparr>is_fz := False\<rparr>) USBTEST_REQUEST_64
       (demo_param\<lparr>p_iterations := 0\<rparr>) demo_tester) = Some (- EINVAL)
   \<and> map_option fst (usbtest_ioctl demo_rig quiet_controller (demo_param\<lparr>is_set_alt := True\<rparr>) USBTEST_REQUEST_64
       (demo_param\<lparr>p_iterations := 0\<rparr>) demo_tester) = Some 0"
proof -
  have "\<forall>h. rc (core demo_rig h Lock) = 0" by (simp add: demo_rig_def demo_core_def)
  from request_64_reads_stack [OF this, of "demo_param\<lparr>p_iterations := 0\<rparr>" "demo_param\<lparr>is_fz := False\<rparr>"
      "demo_param\<lparr>is_set_alt := True\<rparr>" quiet_controller demo_tester]
  show ?thesis by (auto simp: demo_param_def)
qed

text \<open>An interface with a pair of bulk endpoints.\<close>

definition bulk_alt :: "u8 \<Rightarrow> host_interface" where
  "bulk_alt n = \<lparr>alt_bInterfaceNumber = 0, alt_bAlternateSetting = 0, endpoint =
     [demo_endpoint\<lparr>he_desc := (he_desc demo_endpoint)\<lparr>bEndpointAddress := 0x80 OR n\<rparr>\<rparr>,
      demo_endpoint\<lparr>he_desc := (he_desc demo_endpoint)\<lparr>bEndpointAddress := n\<rparr>\<rparr>]\<rparr>"

definition fuzz_rig :: "u8 \<Rightarrow> rig" where
  "fuzz_rig n = demo_rig\<lparr>altsettings := [bulk_alt n]\<rparr>"

lemma scan_bulk_alt:
  "f_in (scan_alt info (bulk_alt 2)) = Some (endpoint (bulk_alt 2) ! 0)"
  "f_out (scan_alt info (bulk_alt 2)) = Some (endpoint (bulk_alt 2) ! 1)"
  by (simp_all add: scan_alt_def bulk_alt_def demo_endpoint_def scan_endpoint_def usb_endpoint_type_def
    usb_endpoint_dir_in_def endpoint_update_def nothing_found_def)

lemma share_endpoints_keeps:
  "need_fix_alt (share_endpoints f d i) = need_fix_alt i" "fix_alt_intf0 (share_endpoints f d i) = fix_alt_intf0 i"
  "fix_alt_intf1 (share_endpoints f d i) = fix_alt_intf1 i" "fix_alt_intf2 (share_endpoints f d i) = fix_alt_intf2 i"
  by (simp_all add: share_endpoints_def Let_def)

lemma scan_bulk_alt_1:
  "f_in (scan_alt info (bulk_alt 1)) = Some (endpoint (bulk_alt 1) ! 0)"
  "f_out (scan_alt info (bulk_alt 1)) = Some (endpoint (bulk_alt 1) ! 1)"
  by (simp_all add: scan_alt_def bulk_alt_def demo_endpoint_def scan_endpoint_def usb_endpoint_type_def
    usb_endpoint_dir_in_def endpoint_update_def nothing_found_def)

lemma probe_fuzz_rig:
  assumes "n = 1 \<or> n = 2" and "need_fix_alt (infos s ! 8)" and "fix_alt_intf1 (infos s ! 8) = - 1" and "fix_alt_intf2 (infos s ! 8) = - 1"
    and "fix_alt_intf0 (infos s ! 8) = 0" and "8 < length (infos s)"
  shows "\<exists>s'. usbtest_probe (fuzz_rig n) 0 0 (Some (0x525, 0xa416), 8) s = (0, s')
    \<and> need_fix_alt (infos s' ! 8) \<and> fix_alt_intf1 (infos s' ! 8) = - 1 \<and> fix_alt_intf2 (infos s' ! 8) = - 1
    \<and> fix_alt_intf0 (infos s' ! 8) = 0 \<and> length (infos s') = length (infos s)"
proof -
  let ?g = "fuzz_rig n" and ?e = "(Some (0x525, 0xa416), 8) :: (u16 \<times> u16) option \<times> nat"
  have g: "altsettings ?g = [bulk_alt n]" "rc (core ?g h c) = 0" "\<not> force_interrupt ?g" "dev_speed (udev ?g) \<noteq> USB_SPEED_LOW"
    "intf_number ?g = 0" "alt_bAlternateSetting (bulk_alt n) = 0" for h c
    by (simp_all add: fuzz_rig_def demo_rig_def demo_core_def demo_udev_def intf_number_def bulk_alt_def)
  have en: "enough (scan_alt info (bulk_alt n))" for info
    using assms(1) by (auto simp: enough_def scan_bulk_alt scan_bulk_alt_1)
  have "\<exists>f d s'. find_endpoints ?g t = (0, s') \<and> infos s' = (infos t)[8 := share_endpoints f d (infos t ! 8)]"
    if "dev_info (dev t) = 8" "infos t = infos s" for t
  proof -
    have i: "info_of t = infos s ! 8" using that by (simp add: info_of_def)
    then have "find_endpoints ?g t = fz_get_endpoints ?g 0 t"
      using find_endpoints_fixed [OF g(3,4), of t] assms(2,5) by (simp add: g(5) fixed_alt_def)
    moreover have "\<exists>f d s'. fz_get_endpoints ?g 0 t = (0, s') \<and> infos s' = (infos t)[8 := share_endpoints f d (infos t ! 8)]"
      using that by (auto simp: fz_get_endpoints_def g(1,6) en select_alt_def upd_info_def upd_dev_def info_of_def Let_def)
    ultimately show ?thesis by simp
  qed
  from this [of "s\<lparr>asked := asked s @ [Alloc 120, Alloc TBUF_SIZE], dev := new_dev 8 (take TBUF_SIZE
      (mem (core ?g (asked s @ [Alloc 120]) (Alloc TBUF_SIZE)) @ replicate TBUF_SIZE 0))\<rparr>"]
  obtain f d s' where "usbtest_probe ?g 0 0 ?e s = (0, s')" "infos s' = (infos s)[8 := share_endpoints f d (infos s ! 8)]"
    by (auto simp: usbtest_probe_def ask_def g(2) Let_def new_dev_def)
  then show ?thesis using assms(2-6) by (intro exI [of _ s']) (simp add: share_endpoints_keeps)
qed


theorem probe_binds_real_endpoints_witness:
  "\<exists>s. usbtest_probe (fuzz_rig 2) 0 0 (Some (0x525, 0xa4a0), 3) (demo_tester\<lparr>infos := all_infos\<rparr>) = (0, s)
     \<and> real_pipes (fuzz_rig 2) (dev s)"
proof -
  let ?g = "fuzz_rig 2" and ?s = "demo_tester\<lparr>infos := all_infos\<rparr>"
  have r: "fst (get_endpoints ?g s) = 0" for s
    by (simp add: get_endpoints_def Let_def split_def select_alt_def fuzz_rig_def demo_rig_def demo_core_def ask_def
      split: option.split)
  have info: "autoconf (infos ?s ! 3)" "\<not> need_fix_alt (infos ?s ! 3)"
    by (simp_all add: all_infos_def gz_info_def no_info_def numeral_3_eq_3)
  have g: "\<not> force_interrupt ?g" "dev_speed (udev ?g) \<noteq> USB_SPEED_LOW" "rc (core ?g h c) = 0" for h c
    by (simp_all add: fuzz_rig_def demo_rig_def demo_udev_def demo_core_def)
  have "fst (usbtest_probe ?g 0 0 (Some (0x525, 0xa4a0), 3) ?s) = 0"
    using r info g by (simp add: usbtest_probe_def find_endpoints_def ask_def Let_def split_def info_of_def new_dev_def)
  then obtain s where "usbtest_probe ?g 0 0 (Some (0x525, 0xa4a0), 3) ?s = (0, s)" by (metis prod.collapse)
  moreover from probe_binds_real_endpoints [OF this g(1,2)] info have "real_pipes ?g (dev s)" by simp
  ultimately show ?thesis by blast
qed

end
